(* ===== verification/Prelude.thy ===== *)
theory Prelude
  imports Complex_Main "HOL-Library.AList" "HOL-Library.Multiset" "HOL-Library.Product_Lexorder"
    "HOL-Library.List_Lexorder" "HOL-Library.Option_ord" "HOL-Library.Sublist"
begin

text \<open>
  Shared ground of the development: the machine-integer conventions, Rust strings as lists of
  Unicode scalar values with the string methods the source calls, the iterator methods
  (\<open>max_by\<close>, \<open>min_by_key\<close>, \<open>windows\<close>), hash maps as association lists, and the
  \<^theory_text>\<open>named_theorems\<close> collections used by the component theories.

  Conventions.
  \<^item> \<open>i64\<close> and \<open>u32\<close> values are \<open>int\<close> or \<open>nat\<close>. Plain \<open>+\<close>, \<open>-\<close> are the source's as long as
    they do not overflow (they are differences and sums of unix milliseconds); where the source
    writes \<open>saturating_*\<close>, the saturation is written out at the type's width.
  \<^item> \<open>f64\<close> and \<open>f32\<close> values are rationals with exact arithmetic; rounding is not modelled.
  \<^item> A \<open>str\<close> is the list of its Unicode scalar values. Rust orders strings by their UTF-8 bytes,
    which is the lexicographic order of the scalar values.
  \<^item> A \<open>HashMap\<close> is an association list; its iteration order, unspecified in Rust, is the
    insertion order here.
\<close>

section \<open>Collections of facts\<close>

named_theorems ids_simps \<open>frame-id bookkeeping of the segmenter\<close>
named_theorems step_defs \<open>definitions unfolded in single-step proofs\<close>

section \<open>Saturating integer operations\<close>

definition i64_max :: int where "i64_max = 9223372036854775807"
definition i64_min :: int where "i64_min = - 9223372036854775808"
definition u64_max :: int where "u64_max = 18446744073709551615"
definition u32_max :: int where "u32_max = 4294967295"

definition sat_i64 :: "int \<Rightarrow> int" where
  "sat_i64 x = max i64_min (min i64_max x)"

definition sat_add64 :: "int \<Rightarrow> int \<Rightarrow> int" where "sat_add64 a b = sat_i64 (a + b)"
definition sat_sub64 :: "int \<Rightarrow> int \<Rightarrow> int" where "sat_sub64 a b = sat_i64 (a - b)"
definition sat_mul64 :: "int \<Rightarrow> int \<Rightarrow> int" where "sat_mul64 a b = sat_i64 (a * b)"
definition sat_add_u64 :: "int \<Rightarrow> int \<Rightarrow> int" where "sat_add_u64 a b = min (a + b) u64_max"
definition sat_add_u32 :: "int \<Rightarrow> int \<Rightarrow> int" where "sat_add_u32 a b = min (a + b) u32_max"

definition in_i64 :: "int \<Rightarrow> bool" where "in_i64 x \<longleftrightarrow> i64_min \<le> x \<and> x \<le> i64_max"

definition clamp :: "'a::linorder \<Rightarrow> 'a \<Rightarrow> 'a \<Rightarrow> 'a" where
  "clamp x lo hi = (if x < lo then lo else if hi < x then hi else x)"

lemma clamp_bounds [simp]: "lo \<le> hi \<Longrightarrow> lo \<le> clamp x lo hi" "lo \<le> hi \<Longrightarrow> clamp x lo hi \<le> hi"
  by (auto simp: clamp_def)

lemma clamp_id: "lo \<le> x \<Longrightarrow> x \<le> hi \<Longrightarrow> clamp x lo hi = x"
  by (auto simp: clamp_def)

lemma clamp_idem: "lo \<le> hi \<Longrightarrow> clamp (clamp x lo hi) lo hi = clamp x lo hi"
  by (auto simp: clamp_def)

lemma clamp_mono: "lo \<le> hi \<Longrightarrow> x \<le> y \<Longrightarrow> clamp x lo hi \<le> clamp y lo hi"
  by (auto simp: clamp_def)

lemma sat_i64_id: "in_i64 x \<Longrightarrow> sat_i64 x = x"
  by (auto simp: sat_i64_def in_i64_def)

lemma sat_i64_in: "in_i64 (sat_i64 x)"
  by (auto simp: sat_i64_def in_i64_def i64_max_def i64_min_def)

lemma sat_i64_mono: "x \<le> y \<Longrightarrow> sat_i64 x \<le> sat_i64 y"
  by (auto simp: sat_i64_def)

section \<open>Strings\<close>

type_synonym uchar = int
type_synonym ustr = "uchar list"

definition lit :: "string \<Rightarrow> ustr" where "lit s = map of_char s"

text \<open>\<open>char::is_whitespace\<close>: the 25 scalar values of the Unicode White_Space property.\<close>

definition is_ws :: "uchar \<Rightarrow> bool" where
  "is_ws c \<longleftrightarrow> c \<in> {9, 10, 11, 12, 13, 32, 133, 160, 5760, 8232, 8233, 8239, 8287, 12288}
     \<or> (8192 \<le> c \<and> c \<le> 8202)"

definition ascii_lower_char :: "uchar \<Rightarrow> uchar" where
  "ascii_lower_char c = (if 65 \<le> c \<and> c \<le> 90 then c + 32 else c)"

definition to_ascii_lowercase :: "ustr \<Rightarrow> ustr" where
  "to_ascii_lowercase s = map ascii_lower_char s"

definition trim_start :: "ustr \<Rightarrow> ustr" where "trim_start s = dropWhile is_ws s"
definition trim_end :: "ustr \<Rightarrow> ustr" where "trim_end s = rev (dropWhile is_ws (rev s))"
definition trim :: "ustr \<Rightarrow> ustr" where "trim s = trim_end (trim_start s)"

definition starts_with :: "ustr \<Rightarrow> ustr \<Rightarrow> bool" where "starts_with s p = prefix p s"
definition contains :: "ustr \<Rightarrow> ustr \<Rightarrow> bool" where "contains s p = sublist p s"

definition strip_prefix :: "ustr \<Rightarrow> ustr \<Rightarrow> ustr option" where
  "strip_prefix s p = (if prefix p s then Some (drop (length p) s) else None)"

definition strip_suffix :: "ustr \<Rightarrow> ustr \<Rightarrow> ustr option" where
  "strip_suffix s p = (if suffix p s then Some (take (length s - length p) s) else None)"

text \<open>\<open>split_once(pat)\<close>: around the first occurrence of the pattern.\<close>

fun split_once :: "ustr \<Rightarrow> ustr \<Rightarrow> (ustr \<times> ustr) option" where
  "split_once [] p = (if p = [] then Some ([], []) else None)"
| "split_once (c # s) p =
     (if prefix p (c # s) then Some ([], drop (length p) (c # s))
      else map_option (\<lambda>(a, b). (c # a, b)) (split_once s p))"

text \<open>\<open>split(chars)\<close>: the maximal pieces between separators, empty pieces included.\<close>

fun split_on :: "(uchar \<Rightarrow> bool) \<Rightarrow> ustr \<Rightarrow> ustr list" where
  "split_on P [] = [[]]"
| "split_on P (c # s) =
     (if P c then [] # split_on P s
      else (case split_on P s of [] \<Rightarrow> [[c]] | w # ws \<Rightarrow> (c # w) # ws))"

definition split_whitespace :: "ustr \<Rightarrow> ustr list" where
  "split_whitespace s = filter (\<lambda>w. w \<noteq> []) (split_on is_ws s)"

fun join :: "ustr \<Rightarrow> ustr list \<Rightarrow> ustr" where
  "join sep [] = []"
| "join sep [w] = w"
| "join sep (w # ws) = w @ sep @ join sep ws"

text \<open>
  \<open>str::lines()\<close>: pieces ended by a line feed, a carriage return before it stripped, and the
  rest after the last line feed when it is not empty (a bare carriage return stays there).
\<close>

definition strip_cr :: "ustr \<Rightarrow> ustr" where
  "strip_cr w = (if w \<noteq> [] \<and> last w = 13 then butlast w else w)"

fun str_lines :: "ustr \<Rightarrow> ustr list" where
  "str_lines s = (case split_on (\<lambda>c. c = 10) s of
     ws \<Rightarrow> map strip_cr (butlast ws) @ (if last ws = [] then [] else [last ws]))"

declare str_lines.simps [simp del]

lemma split_on_not_Nil [simp]: "split_on P s \<noteq> []"
  by (cases s) (auto split: list.splits)

lemma lit_Nil [simp]: "lit [] = []" and lit_Cons [simp]: "lit (c # s) = of_char c # lit s"
  by (simp_all add: lit_def)

lemma ascii_lower_char_idem [simp]: "ascii_lower_char (ascii_lower_char c) = ascii_lower_char c"
  by (auto simp: ascii_lower_char_def)

lemma to_ascii_lowercase_idem [simp]:
  "to_ascii_lowercase (to_ascii_lowercase s) = to_ascii_lowercase s"
  by (simp add: to_ascii_lowercase_def)

lemma length_to_ascii_lowercase [simp]: "length (to_ascii_lowercase s) = length s"
  by (simp add: to_ascii_lowercase_def)

text \<open>\<open>Display\<close> of an integer.\<close>

function digits_of :: "int \<Rightarrow> ustr" where
  "digits_of n = (if n < 10 then [48 + n] else digits_of (n div 10) @ [48 + n mod 10])"
  by pat_completeness auto
termination by (relation "measure nat") auto

declare digits_of.simps [simp del]

definition display_int :: "int \<Rightarrow> ustr" where
  "display_int n = (if n < 0 then 45 # digits_of (- n) else digits_of n)"

section \<open>Results\<close>

text \<open>\<open>Result<T, E>\<close> is \<open>'e + 't\<close>: \<open>Inl\<close> an error, \<open>Inr\<close> a value. The \<open>?\<close> operator is
  \<open>bind_r\<close>; \<open>map(..).collect::<Result<Vec<_>>>()\<close> is \<open>map_r\<close>, which stops at the first error.\<close>

definition bind_r :: "'e + 'a \<Rightarrow> ('a \<Rightarrow> 'e + 'b) \<Rightarrow> 'e + 'b" where
  "bind_r r f = (case r of Inl e \<Rightarrow> Inl e | Inr x \<Rightarrow> f x)"

fun map_r :: "('a \<Rightarrow> 'e + 'b) \<Rightarrow> 'a list \<Rightarrow> 'e + 'b list" where
  "map_r f [] = Inr []"
| "map_r f (x # xs) = bind_r (f x) (\<lambda>y. bind_r (map_r f xs) (\<lambda>ys. Inr (y # ys)))"

definition ok_or :: "'e \<Rightarrow> 'a option \<Rightarrow> 'e + 'a" where
  "ok_or e v = (case v of None \<Rightarrow> Inl e | Some x \<Rightarrow> Inr x)"

lemma bind_r_simps [simp]: "bind_r (Inl e) f = Inl e" "bind_r (Inr x) f = f x"
  by (simp_all add: bind_r_def)

lemma bind_r_Inr: "bind_r r f = Inr y \<longleftrightarrow> (\<exists>x. r = Inr x \<and> f x = Inr y)"
  by (cases r) auto

lemma map_r_Inr: "map_r f xs = Inr ys \<longleftrightarrow> list_all2 (\<lambda>x y. f x = Inr y) xs ys"
  by (induction xs arbitrary: ys) (auto simp: bind_r_Inr list_all2_Cons1)

lemma ok_or_Inr [simp]: "ok_or e v = Inr x \<longleftrightarrow> v = Some x"
  by (simp add: ok_or_def split: option.splits)

section \<open>Iterator methods\<close>

text \<open>
  \<open>max_by(cmp)\<close> keeps the later of two equal elements: \<open>gt x y\<close> is \<open>cmp(x, y) == Greater\<close>.
  \<open>min_by_key\<close> keeps the first of two equal elements.
\<close>

definition max_by :: "('a \<Rightarrow> 'a \<Rightarrow> bool) \<Rightarrow> 'a list \<Rightarrow> 'a option" where
  "max_by gt xs = (case xs of [] \<Rightarrow> None
     | x # xs' \<Rightarrow> Some (foldl (\<lambda>a b. if gt a b then a else b) x xs'))"

definition min_by_key :: "('a \<Rightarrow> 'b::linorder) \<Rightarrow> 'a list \<Rightarrow> 'a option" where
  "min_by_key f xs = (case xs of [] \<Rightarrow> None
     | x # xs' \<Rightarrow> Some (foldl (\<lambda>a b. if f b < f a then b else a) x xs'))"

definition list_max :: "int list \<Rightarrow> int option" where
  "list_max xs = (if xs = [] then None else Some (Max (set xs)))"

definition list_min :: "int list \<Rightarrow> int option" where
  "list_min xs = (if xs = [] then None else Some (Min (set xs)))"

definition first_opt :: "'a list \<Rightarrow> 'a option" where
  "first_opt xs = (case xs of [] \<Rightarrow> None | x # _ \<Rightarrow> Some x)"

definition last_opt :: "'a list \<Rightarrow> 'a option" where
  "last_opt xs = (if xs = [] then None else Some (last xs))"

definition slice :: "nat \<Rightarrow> nat \<Rightarrow> 'a list \<Rightarrow> 'a list" where
  "slice i j xs = take (j - i) (drop i xs)"

fun windows2 :: "'a list \<Rightarrow> ('a \<times> 'a) list" where
  "windows2 (x # y # xs) = (x, y) # windows2 (y # xs)"
| "windows2 _ = []"

lemma foldl_pick_in: "foldl (\<lambda>a b. if P a b then a else b) x xs \<in> insert x (set xs)"
  by (induction xs arbitrary: x) auto

lemma max_by_in: "max_by gt xs = Some x \<Longrightarrow> x \<in> set xs"
  using foldl_pick_in by (fastforce simp: max_by_def split: list.splits)

lemma max_by_None [simp]: "max_by gt xs = None \<longleftrightarrow> xs = []"
  by (auto simp: max_by_def split: list.splits)

lemma foldl_pick2_in: "foldl (\<lambda>a b. if P a b then b else a) x xs \<in> insert x (set xs)"
  by (induction xs arbitrary: x) auto

lemma min_by_key_in: "min_by_key f xs = Some x \<Longrightarrow> x \<in> set xs"
  using foldl_pick2_in by (fastforce simp: min_by_key_def split: list.splits)

lemma foldl_max_by:
  assumes tot: "\<And>a b. gt a b \<longleftrightarrow> f b < (f a :: 'b::linorder)"
  shows "f x \<le> f (foldl (\<lambda>a b. if gt a b then a else b) x xs)
     \<and> (\<forall>y\<in>set xs. f y \<le> f (foldl (\<lambda>a b. if gt a b then a else b) x xs))"
proof (induction xs arbitrary: x)
  case (Cons y ys)
  have "f x \<le> f (if gt x y then x else y)" "f y \<le> f (if gt x y then x else y)"
    by (auto simp: tot)
  with Cons.IH [of "if gt x y then x else y"] show ?case by (auto intro: order_trans)
qed simp

lemma max_by_max:
  assumes "\<And>a b. gt a b \<longleftrightarrow> f b < (f a :: 'b::linorder)" and "max_by gt xs = Some x" and "y \<in> set xs"
  shows "f y \<le> f x"
  using assms(2,3) foldl_max_by [where gt = gt and f = f, OF assms(1)]
  by (auto simp: max_by_def split: list.splits)

lemma first_opt_simps [simp]: "first_opt [] = None" "first_opt (x # xs) = Some x"
  by (simp_all add: first_opt_def)

lemma last_opt_simps [simp]: "last_opt [] = None" "last_opt (xs @ [x]) = Some x"
  by (simp_all add: last_opt_def)

lemma slice_Nil [simp]: "slice i j [] = []"
  by (simp add: slice_def)

lemma set_slice: "set (slice i j xs) \<subseteq> set xs"
  unfolding slice_def using set_take_subset set_drop_subset by fastforce

section \<open>Lists and multisets\<close>

lemma mset_concat_map_sort [simp]:
  "mset (concat (map f (sort_key g xs))) = mset (concat (map f xs))"
proof -
  have "mset (concat (map f ys)) = (\<Sum>y\<in>#mset ys. mset (f y))" for ys
    by (induction ys) auto
  then show ?thesis by simp
qed

lemma distinct_mset_sub:
  assumes sub: "mset xs \<subseteq># mset ys" and dist: "distinct ys"
  shows "distinct xs"
proof -
  have "count (mset xs) a \<le> (if a \<in> set ys then 1 else 0)" for a
    using mset_subset_eq_count [OF sub, of a] dist by (simp add: distinct_count_atmost_1)
  then have "count (mset xs) a = (if a \<in> set xs then 1 else 0)" for a
    by (metis count_eq_zero_iff le_antisym less_one linorder_not_le order_le_less set_mset_mset zero_le)
  then show ?thesis by (simp add: distinct_count_atmost_1)
qed

lemma sorted_wrt_sort_key: "sorted_wrt (\<lambda>a b. f a \<le> f b) (sort_key f xs)"
  using sorted_sort_key [of f xs] by (simp add: sorted_map)

lemma remdups_adj_distinct_id: "distinct xs \<Longrightarrow> remdups_adj xs = xs"
  by (induction xs rule: remdups_adj.induct) auto

lemma mset_concat_list_update:
  "i < length xs \<Longrightarrow> mset (f y) = mset (f (xs ! i)) + M
     \<Longrightarrow> mset (concat (map f (xs[i := y]))) = mset (concat (map f xs)) + M"
proof (induction xs arbitrary: i)
  case (Cons x xs)
  then show ?case by (cases i) (simp_all add: add.assoc)
qed simp

lemma map_enumerate: "map (\<lambda>(i, x). (i, f x)) (enumerate n xs) = enumerate n (map f xs)"
  by (induction xs arbitrary: n) simp_all

lemma foldl_pick_map:
  "f (foldl (\<lambda>a b. if g (f a) (f b) then a else b) x xs)
     = foldl (\<lambda>a b. if g a b then a else b) (f x) (map f xs)"
  by (induction xs arbitrary: x) (simp_all add: if_distrib [of f])

lemma max_by_map: "map_option f (max_by (\<lambda>a b. g (f a) (f b)) xs) = max_by g (map f xs)"
  using foldl_pick_map [of f g] by (simp add: max_by_def split: list.splits)

text \<open>For a symmetric relation, "pairwise" does not depend on the order of the list.\<close>

lemma sorted_wrt_symp_mset:
  assumes "symp R"
  shows "sorted_wrt R xs \<longleftrightarrow> (\<forall>x\<in>#mset xs. \<forall>y\<in>#mset xs - {#x#}. R x y)"
proof (induction xs)
  case (Cons a xs)
  have rem: "add_mset a (mset xs) - {#x#} = add_mset a (mset xs - {#x#})" if "x \<in> set xs" for x
    using that by simp
  have flip: "R x a \<longleftrightarrow> R a x" for x using assms by (auto simp: symp_def)
  have tail: "(\<forall>y\<in>#add_mset a (mset xs) - {#x#}. R x y) \<longleftrightarrow> R a x \<and> (\<forall>y\<in>#mset xs - {#x#}. R x y)"
    if "x \<in> set xs" for x
    unfolding rem [OF that] by (simp add: flip)
  have "(\<forall>x\<in>#mset (a # xs). \<forall>y\<in>#mset (a # xs) - {#x#}. R x y) \<longleftrightarrow>
      (\<forall>y\<in>set xs. R a y) \<and> (\<forall>x\<in>set xs. \<forall>y\<in>#add_mset a (mset xs) - {#x#}. R x y)"
    by simp
  also have "(\<forall>x\<in>set xs. \<forall>y\<in>#add_mset a (mset xs) - {#x#}. R x y) \<longleftrightarrow>
      (\<forall>x\<in>set xs. R a x \<and> (\<forall>y\<in>#mset xs - {#x#}. R x y))"
    by (rule ball_cong [OF refl tail])
  also have "(\<forall>y\<in>set xs. R a y) \<and> (\<forall>x\<in>set xs. R a x \<and> (\<forall>y\<in>#mset xs - {#x#}. R x y)) \<longleftrightarrow>
      (\<forall>y\<in>set xs. R a y) \<and> (\<forall>x\<in>set xs. \<forall>y\<in>#mset xs - {#x#}. R x y)"
    by blast
  finally show ?case using Cons by (simp only: sorted_wrt.simps(2) set_mset_mset)
qed simp

lemma sorted_wrt_symp_perm: "symp R \<Longrightarrow> mset xs = mset ys \<Longrightarrow> sorted_wrt R xs \<Longrightarrow> sorted_wrt R ys"
  by (simp add: sorted_wrt_symp_mset)

lemma count_list_le_Cons: "count_list xs a \<le> count_list (x # xs) a"
  by simp

lemma distinct_count_list: "distinct xs \<longleftrightarrow> (\<forall>a. count_list xs a \<le> 1)"
proof (induction xs)
  case (Cons x xs)
  show ?case
  proof
    assume d: "distinct (x # xs)"
    then have "count_list xs x = 0" "\<forall>a. count_list xs a \<le> 1" using Cons by (simp_all add: count_notin)
    then show "\<forall>a. count_list (x # xs) a \<le> 1" by simp
  next
    assume c: "\<forall>a. count_list (x # xs) a \<le> 1"
    have "count_list (x # xs) x = Suc (count_list xs x)" by simp
    with c have "count_list xs x = 0" by (metis Suc_le_mono One_nat_def le_zero_eq)
    moreover have "\<forall>a. count_list xs a \<le> 1" using c count_list_le_Cons order_trans by metis
    ultimately show "distinct (x # xs)" using Cons by (simp add: count_list_0_iff)
  qed
qed simp

lemma count_list_mset: "mset xs = mset ys \<Longrightarrow> count_list xs a = count_list ys a"
  by (metis count_mset)

lemma distinct_concat_nth:
  "distinct (concat xss) \<Longrightarrow> i < j \<Longrightarrow> j < length xss \<Longrightarrow> set (xss ! i) \<inter> set (xss ! j) = {}"
proof (induction xss arbitrary: i j)
  case (Cons xs xss)
  then obtain j' where j': "j = Suc j'" by (cases j) auto
  show ?case
  proof (cases i)
    case 0
    have "set (xss ! j') \<subseteq> set (concat xss)" using Cons.prems j' by auto
    with Cons.prems 0 j' show ?thesis by auto
  next
    case (Suc i')
    with Cons j' show ?thesis by simp
  qed
qed simp

text \<open>The first \<open>n\<close> of a list sorted by a key are the best ones.\<close>

lemma take_sort_key_best:
  assumes "x \<in> set xs" and "x \<notin> set (take n (sort_key f xs))" and "y \<in> set (take n (sort_key f xs))"
  shows "f y \<le> f x"
proof -
  let ?ys = "sort_key f xs"
  have "sorted_wrt (\<lambda>a b. f a \<le> f b) (take n ?ys @ drop n ?ys)"
    by (simp add: sorted_wrt_sort_key)
  moreover have "x \<in> set (drop n ?ys)"
    using assms(1,2) by (metis Un_iff append_take_drop_id set_append set_sort)
  ultimately show ?thesis using assms(3) unfolding sorted_wrt_append by blast
qed

lemma take_sort_key_full:
  assumes "x \<in> set xs" and "x \<notin> set (take n (sort_key f xs))"
  shows "length (take n (sort_key f xs)) = n"
proof (rule ccontr)
  assume "length (take n (sort_key f xs)) \<noteq> n"
  then have "take n (sort_key f xs) = sort_key f xs" by simp
  with assms show False by simp
qed

lemma sum_count_remdups_filter:
  "sum_list (map (count_list xs) (filter P (remdups xs))) = length (filter P xs)"
proof -
  have "sum_list (map (count_list xs) (filter P (remdups xs))) = sum (count_list xs) {x \<in> set xs. P x}"
    by (subst sum_list_distinct_conv_sum_set) simp_all
  also have "\<dots> = sum (count_list (filter P xs)) {x \<in> set xs. P x}"
  proof (rule sum.cong)
    show "count_list xs x = count_list (filter P xs) x" if "x \<in> {x \<in> set xs. P x}" for x
    proof -
      have "P x" using that by simp
      then show ?thesis by (induction xs) auto
    qed
  qed simp
  also have "\<dots> = length (filter P xs)"
    by (rule sum_count_set) auto
  finally show ?thesis .
qed

lemma distinct_map_filter: "distinct (map f xs) \<Longrightarrow> distinct (map f (filter P xs))"
  by (induction xs) auto

lemma distinct_map_eq: "distinct (map f xs) \<Longrightarrow> x \<in> set xs \<Longrightarrow> y \<in> set xs \<Longrightarrow> f x = f y \<Longrightarrow> x = y"
  by (metis inj_onD distinct_map)

lemma set_map_filter: "set (List.map_filter f xs) = {y. \<exists>x\<in>set xs. f x = Some y}"
  by (induction xs) (auto simp: List.map_filter_simps split: option.splits)

lemma find_SomeD: "List.find P xs = Some x \<Longrightarrow> x \<in> set xs \<and> P x"
  by (metis find_Some_iff nth_mem)

lemma insort_key_before: "(\<And>y. y \<in> set ys \<Longrightarrow> f x < f y) \<Longrightarrow> insort_key f x (xs @ ys) = insort_key f x xs @ ys"
proof (induction xs)
  case Nil
  then show ?case by (cases ys) (auto simp: less_imp_le)
qed auto

text \<open>Lists whose keys are all smaller come first.\<close>

lemma sort_key_eq_append:
  "(\<And>x y. x \<in> set xs \<Longrightarrow> y \<in> set ys \<Longrightarrow> f x < f y) \<Longrightarrow> sort_key f (xs @ ys) = sort_key f xs @ sort_key f ys"
proof (induction xs)
  case (Cons x xs)
  have "insort_key f x (sort_key f xs @ sort_key f ys) = insort_key f x (sort_key f xs) @ sort_key f ys"
    by (rule insort_key_before) (use Cons.prems in simp)
  with Cons show ?case by simp
qed simp

lemma find_append: "List.find P (xs @ ys) = (case List.find P xs of None \<Rightarrow> List.find P ys | Some x \<Rightarrow> Some x)"
  by (induction xs) auto

lemma distinct_map_sort: "distinct (map f (sort_key g xs)) \<longleftrightarrow> distinct (map f xs)"
  by (simp add: distinct_map)

end
