(* ===== verification/Session_Types.thy ===== *)
theory Session_Types
  imports Prelude
begin

text \<open>
  The session domain types of \<open>crates/traits/src/sessions.rs\<close>: kinds, hosts, frames as the
  segmenter reads them, drafts, persisted sessions, and the frozen segmentation parameters.
  Field names carry a two-letter prefix of their struct.
\<close>

section \<open>Enumerations\<close>

datatype session_kind = Focus | Meeting | Ai | Other

definition kind_as_str :: "session_kind \<Rightarrow> ustr" where
  "kind_as_str k = (case k of Focus \<Rightarrow> lit ''focus'' | Meeting \<Rightarrow> lit ''meeting''
     | Ai \<Rightarrow> lit ''ai'' | Other \<Rightarrow> lit ''other'')"

datatype session_host = Terminal | Desktop | Browser | Ide

definition host_as_str :: "session_host \<Rightarrow> ustr" where
  "host_as_str h = (case h of Terminal \<Rightarrow> lit ''terminal'' | Desktop \<Rightarrow> lit ''desktop''
     | Browser \<Rightarrow> lit ''browser'' | Ide \<Rightarrow> lit ''ide'')"

datatype artifact_kind = Exchange | Transcript | Note

definition artifact_kind_as_str :: "artifact_kind \<Rightarrow> ustr" where
  "artifact_kind_as_str k = (case k of Exchange \<Rightarrow> lit ''exchange''
     | Transcript \<Rightarrow> lit ''transcript'' | Note \<Rightarrow> lit ''note'')"

datatype artifact_role = User | Agent

definition role_as_str :: "artifact_role \<Rightarrow> ustr" where
  "role_as_str r = (case r of User \<Rightarrow> lit ''user'' | Agent \<Rightarrow> lit ''agent'')"

section \<open>Records\<close>

record segmenter_frame =
  sf_id :: int
  sf_captured_at :: int
  sf_app_hint :: "ustr option"
  sf_window_title :: "ustr option"
  sf_browser_url :: "ustr option"

record session_content =
  sc_frame_id :: int
  sc_captured_at :: int
  sc_content_text :: ustr

record session_draft =
  sd_started_at :: int
  sd_ended_at :: int
  sd_kind :: session_kind
  sd_tool :: "ustr option"
  sd_host :: "session_host option"
  sd_context_key :: ustr
  sd_confidence :: rat
  sd_frame_ids :: "int list"
  sd_open :: bool

record new_session =
  ns_started_at :: int
  ns_ended_at :: "int option"
  ns_kind :: session_kind
  ns_tool :: "ustr option"
  ns_host :: "session_host option"
  ns_context_key :: ustr
  ns_confidence :: rat
  ns_frozen :: bool

record session =
  ss_id :: int
  ss_started_at :: int
  ss_ended_at :: "int option"
  ss_kind :: session_kind
  ss_tool :: "ustr option"
  ss_host :: "session_host option"
  ss_context_key :: ustr
  ss_title :: "ustr option"
  ss_summary :: "ustr option"
  ss_summary_model :: "ustr option"
  ss_confidence :: rat
  ss_frozen :: bool
  ss_created_at :: int
  ss_updated_at :: int

record extracted_exchange =
  ee_role :: artifact_role
  ee_content :: ustr
  ee_frame_id :: int

record new_session_artifact =
  na_kind :: artifact_kind
  na_role :: "artifact_role option"
  na_frame_id :: "int option"
  na_content :: ustr

record session_artifact =
  sa_id :: int
  sa_session_id :: int
  sa_kind :: artifact_kind
  sa_role :: "artifact_role option"
  sa_frame_id :: "int option"
  sa_content :: ustr
  sa_created_at :: int

record session_filter =
  fl_from_ms :: "int option"
  fl_to_ms :: "int option"
  fl_kind :: "session_kind option"
  fl_tool :: "ustr option"
  fl_limit :: "nat option"
  fl_now_ms :: int

definition as_new_session :: "session_draft \<Rightarrow> bool \<Rightarrow> new_session" where
  "as_new_session d frozen = \<lparr>
     ns_started_at = sd_started_at d,
     ns_ended_at = (if \<not> sd_open d then Some (sd_ended_at d) else None),
     ns_kind = sd_kind d,
     ns_tool = sd_tool d,
     ns_host = sd_host d,
     ns_context_key = sd_context_key d,
     ns_confidence = sd_confidence d,
     ns_frozen = frozen\<rparr>"

section \<open>Segmentation parameters\<close>

definition session_merge_gap_ms :: int where "session_merge_gap_ms = 2700000"
definition session_absorb_max_ms :: int where "session_absorb_max_ms = 1800000"
definition session_meeting_gap_ms :: int where "session_meeting_gap_ms = 480000"
definition session_focus_min_len_ms :: int where "session_focus_min_len_ms = 600000"
definition session_focus_min_density_fph :: int where "session_focus_min_density_fph = 30"
definition session_identity_qualify_ms :: int where "session_identity_qualify_ms = 120000"
definition session_freeze_lookback_ms :: int where "session_freeze_lookback_ms = 21600000"

record segmentation_params =
  now_ms :: int
  gap_close_ms :: int
  min_len_ms :: int
  merge_gap_ms :: int
  absorb_max_ms :: int
  meeting_gap_ms :: int
  focus_min_len_ms :: int
  focus_min_density_fph :: int
  identity_qualify_ms :: int
  freeze_lookback_ms :: int

definition shipped :: "int \<Rightarrow> int \<Rightarrow> int \<Rightarrow> segmentation_params" where
  "shipped now gap_close min_len = \<lparr>
     now_ms = now,
     gap_close_ms = gap_close,
     min_len_ms = min_len,
     merge_gap_ms = session_merge_gap_ms,
     absorb_max_ms = session_absorb_max_ms,
     meeting_gap_ms = session_meeting_gap_ms,
     focus_min_len_ms = session_focus_min_len_ms,
     focus_min_density_fph = session_focus_min_density_fph,
     identity_qualify_ms = session_identity_qualify_ms,
     freeze_lookback_ms = session_freeze_lookback_ms\<rparr>"

lemma shipped_sel [simp]:
  "now_ms (shipped n g m) = n" "gap_close_ms (shipped n g m) = g" "min_len_ms (shipped n g m) = m"
  "merge_gap_ms (shipped n g m) = 2700000" "absorb_max_ms (shipped n g m) = 1800000"
  "meeting_gap_ms (shipped n g m) = 480000" "focus_min_len_ms (shipped n g m) = 600000"
  "focus_min_density_fph (shipped n g m) = 30" "identity_qualify_ms (shipped n g m) = 120000"
  "freeze_lookback_ms (shipped n g m) = 21600000"
  by (simp_all add: shipped_def session_merge_gap_ms_def session_absorb_max_ms_def
      session_meeting_gap_ms_def session_focus_min_len_ms_def session_focus_min_density_fph_def
      session_identity_qualify_ms_def session_freeze_lookback_ms_def)

text \<open>
  The identity-track partition of a kind and a context key: all focus work is one track, every
  other kind has one track per context key (\<open>track_partition\<close> in the segmenter, \<open>partition\<close> in
  the scheduler).
\<close>

definition partition_of :: "session_kind \<Rightarrow> ustr \<Rightarrow> ustr" where
  "partition_of kind key = (if kind = Focus then lit ''focus'' else key)"

end
