(* ===== verification/Session_Store.thy ===== *)
theory Session_Store
  imports Session_Types
begin

text \<open>
  Session persistence (\<open>crates/store/src/sessions.rs\<close> over the schema-11 tables of
  \<open>crates/store/src/schema.rs\<close>). A database is the rows of \<open>frames\<close>, \<open>sessions\<close> and
  \<open>session_artifacts\<close> that these statements read and write; each method is one function, with the
  database clock \<open>t\<close> where it stamps a row and a constraint violation as its error. The frozen rule
  (\<open>WHERE frozen=0\<close>, and the guard of the frame assignment) is proved to hold over every sequence of
  operations.
\<close>

section \<open>Tables\<close>

record frame_row =
  fr_id :: int
  fr_captured_at :: int
  fr_app_hint :: "ustr option"
  fr_window_title :: "ustr option"
  fr_browser_url :: "ustr option"
  fr_session_id :: "int option"
  fr_content_text :: "ustr option"

record session_db =
  db_frames :: "frame_row list"
  db_sessions :: "session list"
  db_artifacts :: "session_artifact list"

datatype db_error = CheckViolation | ForeignKeyViolation

definition next_rowid :: "int list \<Rightarrow> int" where
  "next_rowid ids = (case list_max ids of None \<Rightarrow> 1 | Some m \<Rightarrow> m + 1)"

section \<open>Rows from tokens\<close>

definition kind_from_db :: "ustr \<Rightarrow> ustr + session_kind" where
  "kind_from_db v =
     (if v = lit ''focus'' then Inr Focus else if v = lit ''meeting'' then Inr Meeting
      else if v = lit ''ai'' then Inr Ai else if v = lit ''other'' then Inr Other else Inl v)"

definition host_from_db :: "ustr option \<Rightarrow> ustr + session_host option" where
  "host_from_db v = (case v of None \<Rightarrow> Inr None | Some h \<Rightarrow>
     if h = lit ''terminal'' then Inr (Some Terminal) else if h = lit ''desktop'' then Inr (Some Desktop)
     else if h = lit ''browser'' then Inr (Some Browser) else if h = lit ''ide'' then Inr (Some Ide)
     else Inl h)"

definition artifact_kind_from_db :: "ustr \<Rightarrow> ustr + artifact_kind" where
  "artifact_kind_from_db v =
     (if v = lit ''exchange'' then Inr Exchange else if v = lit ''transcript'' then Inr Transcript
      else if v = lit ''note'' then Inr Note else Inl v)"

definition role_from_db :: "ustr option \<Rightarrow> ustr + artifact_role option" where
  "role_from_db v = (case v of None \<Rightarrow> Inr None | Some r \<Rightarrow>
     if r = lit ''user'' then Inr (Some User) else if r = lit ''agent'' then Inr (Some Agent) else Inl r)"

section \<open>Sessions\<close>

text \<open>The \<open>CHECK\<close> on \<open>tool\<close>: only an AI session names one.\<close>

definition tool_ok :: "new_session \<Rightarrow> bool" where
  "tool_ok ns \<longleftrightarrow> ns_tool ns = None \<or> ns_kind ns = Ai"

definition session_row :: "int \<Rightarrow> int \<Rightarrow> new_session \<Rightarrow> session" where
  "session_row t i ns = \<lparr>
     ss_id = i, ss_started_at = ns_started_at ns, ss_ended_at = ns_ended_at ns, ss_kind = ns_kind ns,
     ss_tool = ns_tool ns, ss_host = ns_host ns, ss_context_key = ns_context_key ns,
     ss_title = None, ss_summary = None, ss_summary_model = None,
     ss_confidence = ns_confidence ns, ss_frozen = ns_frozen ns, ss_created_at = t, ss_updated_at = t\<rparr>"

definition insert_session :: "int \<Rightarrow> new_session \<Rightarrow> session_db \<Rightarrow> (db_error + int) \<times> session_db" where
  "insert_session t ns db =
     (if tool_ok ns
      then (let i = next_rowid (map ss_id (db_sessions db))
            in (Inr i, db\<lparr>db_sessions := db_sessions db @ [session_row t i ns]\<rparr>))
      else (Inl CheckViolation, db))"

definition mutable_row :: "int \<Rightarrow> session \<Rightarrow> bool" where
  "mutable_row i s \<longleftrightarrow> ss_id s = i \<and> \<not> ss_frozen s"

definition rewrite_session :: "int \<Rightarrow> new_session \<Rightarrow> session \<Rightarrow> session" where
  "rewrite_session t ns s = s\<lparr>
     ss_started_at := ns_started_at ns, ss_ended_at := ns_ended_at ns, ss_kind := ns_kind ns,
     ss_tool := ns_tool ns, ss_host := ns_host ns, ss_context_key := ns_context_key ns,
     ss_confidence := ns_confidence ns, ss_updated_at := t\<rparr>"

definition update_unfrozen_session ::
  "int \<Rightarrow> int \<Rightarrow> new_session \<Rightarrow> session_db \<Rightarrow> (db_error + bool) \<times> session_db" where
  "update_unfrozen_session t i ns db =
     (if list_ex (mutable_row i) (db_sessions db)
      then (if tool_ok ns
            then (Inr True, db\<lparr>db_sessions :=
                map (\<lambda>s. if mutable_row i s then rewrite_session t ns s else s) (db_sessions db)\<rparr>)
            else (Inl CheckViolation, db))
      else (Inr False, db))"

text \<open>\<open>DELETE\<close>: artifacts cascade, frames lose their reference.\<close>

definition delete_unfrozen_session :: "int \<Rightarrow> session_db \<Rightarrow> bool \<times> session_db" where
  "delete_unfrozen_session i db =
     (if list_ex (mutable_row i) (db_sessions db)
      then (True, db\<lparr>
          db_sessions := filter (\<lambda>s. \<not> mutable_row i s) (db_sessions db),
          db_frames := map (\<lambda>f. if fr_session_id f = Some i then f\<lparr>fr_session_id := None\<rparr> else f) (db_frames db),
          db_artifacts := filter (\<lambda>a. sa_session_id a \<noteq> i) (db_artifacts db)\<rparr>)
      else (False, db))"

fun chunks_of :: "nat \<Rightarrow> 'a list \<Rightarrow> 'a list list" where
  "chunks_of n [] = []"
| "chunks_of n (x # xs) = (x # take (n - 1) xs) # chunks_of n (drop (n - 1) xs)"

definition assignable :: "session list \<Rightarrow> frame_row \<Rightarrow> bool" where
  "assignable sessions f \<longleftrightarrow> (case fr_session_id f of None \<Rightarrow> True
     | Some s \<Rightarrow> list_ex (mutable_row s) sessions)"

definition assign_chunk ::
  "session list \<Rightarrow> int option \<Rightarrow> nat \<times> frame_row list \<Rightarrow> int list \<Rightarrow> nat \<times> frame_row list" where
  "assign_chunk sessions sid st ids = (case st of (changed, frames) \<Rightarrow>
     (changed + length (filter (\<lambda>f. fr_id f \<in> set ids \<and> assignable sessions f) frames),
      map (\<lambda>f. if fr_id f \<in> set ids \<and> assignable sessions f then f\<lparr>fr_session_id := sid\<rparr> else f) frames))"

definition assign_frames_session ::
  "int list \<Rightarrow> int option \<Rightarrow> session_db \<Rightarrow> (db_error + nat) \<times> session_db" where
  "assign_frames_session ids sid db =
     (if ids = [] then (Inr 0, db)
      else (case foldl (assign_chunk (db_sessions db) sid) (0, db_frames db) (chunks_of 400 ids) of
          (changed, frames) \<Rightarrow>
            if 0 < changed \<and> sid \<noteq> None \<and> \<not> list_ex (\<lambda>s. Some (ss_id s) = sid) (db_sessions db)
            then (Inl ForeignKeyViolation, db)
            else (Inr changed, db\<lparr>db_frames := frames\<rparr>)))"

definition freezes :: "int \<Rightarrow> session \<Rightarrow> bool" where
  "freezes older_than_ms s \<longleftrightarrow> \<not> ss_frozen s
     \<and> (case ss_ended_at s of None \<Rightarrow> False | Some e \<Rightarrow> e < older_than_ms)"

definition freeze_sessions :: "int \<Rightarrow> int \<Rightarrow> session_db \<Rightarrow> nat \<times> session_db" where
  "freeze_sessions t older_than_ms db =
     (length (filter (freezes older_than_ms) (db_sessions db)),
      db\<lparr>db_sessions := map (\<lambda>s. if freezes older_than_ms s
          then s\<lparr>ss_frozen := True, ss_updated_at := t\<rparr> else s) (db_sessions db)\<rparr>)"

definition unfrozen_sessions :: "session_db \<Rightarrow> session list" where
  "unfrozen_sessions db =
     sort_key (\<lambda>s. (ss_started_at s, ss_id s)) (filter (\<lambda>s. \<not> ss_frozen s) (db_sessions db))"

definition in_filter :: "session_filter \<Rightarrow> session \<Rightarrow> bool" where
  "in_filter fl s \<longleftrightarrow>
     (case fl_from_ms fl of None \<Rightarrow> True
      | Some from_ms \<Rightarrow> from_ms < (case ss_ended_at s of None \<Rightarrow> fl_now_ms fl | Some e \<Rightarrow> e))
     \<and> (case fl_to_ms fl of None \<Rightarrow> True | Some to_ms \<Rightarrow> ss_started_at s < to_ms)
     \<and> (case fl_kind fl of None \<Rightarrow> True | Some k \<Rightarrow> ss_kind s = k)
     \<and> (case fl_tool fl of None \<Rightarrow> True | Some tool \<Rightarrow> ss_tool s = Some tool)"

definition sessions_in_range :: "session_filter \<Rightarrow> session_db \<Rightarrow> session list" where
  "sessions_in_range fl db =
     (let rows = sort_key (\<lambda>s. (- ss_started_at s, - ss_id s)) (filter (in_filter fl) (db_sessions db))
      in case fl_limit fl of None \<Rightarrow> rows | Some n \<Rightarrow> take (min n 10000) rows)"

definition get_session :: "int \<Rightarrow> session_db \<Rightarrow> session option" where
  "get_session i db = List.find (\<lambda>s. ss_id s = i) (db_sessions db)"

section \<open>Frames of a session\<close>

definition as_segmenter_frame :: "frame_row \<Rightarrow> segmenter_frame" where
  "as_segmenter_frame f = \<lparr>sf_id = fr_id f, sf_captured_at = fr_captured_at f, sf_app_hint = fr_app_hint f,
     sf_window_title = fr_window_title f, sf_browser_url = fr_browser_url f\<rparr>"

definition frame_key :: "frame_row \<Rightarrow> int \<times> int" where
  "frame_key f = (fr_captured_at f, fr_id f)"

definition frames_of_session :: "int \<Rightarrow> session_db \<Rightarrow> frame_row list" where
  "frames_of_session i db = sort_key frame_key (filter (\<lambda>f. fr_session_id f = Some i) (db_frames db))"

definition session_frames_meta :: "int \<Rightarrow> session_db \<Rightarrow> segmenter_frame list" where
  "session_frames_meta i db = map as_segmenter_frame (frames_of_session i db)"

definition frames_meta_in_range :: "int \<Rightarrow> int \<Rightarrow> session_db \<Rightarrow> segmenter_frame list" where
  "frames_meta_in_range from_ms to_ms db =
     (if to_ms \<le> from_ms then []
      else map as_segmenter_frame (sort_key frame_key
             (filter (\<lambda>f. from_ms \<le> fr_captured_at f \<and> fr_captured_at f < to_ms) (db_frames db))))"

definition max_session_frame_sample :: nat where "max_session_frame_sample = 24"

text \<open>The slots of \<open>session_frame_sample\<close>: slot \<open>k\<close> of \<open>n\<close> picks row \<open>k * (total - 1) / (n - 1)\<close> when there
  are more rows than slots, row \<open>k\<close> otherwise; SQLite divides integers truncating.\<close>

definition slot_row :: "nat \<Rightarrow> nat \<Rightarrow> nat \<Rightarrow> nat" where
  "slot_row tot n k = (if tot \<le> n then k else k * (tot - 1) div (n - 1))"

definition session_frame_sample :: "int \<Rightarrow> nat \<Rightarrow> session_db \<Rightarrow> nat \<times> frame_row list" where
  "session_frame_sample i limit db =
     (let n = min limit max_session_frame_sample;
          rows = frames_of_session i db;
          tot = length rows
      in (tot,
          if tot = 0 \<or> n = 0 then []
          else if n = 1 then take 1 rows
          else map (\<lambda>k. rows ! slot_row tot n k) [0..<min tot n]))"

definition session_reference_for_frame :: "int \<Rightarrow> session_db \<Rightarrow> session option" where
  "session_reference_for_frame frame_id db =
     Option.bind (List.find (\<lambda>f. fr_id f = frame_id) (db_frames db)) (\<lambda>f.
       Option.bind (fr_session_id f) (\<lambda>s. get_session s db))"

definition session_has_usable_content :: "int \<Rightarrow> session_db \<Rightarrow> bool" where
  "session_has_usable_content i db =
     list_ex (\<lambda>f. fr_session_id f = Some i
       \<and> (case fr_content_text f of None \<Rightarrow> False | Some txt \<Rightarrow> trim txt \<noteq> [])) (db_frames db)"

text \<open>\<open>content_texts_for_frames\<close> uses SQLite's one-argument \<open>trim\<close>, which strips the ASCII space only.\<close>

definition spaces_only :: "ustr \<Rightarrow> bool" where
  "spaces_only s = list_all (\<lambda>c. c = 32) s"

definition content_chunk :: "session_db \<Rightarrow> int list \<Rightarrow> session_content list" where
  "content_chunk db ids = concat (map (\<lambda>f. case fr_content_text f of
       None \<Rightarrow> []
     | Some txt \<Rightarrow> if fr_id f \<in> set ids \<and> \<not> spaces_only txt
                   then [\<lparr>sc_frame_id = fr_id f, sc_captured_at = fr_captured_at f, sc_content_text = txt\<rparr>]
                   else []) (db_frames db))"

definition content_texts_for_frames :: "int list \<Rightarrow> session_db \<Rightarrow> session_content list" where
  "content_texts_for_frames ids db =
     sort_key (\<lambda>c. (sc_captured_at c, sc_frame_id c)) (concat (map (content_chunk db) (chunks_of 400 ids)))"

section \<open>Artifacts and titles\<close>

text \<open>The \<open>CHECK\<close> on \<open>role\<close>: an exchange has one, the reserved kinds have none.\<close>

definition role_ok :: "new_session_artifact \<Rightarrow> bool" where
  "role_ok a \<longleftrightarrow> (na_kind a = Exchange) = (na_role a \<noteq> None)"

definition artifact_row :: "int \<Rightarrow> int \<Rightarrow> int \<Rightarrow> new_session_artifact \<Rightarrow> session_artifact" where
  "artifact_row t i sid a = \<lparr>sa_id = i, sa_session_id = sid, sa_kind = na_kind a, sa_role = na_role a,
     sa_frame_id = na_frame_id a, sa_content = na_content a, sa_created_at = t\<rparr>"

definition artifact_ok :: "int \<Rightarrow> session_db \<Rightarrow> new_session_artifact \<Rightarrow> bool" where
  "artifact_ok sid db a \<longleftrightarrow> role_ok a \<and> list_ex (\<lambda>s. ss_id s = sid) (db_sessions db)
     \<and> (case na_frame_id a of None \<Rightarrow> True | Some f \<Rightarrow> list_ex (\<lambda>r. fr_id r = f) (db_frames db))"

fun add_artifacts :: "int \<Rightarrow> int \<Rightarrow> new_session_artifact list \<Rightarrow> session_artifact list \<Rightarrow> session_artifact list" where
  "add_artifacts t sid [] rows = rows"
| "add_artifacts t sid (a # as) rows =
     add_artifacts t sid as (rows @ [artifact_row t (next_rowid (map sa_id rows)) sid a])"

text \<open>One transaction: a violation by any row inserts none.\<close>

definition insert_session_artifacts ::
  "int \<Rightarrow> int \<Rightarrow> new_session_artifact list \<Rightarrow> session_db \<Rightarrow> (db_error + int list) \<times> session_db" where
  "insert_session_artifacts t sid as db =
     (if as = [] then (Inr [], db)
      else if list_all (artifact_ok sid db) as
      then (Inr (map sa_id (drop (length (db_artifacts db)) (add_artifacts t sid as (db_artifacts db)))),
            db\<lparr>db_artifacts := add_artifacts t sid as (db_artifacts db)\<rparr>)
      else (Inl (case List.find (\<lambda>a. \<not> artifact_ok sid db a) as of
                   Some a \<Rightarrow> if role_ok a then ForeignKeyViolation else CheckViolation
                 | None \<Rightarrow> CheckViolation), db))"

definition list_session_artifacts :: "int \<Rightarrow> session_db \<Rightarrow> session_artifact list" where
  "list_session_artifacts sid db =
     sort_key (\<lambda>a. (sa_created_at a, sa_id a)) (filter (\<lambda>a. sa_session_id a = sid) (db_artifacts db))"

definition delete_session_artifacts_by_kind :: "int \<Rightarrow> artifact_kind \<Rightarrow> session_db \<Rightarrow> nat \<times> session_db" where
  "delete_session_artifacts_by_kind sid k db =
     (length (filter (\<lambda>a. sa_session_id a = sid \<and> sa_kind a = k) (db_artifacts db)),
      db\<lparr>db_artifacts := filter (\<lambda>a. \<not> (sa_session_id a = sid \<and> sa_kind a = k)) (db_artifacts db)\<rparr>)"

definition set_session_title_summary ::
  "int \<Rightarrow> int \<Rightarrow> ustr \<Rightarrow> ustr \<Rightarrow> ustr \<Rightarrow> session_db \<Rightarrow> bool \<times> session_db" where
  "set_session_title_summary t i title summary model db =
     (list_ex (\<lambda>s. ss_id s = i) (db_sessions db),
      db\<lparr>db_sessions := map (\<lambda>s. if ss_id s = i
          then s\<lparr>ss_title := Some title, ss_summary := Some summary, ss_summary_model := Some model,
                 ss_updated_at := t\<rparr> else s) (db_sessions db)\<rparr>)"

definition clear_session_title_summary :: "int \<Rightarrow> int \<Rightarrow> session_db \<Rightarrow> bool \<times> session_db" where
  "clear_session_title_summary t i db =
     (list_ex (\<lambda>s. ss_id s = i) (db_sessions db),
      db\<lparr>db_sessions := map (\<lambda>s. if ss_id s = i
          then s\<lparr>ss_title := None, ss_summary := None, ss_summary_model := None, ss_updated_at := t\<rparr>
          else s) (db_sessions db)\<rparr>)"

section \<open>Steps and the frozen rule\<close>

inductive session_step :: "session_db \<Rightarrow> session_db \<Rightarrow> bool" where
  step_insert: "session_step db (snd (insert_session t ns db))"
| step_update: "session_step db (snd (update_unfrozen_session t i ns db))"
| step_delete: "session_step db (snd (delete_unfrozen_session i db))"
| step_assign: "session_step db (snd (assign_frames_session ids sid db))"
| step_freeze: "session_step db (snd (freeze_sessions t older db))"
| step_artifacts: "session_step db (snd (insert_session_artifacts t i as db))"
| step_drop_artifacts: "session_step db (snd (delete_session_artifacts_by_kind i k db))"
| step_title: "session_step db (snd (set_session_title_summary t i title summary model db))"
| step_clear: "session_step db (snd (clear_session_title_summary t i db))"

inductive_cases session_stepE: "session_step db db'"

text \<open>The stable part of a session row: its id, bounds and classification.\<close>

definition boundary ::
  "session \<Rightarrow> int \<times> int \<times> int option \<times> session_kind \<times> ustr option \<times> session_host option \<times> ustr \<times> rat" where
  "boundary s = (ss_id s, ss_started_at s, ss_ended_at s, ss_kind s, ss_tool s, ss_host s, ss_context_key s, ss_confidence s)"

definition frozen_id :: "session_db \<Rightarrow> int \<Rightarrow> bool" where
  "frozen_id db i \<longleftrightarrow> (\<exists>s\<in>set (db_sessions db). ss_id s = i \<and> ss_frozen s)"

definition session_ids :: "session_db \<Rightarrow> int list" where
  "session_ids db = map ss_id (db_sessions db)"

definition db_ok :: "session_db \<Rightarrow> bool" where
  "db_ok db \<longleftrightarrow> distinct (session_ids db)
     \<and> (\<forall>f\<in>set (db_frames db). \<forall>i. fr_session_id f = Some i \<longrightarrow> i \<in> set (session_ids db))
     \<and> (\<forall>a\<in>set (db_artifacts db). sa_session_id a \<in> set (session_ids db) \<and> ((sa_kind a = Exchange) = (sa_role a \<noteq> None)))"

definition keeps_frozen :: "session_db \<Rightarrow> session_db \<Rightarrow> bool" where
  "keeps_frozen db db' \<longleftrightarrow>
     (\<forall>s\<in>set (db_sessions db). ss_frozen s \<longrightarrow> (\<exists>s'\<in>set (db_sessions db'). ss_frozen s' \<and> boundary s' = boundary s))
     \<and> (\<forall>f\<in>set (db_frames db). \<forall>i. fr_session_id f = Some i \<and> frozen_id db i \<longrightarrow> f \<in> set (db_frames db'))
     \<and> length (db_frames db') = length (db_frames db)
     \<and> map as_segmenter_frame (db_frames db') = map as_segmenter_frame (db_frames db)"

lemma keeps_frozen_refl: "keeps_frozen db db"
  by (auto simp: keeps_frozen_def)

lemma keeps_frozen_id: "keeps_frozen db db' \<Longrightarrow> frozen_id db i \<Longrightarrow> frozen_id db' i"
  unfolding keeps_frozen_def frozen_id_def boundary_def by (metis Pair_inject)

lemma keeps_frozen_trans:
  assumes "keeps_frozen a b" "keeps_frozen b c"
  shows "keeps_frozen a c"
proof -
  have "\<exists>s'\<in>set (db_sessions c). ss_frozen s' \<and> boundary s' = boundary s"
    if "s \<in> set (db_sessions a)" "ss_frozen s" for s
    using assms that unfolding keeps_frozen_def by metis
  moreover have "f \<in> set (db_frames c)" if "f \<in> set (db_frames a)" "fr_session_id f = Some i" "frozen_id a i" for f i
    using assms that keeps_frozen_id [OF assms(1) that(3)] unfolding keeps_frozen_def by blast
  ultimately show ?thesis using assms unfolding keeps_frozen_def by auto
qed

lemma next_rowid_new: "i \<in> set ids \<Longrightarrow> i < next_rowid ids"
proof -
  assume i: "i \<in> set ids"
  then have "i \<le> Max (set ids)" by simp
  with i show ?thesis by (auto simp: next_rowid_def list_max_def)
qed

lemma next_rowid_fresh: "next_rowid ids \<notin> set ids"
  using next_rowid_new by fastforce

lemma mutable_not_frozen:
  assumes "db_ok db" "s \<in> set (db_sessions db)" "mutable_row i s"
  shows "\<not> frozen_id db i"
proof
  assume "frozen_id db i"
  then obtain s' where "s' \<in> set (db_sessions db)" "ss_id s' = i" "ss_frozen s'" by (auto simp: frozen_id_def)
  with assms have "s' = s" by (metis db_ok_def distinct_map_eq mutable_row_def session_ids_def)
  with \<open>ss_frozen s'\<close> assms(3) show False by (simp add: mutable_row_def)
qed

lemma assignable_not_frozen:
  "db_ok db \<Longrightarrow> assignable (db_sessions db) f \<Longrightarrow> fr_session_id f = Some i \<Longrightarrow> \<not> frozen_id db i"
  using mutable_not_frozen by (auto simp: assignable_def list_ex_iff)

lemma map_sessions_keeps:
  assumes "\<And>s. s \<in> set (db_sessions db) \<Longrightarrow> ss_frozen s \<Longrightarrow> ss_frozen (g s) \<and> boundary (g s) = boundary s"
  shows "keeps_frozen db (db\<lparr>db_sessions := map g (db_sessions db)\<rparr>)"
  using assms by (auto simp: keeps_frozen_def)

lemma map_sessions_ok:
  assumes "db_ok db" "\<And>s. s \<in> set (db_sessions db) \<Longrightarrow> ss_id (g s) = ss_id s"
  shows "db_ok (db\<lparr>db_sessions := map g (db_sessions db)\<rparr>)"
proof -
  have "map (\<lambda>s. ss_id (g s)) (db_sessions db) = map ss_id (db_sessions db)" using assms(2) by simp
  then have "session_ids (db\<lparr>db_sessions := map g (db_sessions db)\<rparr>) = session_ids db"
    by (simp add: session_ids_def comp_def)
  with assms(1) show ?thesis by (simp add: db_ok_def)
qed

lemma as_segmenter_frame_upd [simp]: "as_segmenter_frame (f\<lparr>fr_session_id := v\<rparr>) = as_segmenter_frame f"
  by (simp add: as_segmenter_frame_def)

lemma assign_chunk_inv:
  assumes "db_ok db" and "assign_chunk (db_sessions db) sid (n, fs) ids = (n', fs')"
  shows "map as_segmenter_frame fs' = map as_segmenter_frame fs
     \<and> n \<le> n'
     \<and> (\<forall>f\<in>set fs. \<forall>i. fr_session_id f = Some i \<and> frozen_id db i \<longrightarrow> f \<in> set fs')
     \<and> (\<forall>f'\<in>set fs'. f' \<in> set fs \<or> (fr_session_id f' = sid \<and> 0 < n'))"
proof -
  let ?P = "\<lambda>f. fr_id f \<in> set ids \<and> assignable (db_sessions db) f"
  have fs': "fs' = map (\<lambda>f. if ?P f then f\<lparr>fr_session_id := sid\<rparr> else f) fs"
    and n': "n' = n + length (filter ?P fs)"
    using assms(2) by (simp_all add: assign_chunk_def)
  have "f \<in> set fs'" if "f \<in> set fs" "fr_session_id f = Some i" "frozen_id db i" for f i
  proof -
    have "\<not> ?P f" using assignable_not_frozen [OF assms(1)] that by blast
    with that(1) show ?thesis by (auto simp: fs' image_iff intro!: bexI [of _ f])
  qed
  moreover have "f' \<in> set fs \<or> (fr_session_id f' = sid \<and> 0 < n')" if "f' \<in> set fs'" for f'
  proof -
    from that obtain f where f: "f \<in> set fs" "f' = (if ?P f then f\<lparr>fr_session_id := sid\<rparr> else f)"
      by (auto simp: fs')
    show ?thesis
    proof (cases "?P f")
      case True
      then have "filter ?P fs \<noteq> []" using f(1) by (auto simp: filter_empty_conv)
      with True f show ?thesis by (simp add: n')
    next
      case False
      with f show ?thesis by auto
    qed
  qed
  moreover have "map as_segmenter_frame fs' = map as_segmenter_frame fs" by (simp add: fs')
  ultimately show ?thesis by (simp add: n')
qed

lemma foldl_assign_chunk_inv:
  assumes "db_ok db"
  shows "foldl (assign_chunk (db_sessions db) sid) (n, fs) cs = (n', fs') \<Longrightarrow>
     map as_segmenter_frame fs' = map as_segmenter_frame fs
     \<and> n \<le> n'
     \<and> (\<forall>f\<in>set fs. \<forall>i. fr_session_id f = Some i \<and> frozen_id db i \<longrightarrow> f \<in> set fs')
     \<and> (\<forall>f'\<in>set fs'. f' \<in> set fs \<or> (fr_session_id f' = sid \<and> 0 < n'))"
proof (induction cs arbitrary: n fs)
  case (Cons c cs)
  obtain m gs where c: "assign_chunk (db_sessions db) sid (n, fs) c = (m, gs)" by fastforce
  note a = assign_chunk_inv [OF assms c]
  have b: "map as_segmenter_frame fs' = map as_segmenter_frame gs"
    "m \<le> n'" "\<forall>f\<in>set gs. \<forall>i. fr_session_id f = Some i \<and> frozen_id db i \<longrightarrow> f \<in> set fs'"
    "\<forall>f'\<in>set fs'. f' \<in> set gs \<or> (fr_session_id f' = sid \<and> 0 < n')"
    using Cons.IH [of m gs] Cons.prems c by simp_all
  have "f' \<in> set fs \<or> (fr_session_id f' = sid \<and> 0 < n')" if "f' \<in> set fs'" for f'
    using that a b(2,4) by (meson less_le_trans)
  then show ?case using a b by auto
qed auto

lemma assign_frames_keeps:
  assumes ok: "db_ok db"
  shows "keeps_frozen db (snd (assign_frames_session ids sid db)) \<and> db_ok (snd (assign_frames_session ids sid db))"
proof -
  obtain n' fs' where f: "foldl (assign_chunk (db_sessions db) sid) (0, db_frames db) (chunks_of 400 ids) = (n', fs')"
    by fastforce
  note inv = foldl_assign_chunk_inv [OF ok f]
  show ?thesis
  proof (cases "ids = [] \<or> (0 < n' \<and> sid \<noteq> None \<and> \<not> list_ex (\<lambda>s. Some (ss_id s) = sid) (db_sessions db))")
    case True
    then have "snd (assign_frames_session ids sid db) = db" by (auto simp: assign_frames_session_def f)
    then show ?thesis using ok keeps_frozen_refl by simp
  next
    case False
    then have db': "snd (assign_frames_session ids sid db) = db\<lparr>db_frames := fs'\<rparr>"
      by (auto simp: assign_frames_session_def f)
    have len: "length fs' = length (db_frames db)" using inv map_eq_imp_length_eq by blast
    have "i \<in> set (session_ids db)" if "g \<in> set fs'" "fr_session_id g = Some i" for g i
    proof (cases "g \<in> set (db_frames db)")
      case True
      then show ?thesis using ok that by (auto simp: db_ok_def)
    next
      case new: False
      then have "sid = Some i" "0 < n'" using inv that by auto
      then have "list_ex (\<lambda>s. Some (ss_id s) = sid) (db_sessions db)" using False by auto
      then show ?thesis using \<open>sid = Some i\<close> by (auto simp: list_ex_iff session_ids_def)
    qed
    then have "db_ok (db\<lparr>db_frames := fs'\<rparr>)" using ok by (simp add: db_ok_def session_ids_def)
    moreover have "keeps_frozen db (db\<lparr>db_frames := fs'\<rparr>)"
      using inv len unfolding keeps_frozen_def by auto
    ultimately show ?thesis by (simp add: db')
  qed
qed

lemma add_artifacts_mem:
  "b \<in> set (add_artifacts t sid as rows) \<Longrightarrow> b \<in> set rows \<or> (\<exists>i. \<exists>a\<in>set as. b = artifact_row t i sid a)"
proof (induction "as" arbitrary: rows)
  case (Cons a as)
  from Cons.IH [OF Cons.prems [simplified]] show ?case by auto
qed simp

lemma delete_keeps:
  assumes ok: "db_ok db" and step_delete: "db' = snd (delete_unfrozen_session i db)"
  shows "keeps_frozen db db' \<and> db_ok db'"
proof (cases "list_ex (mutable_row i) (db_sessions db)")
  case True
  then have nf: "\<not> frozen_id db i" using mutable_not_frozen [OF ok] by (auto simp: list_ex_iff)
  have gone: "ss_id s \<noteq> i \<longleftrightarrow> \<not> mutable_row i s" if "s \<in> set (db_sessions db)" for s
    using nf that by (auto simp: mutable_row_def frozen_id_def)
  have ids: "set (session_ids db') = set (session_ids db) - {i}"
    using gone by (auto simp: step_delete delete_unfrozen_session_def True session_ids_def)
  have "distinct (session_ids db')"
    using ok by (simp add: step_delete delete_unfrozen_session_def True session_ids_def db_ok_def distinct_map_filter)
  moreover have "keeps_frozen db db'"
    using nf by (auto simp: step_delete delete_unfrozen_session_def True keeps_frozen_def mutable_row_def image_iff
        intro!: bexI)
  moreover have "\<forall>f\<in>set (db_frames db'). \<forall>k. fr_session_id f = Some k \<longrightarrow> k \<in> set (session_ids db')"
    unfolding ids using ok by (auto simp: step_delete delete_unfrozen_session_def True db_ok_def split: if_splits)
  moreover have "\<forall>a\<in>set (db_artifacts db'). sa_session_id a \<in> set (session_ids db')
      \<and> ((sa_kind a = Exchange) = (sa_role a \<noteq> None))"
    unfolding ids using ok by (auto simp: step_delete delete_unfrozen_session_def True db_ok_def)
  ultimately show ?thesis by (simp add: db_ok_def)
qed (simp add: step_delete delete_unfrozen_session_def ok keeps_frozen_refl)

lemma artifacts_keeps:
  assumes ok: "db_ok db" and step_artifacts: "db' = snd (insert_session_artifacts t i as db)"
  shows "keeps_frozen db db' \<and> db_ok db'"
proof (cases "as \<noteq> [] \<and> list_all (artifact_ok i db) as")
  case True
  then have "i \<in> set (session_ids db)" by (cases "as") (auto simp: artifact_ok_def list_ex_iff session_ids_def)
  with True ok show ?thesis
    by (auto simp: step_artifacts insert_session_artifacts_def keeps_frozen_def db_ok_def session_ids_def
        artifact_row_def artifact_ok_def role_ok_def list_all_iff dest!: add_artifacts_mem)
qed (use ok keeps_frozen_refl in \<open>auto simp: step_artifacts insert_session_artifacts_def\<close>)

lemma session_step_keeps:
  assumes "session_step db db'" and ok: "db_ok db"
  shows "keeps_frozen db db' \<and> db_ok db'"
  using assms(1)
proof cases
  case (step_insert t ns)
  show ?thesis
  proof (cases "tool_ok ns")
    case True
    have "next_rowid (map ss_id (db_sessions db)) \<notin> ss_id ` set (db_sessions db)"
      using next_rowid_fresh [of "map ss_id (db_sessions db)"] by simp
    with True ok show ?thesis
      by (auto simp: step_insert insert_session_def Let_def keeps_frozen_def db_ok_def session_ids_def session_row_def)
  qed (simp add: step_insert insert_session_def ok keeps_frozen_refl)
next
  case (step_update t i ns)
  let ?g = "\<lambda>s. if mutable_row i s then rewrite_session t ns s else s"
  have "keeps_frozen db (db\<lparr>db_sessions := map ?g (db_sessions db)\<rparr>)"
    by (rule map_sessions_keeps) (simp add: mutable_row_def)
  moreover have "db_ok (db\<lparr>db_sessions := map ?g (db_sessions db)\<rparr>)"
    by (rule map_sessions_ok [OF ok]) (simp add: rewrite_session_def)
  ultimately show ?thesis using ok keeps_frozen_refl by (simp add: step_update update_unfrozen_session_def)
next
  case (step_delete i)
  then show ?thesis by (rule delete_keeps [OF ok])
next
  case (step_assign ids sid)
  then show ?thesis using assign_frames_keeps [OF ok] by simp
next
  case (step_freeze t older)
  let ?g = "\<lambda>s. if freezes older s then s\<lparr>ss_frozen := True, ss_updated_at := t\<rparr> else s"
  have "keeps_frozen db (db\<lparr>db_sessions := map ?g (db_sessions db)\<rparr>)"
    by (rule map_sessions_keeps) (simp add: freezes_def)
  moreover have "db_ok (db\<lparr>db_sessions := map ?g (db_sessions db)\<rparr>)" by (rule map_sessions_ok [OF ok]) simp
  ultimately show ?thesis by (simp add: step_freeze freeze_sessions_def)
next
  case (step_artifacts t i as)
  then show ?thesis by (rule artifacts_keeps [OF ok])
next
  case (step_drop_artifacts i k)
  with ok show ?thesis
    by (auto simp: delete_session_artifacts_by_kind_def keeps_frozen_def db_ok_def session_ids_def)
next
  case (step_title t i title summary model)
  let ?g = "\<lambda>s. if ss_id s = i then s\<lparr>ss_title := Some title, ss_summary := Some summary,
      ss_summary_model := Some model, ss_updated_at := t\<rparr> else s"
  have "keeps_frozen db (db\<lparr>db_sessions := map ?g (db_sessions db)\<rparr>)"
    by (rule map_sessions_keeps) (simp add: boundary_def)
  moreover have "db_ok (db\<lparr>db_sessions := map ?g (db_sessions db)\<rparr>)" by (rule map_sessions_ok [OF ok]) simp
  ultimately show ?thesis by (simp add: step_title set_session_title_summary_def)
next
  case (step_clear t i)
  let ?g = "\<lambda>s. if ss_id s = i then s\<lparr>ss_title := None, ss_summary := None,
      ss_summary_model := None, ss_updated_at := t\<rparr> else s"
  have "keeps_frozen db (db\<lparr>db_sessions := map ?g (db_sessions db)\<rparr>)"
    by (rule map_sessions_keeps) (simp add: boundary_def)
  moreover have "db_ok (db\<lparr>db_sessions := map ?g (db_sessions db)\<rparr>)" by (rule map_sessions_ok [OF ok]) simp
  ultimately show ?thesis by (simp add: step_clear clear_session_title_summary_def)
qed

lemma session_steps_keep:
  "session_step\<^sup>*\<^sup>* db db' \<Longrightarrow> db_ok db \<Longrightarrow> keeps_frozen db db' \<and> db_ok db'"
proof (induction rule: rtranclp_induct)
  case base
  then show ?case using keeps_frozen_refl by simp
next
  case (step db1 db2)
  then have "keeps_frozen db db1 \<and> db_ok db1" by blast
  with session_step_keeps [OF step.hyps(2)] keeps_frozen_trans show ?case by blast
qed

section \<open>Properties\<close>

definition sample_new_session :: "int \<Rightarrow> int \<Rightarrow> bool \<Rightarrow> new_session" where
  "sample_new_session a b frozen = \<lparr>ns_started_at = a, ns_ended_at = Some b, ns_kind = Focus, ns_tool = None,
     ns_host = None, ns_context_key = lit ''focus'', ns_confidence = 1 / 2, ns_frozen = frozen\<rparr>"

definition sample_row :: "int \<Rightarrow> int \<Rightarrow> int option \<Rightarrow> frame_row" where
  "sample_row i t sid = \<lparr>fr_id = i, fr_captured_at = t, fr_app_hint = None, fr_window_title = None,
     fr_browser_url = None, fr_session_id = sid, fr_content_text = None\<rparr>"

definition sample_db :: session_db where
  "sample_db = \<lparr>db_frames = [sample_row 1 10 (Some 1), sample_row 2 20 (Some 2), sample_row 3 30 None],
     db_sessions = [session_row 0 1 (sample_new_session 10 10 True), session_row 0 2 (sample_new_session 20 20 False)],
     db_artifacts = []\<rparr>"

text \<open>C10: Frozen history is immutable: over any sequence of session-store operations, with any arguments, a frozen
  session stays frozen with the same id, bounds, kind, tool, host, context key and confidence, every frame
  assigned to it stays assigned to it, no frame row is added, dropped or altered besides its assignment, and
  references keep pointing to existing sessions.\<close>

theorem frozen_sessions_immutable:
  assumes "session_step\<^sup>*\<^sup>* db db'" and "db_ok db"
  shows "(\<forall>s\<in>set (db_sessions db). ss_frozen s \<longrightarrow>
        (\<exists>s'\<in>set (db_sessions db'). ss_frozen s' \<and> boundary s' = boundary s))
     \<and> (\<forall>f\<in>set (db_frames db). \<forall>i. fr_session_id f = Some i \<and> frozen_id db i \<longrightarrow> f \<in> set (db_frames db'))
     \<and> map as_segmenter_frame (db_frames db') = map as_segmenter_frame (db_frames db)
     \<and> db_ok db'"
  using session_steps_keep [OF assms] unfolding keeps_frozen_def by blast

theorem frozen_sessions_immutable_witness:
  "sample_row 1 10 (Some 1) \<in> set (db_frames (snd (assign_frames_session [1, 2, 3] (Some 2) (snd (delete_unfrozen_session 1 sample_db)))))"
proof -
  have ok: "db_ok sample_db"
    by (simp add: db_ok_def sample_db_def session_ids_def session_row_def sample_row_def)
  let ?a = "snd (delete_unfrozen_session 1 sample_db)"
  have "session_step\<^sup>*\<^sup>* sample_db (snd (assign_frames_session [1, 2, 3] (Some 2) ?a))"
    using step_delete [of sample_db 1] step_assign [of ?a "[1, 2, 3]" "Some 2"] by (meson converse_rtranclp_into_rtranclp rtranclp.rtrancl_refl)
  moreover have "sample_row 1 10 (Some 1) \<in> set (db_frames sample_db)" by (simp add: sample_db_def)
  moreover have "fr_session_id (sample_row 1 10 (Some 1)) = Some 1 \<and> frozen_id sample_db 1"
    by (simp add: sample_row_def frozen_id_def sample_db_def session_row_def sample_new_session_def)
  ultimately show ?thesis using frozen_sessions_immutable [OF _ ok] by blast
qed

lemma slot_row_strict:
  assumes "2 \<le> n" "n < tot" "k < l"
  shows "slot_row tot n k < slot_row tot n l"
proof -
  define m T where "m = n - 1" and "T = tot - 1"
  have m: "0 < m" "m \<le> T" using assms by (auto simp: m_def T_def)
  have "k * T div m + 1 = (k * T + m) div m" using m by simp
  also have "\<dots> \<le> (k * T + T) div m" using m by (intro div_le_mono) simp
  also have "\<dots> = Suc k * T div m" by (simp add: add.commute)
  also have "\<dots> \<le> l * T div m" using assms(3) by (intro div_le_mono mult_le_mono) simp_all
  finally show ?thesis using assms(2) by (simp add: slot_row_def m_def T_def)
qed

lemma slot_row_bounds:
  assumes "2 \<le> n" "0 < tot"
  shows "slot_row tot n 0 = 0" "slot_row tot n (min tot n - 1) = tot - 1"
proof -
  show "slot_row tot n 0 = 0" by (simp add: slot_row_def)
  show "slot_row tot n (min tot n - 1) = tot - 1"
  proof (cases "tot \<le> n")
    case False
    have "(n - 1) * (tot - 1) div (n - 1) = tot - 1" using assms(1) by simp
    with False show ?thesis by (simp add: slot_row_def min_def)
  qed (simp add: slot_row_def)
qed

lemma slot_row_less:
  assumes "2 \<le> n" "0 < tot" "k < min tot n"
  shows "slot_row tot n k < tot"
proof (cases "tot \<le> n")
  case False
  then have "n < tot" by simp
  show ?thesis
  proof (cases "k = min tot n - 1")
    case True
    then show ?thesis using slot_row_bounds [OF assms(1,2)] assms(2) by simp
  next
    case neq: False
    then have "k < min tot n - 1" using assms(3) by linarith
    from slot_row_strict [OF assms(1) \<open>n < tot\<close> this] slot_row_bounds [OF assms(1,2)] assms(2)
    show ?thesis by simp
  qed
qed (use assms in \<open>simp add: slot_row_def\<close>)

text \<open>The frame sample of a session is an honest, evenly spread one: the total is exact, it has as many frames as the
  limit (24 at most) and the session allow, taken at strictly increasing positions of the time order, and with room for
  two it includes the first and the last frame.\<close>

theorem session_sample_spread:
  fixes limit :: nat
  defines "n \<equiv> min limit max_session_frame_sample"
  assumes "session_frame_sample i limit db = (tot, fs)"
  shows "tot = length (frames_of_session i db) \<and> length fs = min tot n
    \<and> (\<exists>ks. sorted_wrt (<) ks \<and> (\<forall>k\<in>set ks. k < tot) \<and> fs = map ((!) (frames_of_session i db)) ks)
    \<and> (2 \<le> n \<and> 0 < tot \<longrightarrow> hd fs = hd (frames_of_session i db) \<and> last fs = last (frames_of_session i db))"
proof -
  let ?rows = "frames_of_session i db"
  have tot: "tot = length ?rows" using assms(2) by (simp add: session_frame_sample_def Let_def)
  consider "tot = 0 \<or> n = 0" | "0 < tot" "n = 1" | "0 < tot" "2 \<le> n" by linarith
  then show ?thesis
  proof cases
    case 1
    then have "fs = []" using assms(2) by (auto simp: session_frame_sample_def Let_def n_def)
    with 1 tot show ?thesis by (auto intro!: exI [of _ "[]"])
  next
    case 2
    then have fs: "fs = take 1 ?rows" using assms(2) by (auto simp: session_frame_sample_def Let_def n_def)
    then have len: "length fs = min tot n" using 2 tot by simp
    from fs have "fs = map ((!) ?rows) [0]" using 2 tot by (cases ?rows) auto
    moreover have "sorted_wrt (<) [0::nat]" "\<forall>k\<in>set [0]. k < tot" using 2 by simp_all
    ultimately show ?thesis using len tot 2(2) by (metis numeral_le_one_iff semiring_norm(69))
  next
    case 3
    let ?ks = "map (slot_row tot n) [0..<min tot n]"
    have fs: "fs = map ((!) ?rows) ?ks"
      using assms(2) 3 by (auto simp: session_frame_sample_def Let_def n_def)
    have "slot_row tot n k < slot_row tot n l" if "k < l" for k l
      using slot_row_strict [OF 3(2) _ that] that by (cases "n < tot") (auto simp: slot_row_def)
    then have "sorted_wrt (<) ?ks" by (simp add: sorted_wrt_map sorted_wrt_iff_nth_less)
    moreover have "\<forall>k\<in>set ?ks. k < tot" using slot_row_less [OF 3(2,1)] by auto
    moreover have "hd fs = ?rows ! 0" "last fs = ?rows ! (tot - 1)"
    proof -
      have m: "[0..<min tot n] \<noteq> []" "0 < min tot n" using 3 by auto
      then have "last fs = ?rows ! slot_row tot n (last [0..<min tot n])" by (simp add: fs last_map)
      also have "last [0..<min tot n] = min tot n - 1" using m by (subst last_upt) auto
      finally show "last fs = ?rows ! (tot - 1)" using slot_row_bounds [OF 3(2,1)] by simp
      show "hd fs = ?rows ! 0" using m slot_row_bounds [OF 3(2,1)] by (simp add: fs hd_map)
    qed
    moreover have "?rows \<noteq> []" using 3 tot by auto
    ultimately have ends: "hd fs = hd ?rows" "last fs = last ?rows"
      and ks: "sorted_wrt (<) ?ks \<and> (\<forall>k\<in>set ?ks. k < tot) \<and> fs = map ((!) ?rows) ?ks"
      using fs tot by (simp_all add: hd_conv_nth last_conv_nth)
    have "length fs = min tot n" by (simp add: fs)
    then show ?thesis using ks ends tot by blast
  qed
qed

theorem session_sample_spread_witness:
  "hd (snd (session_frame_sample 7 2 \<lparr>db_frames = map (\<lambda>k. sample_row k k (Some 7)) [1..5], db_sessions = [], db_artifacts = []\<rparr>))
     = sample_row 1 1 (Some 7)"
proof -
  let ?db = "\<lparr>db_frames = map (\<lambda>k. sample_row k k (Some 7)) [1..5], db_sessions = [], db_artifacts = []\<rparr>"
  have "fst (session_frame_sample 7 2 ?db) = 5" "hd (frames_of_session 7 ?db) = sample_row 1 1 (Some 7)" by code_simp+
  moreover have "(2::nat) \<le> min 2 max_session_frame_sample" by (simp add: max_session_frame_sample_def)
  ultimately show ?thesis
    using session_sample_spread [OF prod.collapse [symmetric], of 7 2 ?db] by simp
qed

end
