(* ===== verification/Taxonomy.thy ===== *)
theory Taxonomy
  imports Session_Types
begin

text \<open>
  Tool recognition (\<open>crates/sessions/src/taxonomy.rs\<close>): validation of the bundled document's
  entries and first-match recognition. TOML decoding (the \<open>toml\<close> crate) yields the raw entries
  taken as input here; \<open>str::to_lowercase\<close>, which needs Unicode's case tables, is the parameter
  \<open>lower\<close>.
\<close>

section \<open>Entries\<close>

record recognized =
  rc_id :: ustr
  rc_kind :: session_kind
  rc_host :: "session_host option"

record entry =
  en_id :: ustr
  en_kind :: session_kind
  en_host :: "session_host option"
  en_app_hints :: "ustr list"
  en_title_patterns :: "ustr list"
  en_title_prefix_ranges :: "ustr list"
  en_title_exclude_patterns :: "ustr list"
  en_domains :: "ustr list"
  en_prefix_ranges :: "(int \<times> int) list"

record raw_taxonomy =
  rt_version :: nat
  rt_entries :: "entry list"

record taxonomy =
  tx_version :: nat
  tx_entries :: "entry list"

datatype tax_error =
    UnsupportedVersion nat
  | EmptyId
  | NoEvidence ustr
  | InvalidHex ustr
  | NotScalar ustr
  | LoAboveHi ustr

section \<open>Parsing\<close>

definition normalize_stem :: "ustr \<Rightarrow> ustr" where
  "normalize_stem value =
     (let lower = to_ascii_lowercase (trim value)
      in case strip_suffix lower (lit ''.exe'') of None \<Rightarrow> lower | Some s \<Rightarrow> s)"

definition hex_digit :: "uchar \<Rightarrow> int option" where
  "hex_digit c =
     (if 48 \<le> c \<and> c \<le> 57 then Some (c - 48)
      else if 97 \<le> c \<and> c \<le> 102 then Some (c - 87)
      else if 65 \<le> c \<and> c \<le> 70 then Some (c - 55) else None)"

fun hex_value :: "int \<Rightarrow> ustr \<Rightarrow> int option" where
  "hex_value acc [] = Some acc"
| "hex_value acc (c # s) =
     (case hex_digit c of None \<Rightarrow> None
      | Some d \<Rightarrow> if acc * 16 + d \<le> u32_max then hex_value (acc * 16 + d) s else None)"

text \<open>\<open>u32::from_str_radix(_, 16)\<close>: one leading plus sign is accepted, an empty digit string is not.\<close>

definition u32_from_hex :: "ustr \<Rightarrow> int option" where
  "u32_from_hex s =
     (case s of [] \<Rightarrow> None
      | c # t \<Rightarrow> if c = 43 then (if t = [] then None else hex_value 0 t) else hex_value 0 s)"

definition is_scalar :: "int \<Rightarrow> bool" where
  "is_scalar n \<longleftrightarrow> 0 \<le> n \<and> n \<le> 1114111 \<and> \<not> (55296 \<le> n \<and> n \<le> 57343)"

definition parse_hex_scalar :: "ustr \<Rightarrow> tax_error + int" where
  "parse_hex_scalar value =
     (let v = trim value
      in bind_r (ok_or (InvalidHex v) (u32_from_hex v)) (\<lambda>scalar.
         if is_scalar scalar then Inr scalar else Inl (NotScalar v)))"

definition parse_prefix_range :: "ustr \<Rightarrow> tax_error + (int \<times> int)" where
  "parse_prefix_range raw =
     (let spec = trim raw
      in bind_r
          (case split_once spec (lit ''-'') of
             Some (lo, hi) \<Rightarrow>
               bind_r (parse_hex_scalar lo) (\<lambda>l. bind_r (parse_hex_scalar hi) (\<lambda>h. Inr (l, h)))
           | None \<Rightarrow> bind_r (parse_hex_scalar spec) (\<lambda>v. Inr (v, v)))
          (\<lambda>(lo, hi). if hi < lo then Inl (LoAboveHi spec) else Inr (lo, hi)))"

definition parse_prefix_ranges :: "ustr list \<Rightarrow> tax_error + (int \<times> int) list" where
  "parse_prefix_ranges specs = map_r parse_prefix_range specs"

definition parse_entry :: "(ustr \<Rightarrow> ustr) \<Rightarrow> entry \<Rightarrow> tax_error + entry" where
  "parse_entry lower e =
     (if trim (en_id e) = [] then Inl EmptyId
      else if en_app_hints e = [] \<and> en_title_patterns e = [] \<and> en_title_prefix_ranges e = []
      then Inl (NoEvidence (en_id e))
      else bind_r (parse_prefix_ranges (en_title_prefix_ranges e)) (\<lambda>ranges.
        Inr (e\<lparr>en_app_hints := map normalize_stem (en_app_hints e),
               en_title_patterns := map lower (en_title_patterns e),
               en_title_exclude_patterns := map lower (en_title_exclude_patterns e),
               en_prefix_ranges := ranges\<rparr>)))"

definition parse_taxonomy :: "(ustr \<Rightarrow> ustr) \<Rightarrow> raw_taxonomy \<Rightarrow> tax_error + taxonomy" where
  "parse_taxonomy lower raw =
     (if rt_version raw \<noteq> 3 then Inl (UnsupportedVersion (rt_version raw))
      else bind_r (map_r (parse_entry lower) (rt_entries raw)) (\<lambda>es.
        Inr \<lparr>tx_version = rt_version raw, tx_entries = es\<rparr>))"

section \<open>Recognition\<close>

definition app_ok :: "entry \<Rightarrow> ustr option \<Rightarrow> bool" where
  "app_ok e app \<longleftrightarrow> en_app_hints e = []
     \<or> (case app of None \<Rightarrow> False | Some a \<Rightarrow> a \<in> set (en_app_hints e))"

definition title_ok :: "entry \<Rightarrow> ustr option \<Rightarrow> uchar option \<Rightarrow> bool" where
  "title_ok e title prefix_char \<longleftrightarrow>
     (en_title_patterns e = [] \<and> en_prefix_ranges e = [])
     \<or> (case title of None \<Rightarrow> False | Some t \<Rightarrow> list_ex (contains t) (en_title_patterns e))
     \<or> (case prefix_char of None \<Rightarrow> False
        | Some c \<Rightarrow> list_ex (\<lambda>(lo, hi). lo \<le> c \<and> c \<le> hi) (en_prefix_ranges e))"

definition excluded :: "entry \<Rightarrow> ustr option \<Rightarrow> bool" where
  "excluded e title \<longleftrightarrow>
     (case title of None \<Rightarrow> False | Some t \<Rightarrow> list_ex (contains t) (en_title_exclude_patterns e))"

fun first_match :: "entry list \<Rightarrow> ustr option \<Rightarrow> ustr option \<Rightarrow> uchar option \<Rightarrow> recognized option" where
  "first_match [] app title pc = None"
| "first_match (e # es) app title pc =
     (if app_ok e app \<and> title_ok e title pc \<and> \<not> excluded e title
      then Some \<lparr>rc_id = en_id e, rc_kind = en_kind e, rc_host = en_host e\<rparr>
      else first_match es app title pc)"

definition recognize ::
  "(ustr \<Rightarrow> ustr) \<Rightarrow> taxonomy \<Rightarrow> ustr option \<Rightarrow> ustr option \<Rightarrow> recognized option" where
  "recognize lower tax app_hint title_hint =
     (let app = map_option normalize_stem app_hint;
          title = map_option lower title_hint
      in if app = None \<and> title = None then None
         else first_match (tx_entries tax) app title
                (Option.bind title (List.find (\<lambda>c. \<not> is_ws c))))"

section \<open>Facts\<close>

definition wf_entry :: "entry \<Rightarrow> bool" where
  "wf_entry e \<longleftrightarrow> trim (en_id e) \<noteq> []
     \<and> (en_app_hints e \<noteq> [] \<or> en_title_patterns e \<noteq> [] \<or> en_prefix_ranges e \<noteq> [])
     \<and> list_all (\<lambda>(lo, hi). lo \<le> hi \<and> is_scalar lo \<and> is_scalar hi) (en_prefix_ranges e)"

lemma parse_hex_scalar_scalar: "parse_hex_scalar v = Inr n \<Longrightarrow> is_scalar n"
  by (auto simp: parse_hex_scalar_def Let_def bind_r_Inr split: if_splits)

lemma parse_prefix_range_wf:
  "parse_prefix_range s = Inr (lo, hi) \<Longrightarrow> lo \<le> hi \<and> is_scalar lo \<and> is_scalar hi"
  by (auto simp: parse_prefix_range_def Let_def bind_r_Inr
      dest: parse_hex_scalar_scalar split: if_splits option.splits prod.splits)

lemma parse_prefix_ranges_wf:
  assumes "parse_prefix_ranges ss = Inr rs"
  shows "length rs = length ss \<and> list_all (\<lambda>(lo, hi). lo \<le> hi \<and> is_scalar lo \<and> is_scalar hi) rs"
proof -
  have rel: "list_all2 (\<lambda>x y. parse_prefix_range x = Inr y) ss rs"
    using assms by (simp add: parse_prefix_ranges_def map_r_Inr)
  then have "\<forall>r\<in>set rs. \<exists>s. parse_prefix_range s = Inr r"
    by (induction rule: list_all2_induct) auto
  then have "list_all (\<lambda>(lo, hi). lo \<le> hi \<and> is_scalar lo \<and> is_scalar hi) rs"
    by (auto simp: list_all_iff dest: parse_prefix_range_wf)
  with rel show ?thesis by (simp add: list_all2_lengthD)
qed

lemma parse_entry_wf: "parse_entry lower e = Inr e' \<Longrightarrow> wf_entry e'"
  using parse_prefix_ranges_wf
  by (fastforce simp: parse_entry_def wf_entry_def bind_r_Inr split: if_splits)

lemma parse_taxonomy_wf:
  assumes "parse_taxonomy lower raw = Inr t"
  shows "tx_version t = 3 \<and> length (tx_entries t) = length (rt_entries raw)
     \<and> (\<forall>e\<in>set (tx_entries t). wf_entry e)"
proof -
  from assms obtain es where v: "rt_version raw = 3"
    and es: "list_all2 (\<lambda>x y. parse_entry lower x = Inr y) (rt_entries raw) es"
    and t: "t = \<lparr>tx_version = 3, tx_entries = es\<rparr>"
    by (auto simp: parse_taxonomy_def bind_r_Inr map_r_Inr split: if_splits)
  from es have "\<forall>e\<in>set es. wf_entry e"
    by (induction rule: list_all2_induct) (auto dest: parse_entry_wf)
  with t es show ?thesis by (simp add: list_all2_lengthD)
qed

section \<open>Properties\<close>

text \<open>A taxonomy that parses is version 3 with every entry in place, and each entry is well formed: a
  non-blank id, some positive evidence, and prefix ranges of Unicode scalar values in order.\<close>

theorem parsed_taxonomy_wf:
  assumes "parse_taxonomy lower raw = Inr t"
  shows "tx_version t = 3 \<and> map en_id (tx_entries t) = map en_id (rt_entries raw)
     \<and> list_all (\<lambda>e. trim (en_id e) \<noteq> []
         \<and> (en_app_hints e \<noteq> [] \<or> en_title_patterns e \<noteq> [] \<or> en_prefix_ranges e \<noteq> [])
         \<and> list_all (\<lambda>(lo, hi). lo \<le> hi \<and> is_scalar lo \<and> is_scalar hi) (en_prefix_ranges e)) (tx_entries t)"
proof -
  from assms have "list_all2 (\<lambda>x y. parse_entry lower x = Inr y) (rt_entries raw) (tx_entries t)"
    by (auto simp: parse_taxonomy_def bind_r_Inr map_r_Inr split: if_splits)
  then have "map en_id (tx_entries t) = map en_id (rt_entries raw)"
    by (induction rule: list_all2_induct) (auto simp: parse_entry_def bind_r_Inr split: if_splits)
  with parse_taxonomy_wf [OF assms] show ?thesis by (simp add: list_all_iff wf_entry_def)
qed

definition sample_raw :: raw_taxonomy where
  "sample_raw = \<lparr>rt_version = 3, rt_entries =
     [\<lparr>en_id = lit ''claude'', en_kind = Ai, en_host = Some Terminal, en_app_hints = [lit '' Term.EXE''],
        en_title_patterns = [], en_title_prefix_ranges = [lit '' 2800-28FF'', lit ''2733''],
        en_title_exclude_patterns = [lit ''classic''], en_domains = [], en_prefix_ranges = []\<rparr>]\<rparr>"

lemma sample_raw_parses:
  "map_sum id (\<lambda>t. map en_prefix_ranges (tx_entries t)) (parse_taxonomy id sample_raw)
     = Inr [[(10240, 10495), (10035, 10035)]]"
  by code_simp

theorem parsed_taxonomy_wf_witness:
  "\<exists>t. parse_taxonomy id sample_raw = Inr t \<and> map en_id (tx_entries t) = [lit ''claude'']"
proof -
  obtain t where t: "parse_taxonomy id sample_raw = Inr t"
    using sample_raw_parses by (cases "parse_taxonomy id sample_raw") auto
  with parsed_taxonomy_wf [OF t] show ?thesis by (simp add: sample_raw_def)
qed

definition entry_matches :: "entry \<Rightarrow> ustr option \<Rightarrow> ustr option \<Rightarrow> bool" where
  "entry_matches e app title \<longleftrightarrow> app_ok e app
     \<and> title_ok e title (Option.bind title (List.find (\<lambda>c. \<not> is_ws c))) \<and> \<not> excluded e title"

lemma first_match_find:
  "first_match es app title pc =
     map_option (\<lambda>e. \<lparr>rc_id = en_id e, rc_kind = en_kind e, rc_host = en_host e\<rparr>)
       (List.find (\<lambda>e. app_ok e app \<and> title_ok e title pc \<and> \<not> excluded e title) es)"
  by (induction es) auto

lemma find_first:
  "List.find P es = Some e \<longleftrightarrow> (\<exists>i < length es. e = es ! i \<and> P e \<and> (\<forall>j < i. \<not> P (es ! j)))"
  by (auto simp: find_Some_iff)

text \<open>Recognition is first match in file order: the answer is the identity of the first entry whose app
  hint and title evidence hold and whose exclusions do not, and there is none exactly when no entry
  matches or the frame has neither application nor title.\<close>

theorem recognize_first_match:
  "recognize lower tax app title = Some r \<longleftrightarrow>
     (app \<noteq> None \<or> title \<noteq> None) \<and>
     (\<exists>i < length (tx_entries tax). r = \<lparr>rc_id = en_id (tx_entries tax ! i),
            rc_kind = en_kind (tx_entries tax ! i), rc_host = en_host (tx_entries tax ! i)\<rparr>
        \<and> entry_matches (tx_entries tax ! i) (map_option normalize_stem app) (map_option lower title)
        \<and> (\<forall>j < i. \<not> entry_matches (tx_entries tax ! j) (map_option normalize_stem app) (map_option lower title)))"
  (is "?L \<longleftrightarrow> ?R")
proof -
  let ?a = "map_option normalize_stem app" and ?t = "map_option lower title"
  let ?P = "\<lambda>e. entry_matches e ?a ?t"
  let ?out = "\<lambda>e. \<lparr>rc_id = en_id e, rc_kind = en_kind e, rc_host = en_host e\<rparr>"
  have "recognize lower tax app title =
      (if app = None \<and> title = None then None else map_option ?out (List.find ?P (tx_entries tax)))"
    by (simp add: recognize_def Let_def entry_matches_def first_match_find)
  then show ?thesis by (auto simp: find_first)
qed

definition sample_entries :: taxonomy where
  "sample_entries = \<lparr>tx_version = 3, tx_entries =
     map (\<lambda>(i, h, p, x). \<lparr>en_id = lit i, en_kind = Ai, en_host = None, en_app_hints = [lit h],
         en_title_patterns = p, en_title_prefix_ranges = [], en_title_exclude_patterns = x,
         en_domains = [], en_prefix_ranges = []\<rparr>)
       [(''codex'', ''chatgpt'', [], [lit ''classic'']), (''chatgpt'', ''chatgpt'', [], [])]\<rparr>"

theorem recognize_first_match_witness:
  "recognize id sample_entries (Some (lit ''ChatGPT.exe'')) (Some (lit ''a classic''))
     = Some \<lparr>rc_id = lit ''chatgpt'', rc_kind = Ai, rc_host = None\<rparr>
   \<and> \<not> entry_matches (tx_entries sample_entries ! 0) (Some (lit ''chatgpt'')) (Some (lit ''a classic''))"
proof
  let ?app = "lit ''ChatGPT.exe''" and ?title = "lit ''a classic''"
  have no: "\<not> entry_matches (tx_entries sample_entries ! 0) (Some (lit ''chatgpt'')) (Some ?title)" by code_simp
  then show "\<not> entry_matches (tx_entries sample_entries ! 0) (Some (lit ''chatgpt'')) (Some ?title)" .
  have "entry_matches (tx_entries sample_entries ! 1) (Some (lit ''chatgpt'')) (Some ?title)" by code_simp
  moreover have "normalize_stem ?app = lit ''chatgpt''" by code_simp
  ultimately show "recognize id sample_entries (Some ?app) (Some ?title)
      = Some \<lparr>rc_id = lit ''chatgpt'', rc_kind = Ai, rc_host = None\<rparr>"
    unfolding recognize_first_match using no
    by (intro conjI exI [of _ 1]) (auto simp: sample_entries_def less_Suc_eq)
qed

end
