(* ===== verification/Seg_Micro.thy ===== *)
theory Seg_Micro
  imports Taxonomy
begin

text \<open>
  First pass of the segmenter (\<open>crates/sessions/src/segmenter.rs\<close>): frames become raw segments
  of one context key, and segments become micro-spans, a later segment of the same key being
  absorbed over an interruption that no sustained other context fills. The index and
  \<open>consumed\<close> bookkeeping is the source's; \<open>micros_blocks\<close> shows that it cuts the segments into
  consecutive blocks, so every keyed frame lands in exactly one micro-sp.
\<close>

section \<open>Data\<close>

record segment =
  sg_key :: ustr
  sg_recognition :: "recognized option"
  sg_first_ts :: int
  sg_last_ts :: int
  sg_first_id :: int
  sg_frame_ids :: "int list"

record micro_span =
  ms_key :: ustr
  ms_recognition :: "recognized option"
  ms_first_ts :: int
  ms_last_ts :: int
  ms_first_id :: int
  ms_frame_ids :: "int list"

datatype identity = IdAi ustr | IdMeeting ustr | IdNone

definition identity_of :: "micro_span \<Rightarrow> identity" where
  "identity_of sp = (case ms_recognition sp of
     Some r \<Rightarrow> if rc_kind r = Ai then IdAi (rc_id r)
               else if rc_kind r = Meeting then IdMeeting (rc_id r) else IdNone
   | None \<Rightarrow> IdNone)"

definition free_identity :: "micro_span \<Rightarrow> identity" where
  "free_identity sp = (case identity_of sp of IdMeeting _ \<Rightarrow> IdNone | other \<Rightarrow> other)"

definition duration :: "micro_span \<Rightarrow> int" where
  "duration sp = max (ms_last_ts sp - ms_first_ts sp) 0"

text \<open>Rust's \<open>/\<close> truncates towards zero.\<close>

definition trunc_half :: "int \<Rightarrow> int" where
  "trunc_half x = (if x < 0 then - ((- x) div 2) else x div 2)"

definition midpoint :: "micro_span \<Rightarrow> int" where
  "midpoint sp = ms_first_ts sp + trunc_half (ms_last_ts sp - ms_first_ts sp)"

definition stem_of :: "micro_span \<Rightarrow> ustr" where
  "stem_of sp = hd (split_on (\<lambda>c. c = 124) (ms_key sp))"

section \<open>Context of a frame\<close>

definition browser_domain :: "ustr option \<Rightarrow> ustr option" where
  "browser_domain url_opt = (case url_opt of None \<Rightarrow> None | Some raw \<Rightarrow>
     (let url = trim raw in
      if url = [] then None
      else (let after_scheme = (case split_once url (lit ''://'') of None \<Rightarrow> url | Some (_, rest) \<Rightarrow> rest);
                host0 = hd (split_on (\<lambda>c. c \<in> set (lit ''/?:#'')) after_scheme);
                host = trim (case strip_prefix host0 (lit ''www.'') of None \<Rightarrow> host0 | Some h \<Rightarrow> h)
            in if host \<noteq> [] then Some (to_ascii_lowercase host) else None)))"

definition trim_end_bars :: "ustr \<Rightarrow> ustr" where
  "trim_end_bars s = rev (dropWhile (\<lambda>c. c = 124) (rev s))"

definition context_of ::
  "(ustr \<Rightarrow> ustr) \<Rightarrow> taxonomy \<Rightarrow> segmenter_frame \<Rightarrow> (ustr \<times> recognized option) option" where
  "context_of lower tax frame = (case sf_app_hint frame of None \<Rightarrow> None | Some hint \<Rightarrow>
     (let app0 = trim hint in
      if app0 = [] then None
      else (let app = to_ascii_lowercase app0;
                domain = (case browser_domain (sf_browser_url frame) of None \<Rightarrow> [] | Some d \<Rightarrow> d);
                recognition = recognize lower tax (sf_app_hint frame) (sf_window_title frame);
                ident = (case recognition of None \<Rightarrow> [] | Some r \<Rightarrow> rc_id r)
            in Some (trim_end_bars (app @ lit ''|'' @ domain @ lit ''|'' @ ident), recognition))))"

section \<open>Raw segments\<close>

definition push_segment ::
  "(ustr \<Rightarrow> ustr) \<Rightarrow> taxonomy \<Rightarrow> segmentation_params \<Rightarrow> segment list \<Rightarrow> segmenter_frame \<Rightarrow> segment list"
where
  "push_segment lower tax params segs frame =
     (case context_of lower tax frame of None \<Rightarrow> segs
      | Some (key, recognition) \<Rightarrow>
          if segs \<noteq> [] \<and> sg_key (last segs) = key
             \<and> sf_captured_at frame - sg_last_ts (last segs) < gap_close_ms params
          then butlast segs @ [(last segs)\<lparr>sg_last_ts := sf_captured_at frame,
                                           sg_frame_ids := sg_frame_ids (last segs) @ [sf_id frame]\<rparr>]
          else segs @ [\<lparr>sg_key = key, sg_recognition = recognition,
                        sg_first_ts = sf_captured_at frame, sg_last_ts = sf_captured_at frame,
                        sg_first_id = sf_id frame, sg_frame_ids = [sf_id frame]\<rparr>])"

definition ordered_frames :: "segmenter_frame list \<Rightarrow> segmenter_frame list" where
  "ordered_frames frames = sort_key (\<lambda>f. (sf_captured_at f, sf_id f)) frames"

definition raw_segments ::
  "(ustr \<Rightarrow> ustr) \<Rightarrow> taxonomy \<Rightarrow> segmentation_params \<Rightarrow> segmenter_frame list \<Rightarrow> segment list" where
  "raw_segments lower tax params frames =
     foldl (push_segment lower tax params) [] (ordered_frames frames)"

section \<open>Interruptions\<close>

definition widen_span :: "(ustr \<times> int \<times> int) list \<Rightarrow> segment \<Rightarrow> (ustr \<times> int \<times> int) list" where
  "widen_span spans s =
     (let entry = (case map_of spans (sg_key s) of None \<Rightarrow> (sg_first_ts s, sg_last_ts s) | Some e \<Rightarrow> e)
      in AList.update (sg_key s) (min (fst entry) (sg_first_ts s), max (snd entry) (sg_last_ts s)) spans)"

definition gap_has_sustained_interrupter :: "segment list \<Rightarrow> int \<Rightarrow> bool" where
  "gap_has_sustained_interrupter gap min_len =
     list_ex (\<lambda>(_, first, last). min_len \<le> last - first) (foldl widen_span [] gap)"

section \<open>Micro-spans\<close>

definition next_same_key :: "segment list \<Rightarrow> ustr \<Rightarrow> nat \<Rightarrow> nat option" where
  "next_same_key segs key last_segment =
     List.find (\<lambda>i. sg_key (segs ! i) = key) [Suc last_segment..<length segs]"

lemma find_upt_Some: "List.find P [a..<b] = Some i \<Longrightarrow> a \<le> i \<and> i < b \<and> P i"
  by (auto simp: find_Some_iff)

lemma next_same_key_bounds:
  "next_same_key segs key l = Some i \<Longrightarrow> l < i \<and> i < length segs \<and> sg_key (segs ! i) = key"
  by (auto simp: next_same_key_def dest!: find_upt_Some)

definition breaks_run :: "segmentation_params \<Rightarrow> segment list \<Rightarrow> nat \<Rightarrow> nat \<Rightarrow> bool" where
  "breaks_run params segs last_segment nxt \<longleftrightarrow>
     gap_close_ms params \<le> sg_first_ts (segs ! nxt) - sg_last_ts (segs ! last_segment)
     \<or> gap_has_sustained_interrupter (slice (Suc last_segment) nxt segs) (min_len_ms params)"

definition mark :: "nat \<Rightarrow> nat \<Rightarrow> bool list \<Rightarrow> bool list" where
  "mark i j bs = foldl (\<lambda>b k. b[k := True]) bs [i..<Suc j]"

text \<open>The inner \<open>while let\<close>: absorb later segments of the run's key until one is out of reach.\<close>

function extend_micro ::
  "segmentation_params \<Rightarrow> segment list \<Rightarrow> ustr \<Rightarrow> nat \<Rightarrow> bool list \<Rightarrow> int \<Rightarrow> int list
     \<Rightarrow> bool list \<times> int \<times> int list" where
  "extend_micro params segs key last_segment consumed last_ts ids =
     (case next_same_key segs key last_segment of
        None \<Rightarrow> (consumed, last_ts, ids)
      | Some nxt \<Rightarrow>
          if breaks_run params segs last_segment nxt then (consumed, last_ts, ids)
          else extend_micro params segs key nxt (mark (Suc last_segment) nxt consumed)
                 (sg_last_ts (segs ! nxt))
                 (ids @ concat (map sg_frame_ids (slice (Suc last_segment) (Suc nxt) segs))))"
  by pat_completeness auto
termination
  by (relation "measure (\<lambda>(_, segs, _, l, _). length segs - l)") (auto dest!: next_same_key_bounds)

declare extend_micro.simps [simp del]

definition micro_step ::
  "segmentation_params \<Rightarrow> segment list \<Rightarrow> bool list \<times> micro_span list \<Rightarrow> nat
     \<Rightarrow> bool list \<times> micro_span list" where
  "micro_step params segs st start = (case st of (consumed, micros) \<Rightarrow>
     if consumed ! start then st
     else (let s = segs ! start;
               (consumed', last_ts, ids) =
                 extend_micro params segs (sg_key s) start (consumed[start := True])
                   (sg_last_ts s) (sg_frame_ids s)
           in (consumed', micros @ [\<lparr>ms_key = sg_key s, ms_recognition = sg_recognition s,
                 ms_first_ts = sg_first_ts s, ms_last_ts = last_ts,
                 ms_first_id = sg_first_id s, ms_frame_ids = ids\<rparr>])))"

definition consolidate :: "segmentation_params \<Rightarrow> segment list \<Rightarrow> micro_span list" where
  "consolidate params segs =
     snd (foldl (micro_step params segs) (replicate (length segs) False, []) [0..<length segs])"

definition segment_micro ::
  "(ustr \<Rightarrow> ustr) \<Rightarrow> taxonomy \<Rightarrow> segmentation_params \<Rightarrow> segmenter_frame list \<Rightarrow> micro_span list" where
  "segment_micro lower tax params frames =
     sort_key (\<lambda>s. (ms_first_ts s, ms_first_id s)) (consolidate params (raw_segments lower tax params frames))"

section \<open>Every keyed frame is in exactly one segment\<close>

definition keyed :: "(ustr \<Rightarrow> ustr) \<Rightarrow> taxonomy \<Rightarrow> segmenter_frame \<Rightarrow> bool" where
  "keyed lower tax f \<longleftrightarrow> context_of lower tax f \<noteq> None"

lemma push_segment_ids:
  "concat (map sg_frame_ids (push_segment lower tax params segs f)) =
     concat (map sg_frame_ids segs) @ (if keyed lower tax f then [sf_id f] else [])"
  by (cases segs rule: rev_cases) (auto simp: push_segment_def keyed_def split: option.splits prod.splits)

lemma foldl_push_segment_ids:
  "concat (map sg_frame_ids (foldl (push_segment lower tax params) segs fs)) =
     concat (map sg_frame_ids segs) @ map sf_id (filter (keyed lower tax) fs)"
  by (induction fs arbitrary: segs) (simp_all add: push_segment_ids)

lemma raw_segments_ids:
  "concat (map sg_frame_ids (raw_segments lower tax params frames)) =
     map sf_id (filter (keyed lower tax) (ordered_frames frames))"
  by (simp add: raw_segments_def foldl_push_segment_ids)

text \<open>Segments are non-empty in time and follow each other.\<close>

definition time_ordered :: "segment list \<Rightarrow> bool" where
  "time_ordered segs \<longleftrightarrow> (\<forall>s\<in>set segs. sg_first_ts s \<le> sg_last_ts s)
     \<and> sorted_wrt (\<lambda>a b. sg_last_ts a \<le> sg_first_ts b) segs"

lemma push_segment_time_ordered:
  assumes "time_ordered segs" and "\<forall>s\<in>set segs. sg_last_ts s \<le> sf_captured_at f"
  shows "time_ordered (push_segment lower tax params segs f)
     \<and> (\<forall>s\<in>set (push_segment lower tax params segs f). sg_last_ts s \<le> sf_captured_at f)"
proof (cases "context_of lower tax f")
  case None
  with assms show ?thesis by (simp add: push_segment_def)
next
  case (Some kr)
  obtain key rec where kr: "kr = (key, rec)" by fastforce
  show ?thesis
  proof (cases segs rule: rev_cases)
    case Nil
    with Some kr show ?thesis by (simp add: push_segment_def time_ordered_def)
  next
    case (snoc ss s)
    with assms have "sg_first_ts s \<le> sf_captured_at f" by (fastforce simp: time_ordered_def)
    with snoc Some kr assms show ?thesis
      by (auto simp: push_segment_def time_ordered_def sorted_wrt_append)
  qed
qed

lemma foldl_push_segment_time_ordered:
  assumes "sorted_wrt (\<lambda>a b. sf_captured_at a \<le> sf_captured_at b) fs" and "time_ordered segs"
    and "\<forall>s\<in>set segs. \<forall>f\<in>set fs. sg_last_ts s \<le> sf_captured_at f"
  shows "time_ordered (foldl (push_segment lower tax params) segs fs)"
  using assms
proof (induction fs arbitrary: segs)
  case (Cons f fs)
  have step: "time_ordered (push_segment lower tax params segs f)"
    "\<forall>s\<in>set (push_segment lower tax params segs f). sg_last_ts s \<le> sf_captured_at f"
    using push_segment_time_ordered [of segs f] Cons.prems by auto
  have "\<forall>s\<in>set (push_segment lower tax params segs f). \<forall>g\<in>set fs. sg_last_ts s \<le> sf_captured_at g"
    using step(2) Cons.prems(1) by (meson order_trans sorted_wrt.simps(2))
  then show ?case using Cons.IH [OF _ step(1)] Cons.prems(1) by simp
qed simp

lemma ordered_frames_sorted:
  "sorted_wrt (\<lambda>a b. sf_captured_at a \<le> sf_captured_at b) (ordered_frames frames)"
  using sorted_wrt_sort_key [of "\<lambda>f. (sf_captured_at f, sf_id f)" frames]
  unfolding ordered_frames_def by (rule sorted_wrt_mono_rel [rotated]) (auto simp: less_eq_prod_def)

lemma raw_segments_time_ordered: "time_ordered (raw_segments lower tax params frames)"
  unfolding raw_segments_def
  by (rule foldl_push_segment_time_ordered) (simp_all add: ordered_frames_sorted time_ordered_def)

section \<open>Micro-spans are consecutive blocks of segments\<close>

definition block_of :: "segment list \<Rightarrow> micro_span \<Rightarrow> bool" where
  "block_of b m \<longleftrightarrow> b \<noteq> [] \<and> ms_key m = sg_key (hd b) \<and> sg_key (last b) = sg_key (hd b)
     \<and> ms_recognition m = sg_recognition (hd b)
     \<and> ms_first_ts m = sg_first_ts (hd b) \<and> ms_last_ts m = sg_last_ts (last b)
     \<and> ms_first_id m = sg_first_id (hd b) \<and> ms_frame_ids m = concat (map sg_frame_ids b)"

lemma foldl_mark_nth:
  "k < length bs \<Longrightarrow> foldl (\<lambda>b k. b[k := True]) bs ks ! k = (bs ! k \<or> k \<in> set ks)
     \<and> length (foldl (\<lambda>b k. b[k := True]) bs ks) = length bs"
proof (induction ks arbitrary: bs)
  case (Cons a ks)
  then show ?case by (cases "a = k") simp_all
qed simp

lemma length_mark [simp]: "length (mark i j bs) = length bs"
proof -
  have "length (foldl (\<lambda>b k. b[k := True]) bs ks) = length bs" for ks
    by (induction ks arbitrary: bs) auto
  then show ?thesis by (simp add: mark_def)
qed

lemma mark_prefix:
  assumes "l < length bs" "l \<le> e" "e < length bs"
    and "bs = replicate (Suc l) True @ replicate (length bs - Suc l) False"
  shows "mark (Suc l) e bs = replicate (Suc e) True @ replicate (length bs - Suc e) False"
proof (rule nth_equalityI)
  show "length (mark (Suc l) e bs) = length (replicate (Suc e) True @ replicate (length bs - Suc e) False)"
    using assms by simp
next
  fix k assume k: "k < length (mark (Suc l) e bs)"
  then have kb: "k < length bs" by simp
  then have "mark (Suc l) e bs ! k = (bs ! k \<or> k \<in> set [Suc l..<Suc e])"
    using foldl_mark_nth [of k bs "[Suc l..<Suc e]"] by (simp add: mark_def del: upt_Suc)
  moreover have "bs ! k = (k \<le> l)"
    using kb by (subst assms(4)) (auto simp: nth_append simp del: replicate.simps)
  ultimately show "mark (Suc l) e bs ! k =
      (replicate (Suc e) True @ replicate (length bs - Suc e) False) ! k"
    using kb assms(2) by (auto simp: nth_append simp del: replicate.simps)
qed

definition consumed_upto :: "nat \<Rightarrow> nat \<Rightarrow> bool list" where
  "consumed_upto n e = replicate e True @ replicate (n - e) False"

lemma slice_append:
  "i \<le> j \<Longrightarrow> j \<le> k \<Longrightarrow> slice i j xs @ slice j k xs = slice i k xs"
proof -
  assume "i \<le> j" "j \<le> k"
  then obtain m n where "j = i + m" "k = i + m + n" by (metis le_Suc_ex)
  then show ?thesis by (simp add: slice_def take_add add.commute)
qed

lemma extend_micro_block:
  assumes "l < length segs" "consumed = consumed_upto (length segs) (Suc l)"
    and "sg_key (segs ! l) = key"
  shows "\<exists>e. l \<le> e \<and> e < length segs \<and> sg_key (segs ! e) = key
    \<and> extend_micro params segs key l consumed (sg_last_ts (segs ! l)) ids =
        (consumed_upto (length segs) (Suc e), sg_last_ts (segs ! e),
         ids @ concat (map sg_frame_ids (slice (Suc l) (Suc e) segs)))"
  using assms
proof (induction "length segs - l" arbitrary: l consumed ids rule: less_induct)
  case less
  show ?case
  proof (cases "\<exists>nxt. next_same_key segs key l = Some nxt \<and> \<not> breaks_run params segs l nxt")
    case False
    then have "extend_micro params segs key l consumed (sg_last_ts (segs ! l)) ids =
        (consumed, sg_last_ts (segs ! l), ids)"
      by (subst extend_micro.simps) (auto split: option.splits)
    with less.prems show ?thesis by (intro exI [of _ l]) (simp add: slice_def)
  next
    case True
    then obtain nxt where nxt: "next_same_key segs key l = Some nxt" "\<not> breaks_run params segs l nxt"
      by blast
    note b = next_same_key_bounds [OF nxt(1)]
    have m: "mark (Suc l) nxt consumed = consumed_upto (length segs) (Suc nxt)"
      using less.prems b mark_prefix [of l consumed nxt] by (auto simp: consumed_upto_def)
    have "length segs - nxt < length segs - l" using b by arith
    then obtain e where e: "nxt \<le> e" "e < length segs" "sg_key (segs ! e) = key"
      "extend_micro params segs key nxt (consumed_upto (length segs) (Suc nxt)) (sg_last_ts (segs ! nxt))
         (ids @ concat (map sg_frame_ids (slice (Suc l) (Suc nxt) segs))) =
       (consumed_upto (length segs) (Suc e), sg_last_ts (segs ! e),
        (ids @ concat (map sg_frame_ids (slice (Suc l) (Suc nxt) segs)))
          @ concat (map sg_frame_ids (slice (Suc nxt) (Suc e) segs)))"
      using less.hyps [OF _ _ refl, of nxt
          "ids @ concat (map sg_frame_ids (slice (Suc l) (Suc nxt) segs))"] b less.prems(1) by auto
    have "concat (map sg_frame_ids (slice (Suc l) (Suc nxt) segs))
        @ concat (map sg_frame_ids (slice (Suc nxt) (Suc e) segs))
        = concat (map sg_frame_ids (slice (Suc l) (Suc e) segs))"
      using b e(1) slice_append [of "Suc l" "Suc nxt" "Suc e" segs]
      by (metis Suc_le_mono concat_append less_imp_le map_append)
    moreover have "extend_micro params segs key l consumed (sg_last_ts (segs ! l)) ids =
        extend_micro params segs key nxt (consumed_upto (length segs) (Suc nxt)) (sg_last_ts (segs ! nxt))
         (ids @ concat (map sg_frame_ids (slice (Suc l) (Suc nxt) segs)))"
      using nxt m by (subst extend_micro.simps) simp
    ultimately show ?thesis using b e by (intro exI [of _ e]) simp
  qed
qed

lemma slice_Suc_Cons: "l < length xs \<Longrightarrow> l \<le> e \<Longrightarrow> xs ! l # slice (Suc l) (Suc e) xs = slice l (Suc e) xs"
  unfolding slice_def by (simp add: Cons_nth_drop_Suc [symmetric] Suc_diff_le)

lemma last_slice: "l \<le> e \<Longrightarrow> e < length xs \<Longrightarrow> last (slice l (Suc e) xs) = xs ! e"
  unfolding slice_def by (subst last_conv_nth) (auto simp: min_def intro!: arg_cong [of _ _ "(!) xs"])

lemma take_slice: "l \<le> e \<Longrightarrow> take l xs @ slice l e xs = take e xs"
  using slice_append [of 0 l e xs] by (simp add: slice_def)

lemma micro_step_block:
  assumes st: "start < length segs" "fst st = consumed_upto (length segs) start"
  shows "\<exists>e m. start \<le> e \<and> e < length segs \<and> block_of (slice start (Suc e) segs) m
     \<and> micro_step params segs st start = (consumed_upto (length segs) (Suc e), snd st @ [m])"
proof -
  let ?s = "segs ! start"
  obtain consumed micros where c: "st = (consumed, micros)" by (cases st)
  have upd: "consumed[start := True] = consumed_upto (length segs) (Suc start)"
    using st c by (intro nth_equalityI)
      (auto simp: consumed_upto_def nth_append nth_list_update simp del: replicate.simps)
  have unmarked: "\<not> consumed ! start" using st c by (simp add: consumed_upto_def nth_append)
  obtain e where e: "start \<le> e" "e < length segs" "sg_key (segs ! e) = sg_key ?s"
    "extend_micro params segs (sg_key ?s) start (consumed_upto (length segs) (Suc start))
       (sg_last_ts ?s) (sg_frame_ids ?s) =
     (consumed_upto (length segs) (Suc e), sg_last_ts (segs ! e),
      sg_frame_ids ?s @ concat (map sg_frame_ids (slice (Suc start) (Suc e) segs)))"
    using extend_micro_block [OF st(1) refl refl] by blast
  define m where "m = \<lparr>ms_key = sg_key ?s, ms_recognition = sg_recognition ?s,
      ms_first_ts = sg_first_ts ?s, ms_last_ts = sg_last_ts (segs ! e), ms_first_id = sg_first_id ?s,
      ms_frame_ids = sg_frame_ids ?s @ concat (map sg_frame_ids (slice (Suc start) (Suc e) segs))\<rparr>"
  have sl: "slice start (Suc e) segs = ?s # slice (Suc start) (Suc e) segs"
    using slice_Suc_Cons [OF st(1) e(1)] by simp
  have "block_of (slice start (Suc e) segs) m"
    using last_slice [OF e(1,2)] e(3) by (simp add: block_of_def m_def sl)
  moreover have "micro_step params segs st start = (consumed_upto (length segs) (Suc e), snd st @ [m])"
    using unmarked e(4) by (simp add: micro_step_def c upd m_def Let_def)
  ultimately show ?thesis using e(1,2) by blast
qed

lemma foldl_micro_step_blocks:
  "k \<le> length segs \<Longrightarrow> \<exists>e bs. k \<le> e \<and> e \<le> length segs \<and> concat bs = take e segs
     \<and> fst (foldl (micro_step params segs) (replicate (length segs) False, []) [0..<k])
         = consumed_upto (length segs) e
     \<and> list_all2 block_of bs
         (snd (foldl (micro_step params segs) (replicate (length segs) False, []) [0..<k]))"
proof (induction k)
  case 0
  show ?case by (intro exI [of _ 0] exI [of _ "[]"]) (simp add: consumed_upto_def)
next
  case (Suc k)
  let ?st = "foldl (micro_step params segs) (replicate (length segs) False, []) [0..<k]"
  obtain e bs where IH: "k \<le> e" "e \<le> length segs" "concat bs = take e segs"
    "fst ?st = consumed_upto (length segs) e" "list_all2 block_of bs (snd ?st)"
    using Suc by auto
  have unf: "foldl (micro_step params segs) (replicate (length segs) False, []) [0..<Suc k]
      = micro_step params segs ?st k" by simp
  show ?case
  proof (cases "e = k")
    case True
    with Suc.prems IH(4) obtain e' m where "k \<le> e'" "e' < length segs"
      "block_of (slice k (Suc e') segs) m"
      "micro_step params segs ?st k = (consumed_upto (length segs) (Suc e'), snd ?st @ [m])"
      using micro_step_block [of k segs ?st params] by auto
    then show ?thesis using IH True take_slice [of k "Suc e'" segs]
      by (intro exI [of _ "Suc e'"] exI [of _ "bs @ [slice k (Suc e') segs]"])
        (simp add: unf list_all2_appendI)
  next
    case False
    with IH(1,2) have "consumed_upto (length segs) e ! k"
      by (simp add: consumed_upto_def nth_append)
    then have "micro_step params segs ?st k = ?st"
      using IH(4) by (cases ?st) (simp add: micro_step_def)
    with False IH show ?thesis by (intro exI [of _ e] exI [of _ bs]) (simp add: unf)
  qed
qed

lemma micros_blocks:
  "\<exists>bs. concat bs = segs \<and> list_all2 block_of bs (consolidate params segs)"
  using foldl_micro_step_blocks [of "length segs" segs params] by (auto simp: consolidate_def)

lemma block_ids:
  "list_all2 block_of bs ms \<Longrightarrow> concat (map ms_frame_ids ms) = concat (map sg_frame_ids (concat bs))"
  by (induction rule: list_all2_induct) (simp_all add: block_of_def)

lemma consolidate_ids:
  "concat (map ms_frame_ids (consolidate params segs)) = concat (map sg_frame_ids segs)"
  using micros_blocks [of segs params] block_ids by metis

lemma segment_micro_mset_ids [ids_simps]:
  "mset (concat (map ms_frame_ids (segment_micro lower tax params frames))) =
     mset (map sf_id (filter (keyed lower tax) frames))"
  by (simp only: segment_micro_def mset_concat_map_sort consolidate_ids raw_segments_ids)
    (simp add: ordered_frames_def)

lemma micro_span_time:
  assumes "m \<in> set (segment_micro lower tax params frames)"
  shows "ms_first_ts m \<le> ms_last_ts m"
proof -
  let ?segs = "raw_segments lower tax params frames"
  obtain bs where bs: "concat bs = ?segs" "list_all2 block_of bs (consolidate params ?segs)"
    using micros_blocks by blast
  from assms have "m \<in> set (consolidate params ?segs)" by (simp add: segment_micro_def)
  then obtain b where b: "b \<in> set bs" "block_of b m"
    using bs(2) by (metis in_set_conv_nth list_all2_conv_all_nth)
  then obtain pre post where split: "?segs = pre @ b @ post"
    using bs(1) by (metis concat.simps(2) concat_append split_list)
  have ord: "time_ordered (pre @ b @ post)"
    using raw_segments_time_ordered [of lower tax params frames] by (simp only: split)
  from b(2) obtain x xs where x: "b = x # xs" by (cases b) (auto simp: block_of_def)
  have "sg_first_ts (hd b) \<le> sg_last_ts (last b)"
  proof (cases "xs = []")
    case True
    then show ?thesis using ord x by (simp add: time_ordered_def)
  next
    case False
    then have "last b \<in> set xs" using x by simp
    then have "sg_first_ts x \<le> sg_last_ts x" "sg_last_ts x \<le> sg_first_ts (last b)"
      "sg_first_ts (last b) \<le> sg_last_ts (last b)"
      using ord x by (auto simp: time_ordered_def sorted_wrt_append)
    then show ?thesis using x by simp
  qed
  with b(2) show ?thesis by (simp add: block_of_def)
qed

section \<open>Property\<close>

text \<open>The first pass loses and duplicates nothing: the frame ids of the micro-spans are, with
  multiplicity, those of the frames that carry a context, each micro-span is a run of consecutive raw
  segments that starts and ends with its own key, and no micro-span ends before it starts.\<close>

theorem segment_micro_partition:
  "mset (concat (map ms_frame_ids (segment_micro lower tax params frames)))
     = mset (map sf_id (filter (keyed lower tax) frames))
   \<and> (\<exists>blocks. concat blocks = raw_segments lower tax params frames
        \<and> list_all2 block_of blocks (consolidate params (raw_segments lower tax params frames)))
   \<and> list_all (\<lambda>m. ms_first_ts m \<le> ms_last_ts m) (segment_micro lower tax params frames)"
  using segment_micro_mset_ids micros_blocks micro_span_time by (simp add: list_all_iff)

end
