(* ===== verification/Seg_Bands.thy ===== *)
theory Seg_Bands
  imports Seg_Micro
begin

text \<open>
  Meeting bands (\<open>build_bands\<close> of \<open>crates/sessions/src/segmenter.rs\<close>): the micro-spans of one
  meeting identity chained over short gaps, kept when long enough, and the exclusive assignment
  of every non-AI micro-span to at most one containing band.
\<close>

record band =
  bd_start_ms :: int
  bd_end_ms :: int
  bd_id :: ustr
  bd_host :: "session_host option"
  bd_presence_ms :: int
  bd_absorbed_ms :: int
  bd_frame_ids :: "int list"

definition push_band_if_qualified ::
  "nat list \<Rightarrow> micro_span list \<Rightarrow> ustr \<Rightarrow> segmentation_params \<Rightarrow> band list \<Rightarrow> band list" where
  "push_band_if_qualified chain micros bid params out =
     (if chain = [] then out
      else (let first = micros ! hd chain; lst = micros ! last chain in
        if ms_last_ts lst - ms_first_ts first < focus_min_len_ms params then out
        else out @ [\<lparr>bd_start_ms = ms_first_ts first, bd_end_ms = ms_last_ts lst, bd_id = bid,
               bd_host = Option.bind (ms_recognition first) rc_host,
               bd_presence_ms = sum_list (map (\<lambda>i. duration (micros ! i)) chain),
               bd_absorbed_ms = 0, bd_frame_ids = []\<rparr>]))"

definition band_gt :: "band \<Rightarrow> band \<Rightarrow> bool" where
  "band_gt a b \<longleftrightarrow> bd_presence_ms b < bd_presence_ms a
     \<or> bd_presence_ms a = bd_presence_ms b \<and> bd_start_ms a < bd_start_ms b"

definition owning_band_index :: "int \<Rightarrow> band list \<Rightarrow> nat option" where
  "owning_band_index t bands =
     map_option fst (max_by (\<lambda>a b. band_gt (snd a) (snd b))
       (filter (\<lambda>(_, b). bd_start_ms b \<le> t \<and> t \<le> bd_end_ms b) (enumerate 0 bands)))"

definition group_meeting :: "(ustr \<times> nat list) list \<Rightarrow> nat \<times> micro_span \<Rightarrow> (ustr \<times> nat list) list" where
  "group_meeting by_identity ix = (case identity_of (snd ix) of
     IdMeeting mid \<Rightarrow>
       AList.update mid ((case map_of by_identity mid of None \<Rightarrow> [] | Some l \<Rightarrow> l) @ [fst ix]) by_identity
   | _ \<Rightarrow> by_identity)"

definition chain_step ::
  "micro_span list \<Rightarrow> ustr \<Rightarrow> segmentation_params \<Rightarrow> nat list \<times> band list \<Rightarrow> nat \<Rightarrow> nat list \<times> band list"
where
  "chain_step micros bid params st index = (case st of (chain, bands) \<Rightarrow>
     if chain \<noteq> [] \<and> meeting_gap_ms params < ms_first_ts (micros ! index) - ms_last_ts (micros ! last chain)
     then ([index], push_band_if_qualified chain micros bid params bands)
     else (chain @ [index], bands))"

definition chain_bands ::
  "micro_span list \<Rightarrow> segmentation_params \<Rightarrow> band list \<Rightarrow> ustr \<times> nat list \<Rightarrow> band list" where
  "chain_bands micros params bands entry =
     (case foldl (chain_step micros (fst entry) params) ([], bands) (snd entry) of (chain, bands') \<Rightarrow>
        push_band_if_qualified chain micros (fst entry) params bands')"

definition raw_bands :: "micro_span list \<Rightarrow> segmentation_params \<Rightarrow> band list" where
  "raw_bands micros params =
     sort_key (\<lambda>b. (bd_start_ms b, bd_end_ms b, bd_id b))
       (foldl (chain_bands micros params) [] (foldl group_meeting [] (enumerate 0 micros)))"

definition is_ai :: "micro_span \<Rightarrow> bool" where
  "is_ai sp \<longleftrightarrow> (case identity_of sp of IdAi _ \<Rightarrow> True | _ \<Rightarrow> False)"

definition assign_span :: "band list \<Rightarrow> micro_span \<Rightarrow> band list" where
  "assign_span bands sp =
     (if is_ai sp then bands
      else (case owning_band_index (midpoint sp) bands of
         None \<Rightarrow> bands
       | Some index \<Rightarrow> bands[index := (bands ! index)\<lparr>
             bd_absorbed_ms := bd_absorbed_ms (bands ! index)
               + (if identity_of sp = IdMeeting (bd_id (bands ! index)) then 0 else duration sp),
             bd_frame_ids := bd_frame_ids (bands ! index) @ ms_frame_ids sp\<rparr>]))"

definition build_bands :: "micro_span list \<Rightarrow> segmentation_params \<Rightarrow> band list" where
  "build_bands micros params = foldl assign_span (raw_bands micros params) micros"

section \<open>Ownership does not depend on what a band has absorbed\<close>

definition band_extent :: "band \<Rightarrow> int \<times> int \<times> int" where
  "band_extent b = (bd_start_ms b, bd_end_ms b, bd_presence_ms b)"

definition owner_of_extents :: "int \<Rightarrow> (int \<times> int \<times> int) list \<Rightarrow> nat option" where
  "owner_of_extents t es =
     map_option fst (max_by (\<lambda>(_, a) (_, b). snd (snd b) < snd (snd a)
           \<or> snd (snd a) = snd (snd b) \<and> fst a < fst b)
       (filter (\<lambda>(_, e). fst e \<le> t \<and> t \<le> fst (snd e)) (enumerate 0 es)))"

lemma owning_band_index_extents:
  "owning_band_index t bands = owner_of_extents t (map band_extent bands)"
proof -
  let ?f = "\<lambda>(i :: nat, b). (i, band_extent b)"
  let ?g = "\<lambda>(_ :: nat, a :: int \<times> int \<times> int) (_ :: nat, b). snd (snd b) < snd (snd a)
           \<or> snd (snd a) = snd (snd b) \<and> fst a < fst b"
  let ?P = "\<lambda>(_ :: nat, e :: int \<times> int \<times> int). fst e \<le> t \<and> t \<le> fst (snd e)"
  have gt: "(\<lambda>a b. ?g (?f a) (?f b)) = (\<lambda>a b. band_gt (snd a) (snd b))"
    by (auto simp: fun_eq_iff band_gt_def band_extent_def split: prod.splits)
  have P: "?P \<circ> ?f = (\<lambda>(_, b). bd_start_ms b \<le> t \<and> t \<le> bd_end_ms b)"
    by (auto simp: fun_eq_iff band_extent_def)
  have "owner_of_extents t (map band_extent bands) =
      map_option fst (max_by ?g (filter ?P (map ?f (enumerate 0 bands))))"
    by (simp only: owner_of_extents_def map_enumerate)
  also have "\<dots> = map_option fst (map_option ?f (max_by (\<lambda>a b. ?g (?f a) (?f b))
      (filter (?P \<circ> ?f) (enumerate 0 bands))))"
    by (simp only: filter_map max_by_map)
  also have "\<dots> = owning_band_index t bands"
    by (simp only: gt P owning_band_index_def) (simp add: option.map_comp comp_def case_prod_beta)
  finally show ?thesis by simp
qed

lemma owning_band_index_cong:
  "map band_extent bs = map band_extent cs \<Longrightarrow> owning_band_index t bs = owning_band_index t cs"
  by (simp add: owning_band_index_extents)

lemma owning_band_index_Some:
  assumes "owning_band_index t bands = Some i"
  shows "i < length bands \<and> bd_start_ms (bands ! i) \<le> t \<and> t \<le> bd_end_ms (bands ! i)"
proof -
  from assms obtain b where "(i, b) \<in> set (filter (\<lambda>(_, b). bd_start_ms b \<le> t \<and> t \<le> bd_end_ms b)
      (enumerate 0 bands))"
    by (auto simp: owning_band_index_def dest: max_by_in)
  then show ?thesis by (auto simp: in_set_enumerate_eq)
qed

lemma assign_span_extents: "map band_extent (assign_span bands sp) = map band_extent bands"
proof (cases "is_ai sp \<or> owning_band_index (midpoint sp) bands = None")
  case False
  then obtain i where i: "\<not> is_ai sp" "owning_band_index (midpoint sp) bands = Some i" by blast
  then have len: "i < length bands" by (blast dest: owning_band_index_Some)
  then have "(map band_extent bands)[i := band_extent (bands ! i)] = map band_extent bands"
    using list_update_id [of "map band_extent bands" i] by simp
  with i show ?thesis by (simp add: assign_span_def map_update band_extent_def)
qed (auto simp: assign_span_def)

lemma foldl_assign_span_extents: "map band_extent (foldl assign_span bands sps) = map band_extent bands"
  by (induction sps arbitrary: bands) (simp_all add: assign_span_extents)

definition band_owned :: "band list \<Rightarrow> micro_span \<Rightarrow> bool" where
  "band_owned bands sp \<longleftrightarrow> \<not> is_ai sp \<and> owning_band_index (midpoint sp) bands \<noteq> None"

lemma band_owned_cong: "map band_extent bs = map band_extent cs \<Longrightarrow> band_owned bs = band_owned cs"
  by (simp add: fun_eq_iff band_owned_def owning_band_index_extents)

lemma assign_span_mset_ids:
  "mset (concat (map bd_frame_ids (assign_span bands sp))) =
     mset (concat (map bd_frame_ids bands)) + (if band_owned bands sp then mset (ms_frame_ids sp) else {#})"
  by (auto simp: assign_span_def band_owned_def split: option.splits
      dest!: owning_band_index_Some intro!: mset_concat_list_update)

lemma foldl_assign_span_mset_ids:
  "mset (concat (map bd_frame_ids (foldl assign_span bands sps))) =
     mset (concat (map bd_frame_ids bands))
       + mset (concat (map ms_frame_ids (filter (band_owned bands) sps)))"
proof (induction sps arbitrary: bands)
  case (Cons sp sps)
  have "band_owned (assign_span bands sp) = band_owned bands"
    by (rule band_owned_cong) (rule assign_span_extents)
  with Cons show ?case by (simp add: assign_span_mset_ids)
qed simp

section \<open>The chained bands own nothing yet and last long enough\<close>

definition fresh_bands :: "segmentation_params \<Rightarrow> band list \<Rightarrow> bool" where
  "fresh_bands params bs \<longleftrightarrow> (\<forall>b\<in>set bs. bd_frame_ids b = [] \<and> bd_absorbed_ms b = 0
     \<and> focus_min_len_ms params \<le> bd_end_ms b - bd_start_ms b)"

lemma push_band_fresh:
  "fresh_bands params out \<Longrightarrow> fresh_bands params (push_band_if_qualified chain micros bid params out)"
  by (auto simp: fresh_bands_def push_band_if_qualified_def Let_def)

lemma chain_step_fresh:
  "fresh_bands params (snd st) \<Longrightarrow> fresh_bands params (snd (chain_step micros bid params st i))"
  by (cases st) (auto simp: chain_step_def push_band_fresh)

lemma foldl_chain_step_fresh:
  "fresh_bands params (snd st) \<Longrightarrow> fresh_bands params (snd (foldl (chain_step micros bid params) st is))"
  by (induction "is" arbitrary: st) (simp_all add: chain_step_fresh)

lemma chain_bands_fresh:
  "fresh_bands params bands \<Longrightarrow> fresh_bands params (chain_bands micros params bands e)"
  using foldl_chain_step_fresh [of params "([], bands)" micros "fst e" "snd e"]
  by (auto simp: chain_bands_def push_band_fresh split: prod.splits)

lemma foldl_chain_bands_fresh:
  "fresh_bands params bands \<Longrightarrow> fresh_bands params (foldl (chain_bands micros params) bands es)"
  by (induction es arbitrary: bands) (simp_all add: chain_bands_fresh)

lemma raw_bands_fresh: "fresh_bands params (raw_bands micros params)"
  using foldl_chain_bands_fresh [of params "[]"] by (simp add: raw_bands_def fresh_bands_def)

lemma raw_bands_no_ids: "concat (map bd_frame_ids (raw_bands micros params)) = []"
  using raw_bands_fresh [of params micros] by (simp add: fresh_bands_def)

lemma build_bands_mset_ids [ids_simps]:
  "mset (concat (map bd_frame_ids (build_bands micros params))) =
     mset (concat (map ms_frame_ids (filter (band_owned (build_bands micros params)) micros)))"
proof -
  have "band_owned (build_bands micros params) = band_owned (raw_bands micros params)"
    by (rule band_owned_cong) (simp add: build_bands_def foldl_assign_span_extents)
  then show ?thesis
    by (simp add: build_bands_def foldl_assign_span_mset_ids raw_bands_no_ids del: mset_concat)
qed

lemma build_bands_long:
  assumes "b \<in> set (build_bands micros params)"
  shows "focus_min_len_ms params \<le> bd_end_ms b - bd_start_ms b"
proof -
  from assms have "band_extent b \<in> set (map band_extent (build_bands micros params))" by simp
  then have "band_extent b \<in> set (map band_extent (raw_bands micros params))"
    by (simp only: build_bands_def foldl_assign_span_extents)
  then show ?thesis using raw_bands_fresh [of params micros]
    by (auto simp: fresh_bands_def band_extent_def)
qed

section \<open>Property\<close>

text \<open>A meeting band owns exactly the micro-spans that the ownership rule gives it: over all bands, the
  owned frame ids are, with multiplicity, the ids of the non-AI micro-spans whose midpoint lies in some
  band; AI micro-spans are never taken, and every band lasts the minimum focus length.\<close>

theorem meeting_bands_own_midpoints:
  "mset (concat (map bd_frame_ids (build_bands micros params)))
     = mset (concat (map ms_frame_ids (filter (\<lambda>sp. \<not> is_ai sp
         \<and> list_ex (\<lambda>b. bd_start_ms b \<le> midpoint sp \<and> midpoint sp \<le> bd_end_ms b)
             (build_bands micros params)) micros)))
   \<and> list_all (\<lambda>b. focus_min_len_ms params \<le> bd_end_ms b - bd_start_ms b) (build_bands micros params)"
proof -
  have "owning_band_index t bands \<noteq> None \<longleftrightarrow> list_ex (\<lambda>b. bd_start_ms b \<le> t \<and> t \<le> bd_end_ms b) bands"
    for t bands
  proof -
    have "owning_band_index t bands = None
        \<longleftrightarrow> (\<forall>x\<in>set (enumerate 0 bands). \<not> (bd_start_ms (snd x) \<le> t \<and> t \<le> bd_end_ms (snd x)))"
      by (simp add: owning_band_index_def filter_empty_conv case_prod_beta)
    also have "\<dots> \<longleftrightarrow> (\<forall>b\<in>set (map snd (enumerate 0 bands)). \<not> (bd_start_ms b \<le> t \<and> t \<le> bd_end_ms b))"
      by (simp only: set_map ball_simps)
    finally have "owning_band_index t bands = None
        \<longleftrightarrow> (\<forall>b\<in>set bands. \<not> (bd_start_ms b \<le> t \<and> t \<le> bd_end_ms b))"
      by (simp only: map_snd_enumerate)
    then show ?thesis by (auto simp: list_ex_iff)
  qed
  then have "band_owned bands = (\<lambda>sp. \<not> is_ai sp
      \<and> list_ex (\<lambda>b. bd_start_ms b \<le> midpoint sp \<and> midpoint sp \<le> bd_end_ms b) bands)" for bands
    by (simp add: band_owned_def fun_eq_iff)
  then show ?thesis
    using build_bands_mset_ids [of micros params] build_bands_long [of _ micros params]
    by (simp add: list_all_iff)
qed

end
