(* ===== verification/Confidence.thy ===== *)
theory Confidence
  imports Session_Types
begin

text \<open>
  The deterministic confidence tiers of \<open>crates/sessions/src/confidence.rs\<close>, over exact
  rationals, and the disjointness of the anchored and the anchorless bands.
\<close>

definition anchored_confidence :: "int \<Rightarrow> int \<Rightarrow> rat" where
  "anchored_confidence recognized_ms absorbed_ms =
     (let recognized = of_int (max recognized_ms 0);
          absorbed = of_int (max absorbed_ms 0);
          total = recognized + absorbed;
          absorbed_share = (if 0 < total then absorbed / total else 1)
      in clamp (95 / 100 - 25 / 100 * absorbed_share) (70 / 100) (95 / 100))"

definition focus_confidence :: "ustr option \<Rightarrow> rat \<Rightarrow> int \<Rightarrow> rat" where
  "focus_confidence dominant_stem density_fph density_gate_fph =
     (if dominant_stem = None \<or> dominant_stem = Some [] then 30 / 100
      else if density_gate_fph \<le> 0 then 60 / 100
      else (let ratio = clamp (density_fph / of_int density_gate_fph) 1 2
            in 45 / 100 + (ratio - 1) * (20 / 100)))"

lemma anchored_confidence_band:
  "70 / 100 \<le> anchored_confidence r a" "anchored_confidence r a \<le> 95 / 100"
  unfolding anchored_confidence_def Let_def by (rule clamp_bounds, simp)+

lemma focus_confidence_band:
  "30 / 100 \<le> focus_confidence s d g" "focus_confidence s d g \<le> 65 / 100"
proof -
  define c where "c = clamp (d / of_int g) 1 (2::rat)"
  have c: "1 \<le> c" "c \<le> 2" unfolding c_def by (rule clamp_bounds, simp)+
  have "focus_confidence s d g = (if s = None \<or> s = Some [] then 30 / 100
      else if g \<le> 0 then 60 / 100 else 45 / 100 + (c - 1) * (20 / 100))"
    by (simp only: focus_confidence_def Let_def c_def)
  with c show "30 / 100 \<le> focus_confidence s d g" "focus_confidence s d g \<le> 65 / 100"
    by (simp_all add: field_simps)
qed

lemma anchored_confidence_antimono:
  assumes "0 < r" "0 \<le> a" "a \<le> b"
  shows "anchored_confidence r b \<le> anchored_confidence r a"
proof -
  define R A B :: rat where "R = of_int r" and "A = of_int a" and "B = of_int b"
  have RAB: "0 < R" "0 \<le> A" "A \<le> B" using assms by (simp_all add: R_def A_def B_def)
  then have "A / (R + A) \<le> B / (R + B)"
    by (simp add: divide_simps) (simp add: algebra_simps)
  then have "95 / 100 - 25 / 100 * (B / (R + B)) \<le> 95 / 100 - 25 / 100 * (A / (R + A))"
    by (intro diff_left_mono mult_left_mono) simp_all
  then have "clamp (95 / 100 - 25 / 100 * (B / (R + B))) (70 / 100) (95 / 100)
      \<le> clamp (95 / 100 - 25 / 100 * (A / (R + A))) (70 / 100) (95 / 100 :: rat)"
    by (intro clamp_mono) simp_all
  moreover have "max r 0 = r" "max a 0 = a" "max b 0 = b" using assms by simp_all
  ultimately show ?thesis
    using RAB unfolding anchored_confidence_def Let_def
    by (simp only: R_def [symmetric] A_def [symmetric] B_def [symmetric] add_pos_nonneg if_True)
qed

section \<open>Property\<close>

text \<open>The confidence tiers cannot be confused: anything anchored on a recognised identity scores strictly
  above anything anchorless, all scores stay within their documented bands, and absorbing more foreign
  time never raises an anchored score.\<close>

theorem confidence_tiers_disjoint:
  "focus_confidence stem density gate < anchored_confidence recognized absorbed
   \<and> anchored_confidence recognized absorbed \<in> {70 / 100..95 / 100}
   \<and> focus_confidence stem density gate \<in> {30 / 100..65 / 100}
   \<and> (0 < recognized \<and> 0 \<le> absorbed \<and> absorbed \<le> absorbed'
        \<longrightarrow> anchored_confidence recognized absorbed' \<le> anchored_confidence recognized absorbed)"
proof -
  have "focus_confidence stem density gate \<le> 65 / 100" by (rule focus_confidence_band)
  also have "65 / 100 < (70 / 100 :: rat)" by simp
  also have "\<dots> \<le> anchored_confidence recognized absorbed" by (rule anchored_confidence_band)
  finally have "focus_confidence stem density gate < anchored_confidence recognized absorbed" .
  moreover have "anchored_confidence recognized absorbed' \<le> anchored_confidence recognized absorbed"
    if "0 < recognized \<and> 0 \<le> absorbed \<and> absorbed \<le> absorbed'"
    using that by (intro anchored_confidence_antimono) auto
  ultimately show ?thesis
    by (simp only: atLeastAtMost_iff anchored_confidence_band focus_confidence_band simp_thms) blast
qed

theorem confidence_tiers_disjoint_witness:
  "anchored_confidence 300000 200000 \<le> anchored_confidence 300000 100000
     \<and> anchored_confidence 300000 100000 = 71 / 80"
proof
  show "anchored_confidence 300000 200000 \<le> anchored_confidence 300000 100000"
    using confidence_tiers_disjoint [of None 0 0 300000 100000 200000] by simp
  show "anchored_confidence 300000 100000 = 71 / 80" by code_simp
qed

end
