(* ===== verification/Seg_Tracks.thy ===== *)
theory Seg_Tracks
  imports Seg_Bands Confidence
begin

text \<open>
  Open tracks and the walk over the free micro-spans (\<open>OpenTrack\<close>, \<open>finalize_track\<close>,
  \<open>extend_or_open_focus\<close>, \<open>flush_pending\<close> and the loop of \<open>segment_with_taxonomy\<close> in
  \<open>crates/sessions/src/segmenter.rs\<close>).
\<close>

section \<open>Open tracks\<close>

record open_track =
  ot_start_ms :: int
  ot_end_ms :: int
  ot_first_id :: int
  ot_frame_ids :: "int list"
  ot_ai_id :: "ustr option"
  ot_ai_host :: "session_host option"
  ot_ai_presence_ms :: int
  ot_absorbed_ms :: int
  ot_stem_duration :: "(ustr \<times> int) list"
  ot_stem_frames :: "(ustr \<times> nat) list"

record ramp =
  rp_start_ms :: int
  rp_first_id :: int
  rp_duration_ms :: int
  rp_frame_ids :: "int list"

definition new_ai :: "micro_span \<Rightarrow> ustr \<Rightarrow> session_host option \<Rightarrow> open_track" where
  "new_ai sp aid host = \<lparr>
     ot_start_ms = ms_first_ts sp, ot_end_ms = max (ms_last_ts sp) (ms_first_ts sp),
     ot_first_id = ms_first_id sp, ot_frame_ids = ms_frame_ids sp,
     ot_ai_id = Some aid, ot_ai_host = host, ot_ai_presence_ms = duration sp,
     ot_absorbed_ms = 0, ot_stem_duration = [], ot_stem_frames = []\<rparr>"

definition or_insert :: "'v \<Rightarrow> 'v option \<Rightarrow> 'v" where
  "or_insert d v = (case v of None \<Rightarrow> d | Some x \<Rightarrow> x)"

definition accrue_stem :: "open_track \<Rightarrow> micro_span \<Rightarrow> open_track" where
  "accrue_stem t sp = t\<lparr>
     ot_stem_duration := AList.update (stem_of sp)
       (or_insert 0 (map_of (ot_stem_duration t) (stem_of sp)) + duration sp) (ot_stem_duration t),
     ot_stem_frames := AList.update (stem_of sp)
       (or_insert 0 (map_of (ot_stem_frames t) (stem_of sp)) + length (ms_frame_ids sp)) (ot_stem_frames t)\<rparr>"

definition new_focus :: "micro_span \<Rightarrow> open_track" where
  "new_focus sp = accrue_stem \<lparr>
     ot_start_ms = ms_first_ts sp, ot_end_ms = max (ms_last_ts sp) (ms_first_ts sp),
     ot_first_id = ms_first_id sp, ot_frame_ids = ms_frame_ids sp,
     ot_ai_id = None, ot_ai_host = None, ot_ai_presence_ms = 0,
     ot_absorbed_ms = 0, ot_stem_duration = [], ot_stem_frames = []\<rparr> sp"

definition extend_track :: "open_track \<Rightarrow> micro_span \<Rightarrow> open_track" where
  "extend_track t sp = t\<lparr>ot_end_ms := max (ot_end_ms t) (ms_last_ts sp),
                         ot_frame_ids := ot_frame_ids t @ ms_frame_ids sp\<rparr>"

definition absorb_ai :: "open_track \<Rightarrow> micro_span \<Rightarrow> open_track" where
  "absorb_ai t sp = extend_track (t\<lparr>ot_ai_presence_ms := ot_ai_presence_ms t + duration sp\<rparr>) sp"

definition absorb_none :: "open_track \<Rightarrow> micro_span \<Rightarrow> open_track" where
  "absorb_none t sp =
     (let t' = extend_track (t\<lparr>ot_absorbed_ms := ot_absorbed_ms t + duration sp\<rparr>) sp
      in if ot_ai_id t' = None then accrue_stem t' sp else t')"

definition prepend_ramp :: "open_track \<Rightarrow> ramp \<Rightarrow> open_track" where
  "prepend_ramp t r =
     (let t1 = (if rp_start_ms r < ot_start_ms t
                then t\<lparr>ot_start_ms := rp_start_ms r, ot_first_id := rp_first_id r\<rparr> else t)
      in t1\<lparr>ot_absorbed_ms := ot_absorbed_ms t1 + rp_duration_ms r,
            ot_frame_ids := rp_frame_ids r @ ot_frame_ids t1\<rparr>)"

definition dominant_stem :: "open_track \<Rightarrow> ustr option" where
  "dominant_stem t =
     (let candidates = map (\<lambda>(stem, d). (stem, d, or_insert 0 (map_of (ot_stem_frames t) stem)))
            (ot_stem_duration t)
      in case first_opt (sort_key (\<lambda>(stem, d, n). (- d, - int n, stem)) candidates) of
           None \<Rightarrow> None
         | Some (stem, _, _) \<Rightarrow> if stem = [] then None else Some stem)"

definition frame_density :: "nat \<Rightarrow> int \<Rightarrow> rat" where
  "frame_density frame_count duration_ms =
     (if duration_ms \<le> 0 then 0 else of_nat frame_count * 3600000 / of_int duration_ms)"

section \<open>Closing a track\<close>

text \<open>\<open>sort_unstable\<close> and \<open>dedup\<close> on integers.\<close>

definition sort_dedup :: "int list \<Rightarrow> int list" where
  "sort_dedup ids = remdups_adj (sort ids)"

definition finalize_draft :: "open_track \<Rightarrow> bool \<Rightarrow> segmentation_params \<Rightarrow> session_draft \<times> bool" where
  "finalize_draft track closed_by_gap params =
     (let end_ms = max (ot_end_ms track) (ot_start_ms track);
          duration_ms = end_ms - ot_start_ms track;
          ids = sort_dedup (ot_frame_ids track);
          is_open = (\<not> closed_by_gap \<and> sat_sub64 (now_ms params) end_ms < merge_gap_ms params)
      in case ot_ai_id track of
           Some aid \<Rightarrow>
             (\<lparr>sd_started_at = ot_start_ms track, sd_ended_at = end_ms, sd_kind = Ai,
               sd_tool = Some aid, sd_host = ot_ai_host track,
               sd_context_key = lit ''ai:'' @ aid,
               sd_confidence = anchored_confidence (ot_ai_presence_ms track) (ot_absorbed_ms track),
               sd_frame_ids = ids, sd_open = is_open\<rparr>,
              min_len_ms params \<le> duration_ms \<and> identity_qualify_ms params \<le> ot_ai_presence_ms track)
         | None \<Rightarrow>
             (let stem = dominant_stem track; density = frame_density (length ids) duration_ms
              in (\<lparr>sd_started_at = ot_start_ms track, sd_ended_at = end_ms, sd_kind = Focus,
                    sd_tool = None, sd_host = None,
                    sd_context_key = (case stem of None \<Rightarrow> lit ''focus'' | Some s \<Rightarrow> lit ''focus:'' @ s),
                    sd_confidence = focus_confidence stem density (focus_min_density_fph params),
                    sd_frame_ids = ids, sd_open = is_open\<rparr>,
                  focus_min_len_ms params \<le> duration_ms
                    \<and> (focus_min_density_fph params \<le> 0 \<or> of_int (focus_min_density_fph params) \<le> density))))"

definition finalize_track ::
  "open_track \<Rightarrow> bool \<Rightarrow> segmentation_params \<Rightarrow> session_draft list \<Rightarrow> session_draft list" where
  "finalize_track track closed_by_gap params out =
     (case finalize_draft track closed_by_gap params of (d, keep) \<Rightarrow> if keep then out @ [d] else out)"

section \<open>The walk\<close>

record walk =
  wk_tracks :: "(ustr \<times> open_track) list"
  wk_focus :: "open_track option"
  wk_pending :: "micro_span list"
  wk_out :: "session_draft list"

definition extend_or_open_focus :: "segmentation_params \<Rightarrow> micro_span \<Rightarrow> walk \<Rightarrow> walk" where
  "extend_or_open_focus params sp w =
     (let w1 = (case wk_focus w of
            Some t \<Rightarrow> if merge_gap_ms params \<le> ms_first_ts sp - ot_end_ms t
                      then w\<lparr>wk_focus := None, wk_out := finalize_track t True params (wk_out w)\<rparr> else w
          | None \<Rightarrow> w)
      in case wk_focus w1 of
           Some t \<Rightarrow> w1\<lparr>wk_focus := Some (absorb_none t sp)\<rparr>
         | None \<Rightarrow> w1\<lparr>wk_focus := Some (new_focus sp)\<rparr>)"

definition last_touched :: "segmentation_params \<Rightarrow> micro_span \<Rightarrow> (ustr \<times> open_track) list \<Rightarrow> ustr option" where
  "last_touched params sp tracks =
     map_option fst (max_by (\<lambda>(k, t) (k', t'). ot_end_ms t' < ot_end_ms t
           \<or> ot_end_ms t = ot_end_ms t' \<and> k' < k)
       (filter (\<lambda>(_, t). ms_first_ts sp - ot_end_ms t < merge_gap_ms params) tracks))"

definition grow_ramp :: "ramp option \<Rightarrow> micro_span \<Rightarrow> ramp" where
  "grow_ramp r sp =
     (let r0 = or_insert \<lparr>rp_start_ms = ms_first_ts sp, rp_first_id = ms_first_id sp,
                          rp_duration_ms = 0, rp_frame_ids = []\<rparr> r
      in \<lparr>rp_start_ms = min (rp_start_ms r0) (ms_first_ts sp),
          rp_first_id = min (rp_first_id r0) (ms_first_id sp),
          rp_duration_ms = rp_duration_ms r0 + duration sp,
          rp_frame_ids = rp_frame_ids r0 @ ms_frame_ids sp\<rparr>)"

definition flush_one ::
  "segmentation_params \<Rightarrow> int option \<Rightarrow> walk \<times> ramp option \<Rightarrow> micro_span \<Rightarrow> walk \<times> ramp option" where
  "flush_one params ramp_start st sp = (case st of (w, r) \<Rightarrow>
     (case last_touched params sp (wk_tracks w) of
        Some k \<Rightarrow>
          (case map_of (wk_tracks w) k of
             Some t \<Rightarrow> (w\<lparr>wk_tracks := AList.update k (absorb_none t sp) (wk_tracks w)\<rparr>, r)
           | None \<Rightarrow> (w, r))
      | None \<Rightarrow>
          if (case ramp_start of None \<Rightarrow> False | Some start \<Rightarrow> start - ms_last_ts sp < merge_gap_ms params)
          then (w, Some (grow_ramp r sp))
          else (extend_or_open_focus params sp w, r)))"

definition flush_pending :: "segmentation_params \<Rightarrow> int option \<Rightarrow> walk \<Rightarrow> walk \<times> ramp option" where
  "flush_pending params ramp_start w =
     foldl (flush_one params ramp_start) (w\<lparr>wk_pending := []\<rparr>, None) (wk_pending w)"

definition close_gapped :: "segmentation_params \<Rightarrow> ustr \<Rightarrow> micro_span \<Rightarrow> walk \<Rightarrow> walk" where
  "close_gapped params aid sp w = (case map_of (wk_tracks w) aid of
     Some t \<Rightarrow> if merge_gap_ms params \<le> ms_first_ts sp - ot_end_ms t
               then w\<lparr>wk_tracks := AList.delete aid (wk_tracks w),
                      wk_out := finalize_track t True params (wk_out w)\<rparr> else w
   | None \<Rightarrow> w)"

definition touch_ai :: "ustr \<Rightarrow> micro_span \<Rightarrow> walk \<times> ramp option \<Rightarrow> walk" where
  "touch_ai aid sp st = (case st of (w, r) \<Rightarrow>
     (case map_of (wk_tracks w) aid of
        Some t \<Rightarrow> w\<lparr>wk_tracks := AList.update aid (absorb_ai t sp) (wk_tracks w)\<rparr>
      | None \<Rightarrow>
          (let t = new_ai sp aid (Option.bind (ms_recognition sp) rc_host);
               t' = (case r of None \<Rightarrow> t | Some rp \<Rightarrow> prepend_ramp t rp)
           in w\<lparr>wk_tracks := AList.update aid t' (wk_tracks w)\<rparr>)))"

definition walk_ai :: "segmentation_params \<Rightarrow> ustr \<Rightarrow> micro_span \<Rightarrow> walk \<Rightarrow> walk" where
  "walk_ai params aid sp w =
     (let w1 = close_gapped params aid sp w;
          is_open = (map_of (wk_tracks w1) aid \<noteq> None)
      in touch_ai aid sp (flush_pending params (if is_open then None else Some (ms_first_ts sp)) w1))"

definition walk_none :: "segmentation_params \<Rightarrow> micro_span \<Rightarrow> walk \<Rightarrow> walk" where
  "walk_none params sp w =
     (if absorb_max_ms params < duration sp
      then extend_or_open_focus params sp (fst (flush_pending params None w))
      else w\<lparr>wk_pending := wk_pending w @ [sp]\<rparr>)"

definition flush_stale :: "segmentation_params \<Rightarrow> micro_span \<Rightarrow> walk \<Rightarrow> walk" where
  "flush_stale params sp w =
     (if wk_pending w \<noteq> [] \<and> merge_gap_ms params \<le> ms_first_ts sp - ms_last_ts (last (wk_pending w))
      then fst (flush_pending params None w) else w)"

definition walk_span :: "segmentation_params \<Rightarrow> walk \<Rightarrow> micro_span \<Rightarrow> walk" where
  "walk_span params w sp =
     (let w0 = flush_stale params sp w
      in case free_identity sp of
           IdAi aid \<Rightarrow> walk_ai params aid sp w0
         | _ \<Rightarrow> walk_none params sp w0)"

definition walk_start :: "session_draft list \<Rightarrow> walk" where
  "walk_start out = \<lparr>wk_tracks = [], wk_focus = None, wk_pending = [], wk_out = out\<rparr>"

definition finish_walk :: "segmentation_params \<Rightarrow> walk \<Rightarrow> session_draft list" where
  "finish_walk params w =
     (let w1 = fst (flush_pending params None w);
          out1 = foldl (\<lambda>out (_, t). finalize_track t False params out) (wk_out w1) (wk_tracks w1)
      in case wk_focus w1 of None \<Rightarrow> out1 | Some t \<Rightarrow> finalize_track t False params out1)"

section \<open>Frame ids: nothing is owned twice\<close>

text \<open>
  The accounting is by occurrences: \<open>walk_count w a\<close> is how often the frame id \<open>a\<close> is held by the
  state of the walk (open tracks, focus track, pending spans, finished drafts). No step creates
  an occurrence the consumed span did not have.
\<close>

definition tracks_ids :: "(ustr \<times> open_track) list \<Rightarrow> int list" where
  "tracks_ids ts = concat (map (\<lambda>(_, t). ot_frame_ids t) ts)"

definition focus_ids :: "open_track option \<Rightarrow> int list" where
  "focus_ids f = (case f of None \<Rightarrow> [] | Some t \<Rightarrow> ot_frame_ids t)"

definition ramp_ids :: "ramp option \<Rightarrow> int list" where
  "ramp_ids r = (case r of None \<Rightarrow> [] | Some rp \<Rightarrow> rp_frame_ids rp)"

definition drafts_ids :: "session_draft list \<Rightarrow> int list" where
  "drafts_ids ds = concat (map sd_frame_ids ds)"

definition spans_ids :: "micro_span list \<Rightarrow> int list" where
  "spans_ids sps = concat (map ms_frame_ids sps)"

definition walk_count :: "walk \<Rightarrow> int \<Rightarrow> nat" where
  "walk_count w a = count_list (tracks_ids (wk_tracks w)) a + count_list (focus_ids (wk_focus w)) a
     + count_list (spans_ids (wk_pending w)) a + count_list (drafts_ids (wk_out w)) a"

lemma ids_lists [simp]:
  "tracks_ids [] = []" "tracks_ids (kt # ts) = ot_frame_ids (snd kt) @ tracks_ids ts"
  "focus_ids None = []" "focus_ids (Some t) = ot_frame_ids t"
  "ramp_ids None = []" "ramp_ids (Some r) = rp_frame_ids r"
  "drafts_ids [] = []" "drafts_ids (d # ds) = sd_frame_ids d @ drafts_ids ds"
  "drafts_ids (ds @ es) = drafts_ids ds @ drafts_ids es"
  "spans_ids [] = []" "spans_ids (m # ms) = ms_frame_ids m @ spans_ids ms"
  "spans_ids (ms @ ns) = spans_ids ms @ spans_ids ns"
  by (simp_all add: tracks_ids_def focus_ids_def ramp_ids_def drafts_ids_def spans_ids_def
      split: prod.splits)

lemma track_ids [simp]:
  "ot_frame_ids (new_ai sp aid h) = ms_frame_ids sp" "ot_frame_ids (new_focus sp) = ms_frame_ids sp"
  "ot_frame_ids (absorb_ai t sp) = ot_frame_ids t @ ms_frame_ids sp"
  "ot_frame_ids (absorb_none t sp) = ot_frame_ids t @ ms_frame_ids sp"
  "ot_frame_ids (prepend_ramp t r) = rp_frame_ids r @ ot_frame_ids t"
  "rp_frame_ids (grow_ramp ro sp) = ramp_ids ro @ ms_frame_ids sp"
  by (simp_all add: new_ai_def new_focus_def accrue_stem_def absorb_ai_def absorb_none_def
      extend_track_def prepend_ramp_def grow_ramp_def or_insert_def Let_def split: option.splits)

lemma count_remdups_adj: "count_list (remdups_adj xs) a \<le> count_list xs a"
  by (induction xs rule: remdups_adj.induct) auto

lemma sorted_remdups_adj_strict: "sorted xs \<Longrightarrow> sorted_wrt (<) (remdups_adj xs)"
  by (induction xs rule: remdups_adj.induct) (auto simp: less_le)

lemma sort_dedup_strict: "sorted_wrt (<) (sort_dedup xs)"
  by (simp add: sort_dedup_def sorted_remdups_adj_strict)

lemma set_sort_dedup [simp]: "set (sort_dedup xs) = set xs"
  by (simp add: sort_dedup_def)

lemma count_sort: "count_list (sort xs) a = count_list xs a"
  by (metis count_mset mset_sort)

lemma count_sort_dedup: "count_list (sort_dedup xs) a \<le> count_list xs a"
  using count_remdups_adj [of "sort xs" a] by (simp add: sort_dedup_def count_sort)

lemma finalize_draft_ids: "sd_frame_ids (fst (finalize_draft t g params)) = sort_dedup (ot_frame_ids t)"
  by (simp add: finalize_draft_def Let_def split: option.splits)

lemma finalize_track_count:
  "count_list (drafts_ids (finalize_track t g params out)) a
     \<le> count_list (drafts_ids out) a + count_list (ot_frame_ids t) a"
  using count_sort_dedup [of "ot_frame_ids t" a] finalize_draft_ids [of t g params]
  by (auto simp: finalize_track_def split: prod.splits)

lemma count_tracks_update:
  "map_of ts k = Some t \<Longrightarrow> ot_frame_ids t' = ot_frame_ids t @ ids
     \<Longrightarrow> count_list (tracks_ids (AList.update k t' ts)) a = count_list (tracks_ids ts) a + count_list ids a"
  by (induction ts) (auto split: if_splits)

lemma count_tracks_insert:
  "map_of ts k = None
     \<Longrightarrow> count_list (tracks_ids (AList.update k t' ts)) a = count_list (tracks_ids ts) a + count_list (ot_frame_ids t') a"
  by (induction ts) (auto split: if_splits)

lemma count_tracks_delete:
  "map_of ts k = Some t
     \<Longrightarrow> count_list (tracks_ids (AList.delete k ts)) a + count_list (ot_frame_ids t) a \<le> count_list (tracks_ids ts) a"
proof (induction ts)
  case (Cons kt ts)
  have "count_list (tracks_ids (AList.delete k ts)) a \<le> count_list (tracks_ids ts) a" for ts
    by (induction ts) (auto simp: AList.delete_eq)
  with Cons show ?case by (cases kt) (auto simp: AList.delete_eq split: if_splits)
qed simp

lemma extend_or_open_focus_count:
  "walk_count (extend_or_open_focus params sp w) a \<le> walk_count w a + count_list (ms_frame_ids sp) a"
proof (cases "wk_focus w")
  case (Some t)
  then show ?thesis using finalize_track_count [of t True params "wk_out w" a]
    by (simp add: extend_or_open_focus_def walk_count_def Let_def)
qed (simp add: extend_or_open_focus_def walk_count_def)

lemma flush_one_count:
  "walk_count (fst (flush_one params rs st sp)) a + count_list (ramp_ids (snd (flush_one params rs st sp))) a
     \<le> walk_count (fst st) a + count_list (ramp_ids (snd st)) a + count_list (ms_frame_ids sp) a"
proof -
  obtain w r where st: "st = (w, r)" by (cases st)
  show ?thesis
  proof (cases "last_touched params sp (wk_tracks w)")
    case None
    then show ?thesis using extend_or_open_focus_count [of params sp w a]
      by (auto simp: st flush_one_def split: option.splits)
  next
    case (Some k)
    then show ?thesis
      by (auto simp: st flush_one_def walk_count_def count_tracks_update split: option.splits)
  qed
qed

lemma foldl_flush_one_count:
  "walk_count (fst (foldl (flush_one params rs) st sps)) a
     + count_list (ramp_ids (snd (foldl (flush_one params rs) st sps))) a
   \<le> walk_count (fst st) a + count_list (ramp_ids (snd st)) a + count_list (spans_ids sps) a"
proof (induction sps arbitrary: st)
  case (Cons sp sps)
  from Cons [of "flush_one params rs st sp"] flush_one_count [of params rs st sp a]
  show ?case by simp
qed simp

lemma flush_pending_count:
  "walk_count (fst (flush_pending params rs w)) a + count_list (ramp_ids (snd (flush_pending params rs w))) a
     \<le> walk_count w a"
  using foldl_flush_one_count [of params rs "(w\<lparr>wk_pending := []\<rparr>, None)" "wk_pending w" a]
  by (simp add: flush_pending_def walk_count_def)

lemma flush_pending_count_fst: "walk_count (fst (flush_pending params rs w)) a \<le> walk_count w a"
  using flush_pending_count [of params rs w a] by simp

lemma close_gapped_count: "walk_count (close_gapped params aid sp w) a \<le> walk_count w a"
proof (cases "map_of (wk_tracks w) aid")
  case (Some t)
  then show ?thesis
    using finalize_track_count [of t True params "wk_out w" a] count_tracks_delete [OF Some, of a]
    by (simp add: close_gapped_def walk_count_def)
qed (simp add: close_gapped_def)

lemma touch_ai_count:
  "walk_count (touch_ai aid sp (w, r)) a
     \<le> walk_count w a + count_list (ramp_ids r) a + count_list (ms_frame_ids sp) a"
  by (cases "map_of (wk_tracks w) aid"; cases r)
    (simp_all add: touch_ai_def walk_count_def count_tracks_update count_tracks_insert Let_def)

lemma walk_span_count:
  "walk_count (walk_span params w sp) a \<le> walk_count w a + count_list (ms_frame_ids sp) a"
proof -
  define w0 where "w0 = flush_stale params sp w"
  have w0: "walk_count w0 a \<le> walk_count w a"
    using flush_pending_count_fst [of params None w a] by (simp add: w0_def flush_stale_def)
  have none: "walk_count (walk_none params sp w0) a \<le> walk_count w0 a + count_list (ms_frame_ids sp) a"
    using extend_or_open_focus_count [of params sp "fst (flush_pending params None w0)" a]
      flush_pending_count_fst [of params None w0 a]
    by (auto simp: walk_none_def walk_count_def)
  have ai: "walk_count (walk_ai params aid sp w0) a \<le> walk_count w0 a + count_list (ms_frame_ids sp) a" for aid
  proof -
    let ?w1 = "close_gapped params aid sp w0"
    let ?rs = "if map_of (wk_tracks ?w1) aid \<noteq> None then None else Some (ms_first_ts sp)"
    obtain w2 r where fl: "flush_pending params ?rs ?w1 = (w2, r)" by fastforce
    have "walk_count w2 a + count_list (ramp_ids r) a \<le> walk_count ?w1 a"
      using flush_pending_count [of params ?rs ?w1 a] fl by simp
    with touch_ai_count [of aid sp w2 r a] close_gapped_count [of params aid sp w0 a] fl
    show ?thesis by (simp add: walk_ai_def Let_def)
  qed
  have "walk_count (walk_ai params aid sp w0) a \<le> walk_count w a + count_list (ms_frame_ids sp) a" for aid
    by (rule order_trans [OF ai]) (simp add: w0)
  moreover have "walk_count (walk_none params sp w0) a \<le> walk_count w a + count_list (ms_frame_ids sp) a"
    by (rule order_trans [OF none]) (simp add: w0)
  ultimately show ?thesis
    by (simp add: walk_span_def w0_def [symmetric] Let_def split: identity.split)
qed

lemma foldl_walk_span_count:
  "walk_count (foldl (walk_span params) w sps) a \<le> walk_count w a + count_list (spans_ids sps) a"
proof (induction sps arbitrary: w)
  case (Cons sp sps)
  from Cons [of "walk_span params w sp"] walk_span_count [of params w sp a] show ?case by simp
qed simp

lemma finish_tracks_count:
  "count_list (drafts_ids (foldl (\<lambda>out (_, t). finalize_track t False params out) out ts)) a
     \<le> count_list (drafts_ids out) a + count_list (tracks_ids ts) a"
proof (induction ts arbitrary: out)
  case (Cons kt ts)
  obtain k t where kt: "kt = (k, t)" by fastforce
  from Cons [of "finalize_track t False params out"] finalize_track_count [of t False params out a]
  show ?case by (simp add: kt)
qed simp

lemma finish_walk_count [ids_simps]: "count_list (drafts_ids (finish_walk params w)) a \<le> walk_count w a"
proof -
  let ?w = "fst (flush_pending params None w)"
  let ?out = "foldl (\<lambda>out (_, t). finalize_track t False params out) (wk_out ?w) (wk_tracks ?w)"
  have "count_list (drafts_ids (finish_walk params w)) a
      \<le> count_list (drafts_ids ?out) a + count_list (focus_ids (wk_focus ?w)) a"
    using finalize_track_count [of _ False params ?out a]
    by (auto simp: finish_walk_def Let_def split: option.splits)
  with finish_tracks_count [of params "wk_out ?w" "wk_tracks ?w" a] flush_pending_count_fst [of params None w a]
  show ?thesis by (simp add: walk_count_def)
qed

end
