(* ===== verification/Segmenter_Spec.thy ===== *)
theory Segmenter_Spec
  imports Session_Types
begin

text \<open>
  The interface between the segmentation engine and its clients (\<open>traits::SessionSegmenter\<close>,
  \<open>crates/traits/src/contracts.rs\<close>): a segmenter maps frames and parameters to drafts that own
  frames exclusively and do not overlap on their own identity track. The session scheduler's
  lemmas are proved in this locale; \<open>Segmenter\<close> interprets it on the shipped engine.
\<close>

definition draft_track :: "session_draft \<Rightarrow> ustr" where
  "draft_track d = partition_of (sd_kind d) (sd_context_key d)"

definition same_track_disjoint :: "session_draft \<Rightarrow> session_draft \<Rightarrow> bool" where
  "same_track_disjoint a b \<longleftrightarrow> draft_track a = draft_track b \<longrightarrow>
     sd_ended_at a \<le> sd_started_at b \<or> sd_ended_at b \<le> sd_started_at a"

lemma symp_same_track_disjoint: "symp same_track_disjoint"
  by (auto simp: symp_def same_track_disjoint_def)

locale session_segmenter =
  fixes seg :: "segmenter_frame list \<Rightarrow> segmentation_params \<Rightarrow> session_draft list"
  assumes owned: "set (concat (map sd_frame_ids (seg frames params))) \<subseteq> set (map sf_id frames)"
    and exclusive: "distinct (map sf_id frames) \<Longrightarrow> distinct (concat (map sd_frame_ids (seg frames params)))"
    and disjoint: "0 \<le> focus_min_len_ms params \<Longrightarrow> sorted_wrt same_track_disjoint (seg frames params)"
    and ordered: "0 \<le> focus_min_len_ms params \<Longrightarrow> d \<in> set (seg frames params)
        \<Longrightarrow> sd_started_at d \<le> sd_ended_at d"
begin

text \<open>Assigning every draft's frames gives each frame at most one session.\<close>

lemma owner_unique:
  assumes "distinct (map sf_id frames)" and "i < length (seg frames params)" "j < length (seg frames params)"
    and "a \<in> set (sd_frame_ids (seg frames params ! i))" "a \<in> set (sd_frame_ids (seg frames params ! j))"
  shows "i = j"
proof -
  have "distinct (concat (map sd_frame_ids (seg frames params)))" using assms(1) by (rule exclusive)
  then have "set (map sd_frame_ids (seg frames params) ! k) \<inter> set (map sd_frame_ids (seg frames params) ! l) = {}"
    if "k < l" "l < length (seg frames params)" for k l
    using distinct_concat_nth that by (metis length_map)
  from this [of i j] this [of j i] assms(2-5) show ?thesis
    by (cases i j rule: linorder_cases) auto
qed

lemma draft_frame_known:
  "d \<in> set (seg frames params) \<Longrightarrow> a \<in> set (sd_frame_ids d) \<Longrightarrow> \<exists>f\<in>set frames. sf_id f = a"
  using owned [of frames params] by fastforce

end

end
