(* ===== verification/Segmenter.thy ===== *)
theory Segmenter
  imports Seg_Tracks Segmenter_Spec
begin

text \<open>
  The whole segmenter (\<open>segment_with_taxonomy\<close> of \<open>crates/sessions/src/segmenter.rs\<close>): bands,
  the walk over the free micro-spans, the final order and the per-track overlap repair. Its
  contract is the interpretation of \<open>session_segmenter\<close> at the end.
\<close>

section \<open>Drafts of the bands, order, overlap repair\<close>

definition band_draft :: "segmentation_params \<Rightarrow> band \<Rightarrow> session_draft" where
  "band_draft params b = \<lparr>
     sd_started_at = bd_start_ms b, sd_ended_at = bd_end_ms b, sd_kind = Meeting,
     sd_tool = None, sd_host = bd_host b, sd_context_key = lit ''meeting:'' @ bd_id b,
     sd_confidence = anchored_confidence (bd_presence_ms b) (bd_absorbed_ms b),
     sd_frame_ids = sort_dedup (bd_frame_ids b),
     sd_open = (sat_sub64 (now_ms params) (bd_end_ms b) < meeting_gap_ms params)\<rparr>"

definition draft_key :: "session_draft \<Rightarrow> int \<times> int option \<times> ustr" where
  "draft_key d = (sd_started_at d, first_opt (sd_frame_ids d), sd_context_key d)"

fun enforce_non_overlap_per_track :: "(ustr \<rightharpoonup> int) \<Rightarrow> session_draft list \<Rightarrow> session_draft list" where
  "enforce_non_overlap_per_track last_end [] = []"
| "enforce_non_overlap_per_track last_end (draft # drafts) =
     (let p = partition_of (sd_kind draft) (sd_context_key draft);
          draft' = (case last_end p of
              Some previous_end \<Rightarrow>
                if sd_started_at draft < previous_end
                then draft\<lparr>sd_started_at := previous_end,
                           sd_ended_at := max (sd_ended_at draft) previous_end\<rparr>
                else draft
            | None \<Rightarrow> draft)
      in draft' # enforce_non_overlap_per_track (last_end(p \<mapsto> sd_ended_at draft')) drafts)"

definition free_spans :: "band list \<Rightarrow> micro_span list \<Rightarrow> micro_span list" where
  "free_spans bands micros =
     filter (\<lambda>sp. is_ai sp \<or> owning_band_index (midpoint sp) bands = None) micros"

definition collect_drafts ::
  "(ustr \<Rightarrow> ustr) \<Rightarrow> taxonomy \<Rightarrow> segmentation_params \<Rightarrow> segmenter_frame list \<Rightarrow> session_draft list" where
  "collect_drafts lower tax params frames =
     (let micros = segment_micro lower tax params frames;
          bands = build_bands micros params
      in finish_walk params
           (foldl (walk_span params) (walk_start (map (band_draft params) bands)) (free_spans bands micros)))"

definition segment_with_taxonomy ::
  "(ustr \<Rightarrow> ustr) \<Rightarrow> taxonomy \<Rightarrow> segmenter_frame list \<Rightarrow> segmentation_params \<Rightarrow> session_draft list" where
  "segment_with_taxonomy lower tax frames params =
     sort_key draft_key (enforce_non_overlap_per_track Map.empty
       (sort_key draft_key (collect_drafts lower tax params frames)))"

section \<open>The overlap repair\<close>

lemma enforce_frame_ids:
  "map sd_frame_ids (enforce_non_overlap_per_track le ds) = map sd_frame_ids ds"
  by (induction ds arbitrary: le) (auto simp: Let_def split: option.splits)

lemma enforce_Cons:
  assumes "sd_started_at d \<le> sd_ended_at d"
  obtains d' where "enforce_non_overlap_per_track le (d # ds)
      = d' # enforce_non_overlap_per_track (le(draft_track d \<mapsto> sd_ended_at d')) ds"
    and "draft_track d' = draft_track d" "sd_started_at d' \<le> sd_ended_at d'"
    and "\<forall>e. le (draft_track d) = Some e \<longrightarrow> e \<le> sd_started_at d'"
    and "\<exists>s e. d' = d\<lparr>sd_started_at := s, sd_ended_at := e\<rparr>"
proof
  let ?p = "draft_track d"
  define d' where "d' = (case le ?p of Some previous_end \<Rightarrow>
      if sd_started_at d < previous_end
      then d\<lparr>sd_started_at := previous_end, sd_ended_at := max (sd_ended_at d) previous_end\<rparr> else d
    | None \<Rightarrow> d)"
  show "enforce_non_overlap_per_track le (d # ds)
      = d' # enforce_non_overlap_per_track (le(?p \<mapsto> sd_ended_at d')) ds"
    by (simp add: d'_def draft_track_def Let_def)
  show "draft_track d' = ?p" "sd_started_at d' \<le> sd_ended_at d'"
    "\<forall>e. le ?p = Some e \<longrightarrow> e \<le> sd_started_at d'"
    using assms by (auto simp: d'_def draft_track_def split: option.splits)
  have "d' = d\<lparr>sd_started_at := sd_started_at d', sd_ended_at := sd_ended_at d'\<rparr>"
    by (simp add: d'_def split: option.split)
  then show "\<exists>s e. d' = d\<lparr>sd_started_at := s, sd_ended_at := e\<rparr>" by blast
qed

lemma enforce_disjoint:
  assumes "\<forall>d\<in>set ds. sd_started_at d \<le> sd_ended_at d"
  shows "(\<forall>d\<in>set (enforce_non_overlap_per_track le ds). sd_started_at d \<le> sd_ended_at d
            \<and> (\<forall>e. le (draft_track d) = Some e \<longrightarrow> e \<le> sd_started_at d))
     \<and> sorted_wrt (\<lambda>a b. draft_track a = draft_track b \<longrightarrow> sd_ended_at a \<le> sd_started_at b)
         (enforce_non_overlap_per_track le ds)"
  using assms
proof (induction ds arbitrary: le)
  case (Cons d ds)
  then have "sd_started_at d \<le> sd_ended_at d" by simp
  then obtain d' where d': "enforce_non_overlap_per_track le (d # ds)
      = d' # enforce_non_overlap_per_track (le(draft_track d \<mapsto> sd_ended_at d')) ds"
    "draft_track d' = draft_track d" "sd_started_at d' \<le> sd_ended_at d'"
    "\<forall>e. le (draft_track d) = Some e \<longrightarrow> e \<le> sd_started_at d'"
    by (rule enforce_Cons [where le = le and ds = ds])
  have IH: "\<forall>x\<in>set (enforce_non_overlap_per_track (le(draft_track d \<mapsto> sd_ended_at d')) ds).
      sd_started_at x \<le> sd_ended_at x
        \<and> (\<forall>e. (le(draft_track d \<mapsto> sd_ended_at d')) (draft_track x) = Some e \<longrightarrow> e \<le> sd_started_at x)"
    "sorted_wrt (\<lambda>a b. draft_track a = draft_track b \<longrightarrow> sd_ended_at a \<le> sd_started_at b)
       (enforce_non_overlap_per_track (le(draft_track d \<mapsto> sd_ended_at d')) ds)"
    using Cons by auto
  have tail: "draft_track x = draft_track d \<longrightarrow> sd_ended_at d' \<le> sd_started_at x"
    "\<forall>e. le (draft_track x) = Some e \<longrightarrow> e \<le> sd_started_at x"
    if "x \<in> set (enforce_non_overlap_per_track (le(draft_track d \<mapsto> sd_ended_at d')) ds)" for x
    using IH(1) that d'(3,4) by (fastforce split: if_splits)+
  with IH d' show ?case by auto
qed simp

lemma enforce_only_times:
  assumes "\<And>d s e. P d \<Longrightarrow> P (d\<lparr>sd_started_at := s, sd_ended_at := e\<rparr>)"
    and "\<forall>d\<in>set ds. sd_started_at d \<le> sd_ended_at d \<and> P d"
  shows "\<forall>d\<in>set (enforce_non_overlap_per_track le ds). P d"
  using assms(2)
proof (induction ds arbitrary: le)
  case (Cons d ds)
  then have "sd_started_at d \<le> sd_ended_at d" by simp
  then obtain d' where d': "enforce_non_overlap_per_track le (d # ds)
      = d' # enforce_non_overlap_per_track (le(draft_track d \<mapsto> sd_ended_at d')) ds"
    "\<exists>s e. d' = d\<lparr>sd_started_at := s, sd_ended_at := e\<rparr>"
    by (rule enforce_Cons [where le = le and ds = ds])
  with Cons assms(1) show ?case by auto
qed simp

section \<open>What every collected draft satisfies\<close>

text \<open>
  Every draft that the walk emits is a finished band or a finished track: a property of those
  two holds of every collected draft.
\<close>

definition finished :: "segmentation_params \<Rightarrow> session_draft \<Rightarrow> bool" where
  "finished params d \<longleftrightarrow> (\<exists>t g. d = fst (finalize_draft t g params) \<and> snd (finalize_draft t g params))"

definition out_ok :: "segmentation_params \<Rightarrow> session_draft set \<Rightarrow> session_draft list \<Rightarrow> bool" where
  "out_ok params B out \<longleftrightarrow> (\<forall>d\<in>set out. d \<in> B \<or> finished params d)"

lemma finalize_track_ok: "out_ok params B out \<Longrightarrow> out_ok params B (finalize_track t g params out)"
  by (auto simp: out_ok_def finalize_track_def finished_def split: prod.splits)
    (metis fst_conv snd_conv)

lemma extend_or_open_focus_ok:
  "out_ok params B (wk_out w) \<Longrightarrow> out_ok params B (wk_out (extend_or_open_focus params sp w))"
  by (auto simp: extend_or_open_focus_def Let_def finalize_track_ok split: option.splits)

lemma flush_one_ok:
  "out_ok params B (wk_out (fst st)) \<Longrightarrow> out_ok params B (wk_out (fst (flush_one params rs st sp)))"
  by (auto simp: flush_one_def extend_or_open_focus_ok split: prod.splits option.splits)

lemma foldl_flush_one_ok:
  "out_ok params B (wk_out (fst st)) \<Longrightarrow> out_ok params B (wk_out (fst (foldl (flush_one params rs) st sps)))"
  by (induction sps arbitrary: st) (simp_all add: flush_one_ok)

lemma flush_pending_ok:
  "out_ok params B (wk_out w) \<Longrightarrow> out_ok params B (wk_out (fst (flush_pending params rs w)))"
  by (simp add: flush_pending_def foldl_flush_one_ok)

lemma touch_ai_out: "wk_out (touch_ai aid sp (w, r)) = wk_out w"
  by (auto simp: touch_ai_def Let_def split: option.splits)

lemma walk_span_ok: "out_ok params B (wk_out w) \<Longrightarrow> out_ok params B (wk_out (walk_span params w sp))"
proof -
  assume ok: "out_ok params B (wk_out w)"
  define w0 where "w0 = flush_stale params sp w"
  have ok0: "out_ok params B (wk_out w0)" using ok by (simp add: w0_def flush_stale_def flush_pending_ok)
  have gap: "out_ok params B (wk_out (close_gapped params aid sp w0))" for aid
    using ok0 by (auto simp: close_gapped_def finalize_track_ok split: option.splits)
  have "out_ok params B (wk_out (touch_ai aid sp (flush_pending params rs (close_gapped params aid sp w0))))"
    for aid rs
    using flush_pending_ok [OF gap [of aid], of rs]
    by (cases "flush_pending params rs (close_gapped params aid sp w0)") (simp add: touch_ai_out)
  with ok0 show ?thesis
    by (auto simp: walk_span_def w0_def [symmetric] walk_ai_def walk_none_def Let_def
        extend_or_open_focus_ok flush_pending_ok split: identity.splits)
qed

lemma foldl_walk_span_ok:
  "out_ok params B (wk_out w) \<Longrightarrow> out_ok params B (wk_out (foldl (walk_span params) w sps))"
  by (induction sps arbitrary: w) (simp_all add: walk_span_ok)

lemma foldl_finalize_ok:
  "out_ok params B out \<Longrightarrow> out_ok params B (foldl (\<lambda>out (_, t). finalize_track t False params out) out ts)"
  by (induction ts arbitrary: out) (auto simp: finalize_track_ok)

lemma collected_draft:
  assumes "d \<in> set (collect_drafts lower tax params frames)"
  shows "finished params d \<or>
    (\<exists>b\<in>set (build_bands (segment_micro lower tax params frames) params). d = band_draft params b)"
proof -
  let ?micros = "segment_micro lower tax params frames"
  let ?bands = "build_bands ?micros params"
  let ?B = "set (map (band_draft params) ?bands)"
  let ?w = "foldl (walk_span params) (walk_start (map (band_draft params) ?bands)) (free_spans ?bands ?micros)"
  have "out_ok params ?B (wk_out ?w)"
    by (rule foldl_walk_span_ok) (simp add: walk_start_def out_ok_def)
  then have "out_ok params ?B (finish_walk params ?w)"
    by (auto simp: finish_walk_def Let_def finalize_track_ok foldl_finalize_ok flush_pending_ok
        split: option.splits)
  then show ?thesis using assms by (auto simp: collect_drafts_def out_ok_def Let_def)
qed

section \<open>Exclusive ownership\<close>

lemma free_spans_count:
  "count_list (spans_ids (free_spans bands micros)) a
     + count_list (spans_ids (filter (band_owned bands) micros)) a = count_list (spans_ids micros) a"
  by (induction micros) (auto simp: free_spans_def band_owned_def)

lemma band_drafts_count:
  "count_list (drafts_ids (map (band_draft params) bands)) a
     \<le> count_list (concat (map bd_frame_ids bands)) a"
proof (induction bands)
  case (Cons b bands)
  with count_sort_dedup [of "bd_frame_ids b" a] show ?case by (simp add: band_draft_def)
qed simp

lemma collect_drafts_count:
  "count_list (drafts_ids (collect_drafts lower tax params frames)) a
     \<le> count_list (map sf_id (filter (keyed lower tax) frames)) a"
proof -
  let ?micros = "segment_micro lower tax params frames"
  let ?bands = "build_bands ?micros params"
  let ?start = "walk_start (map (band_draft params) ?bands)"
  let ?w = "foldl (walk_span params) ?start (free_spans ?bands ?micros)"
  have "count_list (drafts_ids (collect_drafts lower tax params frames)) a \<le> walk_count ?w a"
    unfolding collect_drafts_def Let_def by (rule finish_walk_count)
  also have "\<dots> \<le> walk_count ?start a + count_list (spans_ids (free_spans ?bands ?micros)) a"
    by (rule foldl_walk_span_count)
  also have "walk_count ?start a \<le> count_list (concat (map bd_frame_ids ?bands)) a"
    using band_drafts_count by (simp add: walk_count_def walk_start_def)
  also have "count_list (concat (map bd_frame_ids ?bands)) a
      = count_list (spans_ids (filter (band_owned ?bands) ?micros)) a"
    unfolding spans_ids_def by (rule count_list_mset) (rule build_bands_mset_ids)
  finally have "count_list (drafts_ids (collect_drafts lower tax params frames)) a
      \<le> count_list (spans_ids ?micros) a"
    using free_spans_count [of ?bands ?micros a] by simp
  also have "\<dots> = count_list (map sf_id (filter (keyed lower tax) frames)) a"
    unfolding spans_ids_def by (rule count_list_mset) (rule segment_micro_mset_ids)
  finally show ?thesis .
qed

lemma enforce_drafts_ids: "drafts_ids (enforce_non_overlap_per_track le ds) = drafts_ids ds"
  by (simp add: drafts_ids_def enforce_frame_ids)

lemma segment_count:
  "count_list (drafts_ids (segment_with_taxonomy lower tax frames params)) a
     \<le> count_list (map sf_id (filter (keyed lower tax) frames)) a"
proof -
  have sort: "count_list (drafts_ids (sort_key f ds)) a = count_list (drafts_ids ds) a"
    for f :: "session_draft \<Rightarrow> int \<times> int option \<times> ustr" and ds
    unfolding drafts_ids_def by (rule count_list_mset) (rule mset_concat_map_sort)
  show ?thesis
    using collect_drafts_count [of lower tax params frames a]
    by (simp add: segment_with_taxonomy_def sort enforce_drafts_ids)
qed

section \<open>Times\<close>

lemma finished_ordered: "finished params d \<Longrightarrow> sd_started_at d \<le> sd_ended_at d"
  by (auto simp: finished_def finalize_draft_def Let_def split: option.splits)

lemma collected_ordered:
  assumes "0 \<le> focus_min_len_ms params" and "d \<in> set (collect_drafts lower tax params frames)"
  shows "sd_started_at d \<le> sd_ended_at d"
  using collected_draft [OF assms(2)] build_bands_long assms(1)
  by (fastforce simp: finished_ordered band_draft_def)

lemma segment_disjoint:
  assumes "0 \<le> focus_min_len_ms params"
  shows "(\<forall>d\<in>set (segment_with_taxonomy lower tax frames params). sd_started_at d \<le> sd_ended_at d)
     \<and> sorted_wrt same_track_disjoint (segment_with_taxonomy lower tax frames params)"
proof -
  let ?ds = "sort_key draft_key (collect_drafts lower tax params frames)"
  let ?e = "enforce_non_overlap_per_track Map.empty ?ds"
  have "\<forall>d\<in>set ?ds. sd_started_at d \<le> sd_ended_at d" using collected_ordered [OF assms] by simp
  note e = enforce_disjoint [OF this, of Map.empty]
  then have "sorted_wrt same_track_disjoint ?e"
    by (auto simp: same_track_disjoint_def elim: sorted_wrt_mono_rel [rotated])
  then have "sorted_wrt same_track_disjoint (sort_key draft_key ?e)"
    using symp_same_track_disjoint by (rule sorted_wrt_symp_perm [rotated 2]) simp
  with e show ?thesis by (simp add: segment_with_taxonomy_def)
qed

section \<open>Shape of a draft\<close>

definition draft_shape :: "session_draft \<Rightarrow> bool" where
  "draft_shape d \<longleftrightarrow> sorted_wrt (<) (sd_frame_ids d) \<and>
     (case sd_kind d of
        Ai \<Rightarrow> (\<exists>aid. sd_tool d = Some aid \<and> sd_context_key d = lit ''ai:'' @ aid)
          \<and> 70 / 100 \<le> sd_confidence d \<and> sd_confidence d \<le> 95 / 100
      | Meeting \<Rightarrow> sd_tool d = None \<and> (\<exists>mid. sd_context_key d = lit ''meeting:'' @ mid)
          \<and> 70 / 100 \<le> sd_confidence d \<and> sd_confidence d \<le> 95 / 100
      | Focus \<Rightarrow> sd_tool d = None \<and> sd_host d = None
          \<and> (\<exists>stem. sd_context_key d = lit ''focus'' @ stem)
          \<and> 30 / 100 \<le> sd_confidence d \<and> sd_confidence d \<le> 65 / 100
      | Other \<Rightarrow> False)"

lemma band_draft_shape: "draft_shape (band_draft params b)"
  by (simp add: draft_shape_def band_draft_def sort_dedup_strict anchored_confidence_band [simplified])

lemma finished_shape:
  assumes "finished params d"
  shows "draft_shape d"
proof -
  obtain t g where d: "d = fst (finalize_draft t g params)" using assms by (auto simp: finished_def)
  show ?thesis
  proof (cases "ot_ai_id t")
    case (Some aid)
    then show ?thesis
      by (simp add: d draft_shape_def finalize_draft_def Let_def sort_dedup_strict
          anchored_confidence_band [simplified])
  next
    case None
    have "\<exists>stem. (case dominant_stem t of None \<Rightarrow> lit ''focus'' | Some s \<Rightarrow> lit ''focus:'' @ s)
        = lit ''focus'' @ stem"
      by (cases "dominant_stem t") simp_all
    with None show ?thesis
      by (simp add: d draft_shape_def finalize_draft_def Let_def sort_dedup_strict
          focus_confidence_band [simplified])
  qed
qed

lemma draft_shape_times: "draft_shape d \<Longrightarrow> draft_shape (d\<lparr>sd_started_at := s, sd_ended_at := e\<rparr>)"
  by (cases "sd_kind d") (simp_all add: draft_shape_def)

lemma segment_shape:
  assumes "0 \<le> focus_min_len_ms params" and "d \<in> set (segment_with_taxonomy lower tax frames params)"
  shows "draft_shape d"
proof -
  have "sd_started_at x \<le> sd_ended_at x \<and> draft_shape x"
    if "x \<in> set (collect_drafts lower tax params frames)" for x
    using collected_ordered [OF assms(1) that] collected_draft [OF that] band_draft_shape finished_shape
    by metis
  then have "\<forall>x\<in>set (sort_key draft_key (collect_drafts lower tax params frames)).
      sd_started_at x \<le> sd_ended_at x \<and> draft_shape x" by simp
  from enforce_only_times [of draft_shape, OF draft_shape_times this] assms(2) show ?thesis
    by (simp add: segment_with_taxonomy_def)
qed

section \<open>The engine implements the segmenter interface\<close>

lemma count_list_filter_map_le: "count_list (map f (filter P xs)) a \<le> count_list (map f xs) a"
  by (induction xs) auto

lemma drafts_owned: "set (drafts_ids (segment_with_taxonomy lower tax frames params)) \<subseteq> sf_id ` set frames"
proof
  fix a assume "a \<in> set (drafts_ids (segment_with_taxonomy lower tax frames params))"
  then have "0 < count_list (drafts_ids (segment_with_taxonomy lower tax frames params)) a"
    using count_list_0_iff by fastforce
  then have "count_list (map sf_id (filter (keyed lower tax) frames)) a \<noteq> 0"
    using segment_count [of lower tax frames params a] by linarith
  then have "a \<in> set (map sf_id (filter (keyed lower tax) frames))"
    by (simp only: count_list_0_iff not_not)
  then show "a \<in> sf_id ` set frames" by auto
qed

lemma drafts_exclusive:
  assumes "distinct (map sf_id frames)"
  shows "distinct (drafts_ids (segment_with_taxonomy lower tax frames params))"
  using assms segment_count [of lower tax frames params]
    count_list_filter_map_le [of sf_id "keyed lower tax" frames] order_trans
  unfolding distinct_count_list by metis

interpretation engine: session_segmenter "segment_with_taxonomy lower tax" for lower tax
proof
  fix frames params
  show "set (concat (map sd_frame_ids (segment_with_taxonomy lower tax frames params))) \<subseteq> set (map sf_id frames)"
    using drafts_owned [of lower tax frames params] by (simp add: drafts_ids_def)
  show "distinct (map sf_id frames)
      \<Longrightarrow> distinct (concat (map sd_frame_ids (segment_with_taxonomy lower tax frames params)))"
    using drafts_exclusive by (simp add: drafts_ids_def)
  show "0 \<le> focus_min_len_ms params
      \<Longrightarrow> sorted_wrt same_track_disjoint (segment_with_taxonomy lower tax frames params)"
    using segment_disjoint by blast
  show "sd_started_at d \<le> sd_ended_at d"
    if "0 \<le> focus_min_len_ms params" "d \<in> set (segment_with_taxonomy lower tax frames params)" for d
    using segment_disjoint that by blast
qed

section \<open>A concrete day\<close>

definition sample_taxonomy :: taxonomy where
  "sample_taxonomy = \<lparr>tx_version = 3, tx_entries =
     [\<lparr>en_id = lit ''codex'', en_kind = Ai, en_host = Some Terminal, en_app_hints = [lit ''codex''],
        en_title_patterns = [], en_title_prefix_ranges = [], en_title_exclude_patterns = [],
        en_domains = [], en_prefix_ranges = []\<rparr>,
      \<lparr>en_id = lit ''zoom'', en_kind = Meeting, en_host = None, en_app_hints = [lit ''zoom''],
        en_title_patterns = [], en_title_prefix_ranges = [], en_title_exclude_patterns = [],
        en_domains = [], en_prefix_ranges = []\<rparr>]\<rparr>"

definition sample_frame :: "int \<Rightarrow> int \<Rightarrow> string \<Rightarrow> segmenter_frame" where
  "sample_frame i t app = \<lparr>sf_id = i, sf_captured_at = t, sf_app_hint = Some (lit app),
     sf_window_title = None, sf_browser_url = None\<rparr>"

text \<open>A call with an AI run and an editor glance inside it, then a stretch of writing.\<close>

definition sample_frames :: "segmenter_frame list" where
  "sample_frames =
     [sample_frame 1 0 ''zoom.exe'', sample_frame 2 300000 ''zoom.exe'',
      sample_frame 3 350000 ''codex.exe'', sample_frame 4 500000 ''codex.exe'',
      sample_frame 5 700000 ''zoom.exe'', sample_frame 6 710000 ''word.exe'', sample_frame 7 720000 ''zoom.exe'',
      sample_frame 8 9000000 ''word.exe'', sample_frame 9 9300000 ''word.exe'',
      sample_frame 10 9700000 ''word.exe'']"

definition sample_params :: segmentation_params where
  "sample_params = (shipped 20000000 900000 60000)\<lparr>focus_min_density_fph := 10\<rparr>"

section \<open>Properties\<close>

lemma sample_output:
  "map (\<lambda>d. (sd_started_at d, sd_ended_at d, sd_kind d, sd_frame_ids d))
     (segment_with_taxonomy id sample_taxonomy sample_frames sample_params) =
     [(0, 720000, Meeting, [1, 2, 5, 6, 7]), (350000, 500000, Ai, [3, 4]), (9000000, 9700000, Focus, [8, 9, 10])]"
  by code_simp

lemma sample_length: "length (segment_with_taxonomy id sample_taxonomy sample_frames sample_params) = 3"
  using arg_cong [OF sample_output, of length] by simp

lemma sample_nth:
  "sd_frame_ids (segment_with_taxonomy id sample_taxonomy sample_frames sample_params ! 0) = [1, 2, 5, 6, 7]"
  "sd_kind (segment_with_taxonomy id sample_taxonomy sample_frames sample_params ! 1) = Ai"
  "sd_frame_ids (segment_with_taxonomy id sample_taxonomy sample_frames sample_params ! 1) = [3, 4]"
  by code_simp+

text \<open>C1: Exclusive ownership: when the frames have distinct ids, no frame id is owned by two drafts
  of a segmentation or listed twice in one draft, and every id a draft owns is the id of an input frame.\<close>

theorem segment_frames_owned_once:
  assumes "distinct (map sf_id frames)"
  shows "distinct (concat (map sd_frame_ids (segment_with_taxonomy lower tax frames params)))
     \<and> set (concat (map sd_frame_ids (segment_with_taxonomy lower tax frames params))) \<subseteq> sf_id ` set frames"
  using engine.exclusive [OF assms, of lower tax params] engine.owned [of lower tax frames params] by simp

theorem segment_frames_owned_once_witness:
  "distinct (concat (map sd_frame_ids (segment_with_taxonomy id sample_taxonomy sample_frames sample_params)))
     \<and> length (segment_with_taxonomy id sample_taxonomy sample_frames sample_params) = 3"
proof -
  have "distinct (map sf_id sample_frames)" by (simp add: sample_frames_def sample_frame_def)
  from segment_frames_owned_once [OF this, of id sample_taxonomy sample_params] sample_length
  show ?thesis by blast
qed


definition sample_two_focus :: "segmenter_frame list" where
  "sample_two_focus = map (\<lambda>i. sample_frame i (i * 600000) ''word.exe'') [0..2]
     @ map (\<lambda>i. sample_frame i (i * 600000) ''word.exe'') [10..12]"

lemma sample_two_focus_tracks:
  "length (segment_with_taxonomy id sample_taxonomy sample_two_focus
      (sample_params\<lparr>focus_min_density_fph := 5\<rparr>)) = 2"
  "map draft_track (segment_with_taxonomy id sample_taxonomy sample_two_focus
      (sample_params\<lparr>focus_min_density_fph := 5\<rparr>)) = [lit ''focus'', lit ''focus'']"
  by code_simp+


text \<open>C34: The drafts come out ordered by start, first frame and context key, and each is well formed: frame
  ids strictly ascend; an AI draft names its tool in its context key, a meeting draft has no tool, a
  focus draft has neither tool nor host; and every focus confidence is below every anchored one.\<close>

theorem segment_draft_shape:
  assumes "0 \<le> focus_min_len_ms params"
  shows "sorted_wrt (\<lambda>a b. draft_key a \<le> draft_key b) (segment_with_taxonomy lower tax frames params)
    \<and> list_all draft_shape (segment_with_taxonomy lower tax frames params)
    \<and> (\<forall>d \<in> set (segment_with_taxonomy lower tax frames params).
        \<forall>d' \<in> set (segment_with_taxonomy lower tax frames params).
          sd_kind d = Focus \<and> sd_kind d' \<noteq> Focus \<longrightarrow> sd_confidence d < sd_confidence d')"
proof (intro conjI ballI impI)
  show "sorted_wrt (\<lambda>a b. draft_key a \<le> draft_key b) (segment_with_taxonomy lower tax frames params)"
    unfolding segment_with_taxonomy_def by (rule sorted_wrt_sort_key)
  show "list_all draft_shape (segment_with_taxonomy lower tax frames params)"
    using segment_shape [OF assms] by (simp add: list_all_iff)
  fix d d'
  assume "d \<in> set (segment_with_taxonomy lower tax frames params)"
    and "d' \<in> set (segment_with_taxonomy lower tax frames params)"
    and kinds: "sd_kind d = Focus \<and> sd_kind d' \<noteq> Focus"
  then have "draft_shape d" "draft_shape d'" by (auto intro: segment_shape [OF assms])
  with kinds show "sd_confidence d < sd_confidence d'"
    by (cases "sd_kind d'") (simp_all add: draft_shape_def)
qed

theorem segment_draft_shape_witness:
  "draft_shape (segment_with_taxonomy id sample_taxonomy sample_frames sample_params ! 1)
     \<and> sd_kind (segment_with_taxonomy id sample_taxonomy sample_frames sample_params ! 1) = Ai"
  using segment_draft_shape [of sample_params id sample_taxonomy sample_frames] sample_length sample_nth(2)
  by (simp add: sample_params_def list_all_length)

text \<open>Every draft the walk emits (before the overlap repair, which only moves bounds) met its gate:
  an AI draft lasts at least the minimum length, a meeting or focus draft at least the focus minimum;
  and a draft marked open ended less than the closing gap of its kind before now.\<close>

theorem collected_drafts_qualify:
  assumes "d \<in> set (collect_drafts lower tax params frames)"
  shows "(if sd_kind d = Ai then min_len_ms params else focus_min_len_ms params)
        \<le> sd_ended_at d - sd_started_at d
     \<and> (sd_open d \<longrightarrow> sat_sub64 (now_ms params) (sd_ended_at d)
          < (if sd_kind d = Meeting then meeting_gap_ms params else merge_gap_ms params))"
  using collected_draft [OF assms]
proof
  assume "finished params d"
  then show ?thesis by (auto simp: finished_def finalize_draft_def Let_def split: option.splits)
next
  assume "\<exists>b\<in>set (build_bands (segment_micro lower tax params frames) params). d = band_draft params b"
  then show ?thesis using build_bands_long by (auto simp: band_draft_def)
qed

lemma sample_collected:
  "map sd_kind (collect_drafts id sample_taxonomy sample_params sample_frames) = [Meeting, Ai, Focus]"
  by code_simp

theorem collected_drafts_qualify_witness:
  "60000 \<le> sd_ended_at (collect_drafts id sample_taxonomy sample_params sample_frames ! 1)
      - sd_started_at (collect_drafts id sample_taxonomy sample_params sample_frames ! 1)"
proof -
  let ?ds = "collect_drafts id sample_taxonomy sample_params sample_frames"
  have "length ?ds = 3" using arg_cong [OF sample_collected, of length] by simp
  moreover have "sd_kind (?ds ! 1) = Ai"
    using nth_map [of 1 ?ds sd_kind] sample_collected \<open>length ?ds = 3\<close> by simp
  ultimately show ?thesis
    using collected_drafts_qualify [of "?ds ! 1" id sample_taxonomy sample_params sample_frames]
    by (simp add: sample_params_def)
qed

end
