(* ===== verification/Session_Reconcile.thy ===== *)
theory Session_Reconcile
  imports Session_Store Segmenter
begin

text \<open>
  Session reconciliation (\<open>crates/kernel/src/sessions_scheduler.rs\<close>): the incremental pass that
  matches fresh drafts to the unfrozen rows, and the resumable historical backfill. A pass is a
  program over the session tables that stops at its first error, keeping what it has written. The
  segmenter is the trait object's \<open>segment\<close> and \<open>extract_exchanges\<close>; its laws are those of the
  locale \<open>session_segmenter\<close>. All stamps of one pass use one reading \<open>t\<close> of the database clock. The
  settings row of the checkpoint, JSON in the code, is the optional checkpoint itself.
\<close>

section \<open>Programs over the store\<close>

type_synonym ('e, 'a) prog = "session_db \<Rightarrow> ('e + 'a) \<times> session_db"

definition return_p :: "'a \<Rightarrow> ('e, 'a) prog" where "return_p a db = (Inr a, db)"

definition fail_p :: "'e \<Rightarrow> ('e, 'a) prog" where "fail_p e db = (Inl e, db)"

definition bind_p :: "('e, 'a) prog \<Rightarrow> ('a \<Rightarrow> ('e, 'b) prog) \<Rightarrow> ('e, 'b) prog" where
  "bind_p m f db = (case m db of (Inl e, db') \<Rightarrow> (Inl e, db') | (Inr a, db') \<Rightarrow> f a db')"

definition total_p :: "(session_db \<Rightarrow> 'a \<times> session_db) \<Rightarrow> ('e, 'a) prog" where
  "total_p m db = (case m db of (a, db') \<Rightarrow> (Inr a, db'))"

definition read_p :: "(session_db \<Rightarrow> 'a) \<Rightarrow> ('e, 'a) prog" where "read_p f db = (Inr (f db), db)"

definition lift_p :: "('d \<Rightarrow> 'e) \<Rightarrow> ('d, 'a) prog \<Rightarrow> ('e, 'a) prog" where
  "lift_p g m db = (case m db of (r, db') \<Rightarrow> (map_sum g id r, db'))"

text \<open>A \<open>for\<close> loop whose body may set \<open>changed\<close>.\<close>

fun any_p :: "('a \<Rightarrow> ('e, bool) prog) \<Rightarrow> 'a list \<Rightarrow> ('e, bool) prog" where
  "any_p f [] = return_p False"
| "any_p f (x # xs) = bind_p (f x) (\<lambda>c. bind_p (any_p f xs) (\<lambda>d. return_p (c \<or> d)))"

section \<open>Trimming and matching\<close>

definition frame_times :: "segmenter_frame list \<Rightarrow> int \<rightharpoonup> int" where
  "frame_times frames = map_of (rev (map (\<lambda>f. (sf_id f, sf_captured_at f)) frames))"

definition same_track :: "session_draft \<Rightarrow> session \<Rightarrow> bool" where
  "same_track d s \<longleftrightarrow>
     partition_of (ss_kind s) (ss_context_key s) = partition_of (sd_kind d) (sd_context_key d)"

definition frozen_overlap_end :: "session_draft \<Rightarrow> session \<Rightarrow> int option" where
  "frozen_overlap_end d s = (case ss_ended_at s of None \<Rightarrow> None
     | Some end_ms \<Rightarrow> if sd_started_at d \<le> end_ms \<and> ss_started_at s \<le> sd_ended_at d then Some end_ms else None)"

definition frozen_cut :: "session list \<Rightarrow> session_draft \<Rightarrow> int option" where
  "frozen_cut frozen d =
     list_max (List.map_filter (frozen_overlap_end d) (filter (same_track d) (filter ss_frozen frozen)))"

text \<open>Keep the frames that satisfy a bound; the bounds become those of the kept frames.\<close>

definition retain_frames :: "(int \<Rightarrow> bool) \<Rightarrow> (int \<rightharpoonup> int) \<Rightarrow> session_draft \<Rightarrow> session_draft option" where
  "retain_frames keep tmap d =
     (let ids = filter (\<lambda>i. case tmap i of None \<Rightarrow> False | Some ts \<Rightarrow> keep ts) (sd_frame_ids d);
          ts = List.map_filter tmap ids
      in if ids = [] then None
         else (case (list_min ts, list_max ts) of
             (Some lo, Some hi) \<Rightarrow> Some (d\<lparr>sd_frame_ids := ids, sd_started_at := lo, sd_ended_at := hi\<rparr>)
           | _ \<Rightarrow> None))"

definition trim_draft :: "session list \<Rightarrow> (int \<rightharpoonup> int) \<Rightarrow> session_draft \<Rightarrow> session_draft option" where
  "trim_draft frozen tmap d = (case frozen_cut frozen d of
     Some cut_ms \<Rightarrow> retain_frames (\<lambda>ts. cut_ms < ts) tmap d
   | None \<Rightarrow> Some d)"

definition trim_drafts_against_frozen ::
  "session_draft list \<Rightarrow> session list \<Rightarrow> segmenter_frame list \<Rightarrow> session_draft list" where
  "trim_drafts_against_frozen drafts frozen frames =
     List.map_filter (trim_draft frozen (frame_times frames)) drafts"

definition overlap_ms :: "session_draft \<Rightarrow> session \<Rightarrow> int \<Rightarrow> int option" where
  "overlap_ms d s now =
     (let session_end = (case ss_ended_at s of None \<Rightarrow> now | Some e \<Rightarrow> e);
          overlap = min (sd_ended_at d) session_end - max (sd_started_at d) (ss_started_at s)
      in if 0 < overlap then Some overlap else None)"

definition match_score :: "session_draft \<Rightarrow> session \<times> int \<Rightarrow> int \<times> int \<times> int" where
  "match_score d so = (snd so, - \<bar>sd_started_at d - ss_started_at (fst so)\<bar>, - ss_id (fst so))"

definition match_candidates ::
  "session list \<Rightarrow> int \<Rightarrow> int set \<Rightarrow> session_draft \<Rightarrow> (session \<times> int) list" where
  "match_candidates existing now used d =
     List.map_filter (\<lambda>s. map_option (\<lambda>o'. (s, o')) (overlap_ms d s now))
       (filter (\<lambda>s. ss_id s \<notin> used)
         (filter (\<lambda>s. ss_context_key s = sd_context_key d) (filter (\<lambda>s. \<not> ss_frozen s) existing)))"

definition best_match :: "session list \<Rightarrow> int \<Rightarrow> int set \<Rightarrow> session_draft \<Rightarrow> int option" where
  "best_match existing now used d =
     map_option (\<lambda>so. ss_id (fst so))
       (max_by (\<lambda>a b. match_score d b < match_score d a) (match_candidates existing now used d))"

fun match_from :: "session list \<Rightarrow> int \<Rightarrow> int set \<Rightarrow> session_draft list \<Rightarrow> int option list" where
  "match_from existing now used [] = []"
| "match_from existing now used (d # ds) =
     (let best = best_match existing now used d
      in best # match_from existing now (case best of None \<Rightarrow> used | Some i \<Rightarrow> insert i used) ds)"

definition match_drafts_to_existing :: "session_draft list \<Rightarrow> session list \<Rightarrow> int \<Rightarrow> int option list" where
  "match_drafts_to_existing drafts existing now = match_from existing now {} drafts"

section \<open>The incremental pass\<close>

definition session_matches_draft :: "session \<Rightarrow> session_draft \<Rightarrow> bool" where
  "session_matches_draft s d =
     (let desired = as_new_session d False
      in ss_started_at s = ns_started_at desired \<and> ss_ended_at s = ns_ended_at desired
         \<and> ss_kind s = ns_kind desired \<and> ss_tool s = ns_tool desired \<and> ss_host s = ns_host desired
         \<and> ss_context_key s = ns_context_key desired \<and> ss_confidence s = ns_confidence desired
         \<and> \<not> ss_frozen s)"

definition exchange_artifact :: "extracted_exchange \<Rightarrow> new_session_artifact" where
  "exchange_artifact e = \<lparr>na_kind = Exchange, na_role = Some (ee_role e),
     na_frame_id = Some (ee_frame_id e), na_content = ee_content e\<rparr>"

definition as_new_artifact :: "session_artifact \<Rightarrow> new_session_artifact" where
  "as_new_artifact a = \<lparr>na_kind = sa_kind a, na_role = sa_role a, na_frame_id = sa_frame_id a, na_content = sa_content a\<rparr>"

definition refresh_exchanges ::
  "(ustr \<Rightarrow> session_content list \<Rightarrow> extracted_exchange list) \<Rightarrow> int \<Rightarrow> int \<Rightarrow> session_draft \<Rightarrow> (db_error, bool) prog" where
  "refresh_exchanges extract t sid d =
     bind_p (read_p (content_texts_for_frames (sd_frame_ids d))) (\<lambda>contents.
     bind_p (read_p (list_session_artifacts sid)) (\<lambda>rows.
       (let artifacts = map exchange_artifact (extract (case sd_tool d of None \<Rightarrow> [] | Some tool \<Rightarrow> tool) contents);
            current = map as_new_artifact (filter (\<lambda>a. sa_kind a = Exchange) rows)
        in if current = artifacts then return_p False
           else bind_p (total_p (delete_session_artifacts_by_kind sid Exchange)) (\<lambda>_.
                bind_p (insert_session_artifacts t sid artifacts) (\<lambda>_. return_p True)))))"

text \<open>First loop: release the frames a matched session no longer wants; remember what each row owned.\<close>

definition release_stale :: "(int \<rightharpoonup> session_draft) \<Rightarrow> session \<Rightarrow> (db_error, bool) prog" where
  "release_stale desired s =
     bind_p (read_p (\<lambda>db. map sf_id (session_frames_meta (ss_id s) db))) (\<lambda>ids.
       (case desired (ss_id s) of
          None \<Rightarrow> return_p False
        | Some d \<Rightarrow> bind_p (assign_frames_session (filter (\<lambda>i. i \<notin> set (sd_frame_ids d)) ids) None)
                     (\<lambda>n. return_p (0 < n))))"

definition owned_ids :: "session_db \<Rightarrow> session list \<Rightarrow> (int \<times> int list) list" where
  "owned_ids db existing = map (\<lambda>s. (ss_id s, map sf_id (session_frames_meta (ss_id s) db))) existing"

definition drop_unmatched :: "int option list \<Rightarrow> session \<Rightarrow> (db_error, bool) prog" where
  "drop_unmatched matches s =
     (if Some (ss_id s) \<in> set matches then return_p False else total_p (delete_unfrozen_session (ss_id s)))"

text \<open>Third loop: the row of a draft, \<open>None\<close> when its update was refused, then its frames and exchanges.\<close>

definition draft_row :: "int \<Rightarrow> session list \<Rightarrow> session_draft \<Rightarrow> int option \<Rightarrow> (db_error, bool \<times> int option) prog" where
  "draft_row t existing d matched = (case matched of
     Some i \<Rightarrow>
       (case List.find (\<lambda>s. ss_id s = i) existing of
          Some s \<Rightarrow> if \<not> session_matches_draft s d
                    then bind_p (update_unfrozen_session t i (as_new_session d False)) (\<lambda>updated.
                           return_p (if updated then (True, Some i) else (False, None)))
                    else return_p (False, Some i)
        | None \<Rightarrow> return_p (False, Some i))
   | None \<Rightarrow> bind_p (insert_session t (as_new_session d False)) (\<lambda>i. return_p (True, Some i)))"

definition apply_draft ::
  "(ustr \<Rightarrow> session_content list \<Rightarrow> extracted_exchange list) \<Rightarrow> int \<Rightarrow> session list \<Rightarrow> (int \<times> int list) list
     \<Rightarrow> session_draft \<times> int option \<Rightarrow> (db_error, bool) prog" where
  "apply_draft extract t existing owned dm = (case dm of (d, matched) \<Rightarrow>
     bind_p (draft_row t existing d matched) (\<lambda>(c, row). (case row of
       None \<Rightarrow> return_p c
     | Some i \<Rightarrow>
         (let already = (case map_of owned i of None \<Rightarrow> [] | Some ids \<Rightarrow> ids)
          in bind_p (assign_frames_session (filter (\<lambda>f. f \<notin> set already) (sd_frame_ids d)) (Some i)) (\<lambda>n.
             bind_p (if sd_kind d = Ai then refresh_exchanges extract t i d else return_p False) (\<lambda>r.
               return_p (c \<or> 0 < n \<or> r)))))))"

definition incremental_from :: "segmentation_params \<Rightarrow> int \<Rightarrow> session list \<Rightarrow> int" where
  "incremental_from params now existing =
     (let mutable_tail = sat_sub64 now (freeze_lookback_ms params)
      in case list_min (map ss_started_at existing) of None \<Rightarrow> mutable_tail
         | Some earliest \<Rightarrow> min earliest mutable_tail)"

definition range_filter :: "int \<Rightarrow> int \<Rightarrow> int \<Rightarrow> session_filter" where
  "range_filter from_ms to_ms now = \<lparr>fl_from_ms = Some from_ms, fl_to_ms = Some to_ms, fl_kind = None,
     fl_tool = None, fl_limit = None, fl_now_ms = now\<rparr>"

definition incremental_drafts ::
  "(segmenter_frame list \<Rightarrow> segmentation_params \<Rightarrow> session_draft list) \<Rightarrow> segmentation_params \<Rightarrow> int
     \<Rightarrow> session_db \<Rightarrow> session_draft list" where
  "incremental_drafts seg params now db =
     (let from_ms = incremental_from params now (unfrozen_sessions db);
          frames = frames_meta_in_range from_ms (sat_add64 now 1) db;
          frozen = filter ss_frozen (sessions_in_range (range_filter from_ms (sat_add64 now 1) now) db)
      in trim_drafts_against_frozen (seg frames params) frozen frames)"

definition run_incremental_pass ::
  "(segmenter_frame list \<Rightarrow> segmentation_params \<Rightarrow> session_draft list)
     \<Rightarrow> (ustr \<Rightarrow> session_content list \<Rightarrow> extracted_exchange list) \<Rightarrow> segmentation_params \<Rightarrow> int \<Rightarrow> (db_error, bool) prog" where
  "run_incremental_pass seg extract params t db =
     (let now = now_ms params;
          existing = unfrozen_sessions db;
          drafts = incremental_drafts seg params now db;
          matches = match_drafts_to_existing drafts existing now;
          desired = map_of (rev (List.map_filter (\<lambda>(d, m). map_option (\<lambda>i. (i, d)) m) (zip drafts matches)));
          owned = owned_ids db existing
      in bind_p (any_p (release_stale desired) existing) (\<lambda>c1.
         bind_p (any_p (drop_unmatched matches) existing) (\<lambda>c2.
         bind_p (any_p (apply_draft extract t existing owned) (zip drafts matches)) (\<lambda>c3.
           return_p (c1 \<or> c2 \<or> c3)))) db)"

section \<open>The historical backfill\<close>

definition backfill_chunk_ms :: int where "backfill_chunk_ms = 6 * 60 * 60 * 1000"

definition safe_backfill_cut :: "segmenter_frame list \<Rightarrow> int \<Rightarrow> int \<Rightarrow> int \<Rightarrow> int option" where
  "safe_backfill_cut frames desired_end merge_gap scan_limit =
     (if frames = [] then Some (min desired_end scan_limit)
      else (case List.find (\<lambda>(a, b). desired_end \<le> sf_captured_at b
                  \<and> merge_gap \<le> sf_captured_at b - sf_captured_at a) (windows2 frames) of
          Some (a, b) \<Rightarrow> Some (min (sf_captured_at b) scan_limit)
        | None \<Rightarrow> if merge_gap \<le> sat_sub64 desired_end (sf_captured_at (last frames))
                  then Some (min desired_end scan_limit) else None))"

definition trim_backfill_draft_against_frozen ::
  "session_draft \<Rightarrow> session list \<Rightarrow> (int \<rightharpoonup> int) \<Rightarrow> session_draft option" where
  "trim_backfill_draft_against_frozen d frozen tmap =
     (case list_min (map ss_started_at (filter (\<lambda>s.
         let end_ms = (case ss_ended_at s of None \<Rightarrow> ss_started_at s | Some e \<Rightarrow> e)
         in sd_started_at d \<le> end_ms \<and> ss_started_at s \<le> sd_ended_at d)
         (filter (same_track d) (filter ss_frozen frozen)))) of
        None \<Rightarrow> None
      | Some cut_ms \<Rightarrow> retain_frames (\<lambda>ts. ts < cut_ms) tmap d)"

record backfill_checkpoint =
  cp_cursor_ms :: int
  cp_target_ms :: int

definition earliest_before :: "int \<Rightarrow> session_db \<Rightarrow> int option" where
  "earliest_before target db = list_min (filter (\<lambda>x. x < target) (map fr_captured_at (db_frames db)))"

definition load_or_initialize_checkpoint ::
  "int \<Rightarrow> backfill_checkpoint option \<Rightarrow> session_db \<Rightarrow> backfill_checkpoint" where
  "load_or_initialize_checkpoint target stored db = (case stored of
     Some c \<Rightarrow> c
   | None \<Rightarrow> \<lparr>cp_cursor_ms = (case earliest_before target db of None \<Rightarrow> target | Some e \<Rightarrow> e), cp_target_ms = target\<rparr>)"

text \<open>
  The scan loop: widen the range by six hours until a cut_ms is found or the horizon is reached (the
  horizon is an \<open>i64\<close>, so the guard on its range never fires in the code).
\<close>

function scan_frames :: "session_db \<Rightarrow> int \<Rightarrow> int \<Rightarrow> int \<Rightarrow> int \<Rightarrow> int \<Rightarrow> segmenter_frame list" where
  "scan_frames db cursor desired merge_gap horizon scan_end =
     (let frames = frames_meta_in_range cursor scan_end db
      in if safe_backfill_cut frames desired merge_gap horizon \<noteq> None \<or> horizon \<le> scan_end \<or> i64_max < horizon
         then frames
         else scan_frames db cursor desired merge_gap horizon (min (sat_add64 scan_end backfill_chunk_ms) horizon))"
  by pat_completeness auto
termination
  by (relation "measure (\<lambda>(_, _, _, _, horizon, scan_end). nat (horizon - scan_end))")
    (auto simp: sat_add64_def sat_i64_def backfill_chunk_ms_def)

declare scan_frames.simps [simp del]

definition exact_match :: "session list \<Rightarrow> session_draft \<Rightarrow> session option" where
  "exact_match existing d = List.find (\<lambda>s. ss_context_key s = sd_context_key d
     \<and> ss_started_at s = sd_started_at d \<and> ss_ended_at s = Some (sd_ended_at d)) existing"

definition overlaps_frozen :: "session list \<Rightarrow> session_draft \<Rightarrow> bool" where
  "overlaps_frozen existing d = list_ex (\<lambda>s. ss_frozen s \<and> same_track d s \<and> frozen_overlap_end d s \<noteq> None) existing"

text \<open>The row of a historical draft: an exact match, a new row for what frozen history leaves of it, or nothing.\<close>

definition backfill_row ::
  "int \<Rightarrow> session list \<Rightarrow> (int \<rightharpoonup> int) \<Rightarrow> session_draft \<Rightarrow> (db_error, (int \<times> session_draft \<times> bool) option) prog" where
  "backfill_row t existing tmap d = (case exact_match existing d of
     Some s \<Rightarrow> return_p (Some (ss_id s, d, \<not> ss_frozen s))
   | None \<Rightarrow> (case (if overlaps_frozen existing d
                   then trim_backfill_draft_against_frozen d existing tmap else Some d) of
         None \<Rightarrow> return_p None
       | Some d' \<Rightarrow> bind_p (insert_session t (as_new_session d' False)) (\<lambda>i. return_p (Some (i, d', True)))))"

text \<open>A historical pass also stops with two errors of its own.\<close>

datatype backfill_error = Failed_store db_error | Short_assignment int | Not_frozen int

text \<open>Assign what the row does not own yet; a short assignment rolls a mutable row back.\<close>

definition assign_unowned :: "int \<Rightarrow> session_draft \<Rightarrow> bool \<Rightarrow> (backfill_error, bool) prog" where
  "assign_unowned i d needs_freeze =
     bind_p (read_p (\<lambda>db. filter (\<lambda>f. f \<notin> sf_id ` set (session_frames_meta i db)) (sd_frame_ids d))) (\<lambda>unowned.
     bind_p (lift_p Failed_store (assign_frames_session unowned (Some i))) (\<lambda>n.
       if n \<noteq> length unowned
       then bind_p (if needs_freeze then total_p (delete_unfrozen_session i) else return_p False)
              (\<lambda>_. fail_p (Short_assignment i))
       else return_p (0 < n)))"

definition freeze_checked :: "int \<Rightarrow> int \<Rightarrow> int \<Rightarrow> (backfill_error, bool) prog" where
  "freeze_checked t horizon i =
     bind_p (total_p (freeze_sessions t horizon)) (\<lambda>n.
     bind_p (read_p (get_session i)) (\<lambda>s.
       if (case s of None \<Rightarrow> False | Some s \<Rightarrow> ss_frozen s) then return_p (0 < n)
       else bind_p (total_p (delete_unfrozen_session i)) (\<lambda>_. fail_p (Not_frozen i))))"

definition backfill_draft ::
  "(ustr \<Rightarrow> session_content list \<Rightarrow> extracted_exchange list) \<Rightarrow> int \<Rightarrow> int \<Rightarrow> session list \<Rightarrow> (int \<rightharpoonup> int)
     \<Rightarrow> session_draft \<Rightarrow> (backfill_error, bool) prog" where
  "backfill_draft extract t horizon existing tmap d =
     bind_p (lift_p Failed_store (backfill_row t existing tmap d)) (\<lambda>row. (case row of
       None \<Rightarrow> return_p False
     | Some (i, d', needs_freeze) \<Rightarrow>
         bind_p (assign_unowned i d' needs_freeze) (\<lambda>assigned.
         bind_p (if needs_freeze then freeze_checked t horizon i else return_p False) (\<lambda>froze.
         bind_p (if sd_kind d' = Ai then lift_p Failed_store (refresh_exchanges extract t i d') else return_p False)
           (\<lambda>refreshed. return_p (exact_match existing d = None \<or> assigned \<or> froze \<or> refreshed))))))"

definition run_backfill_chunk ::
  "(segmenter_frame list \<Rightarrow> segmentation_params \<Rightarrow> session_draft list)
     \<Rightarrow> (ustr \<Rightarrow> session_content list \<Rightarrow> extracted_exchange list) \<Rightarrow> segmentation_params \<Rightarrow> int
     \<Rightarrow> backfill_checkpoint option \<Rightarrow> session_db \<Rightarrow> (backfill_error + bool) \<times> backfill_checkpoint \<times> session_db" where
  "run_backfill_chunk seg extract params t stored db =
     (let now = now_ms params;
          horizon = sat_sub64 now (freeze_lookback_ms params);
          cp = load_or_initialize_checkpoint horizon stored db
      in if cp_target_ms cp \<le> cp_cursor_ms cp \<or> horizon \<le> cp_cursor_ms cp then (Inr False, cp, db)
         else (let desired = min (sat_add64 (cp_cursor_ms cp) backfill_chunk_ms) (cp_target_ms cp);
                   frames = scan_frames db (cp_cursor_ms cp) desired (merge_gap_ms params) horizon
                              (min (sat_add64 desired (merge_gap_ms params)) horizon)
               in case safe_backfill_cut frames desired (merge_gap_ms params) horizon of
                    None \<Rightarrow> (Inr False, cp, db)
                  | Some cut_ms \<Rightarrow>
                      (let chunk = filter (\<lambda>f. sf_captured_at f < cut_ms) frames;
                           closed = params\<lparr>now_ms := sat_add64 cut_ms (merge_gap_ms params)\<rparr>;
                           existing = sessions_in_range (range_filter (cp_cursor_ms cp) cut_ms now) db;
                           drafts = (if chunk = [] then [] else seg chunk closed)
                       in case any_p (backfill_draft extract t horizon existing (frame_times chunk)) drafts db of
                            (Inr c, db') \<Rightarrow> (Inr c, cp\<lparr>cp_cursor_ms := cut_ms\<rparr>, db')
                          | (Inl e, db') \<Rightarrow> (Inl e, cp, db'))))"

section \<open>One scheduler iteration\<close>

text \<open>\<open>run_scheduler_pass\<close>: true when \<open>SessionsChanged\<close> is sent.\<close>

definition run_scheduler_pass ::
  "(segmenter_frame list \<Rightarrow> segmentation_params \<Rightarrow> session_draft list)
     \<Rightarrow> (ustr \<Rightarrow> session_content list \<Rightarrow> extracted_exchange list) \<Rightarrow> segmentation_params \<Rightarrow> int \<Rightarrow> bool
     \<Rightarrow> backfill_checkpoint option \<Rightarrow> session_db \<Rightarrow> bool \<times> backfill_checkpoint option \<times> session_db" where
  "run_scheduler_pass seg extract params t throttled stored db =
     (case run_incremental_pass seg extract params t db of (r1, db1) \<Rightarrow>
        (let c1 = (case r1 of Inl _ \<Rightarrow> True | Inr c \<Rightarrow> c)
         in case freeze_sessions t (sat_sub64 (now_ms params) (freeze_lookback_ms params)) db1 of (n, db2) \<Rightarrow>
              (if throttled then (c1 \<or> 0 < n, stored, db2)
               else (case run_backfill_chunk seg extract params t stored db2 of (r3, cp, db3) \<Rightarrow>
                  (c1 \<or> 0 < n \<or> (case r3 of Inl _ \<Rightarrow> True | Inr c \<Rightarrow> c), Some cp, db3)))))"

section \<open>Every pass is a sequence of store operations\<close>

definition by_steps :: "(session_db \<Rightarrow> 'r \<times> session_db) \<Rightarrow> bool" where
  "by_steps m \<longleftrightarrow> (\<forall>db. session_step\<^sup>*\<^sup>* db (snd (m db)))"

named_theorems stepwise \<open>programs made of store operations\<close>

lemma by_steps_pure [stepwise]: "by_steps (return_p a)" "by_steps (fail_p e)" "by_steps (read_p f)"
  by (simp_all add: by_steps_def return_p_def fail_p_def read_p_def)

lemma by_steps_lift [stepwise]: "by_steps m \<Longrightarrow> by_steps (lift_p g m)"
  by (simp add: by_steps_def lift_p_def case_prod_beta)

lemma by_steps_bind [stepwise]:
  assumes "by_steps m" "\<And>a. by_steps (f a)"
  shows "by_steps (bind_p m f)"
  unfolding by_steps_def
proof
  fix db
  obtain r db' where m: "m db = (r, db')" by fastforce
  then have "session_step\<^sup>*\<^sup>* db db'" using assms(1) by (metis by_steps_def snd_conv)
  moreover have "session_step\<^sup>*\<^sup>* db' (snd (f a db'))" for a using assms(2) by (simp add: by_steps_def)
  ultimately show "session_step\<^sup>*\<^sup>* db (snd (bind_p m f db))"
    by (auto simp: bind_p_def m split: sum.split intro: rtranclp_trans)
qed

lemma by_steps_total [stepwise]: "by_steps m \<Longrightarrow> by_steps (total_p m)"
  by (simp add: by_steps_def total_p_def case_prod_beta)

lemma by_steps_any [stepwise]: "(\<And>x. by_steps (f x)) \<Longrightarrow> by_steps (any_p f xs)"
  by (induction xs) (simp_all add: stepwise)

lemma by_steps_ops [stepwise]:
  "by_steps (insert_session t ns)" "by_steps (update_unfrozen_session t i ns)" "by_steps (delete_unfrozen_session i)"
  "by_steps (assign_frames_session ids sid)" "by_steps (freeze_sessions t older)"
  "by_steps (insert_session_artifacts t i as)" "by_steps (delete_session_artifacts_by_kind i k)"
  by (simp_all add: by_steps_def session_step.intros r_into_rtranclp)

lemma by_steps_refresh [stepwise]: "by_steps (refresh_exchanges extract t i d)"
  unfolding refresh_exchanges_def Let_def by (auto intro!: stepwise)

lemma by_steps_release [stepwise]: "by_steps (release_stale desired s)"
  unfolding release_stale_def by (intro stepwise) (auto split: option.split intro!: stepwise)

lemma by_steps_drop [stepwise]: "by_steps (drop_unmatched ms s)"
  unfolding drop_unmatched_def by (auto intro!: stepwise)

lemma by_steps_row [stepwise]: "by_steps (draft_row t existing d m)"
  unfolding draft_row_def by (auto split: option.split intro!: stepwise)

lemma by_steps_apply [stepwise]: "by_steps (apply_draft extract t existing owned dm)"
  unfolding apply_draft_def Let_def by (auto split: prod.split option.split intro!: stepwise)

lemma by_steps_incremental: "session_step\<^sup>*\<^sup>* db (snd (run_incremental_pass seg extract params t db))"
proof -
  have "by_steps (bind_p (any_p (release_stale desired) existing) (\<lambda>c1.
      bind_p (any_p (drop_unmatched matches) existing) (\<lambda>c2.
      bind_p (any_p (apply_draft extract t existing owned) dms) (\<lambda>c3. return_p (c1 \<or> c2 \<or> c3)))))"
    for desired existing matches owned dms
    by (intro stepwise)
  then show ?thesis by (simp add: run_incremental_pass_def by_steps_def Let_def)
qed

lemma by_steps_freeze_checked [stepwise]: "by_steps (freeze_checked t horizon i)"
  unfolding freeze_checked_def by (intro stepwise) (auto split: option.split intro!: stepwise)

lemma by_steps_backfill_row [stepwise]: "by_steps (backfill_row t existing tmap d)"
  unfolding backfill_row_def by (auto split: option.split intro!: stepwise)

lemma by_steps_assign_unowned [stepwise]: "by_steps (assign_unowned i d nf)"
  unfolding assign_unowned_def by (auto intro!: stepwise)

lemma by_steps_backfill_draft [stepwise]: "by_steps (backfill_draft extract t horizon existing tmap d)"
  unfolding backfill_draft_def by (auto split: option.split prod.split intro!: stepwise)

lemma step_to: "by_steps m \<Longrightarrow> m db = (r, db') \<Longrightarrow> session_step\<^sup>*\<^sup>* db db'"
  by (metis by_steps_def snd_conv)

lemma by_steps_backfill: "session_step\<^sup>*\<^sup>* db (snd (snd (run_backfill_chunk seg extract params t stored db)))"
proof -
  have chunk: "session_step\<^sup>*\<^sup>* db (snd (snd (case any_p (backfill_draft extract t h ex tm) ds db of
      (Inr c, db') \<Rightarrow> (Inr c, cp', db') | (Inl e, db') \<Rightarrow> (Inl e, cp, db'))))" for h ex tm ds cp cp'
  proof -
    obtain r db' where r: "any_p (backfill_draft extract t h ex tm) ds db = (r, db')" by fastforce
    have "by_steps (any_p (backfill_draft extract t h ex tm) ds)" by (intro stepwise)
    from step_to [OF this r] show ?thesis unfolding r by (cases r) simp_all
  qed
  show ?thesis unfolding run_backfill_chunk_def Let_def
    by (simp only: chunk snd_conv rtranclp.rtrancl_refl simp_thms split: option.split if_split)
qed

lemma by_steps_scheduler:
  "session_step\<^sup>*\<^sup>* db (snd (snd (run_scheduler_pass seg extract params t throttled stored db)))"
proof -
  obtain r1 db1 where 1: "run_incremental_pass seg extract params t db = (r1, db1)" by fastforce
  obtain n db2 where 2: "freeze_sessions t (sat_sub64 (now_ms params) (freeze_lookback_ms params)) db1 = (n, db2)"
    by fastforce
  obtain r3 cp db3 where 3: "run_backfill_chunk seg extract params t stored db2 = (r3, cp, db3)" by (metis surj_pair)
  have "session_step\<^sup>*\<^sup>* db db1" using by_steps_incremental 1 by (metis snd_conv)
  also have "session_step\<^sup>*\<^sup>* db1 db2" using step_freeze 2 by (metis r_into_rtranclp snd_conv)
  finally have s2: "session_step\<^sup>*\<^sup>* db db2" .
  moreover have "session_step\<^sup>*\<^sup>* db2 db3" using by_steps_backfill 3 by (metis snd_conv)
  ultimately show ?thesis by (auto simp: run_scheduler_pass_def 1 2 3 Let_def)
qed

section \<open>Matching is one-to-one and takes the best row\<close>

lemma in_match_candidates:
  "(s, v) \<in> set (match_candidates existing now used d) \<longleftrightarrow>
     s \<in> set existing \<and> \<not> ss_frozen s \<and> ss_context_key s = sd_context_key d \<and> ss_id s \<notin> used
     \<and> overlap_ms d s now = Some v"
  by (auto simp: match_candidates_def set_map_filter)

lemma best_match_Some:
  assumes "best_match existing now used d = Some i"
  obtains s v where "(s, v) \<in> set (match_candidates existing now used d)" "ss_id s = i"
    "\<And>s' v'. (s', v') \<in> set (match_candidates existing now used d) \<Longrightarrow> match_score d (s', v') \<le> match_score d (s, v)"
proof -
  from assms obtain so where m: "max_by (\<lambda>a b. match_score d b < match_score d a) (match_candidates existing now used d) = Some so"
    and i: "ss_id (fst so) = i"
    by (auto simp: best_match_def)
  have "match_score d y \<le> match_score d so" if "y \<in> set (match_candidates existing now used d)" for y
    using max_by_max [where f = "match_score d", OF _ m that] by simp
  with max_by_in [OF m] i that [of "fst so" "snd so"] show ?thesis by simp
qed

lemma best_match_None: "best_match existing now used d = None \<longleftrightarrow> match_candidates existing now used d = []"
  by (simp add: best_match_def)

lemma length_match_from [simp]: "length (match_from existing now used ds) = length ds"
  by (induction ds arbitrary: used) (simp_all add: Let_def)

definition taken_before :: "int option list \<Rightarrow> nat \<Rightarrow> int set" where
  "taken_before ms k = {i. \<exists>j<k. ms ! j = Some i}"

lemma taken_before_Cons:
  "taken_before (m # ms) (Suc k) = (case m of None \<Rightarrow> {} | Some i \<Rightarrow> {i}) \<union> taken_before ms k"
  unfolding taken_before_def by (auto simp: less_Suc_eq_0_disj split: option.splits)

lemma match_from_nth:
  "k < length ds \<Longrightarrow> match_from existing now used ds ! k =
     best_match existing now (used \<union> taken_before (match_from existing now used ds) k) (ds ! k)"
proof (induction ds arbitrary: used k)
  case (Cons d ds)
  let ?b = "best_match existing now used d"
  let ?used = "case ?b of None \<Rightarrow> used | Some i \<Rightarrow> insert i used"
  have ms: "match_from existing now used (d # ds) = ?b # match_from existing now ?used ds" by (simp add: Let_def)
  show ?case
  proof (cases k)
    case 0
    then show ?thesis by (simp add: Let_def taken_before_def)
  next
    case (Suc k')
    have "?used \<union> A = used \<union> ((case ?b of None \<Rightarrow> {} | Some i \<Rightarrow> {i}) \<union> A)" for A
      by (auto split: option.splits)
    with Cons Suc show ?thesis unfolding ms by (simp add: taken_before_Cons)
  qed
qed simp

text \<open>The drafts of a pass are matched to mutable rows one to one: a matched row exists, is not frozen, has the
  draft's context key, overlaps it in time by a positive amount, was not given to an earlier draft, and has the best
  score (longest overlap, then nearest start, then smallest id) among the rows still free; a draft stays unmatched only
  when no row qualifies.\<close>

theorem match_drafts_best:
  fixes drafts :: "session_draft list" and existing :: "session list" and now :: int
  defines "ms \<equiv> match_drafts_to_existing drafts existing now"
  assumes "k < length drafts"
  shows "case ms ! k of
      Some i \<Rightarrow> i \<notin> taken_before ms k \<and> (\<exists>s v. s \<in> set existing \<and> ss_id s = i \<and> \<not> ss_frozen s
          \<and> ss_context_key s = sd_context_key (drafts ! k) \<and> overlap_ms (drafts ! k) s now = Some v \<and> 0 < v
          \<and> (\<forall>s' v'. (s', v') \<in> set (match_candidates existing now (taken_before ms k) (drafts ! k))
               \<longrightarrow> match_score (drafts ! k) (s', v') \<le> match_score (drafts ! k) (s, v)))
    | None \<Rightarrow> \<forall>s\<in>set existing. \<not> ss_frozen s \<and> ss_context_key s = sd_context_key (drafts ! k)
          \<and> overlap_ms (drafts ! k) s now \<noteq> None \<longrightarrow> ss_id s \<in> taken_before ms k"
proof -
  have b: "ms ! k = best_match existing now (taken_before ms k) (drafts ! k)"
    using match_from_nth [OF assms(2), of existing now "{}"] by (simp add: ms_def match_drafts_to_existing_def)
  show ?thesis
  proof (cases "ms ! k")
    case None
    then have "match_candidates existing now (taken_before ms k) (drafts ! k) = []" using b by (simp add: best_match_None)
    then have "(s, v) \<notin> set (match_candidates existing now (taken_before ms k) (drafts ! k))" for s v by simp
    then show ?thesis unfolding None in_match_candidates by auto
  next
    case (Some i)
    with b obtain s v where s: "(s, v) \<in> set (match_candidates existing now (taken_before ms k) (drafts ! k))" "ss_id s = i"
      and best: "\<And>s' v'. (s', v') \<in> set (match_candidates existing now (taken_before ms k) (drafts ! k))
        \<Longrightarrow> match_score (drafts ! k) (s', v') \<le> match_score (drafts ! k) (s, v)"
      by (metis best_match_Some)
    from s(1) have "0 < v" unfolding in_match_candidates by (auto simp: overlap_ms_def Let_def split: if_splits)
    with s best show ?thesis unfolding Some option.case in_match_candidates [of s] by blast
  qed
qed

lemma match_from_distinct:
  "j < k \<Longrightarrow> k < length ds \<Longrightarrow> match_from existing now used ds ! k = Some i \<Longrightarrow> match_from existing now used ds ! j \<noteq> Some i"
  by (auto simp: match_from_nth [of k] taken_before_def elim!: best_match_Some simp: in_match_candidates)

definition sample_focus_draft :: "int \<Rightarrow> int \<Rightarrow> int list \<Rightarrow> session_draft" where
  "sample_focus_draft a b ids = \<lparr>sd_started_at = a, sd_ended_at = b, sd_kind = Focus, sd_tool = None, sd_host = None,
     sd_context_key = lit ''focus:code'', sd_confidence = 1 / 2, sd_frame_ids = ids, sd_open = False\<rparr>"

definition sample_mutable_row :: "int \<Rightarrow> int \<Rightarrow> int \<Rightarrow> session" where
  "sample_mutable_row i a b = session_row 0 i (as_new_session (sample_focus_draft a b []) False)"

theorem match_drafts_best_witness:
  "match_drafts_to_existing [sample_focus_draft 0 50 [], sample_focus_draft 60 100 []]
     [sample_mutable_row 1 0 40, sample_mutable_row 2 10 90] 100 = [Some 1, Some 2]
   \<and> (2::int) \<notin> taken_before [Some 1, Some 2] 1"
proof -
  let ?ms = "match_drafts_to_existing [sample_focus_draft 0 50 [], sample_focus_draft 60 100 []]
     [sample_mutable_row 1 0 40, sample_mutable_row 2 10 90] 100"
  have ms: "?ms = [Some 1, Some 2]" by code_simp
  have "(1::nat) < length [sample_focus_draft 0 50 [], sample_focus_draft 60 100 []]" by simp
  from match_drafts_best [OF this, of "[sample_mutable_row 1 0 40, sample_mutable_row 2 10 90]" 100]
  have "2 \<notin> taken_before ?ms 1" unfolding ms by simp
  with ms show ?thesis by simp
qed

section \<open>Trimming leaves frozen time alone\<close>

lemma retain_frames_Some:
  assumes "retain_frames keep tmap d = Some d'"
  shows "sd_frame_ids d' = filter (\<lambda>i. \<exists>ts. tmap i = Some ts \<and> keep ts) (sd_frame_ids d)" "sd_frame_ids d' \<noteq> []"
    "d' = d\<lparr>sd_frame_ids := sd_frame_ids d', sd_started_at := sd_started_at d', sd_ended_at := sd_ended_at d'\<rparr>"
    "sd_started_at d' = Min {ts. \<exists>i\<in>set (sd_frame_ids d'). tmap i = Some ts}"
    "sd_ended_at d' = Max {ts. \<exists>i\<in>set (sd_frame_ids d'). tmap i = Some ts}"
proof -
  let ?ids = "filter (\<lambda>i. case tmap i of None \<Rightarrow> False | Some ts \<Rightarrow> keep ts) (sd_frame_ids d)"
  have ids: "?ids = filter (\<lambda>i. \<exists>ts. tmap i = Some ts \<and> keep ts) (sd_frame_ids d)"
    by (rule filter_cong) (auto split: option.splits)
  from assms have ne: "?ids \<noteq> []" and d': "d' = d\<lparr>sd_frame_ids := ?ids,
      sd_started_at := Min (set (List.map_filter tmap ?ids)), sd_ended_at := Max (set (List.map_filter tmap ?ids))\<rparr>"
    by (auto simp: retain_frames_def Let_def list_min_def list_max_def split: if_splits)
  have s: "set (List.map_filter tmap ?ids) = {ts. \<exists>i\<in>set ?ids. tmap i = Some ts}"
    by (auto simp: set_map_filter)
  show "sd_frame_ids d' = filter (\<lambda>i. \<exists>ts. tmap i = Some ts \<and> keep ts) (sd_frame_ids d)" "sd_frame_ids d' \<noteq> []"
    using ne unfolding d' ids by simp_all
  show "d' = d\<lparr>sd_frame_ids := sd_frame_ids d', sd_started_at := sd_started_at d', sd_ended_at := sd_ended_at d'\<rparr>"
    by (simp add: d')
  show "sd_started_at d' = Min {ts. \<exists>i\<in>set (sd_frame_ids d'). tmap i = Some ts}"
    "sd_ended_at d' = Max {ts. \<exists>i\<in>set (sd_frame_ids d'). tmap i = Some ts}"
    by (simp_all add: d' s)
qed

lemma retain_frames_bounds:
  assumes "retain_frames keep tmap d = Some d'"
  obtains i j a b where "i \<in> set (sd_frame_ids d)" "tmap i = Some a" "keep a" "sd_started_at d' = a"
    "j \<in> set (sd_frame_ids d)" "tmap j = Some b" "keep b" "sd_ended_at d' = b"
proof -
  let ?T = "{ts. \<exists>i\<in>set (sd_frame_ids d'). tmap i = Some ts}"
  note r = retain_frames_Some [OF assms]
  have sub: "?T \<subseteq> {ts. \<exists>i\<in>set (sd_frame_ids d). tmap i = Some ts \<and> keep ts}"
    unfolding r(1) by auto
  have "?T = the ` tmap ` {i \<in> set (sd_frame_ids d'). tmap i \<noteq> None}" by force
  then have fin: "finite ?T" by simp
  have "hd (sd_frame_ids d') \<in> set (sd_frame_ids d')" using r(2) by simp
  moreover from this have "\<exists>ts. tmap (hd (sd_frame_ids d')) = Some ts" unfolding r(1) by auto
  ultimately have ne: "?T \<noteq> {}" by blast
  have "sd_started_at d' \<in> ?T" "sd_ended_at d' \<in> ?T"
    unfolding r(4,5) using Min_in [OF fin ne] Max_in [OF fin ne] by blast+
  with sub that show ?thesis by blast
qed

lemma frozen_cut_max:
  assumes "s \<in> set frozen" "ss_frozen s" "same_track d s" "frozen_overlap_end d s = Some e"
  shows "\<exists>c. frozen_cut frozen d = Some c \<and> e \<le> c"
proof -
  let ?es = "List.map_filter (frozen_overlap_end d) (filter (same_track d) (filter ss_frozen frozen))"
  have e: "e \<in> set ?es" using assms by (auto simp: set_map_filter)
  then have "?es \<noteq> []" by (metis empty_iff empty_set)
  moreover from e have "e \<le> Max (set ?es)" by simp
  ultimately show ?thesis by (simp add: frozen_cut_def list_max_def)
qed

text \<open>A draft that survives the trimming of the incremental pass keeps clear of frozen history: it neither overlaps nor
  touches a closed frozen session of its own track, its frames are a subset of the segmenter's in the same order,
  and a draft that met no frozen session is unchanged.\<close>

theorem trimmed_drafts_clear_of_frozen:
  assumes "d' \<in> set (trim_drafts_against_frozen drafts frozen frames)"
    and inside: "\<And>d i ts. d \<in> set drafts \<Longrightarrow> i \<in> set (sd_frame_ids d) \<Longrightarrow> frame_times frames i = Some ts
          \<Longrightarrow> sd_started_at d \<le> ts \<and> ts \<le> sd_ended_at d"
  shows "(\<forall>s\<in>set frozen. \<forall>e. ss_frozen s \<and> same_track d' s \<and> ss_ended_at s = Some e
        \<longrightarrow> e < sd_started_at d' \<or> sd_ended_at d' < ss_started_at s)
    \<and> (\<exists>d\<in>set drafts. subseq (sd_frame_ids d') (sd_frame_ids d) \<and> sd_context_key d' = sd_context_key d
          \<and> sd_kind d' = sd_kind d \<and> (frozen_cut frozen d = None \<longrightarrow> d' = d))"
proof -
  let ?tmap = "frame_times frames"
  from assms(1) obtain d where d: "d \<in> set drafts" "trim_draft frozen ?tmap d = Some d'"
    by (auto simp: trim_drafts_against_frozen_def set_map_filter)
  show ?thesis
  proof (cases "frozen_cut frozen d")
    case None
    then have "d' = d" using d(2) by (simp add: trim_draft_def)
    moreover have "e < sd_started_at d \<or> sd_ended_at d < ss_started_at s"
      if "s \<in> set frozen" "ss_frozen s" "same_track d s" "ss_ended_at s = Some e" for s e
      using frozen_cut_max [OF that(1-3)] None that(4) by (force simp: frozen_overlap_end_def split: if_splits)
    ultimately show ?thesis using d(1) by blast
  next
    case (Some c)
    then have r: "retain_frames (\<lambda>ts. c < ts) ?tmap d = Some d'" using d(2) by (simp add: trim_draft_def)
    note rs = retain_frames_Some [OF r]
    have same: "sd_context_key d' = sd_context_key d" "sd_kind d' = sd_kind d" by (subst rs(3), simp)+
    from retain_frames_bounds [OF r] have b: "c < sd_started_at d'" "sd_started_at d \<le> sd_started_at d'"
      "sd_ended_at d' \<le> sd_ended_at d"
      using inside [OF d(1)] by (metis, metis, metis)
    have "e < sd_started_at d' \<or> sd_ended_at d' < ss_started_at s"
      if "s \<in> set frozen" "ss_frozen s" "same_track d' s" "ss_ended_at s = Some e" for s e
    proof (cases "frozen_overlap_end d s")
      case None
      then show ?thesis using b that(4) by (auto simp: frozen_overlap_end_def split: if_splits)
    next
      case (Some e')
      have "same_track d s" using that(3) same by (simp add: same_track_def)
      from frozen_cut_max [OF that(1,2) this Some] \<open>frozen_cut frozen d = Some c\<close> have "e' \<le> c" by simp
      moreover have "e' = e" using Some that(4) by (auto simp: frozen_overlap_end_def split: if_splits)
      ultimately show ?thesis using b(1) by simp
    qed
    moreover have "subseq (sd_frame_ids d') (sd_frame_ids d)" unfolding rs(1) by (rule subseq_filter_left)
    ultimately show ?thesis using d(1) same Some by (intro conjI ballI allI impI bexI [of _ d]) simp_all
  qed
qed

definition sample_frozen_row :: "int \<Rightarrow> int \<Rightarrow> int \<Rightarrow> session" where
  "sample_frozen_row i a b = session_row 0 i (as_new_session (sample_focus_draft a b []) True)"

definition sample_times :: "segmenter_frame list" where
  "sample_times = map (\<lambda>i. \<lparr>sf_id = i, sf_captured_at = 10 * i, sf_app_hint = None, sf_window_title = None, sf_browser_url = None\<rparr>) [1..6]"

theorem trimmed_drafts_clear_of_frozen_witness:
  "let d' = hd (trim_drafts_against_frozen [sample_focus_draft 10 60 [1, 2, 3, 4, 5, 6]] [sample_frozen_row 1 5 30] sample_times)
   in sd_frame_ids d' = [4, 5, 6] \<and> 30 < sd_started_at d'"
proof -
  let ?ds = "[sample_focus_draft 10 60 [1, 2, 3, 4, 5, 6]]"
  let ?fs = "[sample_frozen_row 1 5 30]"
  let ?t = "trim_drafts_against_frozen ?ds ?fs sample_times"
  have t: "?t = [sample_focus_draft 40 60 [4, 5, 6]]" by code_simp
  have range: "list_all (\<lambda>i. case frame_times sample_times i of None \<Rightarrow> False | Some ts \<Rightarrow> 10 \<le> ts \<and> ts \<le> 60) [1, 2, 3, 4, 5, 6]"
    by code_simp
  have "sd_started_at d \<le> ts \<and> ts \<le> sd_ended_at d"
    if "d \<in> set ?ds" "i \<in> set (sd_frame_ids d)" "frame_times sample_times i = Some ts" for d i ts
    using that range by (auto simp: sample_focus_draft_def)
  moreover have "hd ?t \<in> set ?t" unfolding t by simp
  ultimately have c: "\<forall>s\<in>set ?fs. \<forall>e. ss_frozen s \<and> same_track (hd ?t) s \<and> ss_ended_at s = Some e
        \<longrightarrow> e < sd_started_at (hd ?t) \<or> sd_ended_at (hd ?t) < ss_started_at s"
    using trimmed_drafts_clear_of_frozen [of "hd ?t" ?ds ?fs sample_times] by blast
  have "ss_frozen (hd ?fs) \<and> same_track (hd ?t) (hd ?fs) \<and> ss_ended_at (hd ?fs) = Some 30" "\<not> sd_ended_at (hd ?t) < ss_started_at (hd ?fs)"
    unfolding t by code_simp+
  with c show ?thesis unfolding Let_def t by (simp add: sample_focus_draft_def)
qed

section \<open>Scheduler iterations keep history\<close>


definition sample_store :: session_db where
  "sample_store = \<lparr>
     db_frames = map (\<lambda>i. \<lparr>fr_id = i, fr_captured_at = 10 * i, fr_app_hint = None, fr_window_title = None, fr_browser_url = None,
        fr_session_id = (if i \<le> 3 then Some 1 else None), fr_content_text = None\<rparr>) [1..6],
     db_sessions = [sample_frozen_row 1 5 30, sample_mutable_row 2 35 45], db_artifacts = []\<rparr>"

lemma sample_store_ok: "db_ok sample_store"
  by (simp add: db_ok_def sample_store_def session_ids_def sample_frozen_row_def sample_mutable_row_def session_row_def
      upto.simps)

definition sample_seg :: "segmenter_frame list \<Rightarrow> segmentation_params \<Rightarrow> session_draft list" where
  "sample_seg frames params = (if frames = [] then [] else
     [sample_focus_draft (sf_captured_at (hd frames)) (sf_captured_at (last frames)) (map sf_id frames)])"


section \<open>The backfill cut\<close>

lemma windows2_in:
  "(a, b) \<in> set (windows2 xs) \<longleftrightarrow> (\<exists>ys zs. xs = ys @ a # b # zs)"
proof (induction xs rule: windows2.induct)
  case (1 x y xs)
  have "(\<exists>ys zs. x # y # xs = ys @ a # b # zs) \<longleftrightarrow> (x = a \<and> y = b) \<or> (\<exists>ys zs. y # xs = ys @ a # b # zs)"
    by (auto simp: Cons_eq_append_conv)
  with 1 show ?case by auto
qed (auto simp: Cons_eq_append_conv)

definition quiet_before :: "int \<Rightarrow> int \<Rightarrow> segmenter_frame list \<Rightarrow> bool" where
  "quiet_before merge_gap cut_ms frames \<longleftrightarrow>
     (\<forall>f\<in>set frames. \<forall>g\<in>set frames. sf_captured_at f < cut_ms \<and> cut_ms \<le> sf_captured_at g
        \<longrightarrow> merge_gap \<le> sf_captured_at g - sf_captured_at f)"

text \<open>A backfill chunk ends at a safe place: the cut lies at or after the six-hour boundary and inside the scanned
  range, and no inactivity gap shorter than the merge gap straddles it, so no track runs across a chunk border; when no
  scanned frame lies beyond the cut, the last one lies at least the merge gap before it.\<close>

theorem backfill_cut_safe:
  assumes "sorted_wrt (\<lambda>a b. sf_captured_at a \<le> sf_captured_at b) frames"
    and "\<And>f. f \<in> set frames \<Longrightarrow> sf_captured_at f < limit \<and> i64_min \<le> desired - sf_captured_at f \<and> desired - sf_captured_at f \<le> i64_max"
    and "desired \<le> limit" and "0 < merge_gap"
    and "safe_backfill_cut frames desired merge_gap limit = Some cut_ms"
  shows "desired \<le> cut_ms \<and> cut_ms \<le> limit \<and> quiet_before merge_gap cut_ms frames
    \<and> (\<forall>f\<in>set frames. (\<forall>g\<in>set frames. sf_captured_at g < cut_ms) \<longrightarrow> merge_gap \<le> cut_ms - sf_captured_at f)"
proof -
  let ?P = "\<lambda>(a, b). desired \<le> sf_captured_at b \<and> merge_gap \<le> sf_captured_at b - sf_captured_at a"
  consider "frames = []" | a b where "frames \<noteq> []" "List.find ?P (windows2 frames) = Some (a, b)"
    | "frames \<noteq> []" "List.find ?P (windows2 frames) = None" by (cases "List.find ?P (windows2 frames)") auto
  then show ?thesis
  proof cases
    case 1
    with assms(3,5) show ?thesis by (simp add: safe_backfill_cut_def quiet_before_def)
  next
    case (2 a b)
    from 2(2) have ab: "(a, b) \<in> set (windows2 frames)" and p: "desired \<le> sf_captured_at b" "merge_gap \<le> sf_captured_at b - sf_captured_at a"
      by (auto dest: find_SomeD)
    from ab obtain ys zs where fs: "frames = ys @ a # b # zs" by (auto simp: windows2_in)
    then have "sf_captured_at b < limit" using assms(2) [of b] by simp
    then have cut: "cut_ms = sf_captured_at b" using assms(5) 2 by (simp add: safe_backfill_cut_def)
    have before: "sf_captured_at f \<le> sf_captured_at a" if "f \<in> set frames" "sf_captured_at f < sf_captured_at b" for f
      using that assms(1) unfolding fs sorted_wrt_append by fastforce
    then have "quiet_before merge_gap cut_ms frames" unfolding quiet_before_def cut using p(2) by fastforce
    moreover have "b \<in> set frames" by (simp add: fs)
    ultimately show ?thesis using p \<open>sf_captured_at b < limit\<close> unfolding cut by (meson less_irrefl less_imp_le)
  next
    case 3
    have m: "last frames \<in> set frames" using 3(1) by simp
    have "sat_sub64 desired (sf_captured_at (last frames)) = desired - sf_captured_at (last frames)"
      using assms(2) [OF m] by (simp add: sat_sub64_def sat_i64_id in_i64_def)
    then have c: "cut_ms = desired" "merge_gap \<le> desired - sf_captured_at (last frames)"
      using assms(3,5) 3 by (auto simp: safe_backfill_cut_def split: if_splits)
    have "sorted_wrt (\<lambda>a b. sf_captured_at a \<le> sf_captured_at b) (butlast frames @ [last frames])"
      using assms(1) 3(1) by simp
    then have "sf_captured_at f \<le> sf_captured_at (last frames)" if "f \<in> set (butlast frames @ [last frames])" for f
      using that unfolding sorted_wrt_append by auto
    then have last: "sf_captured_at f \<le> sf_captured_at (last frames)" if "f \<in> set frames" for f
      using that 3(1) by simp
    have gap: "merge_gap \<le> cut_ms - sf_captured_at f" if "f \<in> set frames" for f
      using last [OF that] c by simp
    have "quiet_before merge_gap cut_ms frames" unfolding quiet_before_def using gap assms(4) by fastforce
    with gap c(1) assms(3) show ?thesis by simp
  qed
qed

theorem backfill_cut_safe_witness:
  "safe_backfill_cut sample_times 15 10 100 = Some 20 \<and> quiet_before 10 20 sample_times"
proof -
  have c: "safe_backfill_cut sample_times 15 10 100 = Some 20" by code_simp
  have t: "sample_times = map (\<lambda>i. \<lparr>sf_id = i, sf_captured_at = 10 * i, sf_app_hint = None, sf_window_title = None, sf_browser_url = None\<rparr>) [1, 2, 3, 4, 5, 6]"
    by code_simp
  have "sorted_wrt (\<lambda>a b. sf_captured_at a \<le> sf_captured_at b) sample_times" by (simp add: t)
  moreover have "sf_captured_at f < 100 \<and> i64_min \<le> 15 - sf_captured_at f \<and> 15 - sf_captured_at f \<le> i64_max"
    if "f \<in> set sample_times" for f
    using that by (auto simp: t i64_min_def i64_max_def)
  ultimately have "quiet_before 10 20 sample_times"
    using backfill_cut_safe [of sample_times 100 15 10 20] c by auto
  with c show ?thesis by simp
qed

lemma safe_cut_range:
  assumes "safe_backfill_cut frames desired merge_gap limit = Some c"
  shows "min desired limit \<le> c \<and> c \<le> limit"
proof (cases "List.find (\<lambda>(a, b). desired \<le> sf_captured_at b
    \<and> merge_gap \<le> sf_captured_at b - sf_captured_at a) (windows2 frames)")
  case None
  with assms show ?thesis by (auto simp: safe_backfill_cut_def split: if_splits)
next
  case (Some p)
  with assms show ?thesis by (cases p) (auto simp: safe_backfill_cut_def split: if_splits dest!: find_SomeD)
qed

lemma scan_finds_cut:
  assumes "safe_backfill_cut (frames_meta_in_range cursor horizon db) desired merge_gap horizon \<noteq> None"
  shows "scan_end \<le> horizon \<Longrightarrow> horizon \<le> i64_max \<Longrightarrow>
     safe_backfill_cut (scan_frames db cursor desired merge_gap horizon scan_end) desired merge_gap horizon \<noteq> None"
  using assms
proof (induction db cursor desired merge_gap horizon scan_end rule: scan_frames.induct)
  case (1 db cursor desired merge_gap horizon scan_end)
  let ?fs = "frames_meta_in_range cursor scan_end db"
  show ?case
  proof (cases "safe_backfill_cut ?fs desired merge_gap horizon \<noteq> None \<or> horizon \<le> scan_end \<or> i64_max < horizon")
    case True
    then have "scan_frames db cursor desired merge_gap horizon scan_end = ?fs" by (subst scan_frames.simps) (simp add: Let_def)
    moreover have "safe_backfill_cut ?fs desired merge_gap horizon \<noteq> None"
    proof (cases "horizon \<le> scan_end")
      case True
      with 1(2) have "scan_end = horizon" by simp
      with 1(4) show ?thesis by simp
    next
      case False
      with True 1(3) show ?thesis by simp
    qed
    ultimately show ?thesis by simp
  next
    case False
    then have "scan_frames db cursor desired merge_gap horizon scan_end =
        scan_frames db cursor desired merge_gap horizon (min (sat_add64 scan_end backfill_chunk_ms) horizon)"
      by (subst scan_frames.simps) (simp add: Let_def)
    with 1(1) [OF refl False] 1(3,4) show ?thesis by simp
  qed
qed

text \<open>C27: The backfill makes progress and never loses its place: a chunk either leaves the checkpoint alone (always after an
  error) or moves its cursor forward to a cut at or after the six-hour boundary, the fixed target unchanged; and it does move
  whenever work remains, nothing failed, and the range up to the freeze horizon holds a safe cut at all.\<close>

theorem backfill_progress:
  fixes db :: session_db and params :: segmentation_params and stored :: "backfill_checkpoint option"
  defines "horizon \<equiv> sat_sub64 (now_ms params) (freeze_lookback_ms params)"
  defines "cp \<equiv> load_or_initialize_checkpoint horizon stored db"
  defines "desired \<equiv> min (sat_add64 (cp_cursor_ms cp) backfill_chunk_ms) (cp_target_ms cp)"
  assumes run: "run_backfill_chunk seg extr params t stored db = (r, cp', db')"
  shows "cp_target_ms cp' = cp_target_ms cp
    \<and> (cp' = cp \<or> (\<exists>c. r = Inr c) \<and> cp_cursor_ms cp < cp_cursor_ms cp'
          \<and> min desired horizon \<le> cp_cursor_ms cp' \<and> cp_cursor_ms cp' \<le> horizon)
    \<and> ((\<exists>c. r = Inr c) \<and> cp_cursor_ms cp < cp_target_ms cp \<and> cp_cursor_ms cp < horizon
         \<and> safe_backfill_cut (frames_meta_in_range (cp_cursor_ms cp) horizon db) desired (merge_gap_ms params) horizon \<noteq> None
       \<longrightarrow> cp_cursor_ms cp < cp_cursor_ms cp')"
proof (cases "cp_target_ms cp \<le> cp_cursor_ms cp \<or> horizon \<le> cp_cursor_ms cp")
  case True
  then have "cp' = cp" using run by (simp add: run_backfill_chunk_def Let_def horizon_def [symmetric] cp_def [symmetric])
  with True show ?thesis by auto
next
  case False
  define frames where "frames = scan_frames db (cp_cursor_ms cp) desired (merge_gap_ms params) horizon
                              (min (sat_add64 desired (merge_gap_ms params)) horizon)"
  note body = run_backfill_chunk_def [of seg extr params t stored db, unfolded Let_def,
      folded horizon_def, folded cp_def, folded desired_def, folded frames_def]
  have hor: "horizon \<le> i64_max" using sat_i64_in by (auto simp: horizon_def sat_sub64_def in_i64_def)
  then have fwd: "cp_cursor_ms cp < min desired horizon"
    using False by (auto simp: desired_def sat_add64_def sat_i64_def backfill_chunk_ms_def)
  show ?thesis
  proof (cases "safe_backfill_cut frames desired (merge_gap_ms params) horizon")
    case None
    then have "cp' = cp" using run False unfolding body by simp
    moreover have "safe_backfill_cut (frames_meta_in_range (cp_cursor_ms cp) horizon db) desired (merge_gap_ms params) horizon = None"
      using scan_finds_cut [OF _ min.cobounded2 hor] None unfolding frames_def by blast
    ultimately show ?thesis by simp
  next
    case (Some c)
    note range = safe_cut_range [OF Some]
    obtain res db1 where res: "any_p (backfill_draft extr t horizon
          (sessions_in_range (range_filter (cp_cursor_ms cp) c (now_ms params)) db)
          (frame_times (filter (\<lambda>f. sf_captured_at f < c) frames)))
        (if filter (\<lambda>f. sf_captured_at f < c) frames = [] then []
         else seg (filter (\<lambda>f. sf_captured_at f < c) frames) (params\<lparr>now_ms := sat_add64 c (merge_gap_ms params)\<rparr>)) db
      = (res, db1)" by fastforce
    have "(r, cp', db') = (case res of Inr x \<Rightarrow> (Inr x, cp\<lparr>cp_cursor_ms := c\<rparr>, db1) | Inl e \<Rightarrow> (Inl e, cp, db1))"
      using run False unfolding body Some option.case res by simp
    with range fwd show ?thesis by (cases res) auto
  qed
qed

theorem backfill_progress_witness:
  "\<exists>c db'. run_backfill_chunk sample_seg (\<lambda>_ _. []) ((shipped 100000000 0 0)\<lparr>merge_gap_ms := 10\<rparr>) 7
       (Some \<lparr>cp_cursor_ms = 30, cp_target_ms = 50\<rparr>) (sample_store\<lparr>db_sessions := []\<rparr>) = (Inr c, \<lparr>cp_cursor_ms = 50, cp_target_ms = 50\<rparr>, db')
     \<and> (30::int) < 50"
proof -
  let ?run = "run_backfill_chunk sample_seg (\<lambda>_ _. []) ((shipped 100000000 0 0)\<lparr>merge_gap_ms := 10\<rparr>) 7
       (Some \<lparr>cp_cursor_ms = 30, cp_target_ms = 50\<rparr>) (sample_store\<lparr>db_sessions := []\<rparr>)"
  have e: "fst ?run = Inr True" "fst (snd ?run) = \<lparr>cp_cursor_ms = 50, cp_target_ms = 50\<rparr>" by code_simp+
  then obtain db' where r: "?run = (Inr True, \<lparr>cp_cursor_ms = 50, cp_target_ms = 50\<rparr>, db')" by (metis prod.collapse)
  from backfill_progress [OF r] have "(30::int) < 50" by simp
  with r show ?thesis by blast
qed

end
