(* ===== verification/Job_Queue.thy ===== *)
theory Job_Queue
  imports Prelude
begin

text \<open>
  The durable job queue (\<open>crates/store/src/jobs.rs\<close>, \<open>crates/traits/src/jobs.rs\<close>, the \<open>jobs\<close>
  table of \<open>crates/store/src/schema.rs\<close>). The table is the list of its rows in id order; every SQL
  statement is one function on it. \<open>db_now\<close> is the database clock \<open>unixepoch()*1000\<close>, \<open>now\<close> the
  caller's clock. The type-checked columns \<open>kind\<close> and \<open>state\<close> hold the enumeration that their token
  denotes. A row id is SQLite's: one more than the largest in the table.
\<close>

section \<open>Rows\<close>

datatype job_kind = EmbedText | VisionTag
datatype job_state = Pending | Running | Done | Failed | Dead

record new_job =
  nj_kind :: job_kind
  nj_frame_id :: "int option"
  nj_priority :: int
  nj_max_attempts :: int
  nj_not_before :: int

record job =
  jb_id :: int
  jb_kind :: job_kind
  jb_frame_id :: "int option"
  jb_state :: job_state
  jb_priority :: int
  jb_attempts :: int
  jb_max_attempts :: int
  jb_not_before :: int
  jb_last_error :: "ustr option"
  jb_created_at :: int
  jb_updated_at :: int

record job_stats =
  st_pending :: nat
  st_running :: nat
  st_done :: nat
  st_failed :: nat
  st_dead :: nat
  st_vision_pending :: nat
  st_vision_running :: nat

type_synonym jobs = "job list"

definition kind_token :: "job_kind \<Rightarrow> ustr" where
  "kind_token k = (case k of EmbedText \<Rightarrow> lit ''embed_text'' | VisionTag \<Rightarrow> lit ''vision_tag'')"

definition kind_from_token :: "ustr \<Rightarrow> ustr + job_kind" where
  "kind_from_token s =
     (if s = lit ''embed_text'' then Inr EmbedText
      else if s = lit ''vision_tag'' then Inr VisionTag else Inl s)"

definition state_from_token :: "ustr \<Rightarrow> ustr + job_state" where
  "state_from_token s =
     (if s = lit ''pending'' then Inr Pending else if s = lit ''running'' then Inr Running
      else if s = lit ''done'' then Inr Done else if s = lit ''failed'' then Inr Failed
      else if s = lit ''dead'' then Inr Dead else Inl s)"

lemma kind_token_roundtrip: "kind_from_token (kind_token k) = Inr k"
  by (cases k) (simp_all add: kind_token_def kind_from_token_def)

section \<open>Operations\<close>

datatype queue_error = NotRunning int | NoSuchFrame int

definition next_id :: "jobs \<Rightarrow> int" where
  "next_id q = (case list_max (map jb_id q) of None \<Rightarrow> 1 | Some m \<Rightarrow> m + 1)"

definition fresh_job :: "int \<Rightarrow> int \<Rightarrow> new_job \<Rightarrow> job" where
  "fresh_job db_now i nj = \<lparr>
     jb_id = i, jb_kind = nj_kind nj, jb_frame_id = nj_frame_id nj, jb_state = Pending,
     jb_priority = nj_priority nj, jb_attempts = 0, jb_max_attempts = nj_max_attempts nj,
     jb_not_before = nj_not_before nj, jb_last_error = None,
     jb_created_at = db_now, jb_updated_at = db_now\<rparr>"

text \<open>\<open>enqueue_job\<close>; the foreign key of \<open>frame_id\<close> rejects a frame that is not stored.\<close>

definition enqueue_job :: "(int \<Rightarrow> bool) \<Rightarrow> int \<Rightarrow> new_job \<Rightarrow> jobs \<Rightarrow> queue_error + (int \<times> jobs)" where
  "enqueue_job frame_exists db_now nj q =
     (case nj_frame_id nj of
        Some f \<Rightarrow> if frame_exists f then Inr (next_id q, q @ [fresh_job db_now (next_id q) nj])
                  else Inl (NoSuchFrame f)
      | None \<Rightarrow> Inr (next_id q, q @ [fresh_job db_now (next_id q) nj]))"

definition claim_key :: "job \<Rightarrow> int \<times> int" where
  "claim_key j = (- jb_priority j, jb_id j)"

definition runnable :: "job_kind list \<Rightarrow> int \<Rightarrow> job \<Rightarrow> bool" where
  "runnable kinds now j \<longleftrightarrow> jb_state j = Pending \<and> jb_not_before j \<le> now \<and> jb_kind j \<in> set kinds"

definition selected_ids :: "job_kind list \<Rightarrow> nat \<Rightarrow> int \<Rightarrow> jobs \<Rightarrow> int list" where
  "selected_ids kinds limit now q = map jb_id (take limit (sort_key claim_key (filter (runnable kinds now) q)))"

definition claim_jobs ::
  "int \<Rightarrow> job_kind list \<Rightarrow> nat \<Rightarrow> int \<Rightarrow> jobs \<Rightarrow> job list \<times> jobs" where
  "claim_jobs db_now kinds limit now q =
     (if kinds = [] then ([], q)
      else (let ids = set (selected_ids kinds limit now q);
                q' = map (\<lambda>j. if jb_id j \<in> ids
                               then j\<lparr>jb_state := Running, jb_updated_at := db_now\<rparr> else j) q
            in (sort_key claim_key (filter (\<lambda>j. jb_id j \<in> ids) q'), q')))"

text \<open>An \<open>UPDATE \<dots> WHERE id = ?1 AND state = 'running'\<close>, an error when it changes no row.\<close>

definition is_running :: "int \<Rightarrow> job \<Rightarrow> bool" where
  "is_running i j \<longleftrightarrow> jb_id j = i \<and> jb_state j = Running"

definition update_running :: "int \<Rightarrow> (job \<Rightarrow> job) \<Rightarrow> jobs \<Rightarrow> queue_error + jobs" where
  "update_running i f q =
     (if list_ex (is_running i) q then Inr (map (\<lambda>j. if is_running i j then f j else j) q)
      else Inl (NotRunning i))"

definition complete_job :: "int \<Rightarrow> int \<Rightarrow> jobs \<Rightarrow> queue_error + jobs" where
  "complete_job db_now i q = update_running i (\<lambda>j. j\<lparr>jb_state := Done, jb_updated_at := db_now\<rparr>) q"

definition failed_row :: "int \<Rightarrow> ustr \<Rightarrow> int option \<Rightarrow> job \<Rightarrow> job" where
  "failed_row db_now err retry_at j =
     (let retry = (retry_at \<noteq> None \<and> jb_attempts j + 1 < jb_max_attempts j)
      in j\<lparr>jb_attempts := jb_attempts j + 1,
           jb_last_error := Some err,
           jb_state := (if retry then Pending else Dead),
           jb_not_before := (if retry then the retry_at else jb_not_before j),
           jb_updated_at := db_now\<rparr>)"

definition fail_job :: "int \<Rightarrow> int \<Rightarrow> ustr \<Rightarrow> int option \<Rightarrow> jobs \<Rightarrow> queue_error + jobs" where
  "fail_job db_now i err retry_at q = update_running i (failed_row db_now err retry_at) q"

definition is_stale :: "int \<Rightarrow> int \<Rightarrow> job \<Rightarrow> bool" where
  "is_stale db_now older_than_ms j \<longleftrightarrow> jb_state j = Running
     \<and> (older_than_ms \<le> 0 \<or> jb_updated_at j \<le> db_now - older_than_ms)"

definition reset_stale_running_jobs :: "int \<Rightarrow> int \<Rightarrow> jobs \<Rightarrow> nat \<times> jobs" where
  "reset_stale_running_jobs db_now older_than_ms q =
     (length (filter (is_stale db_now older_than_ms) q),
      map (\<lambda>j. if is_stale db_now older_than_ms j
               then j\<lparr>jb_state := Pending, jb_updated_at := db_now\<rparr> else j) q)"

text \<open>\<open>SELECT state, kind, COUNT(*) \<dots> GROUP BY state, kind\<close>, then the fold over its rows.\<close>

definition group_counts :: "jobs \<Rightarrow> (job_state \<times> job_kind \<times> nat) list" where
  "group_counts q =
     (let keys = map (\<lambda>j. (jb_state j, jb_kind j)) q
      in map (\<lambda>k. (fst k, snd k, count_list keys k)) (remdups keys))"

definition add_group :: "job_stats \<Rightarrow> job_state \<times> job_kind \<times> nat \<Rightarrow> job_stats" where
  "add_group s row = (case row of (state, kind, n) \<Rightarrow>
     (let s1 = (case state of
            Pending \<Rightarrow> s\<lparr>st_pending := st_pending s + n\<rparr>
          | Running \<Rightarrow> s\<lparr>st_running := st_running s + n\<rparr>
          | Done \<Rightarrow> s\<lparr>st_done := st_done s + n\<rparr>
          | Failed \<Rightarrow> s\<lparr>st_failed := st_failed s + n\<rparr>
          | Dead \<Rightarrow> s\<lparr>st_dead := st_dead s + n\<rparr>)
      in if kind = VisionTag then (case state of
            Pending \<Rightarrow> s1\<lparr>st_vision_pending := st_vision_pending s1 + n\<rparr>
          | Running \<Rightarrow> s1\<lparr>st_vision_running := st_vision_running s1 + n\<rparr>
          | _ \<Rightarrow> s1) else s1))"

definition zero_stats :: job_stats where
  "zero_stats = \<lparr>st_pending = 0, st_running = 0, st_done = 0, st_failed = 0, st_dead = 0,
     st_vision_pending = 0, st_vision_running = 0\<rparr>"

definition job_stats_of :: "jobs \<Rightarrow> job_stats" where
  "job_stats_of q = foldl add_group zero_stats (group_counts q)"

definition pending_vision_job_count :: "jobs \<Rightarrow> nat" where
  "pending_vision_job_count q =
     length (filter (\<lambda>j. jb_kind j = VisionTag \<and> jb_state j \<in> {Pending, Running}) q)"

definition cancel_pending_vision_jobs :: "jobs \<Rightarrow> nat \<times> jobs" where
  "cancel_pending_vision_jobs q =
     (length (filter (\<lambda>j. jb_kind j = VisionTag \<and> jb_state j = Pending) q),
      filter (\<lambda>j. \<not> (jb_kind j = VisionTag \<and> jb_state j = Pending)) q)"

text \<open>\<open>ON DELETE CASCADE\<close> of the frame reference.\<close>

definition cascade_frame :: "int \<Rightarrow> jobs \<Rightarrow> jobs" where
  "cascade_frame f q = filter (\<lambda>j. jb_frame_id j \<noteq> Some f) q"

section \<open>Steps\<close>

text \<open>One step is one store call, at any clock and with any arguments; a call that errors leaves the
  table as it is. New jobs are enqueued with at least one attempt.\<close>

inductive queue_step :: "jobs \<Rightarrow> jobs \<Rightarrow> bool" where
  step_enqueue: "enqueue_job fe t nj q = Inr (i, q') \<Longrightarrow> 1 \<le> nj_max_attempts nj \<Longrightarrow> queue_step q q'"
| step_claim: "claim_jobs t kinds limit now q = (js, q') \<Longrightarrow> queue_step q q'"
| step_complete: "complete_job t i q = Inr q' \<Longrightarrow> queue_step q q'"
| step_fail: "fail_job t i err retry_at q = Inr q' \<Longrightarrow> queue_step q q'"
| step_reset: "reset_stale_running_jobs t older q = (n, q') \<Longrightarrow> queue_step q q'"
| step_cancel: "cancel_pending_vision_jobs q = (n, q') \<Longrightarrow> queue_step q q'"
| step_cascade: "queue_step q (cascade_frame f q)"

inductive reachable_queue :: "jobs \<Rightarrow> bool" where
  empty_queue: "reachable_queue []"
| more_queue: "reachable_queue q \<Longrightarrow> queue_step q q' \<Longrightarrow> reachable_queue q'"

inductive_cases queue_stepE: "queue_step q q'"

section \<open>One step, row by row\<close>

text \<open>What a call may do to a row that stays: leave it, claim it, complete it, fail it, requeue it.\<close>

inductive row_step :: "job \<Rightarrow> job \<Rightarrow> bool" where
  row_same: "row_step j j"
| row_claim: "jb_state j = Pending \<Longrightarrow> row_step j (j\<lparr>jb_state := Running, jb_updated_at := t\<rparr>)"
| row_complete: "jb_state j = Running \<Longrightarrow> row_step j (j\<lparr>jb_state := Done, jb_updated_at := t\<rparr>)"
| row_fail: "jb_state j = Running \<Longrightarrow> row_step j (failed_row t err retry_at j)"
| row_requeue: "jb_state j = Running \<Longrightarrow> row_step j (j\<lparr>jb_state := Pending, jb_updated_at := t\<rparr>)"

inductive_cases row_stepE: "row_step j j'"

lemma failed_row_id [simp]: "jb_id (failed_row t err r j) = jb_id j"
  "jb_frame_id (failed_row t err r j) = jb_frame_id j" "jb_kind (failed_row t err r j) = jb_kind j"
  "jb_max_attempts (failed_row t err r j) = jb_max_attempts j"
  "jb_attempts (failed_row t err r j) = jb_attempts j + 1"
  by (simp_all add: failed_row_def Let_def)

lemma row_step_id: "row_step j j' \<Longrightarrow> jb_id j' = jb_id j"
  by (cases rule: row_step.cases) auto

lemma update_running_Inr:
  "update_running i f q = Inr q' \<longleftrightarrow> (\<exists>j\<in>set q. is_running i j)
     \<and> q' = map (\<lambda>j. if is_running i j then f j else j) q"
  by (auto simp: update_running_def list_ex_iff)

lemma next_id_new: "jb_id j < next_id q" if "j \<in> set q"
proof -
  have "jb_id j \<le> Max (set (map jb_id q))" using that by simp
  with that show ?thesis by (auto simp: next_id_def list_max_def)
qed

lemma fresh_not_used: "next_id q \<notin> jb_id ` set q"
  using next_id_new by fastforce

lemma selected_ids_pending:
  assumes "distinct (map jb_id q)" and "j \<in> set q" and "jb_id j \<in> set (selected_ids kinds limit now q)"
  shows "runnable kinds now j"
proof -
  obtain k where k: "k \<in> set (take limit (sort_key claim_key (filter (runnable kinds now) q)))" "jb_id k = jb_id j"
    using assms(3) by (auto simp: selected_ids_def)
  then have "k \<in> set q" "runnable kinds now k"
    by (auto dest: in_set_takeD)
  with k(2) assms(1,2) show ?thesis by (auto dest: distinct_map_eq)
qed

lemma claim_queue:
  "snd (claim_jobs t kinds limit now q) = map (\<lambda>j. if kinds \<noteq> [] \<and> jb_id j \<in> set (selected_ids kinds limit now q)
      then j\<lparr>jb_state := Running, jb_updated_at := t\<rparr> else j) q"
  by (simp add: claim_jobs_def Let_def)

text \<open>The shape of a step: every row of the new table is a row step of an old one with the same id, or
  it is the enqueued one.\<close>

definition row_rel :: "jobs \<Rightarrow> jobs \<Rightarrow> bool" where
  "row_rel q q' \<longleftrightarrow> (\<forall>j'\<in>set q'. (\<exists>j\<in>set q. row_step j j')
     \<or> (\<exists>t nj. j' = fresh_job t (next_id q) nj \<and> 1 \<le> nj_max_attempts nj))"

lemma map_rows:
  assumes "\<And>j. j \<in> set q \<Longrightarrow> row_step j (f j)" and "distinct (map jb_id q)"
  shows "row_rel q (map f q) \<and> distinct (map jb_id (map f q))"
proof
  have "map jb_id (map f q) = map jb_id q" using row_step_id assms(1) by simp
  with assms(2) show "distinct (map jb_id (map f q))" by (simp only:)
  show "row_rel q (map f q)" using assms(1) by (auto simp: row_rel_def)
qed

lemma filter_rows:
  "distinct (map jb_id q) \<Longrightarrow> row_rel q (filter P q) \<and> distinct (map jb_id (filter P q))"
  by (auto simp: row_rel_def distinct_map_filter intro: row_same)

lemma queue_step_shape:
  assumes "queue_step q q'" and dist: "distinct (map jb_id q)"
  shows "row_rel q q' \<and> distinct (map jb_id q')"
  using assms(1)
proof cases
  case (step_enqueue fe t nj i)
  then have "q' = q @ [fresh_job t (next_id q) nj]"
    by (auto simp: enqueue_job_def split: option.splits if_splits)
  moreover have "jb_id (fresh_job t (next_id q) nj) = next_id q" by (simp add: fresh_job_def)
  ultimately show ?thesis using step_enqueue(2) dist fresh_not_used
    by (auto simp: row_rel_def intro: row_same)
next
  case (step_claim t kinds limit now js)
  then have q': "q' = map (\<lambda>j. if kinds \<noteq> [] \<and> jb_id j \<in> set (selected_ids kinds limit now q)
      then j\<lparr>jb_state := Running, jb_updated_at := t\<rparr> else j) q"
    using claim_queue [of t kinds limit now q] by simp
  have "jb_state j = Pending" if "j \<in> set q" "jb_id j \<in> set (selected_ids kinds limit now q)" for j
    using selected_ids_pending [OF dist that] by (simp add: runnable_def)
  with dist show ?thesis unfolding q' by (intro map_rows) (auto intro: row_step.intros)
next
  case (step_complete t i)
  then have q': "q' = map (\<lambda>j. if is_running i j then j\<lparr>jb_state := Done, jb_updated_at := t\<rparr> else j) q"
    by (simp add: complete_job_def update_running_Inr)
  show ?thesis unfolding q' by (rule map_rows [OF _ dist]) (auto simp: is_running_def intro: row_step.intros)
next
  case (step_fail t i err r)
  then have q': "q' = map (\<lambda>j. if is_running i j then failed_row t err r j else j) q"
    by (simp add: fail_job_def update_running_Inr)
  show ?thesis unfolding q' by (rule map_rows [OF _ dist]) (auto simp: is_running_def intro: row_step.intros)
next
  case (step_reset t older n)
  then have q': "q' = map (\<lambda>j. if is_stale t older j then j\<lparr>jb_state := Pending, jb_updated_at := t\<rparr> else j) q"
    by (simp add: reset_stale_running_jobs_def)
  show ?thesis unfolding q' by (rule map_rows [OF _ dist]) (auto simp: is_stale_def intro: row_step.intros)
next
  case (step_cancel n)
  then show ?thesis using filter_rows [OF dist] by (auto simp: cancel_pending_vision_jobs_def)
next
  case (step_cascade f)
  then show ?thesis using filter_rows [OF dist] by (simp add: cascade_frame_def)
qed

lemma reachable_distinct: "reachable_queue q \<Longrightarrow> distinct (map jb_id q)"
  by (induction rule: reachable_queue.induct) (auto dest: queue_step_shape)

section \<open>The row invariant\<close>

definition wf_job :: "job \<Rightarrow> bool" where
  "wf_job j \<longleftrightarrow> 0 \<le> jb_attempts j \<and> jb_attempts j \<le> jb_max_attempts j
     \<and> (jb_state j \<noteq> Dead \<longrightarrow> jb_attempts j < jb_max_attempts j)
     \<and> (jb_last_error j \<noteq> None \<longleftrightarrow> 0 < jb_attempts j)
     \<and> (jb_state j = Dead \<longrightarrow> jb_last_error j \<noteq> None) \<and> jb_state j \<noteq> Failed"

lemma failed_row_wf: "wf_job j \<Longrightarrow> jb_state j = Running \<Longrightarrow> wf_job (failed_row t err r j)"
  by (auto simp: wf_job_def failed_row_def Let_def)

lemma row_step_wf: "row_step j j' \<Longrightarrow> wf_job j \<Longrightarrow> wf_job j'"
  by (induction rule: row_step.induct) (simp_all add: failed_row_wf, auto simp: wf_job_def)

lemma fresh_job_wf: "1 \<le> nj_max_attempts nj \<Longrightarrow> wf_job (fresh_job t i nj)"
  by (simp add: wf_job_def fresh_job_def)

lemma row_rel_wf: "row_rel q q' \<Longrightarrow> (\<And>j. j \<in> set q \<Longrightarrow> wf_job j) \<Longrightarrow> j' \<in> set q' \<Longrightarrow> wf_job j'"
  unfolding row_rel_def using row_step_wf fresh_job_wf by blast

lemma reachable_wf: "reachable_queue q \<Longrightarrow> j \<in> set q \<Longrightarrow> wf_job j"
proof (induction arbitrary: j rule: reachable_queue.induct)
  case (more_queue q q')
  then have "row_rel q q'" using queue_step_shape reachable_distinct by blast
  with more_queue show ?case using row_rel_wf by blast
qed simp

section \<open>Statistics\<close>

definition count_jobs :: "(job \<Rightarrow> bool) \<Rightarrow> jobs \<Rightarrow> nat" where
  "count_jobs P q = length (filter P q)"

definition stat_sums :: "(job_state \<times> job_kind \<times> nat) list \<Rightarrow> (job_state \<Rightarrow> job_kind \<Rightarrow> bool) \<Rightarrow> nat" where
  "stat_sums rows P = sum_list (map (\<lambda>r. if P (fst r) (fst (snd r)) then snd (snd r) else 0) rows)"

lemma add_group_sel:
  "st_pending (add_group s r) = st_pending s + (if fst r = Pending then snd (snd r) else 0)"
  "st_running (add_group s r) = st_running s + (if fst r = Running then snd (snd r) else 0)"
  "st_done (add_group s r) = st_done s + (if fst r = Done then snd (snd r) else 0)"
  "st_failed (add_group s r) = st_failed s + (if fst r = Failed then snd (snd r) else 0)"
  "st_dead (add_group s r) = st_dead s + (if fst r = Dead then snd (snd r) else 0)"
  "st_vision_pending (add_group s r)
     = st_vision_pending s + (if fst r = Pending \<and> fst (snd r) = VisionTag then snd (snd r) else 0)"
  "st_vision_running (add_group s r)
     = st_vision_running s + (if fst r = Running \<and> fst (snd r) = VisionTag then snd (snd r) else 0)"
  by (cases r, cases "fst r"; simp add: add_group_def Let_def)+

lemma foldl_add_group:
  "st_pending (foldl add_group s rows) = st_pending s + stat_sums rows (\<lambda>st k. st = Pending)
   \<and> st_running (foldl add_group s rows) = st_running s + stat_sums rows (\<lambda>st k. st = Running)
   \<and> st_done (foldl add_group s rows) = st_done s + stat_sums rows (\<lambda>st k. st = Done)
   \<and> st_failed (foldl add_group s rows) = st_failed s + stat_sums rows (\<lambda>st k. st = Failed)
   \<and> st_dead (foldl add_group s rows) = st_dead s + stat_sums rows (\<lambda>st k. st = Dead)
   \<and> st_vision_pending (foldl add_group s rows)
       = st_vision_pending s + stat_sums rows (\<lambda>st k. st = Pending \<and> k = VisionTag)
   \<and> st_vision_running (foldl add_group s rows)
       = st_vision_running s + stat_sums rows (\<lambda>st k. st = Running \<and> k = VisionTag)"
proof (induction rows arbitrary: s)
  case (Cons r rows)
  show ?case using Cons [of "add_group s r"] by (simp add: stat_sums_def add_group_sel)
qed (simp add: stat_sums_def)

lemma sum_list_if: "sum_list (map (\<lambda>x. if P x then f x else 0) xs) = sum_list (map f (filter P xs))"
  by (induction xs) auto

lemma stat_sums_group:
  "stat_sums (group_counts q) P = count_jobs (\<lambda>j. P (jb_state j) (jb_kind j)) q"
proof -
  let ?keys = "map (\<lambda>j. (jb_state j, jb_kind j)) q"
  have "stat_sums (group_counts q) P
      = sum_list (map (count_list ?keys) (filter (\<lambda>k. P (fst k) (snd k)) (remdups ?keys)))"
    unfolding sum_list_if [symmetric] by (simp add: stat_sums_def group_counts_def Let_def comp_def cong: if_cong)
  also have "\<dots> = length (filter (\<lambda>k. P (fst k) (snd k)) ?keys)"
    by (rule sum_count_remdups_filter)
  finally show ?thesis by (simp add: count_jobs_def filter_map comp_def)
qed

lemma job_stats_counts:
  "job_stats_of q = \<lparr>
     st_pending = count_jobs (\<lambda>j. jb_state j = Pending) q,
     st_running = count_jobs (\<lambda>j. jb_state j = Running) q,
     st_done = count_jobs (\<lambda>j. jb_state j = Done) q,
     st_failed = count_jobs (\<lambda>j. jb_state j = Failed) q,
     st_dead = count_jobs (\<lambda>j. jb_state j = Dead) q,
     st_vision_pending = count_jobs (\<lambda>j. jb_state j = Pending \<and> jb_kind j = VisionTag) q,
     st_vision_running = count_jobs (\<lambda>j. jb_state j = Running \<and> jb_kind j = VisionTag) q\<rparr>"
  using foldl_add_group [of zero_stats "group_counts q"]
  by (simp add: job_stats_of_def stat_sums_group zero_stats_def)

lemma count_jobs_split:
  "count_jobs (\<lambda>j. jb_state j = Pending) q + count_jobs (\<lambda>j. jb_state j = Running) q
     + count_jobs (\<lambda>j. jb_state j = Done) q + count_jobs (\<lambda>j. jb_state j = Failed) q
     + count_jobs (\<lambda>j. jb_state j = Dead) q = length q"
proof (induction q)
  case (Cons j q)
  then show ?case by (cases "jb_state j") (simp_all add: count_jobs_def)
qed (simp add: count_jobs_def)

lemma count_jobs_vision:
  "count_jobs (\<lambda>j. jb_state j = Pending \<and> jb_kind j = VisionTag) q
     + count_jobs (\<lambda>j. jb_state j = Running \<and> jb_kind j = VisionTag) q = pending_vision_job_count q"
  by (induction q) (auto simp: count_jobs_def pending_vision_job_count_def)

section \<open>The store interface of the workers\<close>

text \<open>
  What a worker relies on (the job part of \<open>traits::Store\<close>): finalizing a running job changes that
  row as documented and no other; finalizing anything else is an error.
\<close>

locale job_store =
  fixes inv :: "'s \<Rightarrow> bool"
    and lookup :: "'s \<Rightarrow> int \<Rightarrow> job option"
    and complete :: "int \<Rightarrow> int \<Rightarrow> 's \<Rightarrow> queue_error + 's"
    and fail :: "int \<Rightarrow> int \<Rightarrow> ustr \<Rightarrow> int option \<Rightarrow> 's \<Rightarrow> queue_error + 's"
  assumes complete_running: "inv s \<Longrightarrow> lookup s i = Some j \<Longrightarrow> jb_state j = Running
      \<Longrightarrow> \<exists>s'. complete t i s = Inr s' \<and> inv s'
        \<and> lookup s' = (lookup s)(i \<mapsto> j\<lparr>jb_state := Done, jb_updated_at := t\<rparr>)"
    and complete_other: "inv s \<Longrightarrow> \<forall>j. lookup s i = Some j \<longrightarrow> jb_state j \<noteq> Running
      \<Longrightarrow> complete t i s = Inl (NotRunning i)"
    and fail_running: "inv s \<Longrightarrow> lookup s i = Some j \<Longrightarrow> jb_state j = Running
      \<Longrightarrow> \<exists>s'. fail t i err r s = Inr s' \<and> inv s' \<and> lookup s' = (lookup s)(i \<mapsto> failed_row t err r j)"
    and fail_other: "inv s \<Longrightarrow> \<forall>j. lookup s i = Some j \<longrightarrow> jb_state j \<noteq> Running
      \<Longrightarrow> fail t i err r s = Inl (NotRunning i)"
begin

text \<open>A finished job cannot be finished again.\<close>

lemma complete_twice:
  assumes "inv s" "complete t i s = Inr s'"
  shows "complete t' i s' = Inl (NotRunning i)"
proof -
  obtain j where j: "lookup s i = Some j" "jb_state j = Running"
    using complete_other [OF assms(1), of i t] assms(2) by force
  from complete_running [OF assms(1) this, of t] assms(2)
  have "inv s'" "lookup s' i = Some (j\<lparr>jb_state := Done, jb_updated_at := t\<rparr>)" by auto
  then show ?thesis by (intro complete_other) auto
qed

end

definition lookup_job :: "jobs \<Rightarrow> int \<Rightarrow> job option" where
  "lookup_job q i = List.find (\<lambda>j. jb_id j = i) q"

lemma lookup_job_map:
  assumes "\<And>j. jb_id (f j) = jb_id j"
  shows "lookup_job (map f q) i = map_option f (lookup_job q i)"
  by (induction q) (simp_all add: lookup_job_def assms)

lemma lookup_job_mem: "lookup_job q i = Some j \<Longrightarrow> j \<in> set q \<and> jb_id j = i"
  by (auto simp: lookup_job_def find_Some_iff)

lemma lookup_job_iff:
  "distinct (map jb_id q) \<Longrightarrow> lookup_job q i = Some j \<longleftrightarrow> j \<in> set q \<and> jb_id j = i"
  by (induction q) (auto simp: lookup_job_def)

lemma update_running_lookup:
  assumes dist: "distinct (map jb_id q)" and f: "\<And>j. jb_id (f j) = jb_id j"
  shows "lookup_job q i = Some j \<Longrightarrow> jb_state j = Running
      \<Longrightarrow> \<exists>q'. update_running i f q = Inr q' \<and> distinct (map jb_id q') \<and> lookup_job q' = (lookup_job q)(i \<mapsto> f j)"
    and "\<forall>j. lookup_job q i = Some j \<longrightarrow> jb_state j \<noteq> Running \<Longrightarrow> update_running i f q = Inl (NotRunning i)"
proof -
  assume j: "lookup_job q i = Some j" "jb_state j = Running"
  let ?f = "\<lambda>j. if is_running i j then f j else j"
  have ids: "jb_id (?f x) = jb_id x" for x by (simp add: f)
  then have "map jb_id (map ?f q) = map jb_id q" by simp
  then have d: "distinct (map jb_id (map ?f q))" using dist by (simp only:)
  have "lookup_job (map ?f q) k = ((lookup_job q)(i \<mapsto> f j)) k" for k
    unfolding lookup_job_map [of ?f, OF ids] using j lookup_job_mem
    by (cases "lookup_job q k") (auto simp: is_running_def)
  moreover have "list_ex (is_running i) q" using j lookup_job_mem by (auto simp: list_ex_iff is_running_def)
  ultimately show "\<exists>q'. update_running i f q = Inr q' \<and> distinct (map jb_id q')
      \<and> lookup_job q' = (lookup_job q)(i \<mapsto> f j)"
    using d by (intro exI [of _ "map ?f q"]) (simp only: update_running_def if_True fun_eq_iff, simp)
next
  assume "\<forall>j. lookup_job q i = Some j \<longrightarrow> jb_state j \<noteq> Running"
  then show "update_running i f q = Inl (NotRunning i)"
    using lookup_job_iff [OF dist] by (auto simp: update_running_def list_ex_iff is_running_def)
qed

interpretation sqlite: job_store "\<lambda>q. distinct (map jb_id q)" lookup_job complete_job fail_job
proof
  fix s :: jobs and i j t err r
  assume d: "distinct (map jb_id s)"
  note upd = update_running_lookup [OF d]
  show "lookup_job s i = Some j \<Longrightarrow> jb_state j = Running \<Longrightarrow> \<exists>s'. complete_job t i s = Inr s'
      \<and> distinct (map jb_id s') \<and> lookup_job s' = (lookup_job s)(i \<mapsto> j\<lparr>jb_state := Done, jb_updated_at := t\<rparr>)"
    unfolding complete_job_def by (rule upd(1)) simp_all
  show "\<forall>j. lookup_job s i = Some j \<longrightarrow> jb_state j \<noteq> Running \<Longrightarrow> complete_job t i s = Inl (NotRunning i)"
    unfolding complete_job_def by (rule upd(2)) simp_all
  show "lookup_job s i = Some j \<Longrightarrow> jb_state j = Running \<Longrightarrow> \<exists>s'. fail_job t i err r s = Inr s'
      \<and> distinct (map jb_id s') \<and> lookup_job s' = (lookup_job s)(i \<mapsto> failed_row t err r j)"
    unfolding fail_job_def by (rule upd(1)) simp_all
  show "\<forall>j. lookup_job s i = Some j \<longrightarrow> jb_state j \<noteq> Running \<Longrightarrow> fail_job t i err r s = Inl (NotRunning i)"
    unfolding fail_job_def by (rule upd(2)) simp_all
qed

section \<open>Properties\<close>

definition sample_jobs :: jobs where
  "sample_jobs =
     [fresh_job 10 1 \<lparr>nj_kind = EmbedText, nj_frame_id = Some 7, nj_priority = 0, nj_max_attempts = 3, nj_not_before = 0\<rparr>,
      (fresh_job 10 2 \<lparr>nj_kind = VisionTag, nj_frame_id = Some 7, nj_priority = 5, nj_max_attempts = 1, nj_not_before = 0\<rparr>)
        \<lparr>jb_state := Running\<rparr>,
      fresh_job 10 3 \<lparr>nj_kind = EmbedText, nj_frame_id = Some 8, nj_priority = 9, nj_max_attempts = 3, nj_not_before = 0\<rparr>,
      (fresh_job 10 4 \<lparr>nj_kind = EmbedText, nj_frame_id = None, nj_priority = 9, nj_max_attempts = 3, nj_not_before = 0\<rparr>)
        \<lparr>jb_state := Done\<rparr>]"

lemma claimed_rows:
  assumes "distinct (map jb_id q)" "kinds \<noteq> []"
  shows "set (fst (claim_jobs t kinds limit now q)) =
      {j\<lparr>jb_state := Running, jb_updated_at := t\<rparr> | j. j \<in> set q \<and> jb_id j \<in> set (selected_ids kinds limit now q)}"
  using assms(2) by (auto simp: claim_jobs_def Let_def)

lemma claimed_js:
  "kinds \<noteq> [] \<Longrightarrow> fst (claim_jobs t kinds limit now q) =
     sort_key claim_key (filter (\<lambda>j. jb_id j \<in> set (selected_ids kinds limit now q)) (snd (claim_jobs t kinds limit now q)))"
  by (simp add: claim_jobs_def Let_def)

lemma length_claimed:
  assumes "distinct (map jb_id q)"
  shows "length (fst (claim_jobs t kinds limit now q)) \<le> limit"
proof (cases "kinds = []")
  case False
  let ?sel = "selected_ids kinds limit now q"
  let ?js = "filter (\<lambda>j. jb_id j \<in> set ?sel) (snd (claim_jobs t kinds limit now q))"
  have ids: "map jb_id (snd (claim_jobs t kinds limit now q)) = map jb_id q" by (simp add: claim_queue)
  then have "distinct (map jb_id ?js)" using assms distinct_map_filter by metis
  then have "length ?js = card (set (map jb_id ?js))" by (metis distinct_card length_map)
  also have "\<dots> \<le> card (set ?sel)" by (rule card_mono) auto
  also have "\<dots> \<le> limit" using card_length [of ?sel] by (simp add: selected_ids_def)
  finally show ?thesis using False by (simp add: claim_jobs_def Let_def)
qed (simp add: claim_jobs_def)

text \<open>C4: A claim hands out each job at most once: at most \<open>limit\<close> rows, with distinct ids, each pending, due and
  of a requested kind before the claim and running after it, best priority first; a second claim, with
  any arguments, returns none of them.\<close>

theorem claim_hands_out_once:
  assumes "distinct (map jb_id q)" and "claim_jobs t kinds limit now q = (js, q')"
  shows "length js \<le> limit \<and> distinct (map jb_id js) \<and> sorted_wrt (\<lambda>a b. claim_key a \<le> claim_key b) js
     \<and> (\<forall>j\<in>set js. jb_state j = Running \<and> j \<in> set q'
          \<and> (\<exists>j\<^sub>0\<in>set q. runnable kinds now j\<^sub>0 \<and> j = j\<^sub>0\<lparr>jb_state := Running, jb_updated_at := t\<rparr>))
     \<and> jb_id ` set js \<inter> jb_id ` set (fst (claim_jobs t' kinds' limit' now' q')) = {}"
proof (cases "kinds = []")
  case True
  with assms(2) show ?thesis by (simp add: claim_jobs_def)
next
  case False
  have js: "js = fst (claim_jobs t kinds limit now q)" and q': "q' = snd (claim_jobs t kinds limit now q)"
    using assms(2) by simp_all
  have ids: "map jb_id q' = map jb_id q" unfolding q' by (simp add: claim_queue)
  have dist': "distinct (map jb_id q')" using assms(1) by (simp only: ids)
  have rows: "\<exists>j\<^sub>0\<in>set q. runnable kinds now j\<^sub>0 \<and> j = j\<^sub>0\<lparr>jb_state := Running, jb_updated_at := t\<rparr>"
    if "j \<in> set js" for j
    using that claimed_rows [OF assms(1) False, of t limit now] selected_ids_pending [OF assms(1)]
    unfolding js by blast
  have sub: "set js \<subseteq> set q'"
    using False unfolding js q' by (auto simp: claim_jobs_def Let_def)
  have "distinct (map jb_id js)"
    unfolding js claimed_js [OF False] distinct_map_sort
    using dist' unfolding q' by (rule distinct_map_filter)
  moreover have "sorted_wrt (\<lambda>a b. claim_key a \<le> claim_key b) js"
    using False unfolding js by (simp add: claim_jobs_def Let_def sorted_wrt_sort_key)
  moreover have "length js \<le> limit" unfolding js by (rule length_claimed [OF assms(1)])
  moreover have "jb_state j = Running" if "j \<in> set js" for j using rows [OF that] by auto
  moreover have "jb_id ` set js \<inter> jb_id ` set (fst (claim_jobs t' kinds' limit' now' q')) = {}"
  proof (rule ccontr)
    assume "jb_id ` set js \<inter> jb_id ` set (fst (claim_jobs t' kinds' limit' now' q')) \<noteq> {}"
    then obtain a b where ab: "a \<in> set js" "b \<in> set (fst (claim_jobs t' kinds' limit' now' q'))"
      "jb_id a = jb_id b" by blast
    then have "kinds' \<noteq> []" by (auto simp: claim_jobs_def)
    with ab(2) claimed_rows [OF dist'] obtain c where c: "c \<in> set q'" "jb_id c = jb_id b"
      "jb_id c \<in> set (selected_ids kinds' limit' now' q')" by auto
    then have "jb_state c = Pending"
      using selected_ids_pending [OF dist'] by (auto simp: runnable_def)
    moreover have "a = c" using distinct_map_eq [OF dist'] ab sub c by auto
    ultimately show False using rows [OF ab(1)] by auto
  qed
  ultimately show ?thesis using rows sub by blast
qed

theorem claim_hands_out_once_witness:
  "map jb_id (fst (claim_jobs 20 [EmbedText] 1 50 sample_jobs)) = [3]
     \<and> jb_id ` set (fst (claim_jobs 20 [EmbedText] 1 50 sample_jobs))
       \<inter> jb_id ` set (fst (claim_jobs 21 [EmbedText, VisionTag] 9 50 (snd (claim_jobs 20 [EmbedText] 1 50 sample_jobs)))) = {}"
proof
  show "map jb_id (fst (claim_jobs 20 [EmbedText] 1 50 sample_jobs)) = [3]" by code_simp
  have "distinct (map jb_id sample_jobs)" by code_simp
  from claim_hands_out_once [OF this prod.collapse [symmetric], of 20 "[EmbedText]" 1 50 21 "[EmbedText, VisionTag]" 9 50]
  show "jb_id ` set (fst (claim_jobs 20 [EmbedText] 1 50 sample_jobs))
      \<inter> jb_id ` set (fst (claim_jobs 21 [EmbedText, VisionTag] 9 50 (snd (claim_jobs 20 [EmbedText] 1 50 sample_jobs)))) = {}"
    by blast
qed

text \<open>A claim takes the best work: a runnable job it leaves behind means that the limit was reached and that
  every claimed job has a priority at least as high, ties broken by the smaller id.\<close>

theorem claim_takes_best:
  assumes "distinct (map jb_id q)" and "j \<in> set q" "runnable kinds now j"
    and "jb_id j \<notin> jb_id ` set (fst (claim_jobs t kinds limit now q))"
    and "k \<in> set (fst (claim_jobs t kinds limit now q))"
  shows "length (selected_ids kinds limit now q) = limit \<and> claim_key k \<le> claim_key j"
proof -
  let ?run = "filter (runnable kinds now) q"
  let ?top = "take limit (sort_key claim_key ?run)"
  have kinds: "kinds \<noteq> []" using assms(3) by (auto simp: runnable_def)
  note rows = claimed_rows [OF assms(1) kinds, of t limit now]
  have j: "j \<in> set ?run" using assms(2,3) by simp
  have "j \<notin> set ?top"
  proof
    assume "j \<in> set ?top"
    then have "jb_id j \<in> set (selected_ids kinds limit now q)" by (simp add: selected_ids_def)
    then have "j\<lparr>jb_state := Running, jb_updated_at := t\<rparr> \<in> set (fst (claim_jobs t kinds limit now q))"
      using rows assms(2) by blast
    from imageI [OF this, of jb_id] show False using assms(4) by simp
  qed
  note best = take_sort_key_best [OF j this] and full = take_sort_key_full [OF j this]
  obtain k\<^sub>0 where k0: "k\<^sub>0 \<in> set q" "jb_id k\<^sub>0 \<in> set (selected_ids kinds limit now q)"
    "k = k\<^sub>0\<lparr>jb_state := Running, jb_updated_at := t\<rparr>" using rows assms(5) by blast
  then obtain k1 where k1: "k1 \<in> set ?top" "jb_id k1 = jb_id k\<^sub>0" by (auto simp: selected_ids_def)
  then have "k1 = k\<^sub>0" using distinct_map_eq [OF assms(1)] k0(1) by (auto dest: in_set_takeD)
  with k1 best have "claim_key k\<^sub>0 \<le> claim_key j" by blast
  then show ?thesis using full k0(3) by (simp add: selected_ids_def claim_key_def)
qed

theorem claim_takes_best_witness:
  "claim_key (hd (fst (claim_jobs 20 [EmbedText] 1 50 sample_jobs))) \<le> claim_key (hd sample_jobs)"
proof -
  have "distinct (map jb_id sample_jobs)" by code_simp
  moreover have "hd sample_jobs \<in> set sample_jobs" by (simp add: sample_jobs_def)
  moreover have "runnable [EmbedText] 50 (hd sample_jobs)" by code_simp
  moreover have "jb_id (hd sample_jobs) \<notin> jb_id ` set (fst (claim_jobs 20 [EmbedText] 1 50 sample_jobs))" by code_simp
  moreover have "fst (claim_jobs 20 [EmbedText] 1 50 sample_jobs) \<noteq> []" by code_simp
  ultimately show ?thesis using claim_takes_best by (metis list.set_sel(1))
qed

text \<open>C5: In every reachable table the ids are distinct and each row keeps the retry contract: attempts stay between
  zero and the maximum, only a dead row has used them all or none are left to it, a row has an error message exactly
  when an attempt failed, dead rows always carry one, and no row is ever in the state \<open>failed\<close>.\<close>

theorem reachable_queue_invariant:
  assumes "reachable_queue q"
  shows "distinct (map jb_id q)
     \<and> list_all (\<lambda>j. 0 \<le> jb_attempts j \<and> jb_attempts j \<le> jb_max_attempts j
         \<and> (jb_state j \<noteq> Dead \<longrightarrow> jb_attempts j < jb_max_attempts j)
         \<and> (jb_last_error j \<noteq> None \<longleftrightarrow> 0 < jb_attempts j)
         \<and> (jb_state j = Dead \<longrightarrow> jb_last_error j \<noteq> None) \<and> jb_state j \<noteq> Failed) q"
  using reachable_distinct [OF assms] reachable_wf [OF assms] unfolding list_all_iff wf_job_def by blast

definition sample_new :: new_job where
  "sample_new = \<lparr>nj_kind = VisionTag, nj_frame_id = None, nj_priority = 0, nj_max_attempts = 1, nj_not_before = 0\<rparr>"

definition sample_dead :: jobs where
  "sample_dead = [failed_row 9 (lit ''e'') (Some 99) ((fresh_job 1 1 sample_new)\<lparr>jb_state := Running, jb_updated_at := 5\<rparr>)]"

lemma sample_dead_reachable: "reachable_queue sample_dead"
proof -
  have 1: "queue_step [] [fresh_job 1 1 sample_new]"
    by (rule step_enqueue [of "\<lambda>_. False" 1 sample_new _ 1])
      (simp_all add: enqueue_job_def sample_new_def next_id_def list_max_def)
  have 2: "queue_step [fresh_job 1 1 sample_new] [(fresh_job 1 1 sample_new)\<lparr>jb_state := Running, jb_updated_at := 5\<rparr>]"
    by (rule step_claim [of 5 "[VisionTag]" 1 7 _ "fst (claim_jobs 5 [VisionTag] 1 7 [fresh_job 1 1 sample_new])"])
      (simp add: claim_jobs_def selected_ids_def runnable_def fresh_job_def sample_new_def Let_def)
  have 3: "queue_step [(fresh_job 1 1 sample_new)\<lparr>jb_state := Running, jb_updated_at := 5\<rparr>] sample_dead"
    by (rule step_fail [of 9 1 "lit ''e''" "Some 99"])
      (simp add: fail_job_def update_running_def is_running_def sample_dead_def fresh_job_def)
  from more_queue [OF more_queue [OF more_queue [OF empty_queue 1] 2] 3] show ?thesis .
qed

theorem reachable_queue_invariant_witness:
  "jb_state (hd sample_dead) = Dead \<and> jb_attempts (hd sample_dead) = 1 \<and> jb_last_error (hd sample_dead) \<noteq> None"
proof -
  have "jb_state (hd sample_dead) = Dead \<and> jb_attempts (hd sample_dead) = 1" by code_simp
  then show ?thesis using reachable_queue_invariant [OF sample_dead_reachable]
    by (simp add: sample_dead_def)
qed

text \<open>C6: The life cycle of a row: in one store call a row either keeps its id and follows one of the documented edges
  (pending to running, running to done, running to pending or dead with one more attempt, running back to pending when
  requeued), and a row that is done or dead is never changed again: it stays until its frame is deleted.\<close>

theorem job_life_cycle:
  assumes "distinct (map jb_id q)" and "queue_step q q'" and "j \<in> set q"
  shows "(\<forall>j'\<in>set q'. jb_id j' = jb_id j \<longrightarrow>
        j' = j
      \<or> jb_state j = Pending \<and> jb_state j' = Running \<and> jb_attempts j' = jb_attempts j
      \<or> jb_state j = Running \<and> jb_state j' \<in> {Done, Pending} \<and> jb_attempts j' = jb_attempts j
      \<or> jb_state j = Running \<and> jb_state j' \<in> {Pending, Dead} \<and> jb_attempts j' = jb_attempts j + 1)
    \<and> (jb_state j \<in> {Done, Dead} \<longrightarrow> j \<in> set q' \<or> (\<exists>f. jb_frame_id j = Some f \<and> q' = cascade_frame f q))"
proof (intro conjI ballI impI)
  fix j' assume j': "j' \<in> set q'" "jb_id j' = jb_id j"
  have "row_rel q q'" using queue_step_shape [OF assms(2,1)] by simp
  then consider k where "k \<in> set q" "row_step k j'" | t nj where "j' = fresh_job t (next_id q) nj"
    using j'(1) by (auto simp: row_rel_def)
  then have "row_step j j'"
  proof cases
    case 1
    with j' assms(3) row_step_id have "k = j" by (metis distinct_map_eq [OF assms(1)])
    with 1 show ?thesis by simp
  next
    case 2
    then have "jb_id j' = next_id q" by (simp add: fresh_job_def)
    with next_id_new [OF assms(3)] j'(2) show ?thesis by simp
  qed
  then show "j' = j
      \<or> jb_state j = Pending \<and> jb_state j' = Running \<and> jb_attempts j' = jb_attempts j
      \<or> jb_state j = Running \<and> jb_state j' \<in> {Done, Pending} \<and> jb_attempts j' = jb_attempts j
      \<or> jb_state j = Running \<and> jb_state j' \<in> {Pending, Dead} \<and> jb_attempts j' = jb_attempts j + 1"
    by (induction rule: row_step.induct) (auto simp: failed_row_def Let_def)
next
  assume final: "jb_state j \<in> {Done, Dead}"
  show "j \<in> set q' \<or> (\<exists>f. jb_frame_id j = Some f \<and> q' = cascade_frame f q)"
    using assms(2)
  proof cases
    case (step_enqueue fe t nj i)
    with assms(3) show ?thesis by (auto simp: enqueue_job_def split: option.splits if_splits)
  next
    case (step_claim t kinds limit now js)
    have "jb_id j \<notin> set (selected_ids kinds limit now q)"
      using final selected_ids_pending [OF assms(1,3)] by (auto simp: runnable_def)
    then have "j \<in> set (snd (claim_jobs t kinds limit now q))"
      using assms(3) by (auto simp: claim_queue image_iff intro!: bexI [of _ j])
    with step_claim show ?thesis by simp
  next
    case (step_complete t i)
    with final assms(3) show ?thesis
      by (auto simp: complete_job_def update_running_Inr image_iff is_running_def intro!: bexI [of _ j])
  next
    case (step_fail t i err r)
    with final assms(3) show ?thesis
      by (auto simp: fail_job_def update_running_Inr image_iff is_running_def intro!: bexI [of _ j])
  next
    case (step_reset t older n)
    with final assms(3) show ?thesis
      by (auto simp: reset_stale_running_jobs_def image_iff is_stale_def intro!: bexI [of _ j])
  next
    case (step_cancel n)
    with final assms(3) show ?thesis by (auto simp: cancel_pending_vision_jobs_def)
  next
    case (step_cascade f)
    with assms(3) show ?thesis by (auto simp: cascade_frame_def)
  qed
qed

theorem job_life_cycle_witness:
  "sample_jobs ! 3 \<in> set (snd (cancel_pending_vision_jobs sample_jobs))"
proof -
  have "distinct (map jb_id sample_jobs)" by code_simp
  moreover have "queue_step sample_jobs (snd (cancel_pending_vision_jobs sample_jobs))"
    by (rule step_cancel) (rule prod.collapse [symmetric])
  moreover have "sample_jobs ! 3 \<in> set sample_jobs" by (simp add: sample_jobs_def)
  moreover have "jb_state (sample_jobs ! 3) \<in> {Done, Dead}" by code_simp
  moreover have "jb_frame_id (sample_jobs ! 3) = None" by code_simp
  ultimately show ?thesis using job_life_cycle by (metis option.distinct(1))
qed

text \<open>The diagnostics counts are exact: the grouped counts add up to the number of rows per state, all states
  together to the size of the table, and the vision counts to the in-flight vision backlog the idle scheduler reads.\<close>

theorem job_stats_exact:
  "st_pending (job_stats_of q) = length (filter (\<lambda>j. jb_state j = Pending) q)
   \<and> st_running (job_stats_of q) = length (filter (\<lambda>j. jb_state j = Running) q)
   \<and> st_dead (job_stats_of q) = length (filter (\<lambda>j. jb_state j = Dead) q)
   \<and> st_pending (job_stats_of q) + st_running (job_stats_of q) + st_done (job_stats_of q)
       + st_failed (job_stats_of q) + st_dead (job_stats_of q) = length q
   \<and> st_vision_pending (job_stats_of q) + st_vision_running (job_stats_of q) = pending_vision_job_count q"
  using count_jobs_split [of q] count_jobs_vision [of q] by (simp add: job_stats_counts count_jobs_def)

end
