(* ===== verification/Worker_Pool.thy ===== *)
theory Worker_Pool
  imports Job_Queue
begin

text \<open>
  The enrichment workers (\<open>crates/kernel/src/worker_pool.rs\<close>): which kinds a worker claims, the
  outcome of one job, its finalization through the store, the idle and retry backoffs and the sweep.
  The providers (embedder, vision sidecar), the file system and the other tables of the store are
  arguments; the store's job operations are the trait object's, the locale \<open>job_store\<close>.
\<close>

section \<open>Backoff\<close>

definition backoff_base_ms :: int where "backoff_base_ms = 1000"
definition backoff_cap_ms :: int where "backoff_cap_ms = 60000"
definition visibility_timeout_ms :: int where "visibility_timeout_ms = 5 * 60 * 1000"
definition idle_min_ms :: int where "idle_min_ms = 250"
definition idle_max_ms :: int where "idle_max_ms = 2000"

definition backoff_ms :: "int \<Rightarrow> int" where
  "backoff_ms attempts =
     (let shift = nat (clamp attempts 0 16)
      in min (sat_mul64 backoff_base_ms (2 ^ shift)) backoff_cap_ms)"

definition next_idle :: "int \<Rightarrow> bool \<Rightarrow> int" where
  "next_idle backoff claimed = (if claimed then idle_min_ms else min (backoff * 2) idle_max_ms)"

section \<open>Outcomes\<close>

datatype outcome =
    Complete bool
  | DeadLetter ustr
  | Retry ustr

record enrichment_input =
  ei_image_path :: ustr
  ei_ocr_text :: "ustr option"

record completed_job_info =
  ci_job_id :: int
  ci_kind :: job_kind
  ci_frame_id :: int

text \<open>What the outcomes call besides the queue: the frame row, the derived tables, the file system.\<close>

record ('s, 'v, 'im, 'an) provider_env =
  ev_input :: "'s \<Rightarrow> int \<Rightarrow> ustr + enrichment_input option"
  ev_upsert :: "int \<Rightarrow> ustr \<Rightarrow> 'v \<Rightarrow> 's \<Rightarrow> (ustr + unit) \<times> 's"
  ev_insert_vision :: "int \<Rightarrow> 'an \<Rightarrow> 's \<Rightarrow> (ustr + unit) \<times> 's"
  ev_join :: "ustr \<Rightarrow> ustr"
  ev_load :: "ustr \<Rightarrow> ustr + 'im"
  ev_exists :: "ustr \<Rightarrow> bool"

definition embed_text_outcome ::
  "('s, 'v, 'im, 'an) provider_env \<Rightarrow> (ustr \<Rightarrow> ustr + 'v list) \<Rightarrow> int option \<Rightarrow> 's \<Rightarrow> outcome \<times> 's" where
  "embed_text_outcome env embedder frame_id s = (case frame_id of
     None \<Rightarrow> (DeadLetter (lit ''embed_text job has no frame_id''), s)
   | Some f \<Rightarrow> (case ev_input env s f of
       Inl e \<Rightarrow> (Retry (lit ''read frame '' @ display_int f @ lit '': '' @ e), s)
     | Inr None \<Rightarrow> (Complete False, s)
     | Inr (Some input) \<Rightarrow>
         (let txt = (case ei_ocr_text input of None \<Rightarrow> [] | Some t \<Rightarrow> t)
          in if trim txt = [] then (Complete False, s)
             else (case embedder txt of
                 Inl e \<Rightarrow> (Retry (lit ''embed text: '' @ e), s)
               | Inr vs \<Rightarrow> (case last_opt vs of
                   None \<Rightarrow> (Retry (lit ''text embedder returned no vector''), s)
                 | Some v \<Rightarrow> (case ev_upsert env f txt v s of
                     (Inr _, s') \<Rightarrow> (Complete True, s')
                   | (Inl e, s') \<Rightarrow> (Retry (lit ''upsert text embedding: '' @ e), s')))))))"

definition vision_tag_outcome ::
  "('s, 'v, 'im, 'an) provider_env \<Rightarrow> ('im \<Rightarrow> ustr + 'an) option \<Rightarrow> int option \<Rightarrow> 's \<Rightarrow> outcome \<times> 's" where
  "vision_tag_outcome env vision frame_id s = (case frame_id of
     None \<Rightarrow> (DeadLetter (lit ''vision_tag job has no frame_id''), s)
   | Some f \<Rightarrow> (case vision of
       None \<Rightarrow> (Retry (lit ''vision provider not attached''), s)
     | Some analyze \<Rightarrow> (case ev_input env s f of
         Inl e \<Rightarrow> (Retry (lit ''read frame '' @ display_int f @ lit '': '' @ e), s)
       | Inr None \<Rightarrow> (Complete False, s)
       | Inr (Some input) \<Rightarrow>
           (let path = ev_join env (ei_image_path input)
            in case ev_load env path of
                 Inl e \<Rightarrow> (if ev_exists env path
                           then Retry (lit ''load image '' @ path @ lit '': '' @ e)
                           else DeadLetter (lit ''image missing '' @ path @ lit '': '' @ e), s)
               | Inr img \<Rightarrow> (case analyze img of
                   Inl e \<Rightarrow> (Retry (lit ''vision analyze frame '' @ display_int f @ lit '': '' @ e), s)
                 | Inr analysis \<Rightarrow> (case ev_insert_vision env f analysis s of
                     (Inr _, s') \<Rightarrow> (Complete True, s')
                   | (Inl e, s') \<Rightarrow> (Retry (lit ''insert vision '' @ display_int f @ lit '': '' @ e), s')))))))"

definition completion_info :: "int \<Rightarrow> job_kind \<Rightarrow> int option \<Rightarrow> bool \<Rightarrow> completed_job_info option" where
  "completion_info job_id kind frame_id changed_data =
     (if changed_data
      then map_option (\<lambda>f. \<lparr>ci_job_id = job_id, ci_kind = kind, ci_frame_id = f\<rparr>) frame_id
      else None)"

text \<open>
  \<open>process_job_with_providers\<close>: \<open>now\<close> is the worker's clock, \<open>t\<close> the database clock of the
  finalizing update; \<open>finish\<close> and \<open>give_up\<close> are its \<open>complete_job\<close> and \<open>fail_job\<close>.
\<close>

definition run_outcome ::
  "('s, 'v, 'im, 'an) provider_env \<Rightarrow> (ustr \<Rightarrow> ustr + 'v list) option \<Rightarrow> ('im \<Rightarrow> ustr + 'an) option
     \<Rightarrow> job \<Rightarrow> 's \<Rightarrow> outcome \<times> 's" where
  "run_outcome env embedder vision job s = (case jb_kind job of
     EmbedText \<Rightarrow> (case embedder of
         Some e \<Rightarrow> embed_text_outcome env e (jb_frame_id job) s
       | None \<Rightarrow> (Retry (lit ''embedding provider not attached''), s))
   | VisionTag \<Rightarrow> vision_tag_outcome env vision (jb_frame_id job) s)"

definition process_job_with_providers ::
  "(int \<Rightarrow> int \<Rightarrow> 's \<Rightarrow> queue_error + 's) \<Rightarrow> (int \<Rightarrow> int \<Rightarrow> ustr \<Rightarrow> int option \<Rightarrow> 's \<Rightarrow> queue_error + 's)
     \<Rightarrow> ('s, 'v, 'im, 'an) provider_env \<Rightarrow> (ustr \<Rightarrow> ustr + 'v list) option \<Rightarrow> ('im \<Rightarrow> ustr + 'an) option
     \<Rightarrow> int \<Rightarrow> int \<Rightarrow> job \<Rightarrow> 's \<Rightarrow> queue_error + (completed_job_info option \<times> 's)" where
  "process_job_with_providers finish give_up env embedder vision now t job s =
     (case run_outcome env embedder vision job s of
        (Complete changed, s') \<Rightarrow>
          bind_r (finish t (jb_id job) s') (\<lambda>s''.
            Inr (completion_info (jb_id job) (jb_kind job) (jb_frame_id job) changed, s''))
      | (DeadLetter err, s') \<Rightarrow> bind_r (give_up t (jb_id job) err None s') (\<lambda>s''. Inr (None, s''))
      | (Retry err, s') \<Rightarrow>
          bind_r (give_up t (jb_id job) err (Some (now + backoff_ms (jb_attempts job))) s') (\<lambda>s''. Inr (None, s'')))"

section \<open>Claiming\<close>

record pool_shared =
  sh_embedder_ready :: bool
  sh_vision_ready :: bool
  sh_enable_embed_text :: bool
  sh_throttle_level :: int
  sh_embed_text_floor :: nat

definition claim_kinds :: "pool_shared \<Rightarrow> int \<Rightarrow> bool \<Rightarrow> job_kind list" where
  "claim_kinds shared level allow_embed_text =
     (if sh_embedder_ready shared \<and> sh_enable_embed_text shared \<and> allow_embed_text then [EmbedText] else [])
     @ (if sh_vision_ready shared \<and> level = 0 then [VisionTag] else [])"

definition worker_kinds :: "pool_shared \<Rightarrow> nat \<Rightarrow> job_kind list" where
  "worker_kinds shared active_embed_text =
     claim_kinds shared (sh_throttle_level shared)
       (sh_throttle_level shared < 2 \<or> active_embed_text < sh_embed_text_floor shared)"

text \<open>One claim of \<open>worker_loop\<close>: at most one job, none when no kind may be claimed.\<close>

definition worker_claim :: "pool_shared \<Rightarrow> nat \<Rightarrow> int \<Rightarrow> int \<Rightarrow> jobs \<Rightarrow> job option \<times> jobs" where
  "worker_claim shared active_embed_text now t q =
     (let kinds = worker_kinds shared active_embed_text
      in if kinds = [] then (None, q)
         else (case claim_jobs t kinds 1 now q of (js, q') \<Rightarrow> (last_opt js, q')))"

definition sweep :: "nat \<Rightarrow> int \<Rightarrow> jobs \<Rightarrow> jobs" where
  "sweep active t q =
     (if 0 < active then q else snd (reset_stale_running_jobs t visibility_timeout_ms q))"

datatype kernel_event =
    JobProgress job_stats
  | JobCompleted completed_job_info job_stats

definition emit_progress :: "jobs \<Rightarrow> completed_job_info option \<Rightarrow> kernel_event list" where
  "emit_progress q completed = JobProgress (job_stats_of q)
     # (case completed of None \<Rightarrow> [] | Some c \<Rightarrow> [JobCompleted c (job_stats_of q)])"

section \<open>Finalization, over any store that keeps the job contract\<close>

text \<open>The row of a processed job.\<close>

definition finished_row :: "outcome \<Rightarrow> int \<Rightarrow> int \<Rightarrow> int \<Rightarrow> job \<Rightarrow> job" where
  "finished_row out now t attempts row = (case out of
     Complete _ \<Rightarrow> row\<lparr>jb_state := Done, jb_updated_at := t\<rparr>
   | DeadLetter err \<Rightarrow> failed_row t err None row
   | Retry err \<Rightarrow> failed_row t err (Some (now + backoff_ms attempts)) row)"

locale worker_store = job_store inv lookup finish give_up
  for inv :: "'s \<Rightarrow> bool" and lookup :: "'s \<Rightarrow> int \<Rightarrow> job option"
    and finish :: "int \<Rightarrow> int \<Rightarrow> 's \<Rightarrow> queue_error + 's"
    and give_up :: "int \<Rightarrow> int \<Rightarrow> ustr \<Rightarrow> int option \<Rightarrow> 's \<Rightarrow> queue_error + 's" +
  fixes env :: "('s, 'v, 'im, 'an) provider_env"
  assumes upsert_rows: "inv s \<Longrightarrow> ev_upsert env f txt v s = (r, s') \<Longrightarrow> inv s' \<and> lookup s' = lookup s"
    and vision_rows: "inv s \<Longrightarrow> ev_insert_vision env f a s = (r, s') \<Longrightarrow> inv s' \<and> lookup s' = lookup s"
begin

lemma embed_text_outcome_rows:
  "inv s \<Longrightarrow> embed_text_outcome env e f s = (out, s') \<Longrightarrow> inv s' \<and> lookup s' = lookup s"
  by (auto simp: embed_text_outcome_def Let_def dest: upsert_rows
      split: option.splits sum.splits if_splits prod.splits)

lemma vision_tag_outcome_rows:
  "inv s \<Longrightarrow> vision_tag_outcome env v f s = (out, s') \<Longrightarrow> inv s' \<and> lookup s' = lookup s"
  by (auto simp: vision_tag_outcome_def Let_def dest: vision_rows
      split: option.splits sum.splits if_splits prod.splits)

lemma run_outcome_rows:
  "inv s \<Longrightarrow> run_outcome env e v job s = (out, s') \<Longrightarrow> inv s' \<and> lookup s' = lookup s"
  by (auto simp: run_outcome_def dest: embed_text_outcome_rows vision_tag_outcome_rows
      split: job_kind.splits option.splits)

lemma process_running:
  assumes "inv s" and "lookup s (jb_id job) = Some row" "jb_state row = Running"
  shows "\<exists>info s'. process_job_with_providers finish give_up env e v now t job s = Inr (info, s') \<and> inv s'
    \<and> lookup s' = (lookup s)(jb_id job \<mapsto> finished_row (fst (run_outcome env e v job s)) now t (jb_attempts job) row)"
proof -
  obtain out s1 where out: "run_outcome env e v job s = (out, s1)" by fastforce
  have s1: "inv s1" "lookup s1 = lookup s" using run_outcome_rows [OF assms(1) out] by auto
  have row: "lookup s1 (jb_id job) = Some row" using s1(2) assms(2) by simp
  show ?thesis
  proof (cases out)
    case (Complete c)
    then show ?thesis using complete_running [OF s1(1) row assms(3), of t]
      by (auto simp: process_job_with_providers_def out finished_row_def s1(2))
  next
    case (DeadLetter err)
    then show ?thesis using fail_running [OF s1(1) row assms(3), of t err None]
      by (auto simp: process_job_with_providers_def out finished_row_def s1(2))
  next
    case (Retry err)
    then show ?thesis
      using fail_running [OF s1(1) row assms(3), of t err "Some (now + backoff_ms (jb_attempts job))"]
      by (auto simp: process_job_with_providers_def out finished_row_def s1(2))
  qed
qed

text \<open>A job whose row is not running any more is not finalized: the call errors.\<close>

lemma process_not_running:
  assumes "inv s" and "\<forall>row. lookup s (jb_id job) = Some row \<longrightarrow> jb_state row \<noteq> Running"
  shows "process_job_with_providers finish give_up env e v now t job s = Inl (NotRunning (jb_id job))"
proof -
  obtain out s1 where out: "run_outcome env e v job s = (out, s1)" by fastforce
  have "inv s1" "lookup s1 = lookup s" using run_outcome_rows [OF assms(1) out] by auto
  with complete_other [of s1 "jb_id job"] fail_other [of s1 "jb_id job"] assms(2)
  show ?thesis by (simp add: process_job_with_providers_def out split: outcome.split)
qed

end

section \<open>The SQLite store with its other tables\<close>

text \<open>A store state is the job table and the rest; the provider calls of the rest leave the jobs alone.\<close>

definition on_jobs :: "(jobs \<Rightarrow> queue_error + jobs) \<Rightarrow> jobs \<times> 'o \<Rightarrow> queue_error + (jobs \<times> 'o)" where
  "on_jobs f s = bind_r (f (fst s)) (\<lambda>q. Inr (q, snd s))"

definition on_rest :: "('o \<Rightarrow> 'r \<times> 'o) \<Rightarrow> jobs \<times> 'o \<Rightarrow> 'r \<times> jobs \<times> 'o" where
  "on_rest f s = (case f (snd s) of (r, rest) \<Rightarrow> (r, fst s, rest))"

definition table_env :: "('o, 'v, 'im, 'an) provider_env \<Rightarrow> (jobs \<times> 'o, 'v, 'im, 'an) provider_env" where
  "table_env e = \<lparr>
     ev_input = (\<lambda>s f. ev_input e (snd s) f),
     ev_upsert = (\<lambda>f txt v. on_rest (ev_upsert e f txt v)),
     ev_insert_vision = (\<lambda>f a. on_rest (ev_insert_vision e f a)),
     ev_join = ev_join e, ev_load = ev_load e, ev_exists = ev_exists e\<rparr>"

interpretation sqlite_pair: job_store "\<lambda>s. distinct (map jb_id (fst s))" "\<lambda>s. lookup_job (fst s)"
  "\<lambda>t i. on_jobs (complete_job t i)" "\<lambda>t i err r. on_jobs (fail_job t i err r)"
proof
  fix s :: "jobs \<times> 'o" and i t j err r
  assume d: "distinct (map jb_id (fst s))"
  show "lookup_job (fst s) i = Some j \<Longrightarrow> jb_state j = Running \<Longrightarrow> \<exists>s'. on_jobs (complete_job t i) s = Inr s'
      \<and> distinct (map jb_id (fst s')) \<and> lookup_job (fst s') = (lookup_job (fst s))(i \<mapsto> j\<lparr>jb_state := Done, jb_updated_at := t\<rparr>)"
    using sqlite.complete_running [OF d, of i j t] by (auto simp: on_jobs_def)
  show "\<forall>j. lookup_job (fst s) i = Some j \<longrightarrow> jb_state j \<noteq> Running \<Longrightarrow> on_jobs (complete_job t i) s = Inl (NotRunning i)"
    using sqlite.complete_other [OF d, of i t] by (auto simp: on_jobs_def)
  show "lookup_job (fst s) i = Some j \<Longrightarrow> jb_state j = Running \<Longrightarrow> \<exists>s'. on_jobs (fail_job t i err r) s = Inr s'
      \<and> distinct (map jb_id (fst s')) \<and> lookup_job (fst s') = (lookup_job (fst s))(i \<mapsto> failed_row t err r j)"
    using sqlite.fail_running [OF d, of i j t err r] by (auto simp: on_jobs_def)
  show "\<forall>j. lookup_job (fst s) i = Some j \<longrightarrow> jb_state j \<noteq> Running \<Longrightarrow> on_jobs (fail_job t i err r) s = Inl (NotRunning i)"
    using sqlite.fail_other [OF d, of i t err r] by (auto simp: on_jobs_def)
qed

interpretation sqlite_workers: worker_store "\<lambda>s. distinct (map jb_id (fst s))" "\<lambda>s. lookup_job (fst s)"
  "\<lambda>t i. on_jobs (complete_job t i)" "\<lambda>t i err r. on_jobs (fail_job t i err r)" "table_env e" for e
  by unfold_locales (auto simp: table_env_def on_rest_def split: prod.splits)

definition process_sqlite ::
  "('o, 'v, 'im, 'an) provider_env \<Rightarrow> (ustr \<Rightarrow> ustr + 'v list) option \<Rightarrow> ('im \<Rightarrow> ustr + 'an) option
     \<Rightarrow> int \<Rightarrow> int \<Rightarrow> job \<Rightarrow> jobs \<times> 'o \<Rightarrow> queue_error + (completed_job_info option \<times> jobs \<times> 'o)" where
  "process_sqlite e embedder vision now t job s =
     process_job_with_providers (\<lambda>t i. on_jobs (complete_job t i)) (\<lambda>t i err r. on_jobs (fail_job t i err r))
       (table_env e) embedder vision now t job s"

section \<open>The pool: workers, producers and the sweep interleaved\<close>

text \<open>
  \<open>pool_inflight\<close> are the jobs that workers hold: claimed, guarded in the active set, not yet
  finalized. A claim and its guard are one step, and no frame is deleted meanwhile.
\<close>

record 'o pool =
  pool_store :: "jobs \<times> 'o"
  pool_inflight :: "job list"

definition active_embed_text :: "job list \<Rightarrow> nat" where
  "active_embed_text js = length (filter (\<lambda>j. jb_kind j = EmbedText) js)"

inductive pool_step ::
  "('o, 'v, 'im, 'an) provider_env \<Rightarrow> 'o pool \<Rightarrow> 'o pool \<Rightarrow> bool" for e where
  pool_claim: "worker_claim shared (active_embed_text (pool_inflight p)) now t (fst (pool_store p)) = (Some job, q)
    \<Longrightarrow> pool_step e p (p\<lparr>pool_store := (q, snd (pool_store p)), pool_inflight := pool_inflight p @ [job]\<rparr>)"
| pool_finish: "job \<in> set (pool_inflight p)
    \<Longrightarrow> process_sqlite e embedder vision now t job (pool_store p) = Inr (info, s')
    \<Longrightarrow> pool_step e p (p\<lparr>pool_store := s', pool_inflight := filter (\<lambda>j. jb_id j \<noteq> jb_id job) (pool_inflight p)\<rparr>)"
| pool_sweep: "pool_step e p (p\<lparr>pool_store := (sweep (length (pool_inflight p)) t (fst (pool_store p)), snd (pool_store p))\<rparr>)"
| pool_enqueue: "enqueue_job fe t nj (fst (pool_store p)) = Inr (i, q)
    \<Longrightarrow> pool_step e p (p\<lparr>pool_store := (q, snd (pool_store p))\<rparr>)"
| pool_cancel: "cancel_pending_vision_jobs (fst (pool_store p)) = (n, q)
    \<Longrightarrow> pool_step e p (p\<lparr>pool_store := (q, snd (pool_store p))\<rparr>)"

inductive reachable_pool :: "('o, 'v, 'im, 'an) provider_env \<Rightarrow> 'o pool \<Rightarrow> bool" for e where
  pool_start: "distinct (map jb_id q) \<Longrightarrow> reachable_pool e \<lparr>pool_store = (q, rest), pool_inflight = []\<rparr>"
| pool_more: "reachable_pool e p \<Longrightarrow> pool_step e p p' \<Longrightarrow> reachable_pool e p'"

definition holds_running :: "jobs \<Rightarrow> job \<Rightarrow> bool" where
  "holds_running q job \<longleftrightarrow> (\<exists>row. lookup_job q (jb_id job) = Some row \<and> jb_state row = Running)"

definition pool_inv :: "'o pool \<Rightarrow> bool" where
  "pool_inv p \<longleftrightarrow> distinct (map jb_id (fst (pool_store p))) \<and> distinct (map jb_id (pool_inflight p))
     \<and> (\<forall>job\<in>set (pool_inflight p). holds_running (fst (pool_store p)) job)"

lemma worker_claim_some:
  assumes "worker_claim shared n now t q = (Some job, q')" and d: "distinct (map jb_id q)"
  shows "job \<in> set q' \<and> jb_state job = Running \<and> map jb_id q' = map jb_id q
    \<and> (\<forall>j\<in>set q. jb_state j = Running \<longrightarrow> j \<in> set q' \<and> jb_id j \<noteq> jb_id job)"
proof -
  let ?kinds = "worker_kinds shared n"
  obtain js where js: "claim_jobs t ?kinds 1 now q = (js, q')" "last_opt js = Some job" "?kinds \<noteq> []"
    using assms(1) by (auto simp: worker_claim_def Let_def split: if_splits prod.splits)
  then have job: "job \<in> set js" by (auto simp: last_opt_def split: if_splits)
  have ids: "map jb_id q' = map jb_id q" using claim_queue [of t ?kinds 1 now q] js(1) by simp
  have run: "jb_id j \<notin> set (selected_ids ?kinds 1 now q)" if "j \<in> set q" "jb_state j = Running" for j
    using selected_ids_pending [OF d that(1)] that(2) by (auto simp: runnable_def)
  have kept: "j \<in> set q'" if "j \<in> set q" "jb_state j = Running" for j
    using claim_queue [of t ?kinds 1 now q] js(1) run [OF that] that(1)
    by (auto simp: image_iff intro!: bexI [of _ j])
  have sel: "jb_id job \<in> set (selected_ids ?kinds 1 now q)" "job \<in> set q'" "jb_state job = Running"
    using claimed_js [OF js(3), of t 1 now q] claimed_rows [OF d js(3), of t 1 now] js(1) job by auto
  with ids kept run show ?thesis by metis
qed

lemma enqueue_appends: "enqueue_job fe t nj q = Inr (i, q') \<Longrightarrow> q' = q @ [fresh_job t (next_id q) nj]"
  by (auto simp: enqueue_job_def split: option.splits if_splits)

lemma fresh_job_id [simp]: "jb_id (fresh_job t i nj) = i"
  by (simp add: fresh_job_def)

lemma holds_running_iff:
  "distinct (map jb_id q) \<Longrightarrow> holds_running q job \<longleftrightarrow> (\<exists>row\<in>set q. jb_id row = jb_id job \<and> jb_state row = Running)"
  by (auto simp: holds_running_def lookup_job_iff)

lemma process_sqlite_rows:
  assumes "distinct (map jb_id (fst s))" and "process_sqlite e em v now t job s = Inr (info, s')"
  shows "distinct (map jb_id (fst s')) \<and> (\<forall>i. i \<noteq> jb_id job \<longrightarrow> lookup_job (fst s') i = lookup_job (fst s) i)"
proof (cases "\<exists>row. lookup_job (fst s) (jb_id job) = Some row \<and> jb_state row = Running")
  case True
  then obtain row where row: "lookup_job (fst s) (jb_id job) = Some row" "jb_state row = Running" by blast
  from sqlite_workers.process_running [OF assms(1) row, of e em v now t] assms(2)
  obtain row' where "distinct (map jb_id (fst s'))" "lookup_job (fst s') = (lookup_job (fst s))(jb_id job \<mapsto> row')"
    unfolding process_sqlite_def by auto
  then show ?thesis by simp
next
  case False
  then have "\<forall>row. lookup_job (fst s) (jb_id job) = Some row \<longrightarrow> jb_state row \<noteq> Running" by blast
  from sqlite_workers.process_not_running [OF assms(1) this, of e em v now t] assms(2)
  show ?thesis unfolding process_sqlite_def by simp
qed

lemma pool_step_inv:
  assumes "pool_step e p p'" and "pool_inv p"
  shows "pool_inv p'"
  using assms(1)
proof cases
  let ?q = "fst (pool_store p)"
  have d: "distinct (map jb_id ?q)" and di: "distinct (map jb_id (pool_inflight p))"
    and held: "\<And>job. job \<in> set (pool_inflight p) \<Longrightarrow> \<exists>row\<in>set ?q. jb_id row = jb_id job \<and> jb_state row = Running"
    using assms(2) holds_running_iff by (auto simp: pool_inv_def)
  {
    case (pool_claim shared now t job q)
    note c = worker_claim_some [OF pool_claim(2) d]
    have dq: "distinct (map jb_id q)" using c d by (metis (no_types))
    have "jb_id job \<notin> jb_id ` set (pool_inflight p)" using held c by fastforce
    moreover have "holds_running q j" if "j \<in> set (pool_inflight p @ [job])" for j
      using that held c unfolding holds_running_iff [OF dq] by fastforce
    ultimately show ?thesis using di dq by (simp add: pool_inv_def pool_claim(1))
  next
    case (pool_finish job em v now t info s')
    note r = process_sqlite_rows [OF d pool_finish(3)]
    have "holds_running (fst s') j" if "j \<in> set (pool_inflight p)" "jb_id j \<noteq> jb_id job" for j
      using that r assms(2) by (auto simp: pool_inv_def holds_running_def)
    then show ?thesis using r di by (auto simp: pool_inv_def pool_finish(1) distinct_map_filter)
  next
    case (pool_sweep t)
    have rs: "row_rel ?q (snd (reset_stale_running_jobs t visibility_timeout_ms ?q))
        \<and> distinct (map jb_id (snd (reset_stale_running_jobs t visibility_timeout_ms ?q)))"
      by (rule queue_step_shape [OF step_reset d]) (rule prod.collapse [symmetric])
    show ?thesis
    proof (cases "pool_inflight p = []")
      case True
      with rs show ?thesis by (simp add: pool_inv_def pool_sweep sweep_def)
    next
      case False
      with assms(2) show ?thesis by (simp add: pool_inv_def pool_sweep sweep_def)
    qed
  next
    case (pool_enqueue fe t nj i q)
    note q = enqueue_appends [OF pool_enqueue(2)]
    have dq: "distinct (map jb_id q)" using d fresh_not_used by (auto simp: q)
    have "holds_running q j" if "j \<in> set (pool_inflight p)" for j
      using held [OF that] unfolding holds_running_iff [OF dq] by (auto simp: q)
    then show ?thesis using di dq by (simp add: pool_inv_def pool_enqueue(1))
  next
    case (pool_cancel n q)
    then have q: "q = filter (\<lambda>j. \<not> (jb_kind j = VisionTag \<and> jb_state j = Pending)) ?q"
      by (simp add: cancel_pending_vision_jobs_def)
    have dq: "distinct (map jb_id q)" using d by (simp add: q distinct_map_filter)
    have "holds_running q j" if "j \<in> set (pool_inflight p)" for j
      using held [OF that] unfolding holds_running_iff [OF dq] by (force simp: q)
    then show ?thesis using di dq by (simp add: pool_inv_def pool_cancel(1))
  }
qed

lemma reachable_pool_inv: "reachable_pool e p \<Longrightarrow> pool_inv p"
proof (induction rule: reachable_pool.induct)
  case (pool_start q rest)
  then show ?case by (simp add: pool_inv_def)
next
  case (pool_more p p')
  then show ?case by (blast intro: pool_step_inv)
qed

section \<open>Properties\<close>


definition sample_env :: "(unit, int, int, int) provider_env" where
  "sample_env = \<lparr>
     ev_input = (\<lambda>_ f. Inr (if f = 7 then Some \<lparr>ei_image_path = lit ''a.webp'', ei_ocr_text = Some (lit ''hi'')\<rparr> else None)),
     ev_upsert = (\<lambda>_ _ _ s. (Inr (), s)), ev_insert_vision = (\<lambda>_ _ s. (Inr (), s)),
     ev_join = (\<lambda>p. p), ev_load = (\<lambda>_. Inl (lit ''locked'')), ev_exists = (\<lambda>_. True)\<rparr>"

definition sample_shared :: pool_shared where
  "sample_shared = \<lparr>sh_embedder_ready = True, sh_vision_ready = True, sh_enable_embed_text = True,
     sh_throttle_level = 0, sh_embed_text_floor = 1\<rparr>"

definition sample_pool :: "unit pool" where
  "sample_pool = \<lparr>pool_store = (snd (worker_claim sample_shared 0 50 20 sample_jobs), ()),
     pool_inflight = [the (fst (worker_claim sample_shared 0 50 20 sample_jobs))]\<rparr>"

lemma sample_pool_reachable: "reachable_pool sample_env sample_pool"
proof -
  let ?p = "\<lparr>pool_store = (sample_jobs, ()), pool_inflight = []\<rparr> :: unit pool"
  have "distinct (map jb_id sample_jobs)" by code_simp
  then have start: "reachable_pool sample_env ?p" by (rule pool_start)
  have "fst (worker_claim sample_shared 0 50 20 sample_jobs) \<noteq> None" by code_simp
  then have "worker_claim sample_shared (active_embed_text (pool_inflight ?p)) 50 20 (fst (pool_store ?p)) =
      (Some (the (fst (worker_claim sample_shared 0 50 20 sample_jobs))),
       snd (worker_claim sample_shared 0 50 20 sample_jobs))"
    by (simp add: active_embed_text_def prod_eq_iff)
  from pool_more [OF start pool_claim [OF this, where e = sample_env]] show ?thesis
    by (simp add: sample_pool_def)
qed


text \<open>C7: Processing a running job always finalizes it, and as documented: a completed outcome makes it done, a dead
  letter makes it dead with one more attempt, a retry makes it pending again at now plus the backoff of its attempts
  (or dead when those were the last); no other row of the table changes.\<close>

theorem process_finalizes_job:
  assumes "distinct (map jb_id (fst s))" and "lookup_job (fst s) (jb_id job) = Some row" "jb_state row = Running"
  shows "\<exists>info s'. process_sqlite e embedder vision now t job s = Inr (info, s')
     \<and> lookup_job (fst s') = (lookup_job (fst s))(jb_id job \<mapsto>
         finished_row (fst (run_outcome (table_env e) embedder vision job s)) now t (jb_attempts job) row)"
  using sqlite_workers.process_running [OF assms, of e embedder vision now t] unfolding process_sqlite_def by blast

theorem process_finalizes_job_witness:
  "\<exists>info s'. process_sqlite sample_env None (Some (\<lambda>_. Inr 3)) 60 70 (sample_jobs ! 1) (sample_jobs, ()) = Inr (info, s')
     \<and> map_option jb_state (lookup_job (fst s') 2) = Some Dead"
proof -
  have "distinct (map jb_id (fst (sample_jobs, ())))" by code_simp
  moreover have "lookup_job (fst (sample_jobs, ())) (jb_id (sample_jobs ! 1)) = Some (sample_jobs ! 1)"
    by (simp add: sample_jobs_def lookup_job_def)
  moreover have "jb_state (sample_jobs ! 1) = Running" by (simp add: sample_jobs_def)
  ultimately obtain info s' where s': "process_sqlite sample_env None (Some (\<lambda>_. Inr 3)) 60 70 (sample_jobs ! 1) (sample_jobs, ())
      = Inr (info, s')" and row: "lookup_job (fst s') = (lookup_job (fst (sample_jobs, ())))(jb_id (sample_jobs ! 1) \<mapsto>
        finished_row (fst (run_outcome (table_env sample_env) None (Some (\<lambda>_. Inr 3)) (sample_jobs ! 1) (sample_jobs, ())))
          60 70 (jb_attempts (sample_jobs ! 1)) (sample_jobs ! 1))"
    using process_finalizes_job by blast
  have "jb_id (sample_jobs ! 1) = 2" by (simp add: sample_jobs_def)
  moreover have "jb_state (finished_row (fst (run_outcome (table_env sample_env) None (Some (\<lambda>_. Inr 3)) (sample_jobs ! 1) (sample_jobs, ())))
          60 70 (jb_attempts (sample_jobs ! 1)) (sample_jobs ! 1)) = Dead" by code_simp
  ultimately show ?thesis using s' row by auto
qed

definition failing_round :: "int \<Rightarrow> ustr \<Rightarrow> int \<Rightarrow> job \<Rightarrow> job" where
  "failing_round t err now row =
     finished_row (Retry err) now t (jb_attempts row) (row\<lparr>jb_state := Running, jb_updated_at := t\<rparr>)"

lemma failing_rounds:
  "jb_attempts ((failing_round t err now ^^ k) row) = jb_attempts row + int k
   \<and> jb_max_attempts ((failing_round t err now ^^ k) row) = jb_max_attempts row"
  by (induction k) (simp_all add: failing_round_def finished_row_def failed_row_def Let_def)

text \<open>C8: The retry budget is exact: a pending job that is claimed and fails with a retry every time is back to pending
  while failures remain under its maximum and is dead from the last one on, so a poisoned job runs
  \<open>max_attempts\<close> times and stops.\<close>

theorem retry_budget:
  assumes "0 < k"
  shows "jb_state ((failing_round t err now ^^ k) row) =
      (if jb_attempts row + int k < jb_max_attempts row then Pending else Dead)
    \<and> (jb_attempts row + int k < jb_max_attempts row \<longrightarrow>
        jb_not_before ((failing_round t err now ^^ k) row) = now + backoff_ms (jb_attempts row + int k - 1))"
proof -
  obtain m where k: "k = Suc m" using assms by (cases k) auto
  let ?r = "(failing_round t err now ^^ m) row"
  have "jb_attempts ?r = jb_attempts row + int m" "jb_max_attempts ?r = jb_max_attempts row"
    using failing_rounds by blast+
  then show ?thesis unfolding k
    by (simp add: failing_round_def finished_row_def failed_row_def Let_def add.commute add.left_commute)
qed

theorem retry_budget_witness:
  "jb_state ((failing_round 20 (lit ''e'') 50 ^^ 2) (sample_jobs ! 0)) = Pending
   \<and> jb_state ((failing_round 20 (lit ''e'') 50 ^^ 3) (sample_jobs ! 0)) = Dead"
  using retry_budget [of 2 20 "lit ''e''" 50 "sample_jobs ! 0"] retry_budget [of 3 20 "lit ''e''" 50 "sample_jobs ! 0"]
  by (simp add: sample_jobs_def fresh_job_def)

text \<open>Throttling decides what may be claimed: vision work never at level one or above, text work at level two only while
  fewer than the floor are in flight, never without its provider or against the setting; and with a floor of at least
  one, text indexing never stalls: with none in flight an enabled embedder's jobs stay claimable at every level.\<close>

theorem claim_gating:
  "(VisionTag \<in> set (worker_kinds shared n) \<longleftrightarrow> sh_vision_ready shared \<and> sh_throttle_level shared = 0)
   \<and> (EmbedText \<in> set (worker_kinds shared n) \<longleftrightarrow> sh_embedder_ready shared \<and> sh_enable_embed_text shared
        \<and> (2 \<le> sh_throttle_level shared \<longrightarrow> n < sh_embed_text_floor shared))
   \<and> distinct (worker_kinds shared n)
   \<and> (sh_embedder_ready shared \<and> sh_enable_embed_text shared \<and> 1 \<le> sh_embed_text_floor shared
        \<longrightarrow> EmbedText \<in> set (worker_kinds shared 0))"
  by (auto simp: worker_kinds_def claim_kinds_def)

theorem claim_gating_witness:
  "worker_kinds (sample_shared\<lparr>sh_throttle_level := 2\<rparr>) 0 = [EmbedText]
   \<and> EmbedText \<in> set (worker_kinds (sample_shared\<lparr>sh_throttle_level := 2\<rparr>) 0)"
proof
  show "worker_kinds (sample_shared\<lparr>sh_throttle_level := 2\<rparr>) 0 = [EmbedText]" by code_simp
  show "EmbedText \<in> set (worker_kinds (sample_shared\<lparr>sh_throttle_level := 2\<rparr>) 0)"
    using claim_gating [of "sample_shared\<lparr>sh_throttle_level := 2\<rparr>" 0] by (simp add: sample_shared_def)
qed

lemma backoff_ms_exact: "backoff_ms a = min (1000 * 2 ^ nat (clamp a 0 16)) 60000"
proof -
  define x :: int where "x = 2 ^ nat (clamp a 0 16)"
  have "nat (clamp a 0 16) \<le> nat 16" by (rule nat_mono) simp
  then have "x \<le> 2 ^ nat 16" unfolding x_def by (rule power_increasing) simp
  moreover have "0 \<le> x" by (simp add: x_def)
  ultimately have "sat_i64 (1000 * x) = 1000 * x"
    by (intro sat_i64_id) (simp add: in_i64_def i64_max_def i64_min_def)
  then show ?thesis
    by (simp only: backoff_ms_def sat_mul64_def backoff_base_ms_def backoff_cap_ms_def Let_def x_def)
qed

text \<open>The retry backoff stays between one second and the one-minute cap for every attempt count (negative counts
  and shifts past the width included), never decreases with attempts, and doubles until the cap.\<close>

theorem backoff_bounded:
  "1000 \<le> backoff_ms a \<and> backoff_ms a \<le> 60000 \<and> (a \<le> b \<longrightarrow> backoff_ms a \<le> backoff_ms b)
   \<and> (0 \<le> a \<and> a < 16 \<longrightarrow> backoff_ms (a + 1) = min (2 * backoff_ms a) 60000)"
proof (intro conjI impI)
  have "(1::int) \<le> 2 ^ nat (clamp a 0 16)" by (rule one_le_power) simp
  then show "1000 \<le> backoff_ms a" by (simp add: backoff_ms_exact)
  show "backoff_ms a \<le> 60000" by (simp add: backoff_ms_exact)
  assume "a \<le> b"
  then have "nat (clamp a 0 16) \<le> nat (clamp b 0 16)" by (intro nat_mono clamp_mono) simp_all
  then have "(2::int) ^ nat (clamp a 0 16) \<le> 2 ^ nat (clamp b 0 16)" by (intro power_increasing) simp_all
  then show "backoff_ms a \<le> backoff_ms b" unfolding backoff_ms_exact by (intro min.mono mult_left_mono) simp_all
next
  assume "0 \<le> a \<and> a < 16"
  then have "nat (clamp (a + 1) 0 16) = Suc (nat (clamp a 0 16))" by (simp add: clamp_def nat_add_distrib)
  then show "backoff_ms (a + 1) = min (2 * backoff_ms a) 60000" by (simp add: backoff_ms_exact)
qed

theorem backoff_bounded_witness: "backoff_ms 2 = 4000 \<and> backoff_ms 2 \<le> backoff_ms 9 \<and> backoff_ms (- 5) = 1000"
proof (intro conjI)
  show "backoff_ms 2 = 4000" by code_simp
  show "backoff_ms 2 \<le> backoff_ms 9" using backoff_bounded [of 2 9] by simp
  show "backoff_ms (- 5) = 1000" by code_simp
qed

text \<open>The sweep never takes a job from a live worker: with any job in flight it changes nothing, and otherwise it only
  requeues running rows last touched at least five minutes before, leaving attempts alone.\<close>

theorem sweep_spares_live_work:
  "sweep active t q =
     (if 0 < active then q
      else map (\<lambda>j. if jb_state j = Running \<and> jb_updated_at j \<le> t - 300000
                    then j\<lparr>jb_state := Pending, jb_updated_at := t\<rparr> else j) q)"
  by (simp add: sweep_def reset_stale_running_jobs_def is_stale_def visibility_timeout_ms_def)

end
