(* ===== verification/Throttle.thy ===== *)
theory Throttle
  imports Prelude
begin

text \<open>
  The enrichment throttle (\<open>crates/kernel/src/throttle.rs\<close>): the level machine with hysteresis and
  dwell, and one tick of the governor loop. Percentages are rationals; the probe and the settings
  store are arguments.
\<close>

section \<open>The level machine\<close>

datatype throttle_level = Normal | High | Sustained

definition level_up :: "throttle_level \<Rightarrow> throttle_level" where
  "level_up l = (case l of Normal \<Rightarrow> High | High \<Rightarrow> Sustained | Sustained \<Rightarrow> Sustained)"

definition level_down :: "throttle_level \<Rightarrow> throttle_level" where
  "level_down l = (case l of Sustained \<Rightarrow> High | High \<Rightarrow> Normal | Normal \<Rightarrow> Normal)"

definition level_u8 :: "throttle_level \<Rightarrow> int" where
  "level_u8 l = (case l of Normal \<Rightarrow> 0 | High \<Rightarrow> 1 | Sustained \<Rightarrow> 2)"

record throttle_config =
  cpu_enter_pct :: rat
  cpu_exit_pct :: rat
  gpu_enter_pct :: rat
  gpu_exit_pct :: rat
  enter_after_ms :: int
  exit_after_ms :: int

record pressure_sample =
  ps_cpu_pct :: rat
  ps_gpu_pct :: "rat option"
  ps_gpu_monitored :: bool
  ps_sampled_at :: int

record throttle_machine =
  tm_cfg :: throttle_config
  tm_level :: throttle_level
  tm_over_since :: "int option"
  tm_under_since :: "int option"

definition new_machine :: "throttle_config \<Rightarrow> throttle_machine" where
  "new_machine cfg = \<lparr>tm_cfg = cfg, tm_level = Normal, tm_over_since = None, tm_under_since = None\<rparr>"

definition set_config :: "throttle_config \<Rightarrow> throttle_machine \<Rightarrow> throttle_machine" where
  "set_config cfg m = m\<lparr>tm_cfg := cfg\<rparr>"

definition over_enter :: "throttle_config \<Rightarrow> pressure_sample \<Rightarrow> bool" where
  "over_enter cfg s \<longleftrightarrow> cpu_enter_pct cfg \<le> ps_cpu_pct s
     \<or> ps_gpu_monitored s \<and> (case ps_gpu_pct s of None \<Rightarrow> False | Some g \<Rightarrow> gpu_enter_pct cfg \<le> g)"

definition under_exit :: "throttle_config \<Rightarrow> pressure_sample \<Rightarrow> bool" where
  "under_exit cfg s \<longleftrightarrow> ps_cpu_pct s < cpu_exit_pct cfg
     \<and> (\<not> ps_gpu_monitored s \<or> (case ps_gpu_pct s of None \<Rightarrow> True | Some g \<Rightarrow> g < gpu_exit_pct cfg))"

definition since_or :: "int \<Rightarrow> int option \<Rightarrow> int" where
  "since_or now v = (case v of None \<Rightarrow> now | Some t \<Rightarrow> t)"

definition observe :: "pressure_sample \<Rightarrow> int \<Rightarrow> throttle_machine \<Rightarrow> throttle_machine" where
  "observe s now m =
     (if over_enter (tm_cfg m) s
      then (let since = since_or now (tm_over_since m)
            in if enter_after_ms (tm_cfg m) \<le> sat_sub64 now since \<and> tm_level m \<noteq> Sustained
               then m\<lparr>tm_under_since := None, tm_over_since := Some now, tm_level := level_up (tm_level m)\<rparr>
               else m\<lparr>tm_under_since := None, tm_over_since := Some since\<rparr>)
      else if under_exit (tm_cfg m) s
      then (let since = since_or now (tm_under_since m)
            in if exit_after_ms (tm_cfg m) \<le> sat_sub64 now since \<and> tm_level m \<noteq> Normal
               then m\<lparr>tm_over_since := None, tm_under_since := Some now, tm_level := level_down (tm_level m)\<rparr>
               else m\<lparr>tm_over_since := None, tm_under_since := Some since\<rparr>)
      else m\<lparr>tm_over_since := None, tm_under_since := None\<rparr>)"

section \<open>The governor\<close>

record throttle_status =
  ts_enabled :: bool
  ts_level :: int
  ts_gpu_monitored :: bool
  ts_sample :: "pressure_sample option"

record throttle_settings =
  se_config :: throttle_config
  se_sample_interval_ms :: int
  se_embed_text_floor :: int

record governor =
  gv_machine :: "throttle_machine option"
  gv_level :: int
  gv_embed_text_floor :: int
  gv_status :: throttle_status

definition min_sample_interval_ms :: int where "min_sample_interval_ms = 250"

definition governor_interval :: "throttle_settings \<Rightarrow> int" where
  "governor_interval se = max (se_sample_interval_ms se) min_sample_interval_ms"

text \<open>One iteration of \<open>governor_loop\<close> after its wait; the result's status is the event sent.\<close>

definition governor_tick :: "throttle_settings \<Rightarrow> pressure_sample \<Rightarrow> governor \<Rightarrow> governor" where
  "governor_tick se sample g =
     (let m0 = (case gv_machine g of None \<Rightarrow> new_machine (se_config se) | Some m \<Rightarrow> m);
          m = observe sample (ps_sampled_at sample) (set_config (se_config se) m0)
      in g\<lparr>gv_machine := Some m,
           gv_level := level_u8 (tm_level m),
           gv_embed_text_floor := max (se_embed_text_floor se) 1,
           gv_status := \<lparr>ts_enabled = True, ts_level = level_u8 (tm_level m),
             ts_gpu_monitored = ps_gpu_monitored sample, ts_sample = Some sample\<rparr>\<rparr>)"

section \<open>Dwell\<close>

text \<open>
  Feeding samples of one kind: the machine's dwell start is the time of the first sample of the
  current run, or of the last step.
\<close>

fun observe_all :: "(int \<times> pressure_sample) list \<Rightarrow> throttle_machine \<Rightarrow> throttle_machine" where
  "observe_all [] m = m"
| "observe_all ((t, s) # xs) m = observe_all xs (observe s t m)"

lemma observe_cfg [simp]: "tm_cfg (observe s t m) = tm_cfg m"
  by (simp add: observe_def Let_def)

lemma observe_all_cfg [simp]: "tm_cfg (observe_all xs m) = tm_cfg m"
  by (induction xs arbitrary: m) auto

lemma observe_raise:
  assumes "tm_level (observe s t m) \<noteq> tm_level m" "over_enter (tm_cfg m) s"
  shows "tm_level (observe s t m) = level_up (tm_level m) \<and> tm_over_since (observe s t m) = Some t
     \<and> enter_after_ms (tm_cfg m) \<le> sat_sub64 t (since_or t (tm_over_since m))"
  using assms by (auto simp: observe_def Let_def split: if_splits)

lemma level_u8_step: "level_u8 (level_up l) \<le> level_u8 l + 1" "level_u8 l - 1 \<le> level_u8 (level_down l)"
  by (cases l; simp add: level_u8_def level_up_def level_down_def)+

text \<open>The level cannot change within a dwell window: while every sample of a sequence lies less than the
  enter and exit dwells after the run's start, the level stays.\<close>

definition dwell_from :: "int \<Rightarrow> throttle_machine \<Rightarrow> bool" where
  "dwell_from t0 m \<longleftrightarrow> (\<forall>t. tm_over_since m = Some t \<longrightarrow> t0 \<le> t) \<and> (\<forall>t. tm_under_since m = Some t \<longrightarrow> t0 \<le> t)"

lemma sat_sub64_small: "t0 \<le> s \<Longrightarrow> t - t0 < d \<Longrightarrow> 0 < d \<Longrightarrow> in_i64 d \<Longrightarrow> \<not> d \<le> sat_sub64 t s"
  by (auto simp: sat_sub64_def sat_i64_def in_i64_def i64_min_def)

lemma observe_in_dwell:
  assumes "dwell_from t0 m" and "t0 \<le> t" "t - t0 < enter_after_ms (tm_cfg m)" "t - t0 < exit_after_ms (tm_cfg m)"
    and "in_i64 (enter_after_ms (tm_cfg m))" "in_i64 (exit_after_ms (tm_cfg m))"
  shows "tm_level (observe s t m) = tm_level m \<and> dwell_from t0 (observe s t m)"
proof -
  have over: "t0 \<le> since_or t (tm_over_since m)" and under: "t0 \<le> since_or t (tm_under_since m)"
    using assms(1,2) by (auto simp: dwell_from_def since_or_def split: option.splits)
  have "\<not> enter_after_ms (tm_cfg m) \<le> sat_sub64 t (since_or t (tm_over_since m))"
    by (rule sat_sub64_small [OF over]) (use assms in auto)
  moreover have "\<not> exit_after_ms (tm_cfg m) \<le> sat_sub64 t (since_or t (tm_under_since m))"
    by (rule sat_sub64_small [OF under]) (use assms in auto)
  ultimately show ?thesis using over under assms(1)
    by (auto simp: observe_def Let_def dwell_from_def)
qed

lemma observe_all_in_dwell:
  assumes "dwell_from t0 m" and "\<forall>(t, s)\<in>set xs. t0 \<le> t \<and> t - t0 < enter_after_ms (tm_cfg m) \<and> t - t0 < exit_after_ms (tm_cfg m)"
    and "in_i64 (enter_after_ms (tm_cfg m))" "in_i64 (exit_after_ms (tm_cfg m))"
  shows "tm_level (observe_all xs m) = tm_level m"
  using assms
proof (induction xs arbitrary: m)
  case (Cons x xs)
  obtain t s where x: "x = (t, s)" by fastforce
  have "tm_level (observe s t m) = tm_level m \<and> dwell_from t0 (observe s t m)"
    using Cons.prems by (intro observe_in_dwell) (auto simp: x)
  with Cons.IH [of "observe s t m"] Cons.prems show ?case by (simp add: x)
qed simp

section \<open>Properties\<close>

text \<open>The throttle moves one level at a time and only for cause: a tick changes the published level by at most one;
  it rises only on a sample at or over an enter threshold after the pressure has lasted the enter dwell, and falls only
  on a sample with both resources under their exit thresholds after the exit dwell; each step restarts its dwell.\<close>

theorem level_steps_by_one:
  "\<bar>level_u8 (tm_level (observe s t m)) - level_u8 (tm_level m)\<bar> \<le> 1
   \<and> (level_u8 (tm_level m) < level_u8 (tm_level (observe s t m)) \<longrightarrow>
        over_enter (tm_cfg m) s \<and> enter_after_ms (tm_cfg m) \<le> sat_sub64 t (since_or t (tm_over_since m))
        \<and> tm_over_since (observe s t m) = Some t \<and> tm_under_since (observe s t m) = None)
   \<and> (level_u8 (tm_level (observe s t m)) < level_u8 (tm_level m) \<longrightarrow>
        \<not> over_enter (tm_cfg m) s \<and> under_exit (tm_cfg m) s
        \<and> exit_after_ms (tm_cfg m) \<le> sat_sub64 t (since_or t (tm_under_since m))
        \<and> tm_under_since (observe s t m) = Some t \<and> tm_over_since (observe s t m) = None)"
  by (cases "tm_level m") (simp_all add: observe_def Let_def level_u8_def level_up_def level_down_def)

definition sample_cfg :: throttle_config where
  "sample_cfg = \<lparr>cpu_enter_pct = 80, cpu_exit_pct = 60, gpu_enter_pct = 85, gpu_exit_pct = 65,
     enter_after_ms = 5000, exit_after_ms = 10000\<rparr>"

definition cpu_sample :: "rat \<Rightarrow> pressure_sample" where
  "cpu_sample p = \<lparr>ps_cpu_pct = p, ps_gpu_pct = None, ps_gpu_monitored = False, ps_sampled_at = 0\<rparr>"

theorem level_steps_by_one_witness:
  "tm_level (observe (cpu_sample 90) 5000 (observe (cpu_sample 90) 0 (new_machine sample_cfg))) = High
   \<and> tm_over_since (observe (cpu_sample 90) 5000 (observe (cpu_sample 90) 0 (new_machine sample_cfg))) = Some 5000"
proof -
  let ?m = "observe (cpu_sample 90) 0 (new_machine sample_cfg)"
  have "tm_level (observe (cpu_sample 90) 5000 ?m) = High" "tm_level ?m = Normal" by code_simp+
  then show ?thesis using level_steps_by_one [of "cpu_sample 90" 5000 ?m] by (simp add: level_u8_def)
qed



text \<open>Sustained pressure is acted on and recovered from: from no running dwell, a sample over the threshold followed
  by another at least the enter dwell later raises the level one step (to the top at most); two cool samples at least the
  exit dwell apart lower it one step; and a sample in the hysteresis band keeps the level and clears both dwells.\<close>

theorem level_responds:
  assumes "tm_over_since m = None" "tm_under_since m = None"
    and "0 < enter_after_ms (tm_cfg m)" "0 < exit_after_ms (tm_cfg m)"
  shows "(over_enter (tm_cfg m) s1 \<and> over_enter (tm_cfg m) s2 \<and> enter_after_ms (tm_cfg m) \<le> sat_sub64 t2 t1
        \<longrightarrow> tm_level (observe s2 t2 (observe s1 t1 m)) = level_up (tm_level m))
     \<and> (\<not> over_enter (tm_cfg m) s1 \<and> under_exit (tm_cfg m) s1 \<and> \<not> over_enter (tm_cfg m) s2 \<and> under_exit (tm_cfg m) s2
          \<and> exit_after_ms (tm_cfg m) \<le> sat_sub64 t2 t1
        \<longrightarrow> tm_level (observe s2 t2 (observe s1 t1 m)) = level_down (tm_level m))
     \<and> (\<not> over_enter (tm_cfg m) s1 \<and> \<not> under_exit (tm_cfg m) s1
        \<longrightarrow> observe s1 t1 m = m)"
proof -
  have "sat_sub64 t1 t1 = 0" by (simp add: sat_sub64_def sat_i64_def i64_min_def i64_max_def)
  then show ?thesis using assms
    by (cases "tm_level m") (simp_all add: observe_def Let_def since_or_def level_up_def level_down_def)
qed

theorem level_responds_witness:
  "tm_level (observe (cpu_sample 95) 6000 (observe (cpu_sample 90) 0 (new_machine sample_cfg))) = High"
proof -
  have "over_enter (tm_cfg (new_machine sample_cfg)) (cpu_sample 90)"
    "over_enter (tm_cfg (new_machine sample_cfg)) (cpu_sample 95)"
    "enter_after_ms (tm_cfg (new_machine sample_cfg)) \<le> sat_sub64 6000 0" by code_simp+
  then show ?thesis
    using level_responds [of "new_machine sample_cfg" "cpu_sample 90" "cpu_sample 95" 6000 0]
    by (simp add: new_machine_def level_up_def) (simp add: sample_cfg_def)
qed

end
