(* ===== verification/Breaker.thy ===== *)
theory Breaker
  imports Prelude
begin

text \<open>
  The per-app circuit breaker of the UIA text provider (\<open>crates/uia/src/breaker.rs\<close>): the signal of
  a finished walk, the per-app streak, opening and the lapse of the cooldown. The map from app hints
  is a partial map; times are unsigned milliseconds with the saturating addition of the code.
\<close>

section \<open>Model\<close>

definition breaker_consecutive_bad :: int where "breaker_consecutive_bad = 3"
definition breaker_cooldown_ms :: int where "breaker_cooldown_ms = 30 * 60 * 1000"

datatype walk_end = Completed bool bool | HardTimeout | Busy

datatype uia_signal = Good | Bad | Neutral

definition signal :: "walk_end \<Rightarrow> uia_signal" where
  "signal e = (case e of
     Completed walk_ok over_budget \<Rightarrow> if over_budget then Bad else if walk_ok then Good else Neutral
   | HardTimeout \<Rightarrow> Bad
   | Busy \<Rightarrow> Neutral)"

datatype breaker_transition = Opened | Closed

record per_app =
  pa_consecutive_bad :: int
  pa_open_until_ms :: "int option"

record app_breaker =
  ab_apps :: "ustr \<rightharpoonup> per_app"
  ab_threshold :: int
  ab_cooldown_ms :: int

definition default_app :: per_app where
  "default_app = \<lparr>pa_consecutive_bad = 0, pa_open_until_ms = None\<rparr>"

definition new_breaker :: "int \<Rightarrow> int \<Rightarrow> app_breaker" where
  "new_breaker threshold cooldown = \<lparr>ab_apps = Map.empty, ab_threshold = max threshold 1, ab_cooldown_ms = cooldown\<rparr>"

definition is_open :: "app_breaker \<Rightarrow> ustr \<Rightarrow> int \<Rightarrow> bool" where
  "is_open b app now = (case ab_apps b app of
     None \<Rightarrow> False
   | Some p \<Rightarrow> (case pa_open_until_ms p of None \<Rightarrow> False | Some t \<Rightarrow> now < t))"

text \<open>A cooldown that has lapsed is cleared and reported once.\<close>

definition lapse :: "app_breaker \<Rightarrow> ustr \<Rightarrow> int \<Rightarrow> app_breaker \<times> breaker_transition option" where
  "lapse b app now = (case ab_apps b app of
     None \<Rightarrow> (b, None)
   | Some p \<Rightarrow> (case pa_open_until_ms p of
       None \<Rightarrow> (b, None)
     | Some t \<Rightarrow> if t \<le> now
         then (b\<lparr>ab_apps := (ab_apps b)(app \<mapsto> p\<lparr>pa_open_until_ms := None, pa_consecutive_bad := 0\<rparr>)\<rparr>, Some Closed)
         else (b, None)))"

definition record_walk ::
  "app_breaker \<Rightarrow> ustr \<Rightarrow> uia_signal \<Rightarrow> int \<Rightarrow> app_breaker \<times> breaker_transition option" where
  "record_walk b0 app s now = (case lapse b0 app now of (b, tr) \<Rightarrow> (case s of
     Neutral \<Rightarrow> (b, tr)
   | Good \<Rightarrow> (case ab_apps b app of
       None \<Rightarrow> (b, tr)
     | Some p \<Rightarrow> (b\<lparr>ab_apps := (ab_apps b)(app \<mapsto> p\<lparr>pa_consecutive_bad := 0\<rparr>)\<rparr>, tr))
   | Bad \<Rightarrow>
       (let p = (case ab_apps b app of None \<Rightarrow> default_app | Some p \<Rightarrow> p);
            n = pa_consecutive_bad p + 1
        in if ab_threshold b \<le> n
           then (b\<lparr>ab_apps := (ab_apps b)(app \<mapsto> p\<lparr>pa_open_until_ms := Some (sat_add_u64 now (ab_cooldown_ms b)),
                   pa_consecutive_bad := 0\<rparr>)\<rparr>, Some Opened)
           else (b\<lparr>ab_apps := (ab_apps b)(app \<mapsto> p\<lparr>pa_consecutive_bad := n\<rparr>)\<rparr>, tr))))"

text \<open>The walks of one app, in order, with what each reported.\<close>

fun record_walks :: "app_breaker \<Rightarrow> ustr \<Rightarrow> (uia_signal \<times> int) list \<Rightarrow> app_breaker \<times> breaker_transition option list" where
  "record_walks b app [] = (b, [])"
| "record_walks b app ((s, now) # ws) = (case record_walk b app s now of (b', tr) \<Rightarrow>
     (case record_walks b' app ws of (b'', trs) \<Rightarrow> (b'', tr # trs)))"

section \<open>The streak that opens a breaker\<close>

text \<open>The bad walks since the last good one.\<close>

definition bad_streak :: "uia_signal list \<Rightarrow> int" where
  "bad_streak ss = int (length (filter (\<lambda>s. s = Bad) (takeWhile (\<lambda>s. s \<noteq> Good) (rev ss))))"

lemma bad_streak_snoc:
  "bad_streak (ss @ [s]) = (case s of Good \<Rightarrow> 0 | Bad \<Rightarrow> bad_streak ss + 1 | Neutral \<Rightarrow> bad_streak ss)"
  by (simp add: bad_streak_def split: uia_signal.split)

lemma record_walks_snoc:
  "record_walks b app (ws @ [(s, now)]) = (case record_walks b app ws of (b', trs) \<Rightarrow>
     (case record_walk b' app s now of (b'', tr) \<Rightarrow> (b'', trs @ [tr])))"
  by (induction ws arbitrary: b) (auto split: prod.split)

lemma record_walk_params [simp]:
  "ab_threshold (fst (record_walk b app s now)) = ab_threshold b"
  "ab_cooldown_ms (fst (record_walk b app s now)) = ab_cooldown_ms b"
  by (auto simp: record_walk_def lapse_def Let_def split: uia_signal.split option.split)

text \<open>A breaker that has not opened yet holds the streak.\<close>

definition holds_streak :: "app_breaker \<Rightarrow> ustr \<Rightarrow> int \<Rightarrow> bool" where
  "holds_streak b app n \<longleftrightarrow> (case ab_apps b app of
     None \<Rightarrow> n = 0 | Some p \<Rightarrow> pa_open_until_ms p = None \<and> pa_consecutive_bad p = n)"

lemma record_walk_streak:
  assumes "holds_streak b app n" and "record_walk b app s now = (b', tr)"
  shows "if s = Bad \<and> ab_threshold b \<le> n + 1 then tr = Some Opened
     else tr = None \<and> holds_streak b' app (case s of Good \<Rightarrow> 0 | Bad \<Rightarrow> n + 1 | Neutral \<Rightarrow> n)"
  using assms by (cases s)
    (auto simp: record_walk_def lapse_def holds_streak_def Let_def default_app_def split: option.splits if_splits)

lemma fresh_run:
  assumes "record_walks (new_breaker threshold cooldown) app ws = (b, trs)"
  shows "ab_threshold b = max threshold 1
    \<and> (Some Opened \<in> set trs \<longleftrightarrow> (\<exists>k\<le>length ws. max threshold 1 \<le> bad_streak (take k (map fst ws))))
    \<and> (Some Opened \<notin> set trs \<longrightarrow> holds_streak b app (bad_streak (map fst ws)))"
  using assms
proof (induction ws arbitrary: b trs rule: rev_induct)
  case Nil
  then show ?case by (auto simp: new_breaker_def holds_streak_def bad_streak_def)
next
  case (snoc w ws)
  obtain s now where w: "w = (s, now)" by fastforce
  obtain b1 trs1 where 1: "record_walks (new_breaker threshold cooldown) app ws = (b1, trs1)" by fastforce
  obtain tr where 2: "record_walk b1 app s now = (b, tr)" and trs: "trs = trs1 @ [tr]"
    using snoc.prems 1 by (auto simp: w record_walks_snoc split: prod.splits)
  note IH = snoc.IH [OF 1]
  have thr: "ab_threshold b = max threshold 1" using IH record_walk_params(1) [of b1 app s now] 2 by simp
  let ?m = "map fst ws"
  have split: "(\<exists>k\<le>length (ws @ [w]). max threshold 1 \<le> bad_streak (take k (?m @ [s])))
     \<longleftrightarrow> (\<exists>k\<le>length ws. max threshold 1 \<le> bad_streak (take k ?m)) \<or> max threshold 1 \<le> bad_streak (?m @ [s])"
    by (auto simp: le_Suc_eq)
  show ?case
  proof (cases "Some Opened \<in> set trs1")
    case True
    with IH thr show ?thesis using split by (simp add: trs w)
  next
    case False
    then have h: "holds_streak b1 app (bad_streak ?m)" and none: "\<not> (\<exists>k\<le>length ws. max threshold 1 \<le> bad_streak (take k ?m))"
      using IH by simp_all
    from none have low: "\<not> max threshold 1 \<le> bad_streak ?m" by (metis length_map order_refl take_all)
    from record_walk_streak [OF h 2] IH have step: "if s = Bad \<and> max threshold 1 \<le> bad_streak ?m + 1 then tr = Some Opened
      else tr = None \<and> holds_streak b app (bad_streak (?m @ [s]))"
      by (simp add: bad_streak_snoc)
    have "Some Opened \<in> set trs \<longleftrightarrow> s = Bad \<and> max threshold 1 \<le> bad_streak ?m + 1"
      using step False by (auto simp: trs split: if_splits)
    also have "\<dots> \<longleftrightarrow> max threshold 1 \<le> bad_streak (?m @ [s])"
      using low by (cases s) (auto simp: bad_streak_snoc)
    finally have opened: "Some Opened \<in> set trs \<longleftrightarrow> max threshold 1 \<le> bad_streak (?m @ [s])" .
    show ?thesis
    proof (intro conjI impI)
      show "ab_threshold b = max threshold 1" by (rule thr)
      show "Some Opened \<in> set trs \<longleftrightarrow> (\<exists>k\<le>length (ws @ [w]). max threshold 1 \<le> bad_streak (take k (map fst (ws @ [w]))))"
        by (simp only: opened split [unfolded w] none w map_append list.map fst_conv simp_thms)
      show "holds_streak b app (bad_streak (map fst (ws @ [w])))" if "Some Opened \<notin> set trs"
        using that step by (auto simp: w trs split: if_splits)
    qed
  qed
qed

text \<open>The breaker is equivalent to its documented rule, stated over the history of walks: whatever the times, a fresh
  breaker reports an opening in a history of one app's walks exactly when at some point of it the bad walks since the
  last good one, neutral ones not counting, had reached the threshold.\<close>

theorem breaker_opens_on_streak:
  "Some Opened \<in> set (snd (record_walks (new_breaker threshold cooldown) app ws))
     \<longleftrightarrow> (\<exists>k\<le>length ws. max threshold 1 \<le> bad_streak (take k (map fst ws)))"
  using fresh_run [OF prod.collapse [symmetric]] by blast

text \<open>An opened breaker suppresses exactly that app for exactly the cooldown: it is open until the saturated end of the
  cooldown and closed from then on, no other app's state changes, and the first walk recorded after the cooldown reports
  the resumption (unless it opens the breaker again).\<close>

theorem breaker_cooldown:
  assumes "record_walk b app s now = (b', Some Opened)" and "sat_add_u64 now (ab_cooldown_ms b) \<le> later"
  shows "(\<forall>x. is_open b' app x \<longleftrightarrow> x < sat_add_u64 now (ab_cooldown_ms b))
    \<and> (\<forall>a. a \<noteq> app \<longrightarrow> ab_apps b' a = ab_apps b a)
    \<and> snd (record_walk b' app s' later) \<in> {Some Closed, Some Opened}
    \<and> (s' \<noteq> Bad \<or> 1 < ab_threshold b \<longrightarrow> snd (record_walk b' app s' later) = Some Closed)"
proof -
  obtain b1 tr where l: "lapse b app now = (b1, tr)" by fastforce
  have b1: "ab_cooldown_ms b1 = ab_cooldown_ms b" "ab_threshold b1 = ab_threshold b" "\<And>a. a \<noteq> app \<Longrightarrow> ab_apps b1 a = ab_apps b a" "tr \<noteq> Some Opened"
    using l by (auto simp: lapse_def split: option.splits if_splits)
  obtain p where b': "b' = b1\<lparr>ab_apps := (ab_apps b1)(app \<mapsto> p\<lparr>pa_open_until_ms := Some (sat_add_u64 now (ab_cooldown_ms b1)), pa_consecutive_bad := 0\<rparr>)\<rparr>"
    using assms(1) l b1(4) by (auto simp: record_walk_def Let_def split: uia_signal.splits option.splits if_splits)
  show ?thesis
    using assms(2) b1 by (auto simp: b' is_open_def record_walk_def lapse_def Let_def split: uia_signal.split)
qed

theorem breaker_cooldown_witness:
  "let b' = fst (record_walks (new_breaker 3 1000) (lit ''code'') [(Bad, 0), (Neutral, 5), (Bad, 10), (Bad, 20)])
   in is_open b' (lit ''code'') 1019 \<and> \<not> is_open b' (lit ''code'') 1020 \<and> snd (record_walk b' (lit ''code'') Good 1020) = Some Closed"
proof -
  define b where "b = fst (record_walks (new_breaker 3 1000) (lit ''code'') [(Bad, 0), (Neutral, 5), (Bad, 10)])"
  define b' where "b' = fst (record_walk b (lit ''code'') Bad 20)"
  have c: "ab_cooldown_ms b = 1000" unfolding b_def by code_simp
  have "snd (record_walk b (lit ''code'') Bad 20) = Some Opened" unfolding b_def by code_simp
  then have r: "record_walk b (lit ''code'') Bad 20 = (b', Some Opened)" by (simp add: b'_def prod_eq_iff)
  have s: "sat_add_u64 20 (ab_cooldown_ms b) = 1020" by (simp add: c sat_add_u64_def u64_max_def)
  have run: "fst (record_walks (new_breaker 3 1000) (lit ''code'') [(Bad, 0), (Neutral, 5), (Bad, 10), (Bad, 20)]) = b'"
    unfolding b'_def b_def using record_walks_snoc [of "new_breaker 3 1000" "lit ''code''" "[(Bad, 0), (Neutral, 5), (Bad, 10)]" Bad 20]
    by (simp split: prod.split)
  show ?thesis unfolding Let_def run
    using breaker_cooldown [OF r, of 1020 Good] unfolding s by simp
qed

end
