(* ===== verification/Capture_Observations.thy ===== *)
theory Capture_Observations
  imports Prelude
begin

text \<open>
  The bounded record of capture interruptions (\<open>crates/kernel/src/capture_observations.rs\<close>): recording
  transitions with the capped buffer and the backwards-clock rule, and the snapshot of a window. The
  main lemma says that a snapshot that does not call itself truncated tells, for every instant of the
  window, exactly what the history of observations says about it.
\<close>

section \<open>Model\<close>

definition transition_cap :: nat where "transition_cap = 1000"
definition interval_cap :: nat where "interval_cap = 100"

datatype interruption_reason = CaptureStopped | WorkerError

record capture_interruption =
  ci_start :: int
  ci_end :: "int option"
  ci_reason :: interruption_reason

record capture_observations =
  co_observation_started_at :: int
  co_unavailable_before :: int
  co_intervals :: "capture_interruption list"
  co_truncated :: bool

datatype capture_observation = Started | Interrupted interruption_reason

record transition =
  tr_at :: int
  tr_observation :: capture_observation

record unknown_condition =
  uc_from :: int
  uc_until :: "int option"

record observation_buffer =
  ob_observation_started_at :: int
  ob_unavailable_before :: int
  ob_transitions :: "transition list"
  ob_unknown_condition :: "unknown_condition option"

definition new_buffer :: "int \<Rightarrow> observation_buffer" where
  "new_buffer now = \<lparr>ob_observation_started_at = now, ob_unavailable_before = now,
     ob_transitions = [\<lparr>tr_at = now, tr_observation = Interrupted CaptureStopped\<rparr>], ob_unknown_condition = None\<rparr>"

definition latest_at :: "observation_buffer \<Rightarrow> int" where
  "latest_at b = (case last_opt (ob_transitions b) of None \<Rightarrow> ob_unavailable_before b | Some t \<Rightarrow> tr_at t)"

definition push_transition :: "transition \<Rightarrow> observation_buffer \<Rightarrow> observation_buffer" where
  "push_transition t b =
     (let ts = ob_transitions b @ [t];
          b' = (if transition_cap < length ts
                then b\<lparr>ob_transitions := tl ts, ob_unavailable_before := tr_at (hd (tl ts))\<rparr>
                else b\<lparr>ob_transitions := ts\<rparr>)
      in b'\<lparr>ob_unknown_condition := map_option (\<lambda>u. case uc_until u of
            None \<Rightarrow> u\<lparr>uc_until := Some (tr_at t)\<rparr> | Some _ \<Rightarrow> u) (ob_unknown_condition b)\<rparr>)"

definition record_observation :: "observation_buffer \<Rightarrow> int \<times> capture_observation \<Rightarrow> observation_buffer" where
  "record_observation b ao = (case ao of (now, obs) \<Rightarrow>
     if now < latest_at b
     then (let boundary = max (ob_unavailable_before b) (latest_at b)
           in b\<lparr>ob_unavailable_before := boundary, ob_transitions := [],
                ob_unknown_condition := Some \<lparr>uc_from = boundary, uc_until = None\<rparr>\<rparr>)
     else if (case last_opt (ob_transitions b) of None \<Rightarrow> False | Some t \<Rightarrow> tr_observation t = obs) then b
     else push_transition \<lparr>tr_at = now, tr_observation = obs\<rparr> b)"

definition condition_unknown_in :: "observation_buffer \<Rightarrow> int \<Rightarrow> int \<Rightarrow> bool" where
  "condition_unknown_in b from_ms to_ms = (case ob_unknown_condition b of
     None \<Rightarrow> False
   | Some u \<Rightarrow> from_ms < (case uc_until u of None \<Rightarrow> i64_max | Some e \<Rightarrow> e) \<and> uc_from u < to_ms)"

definition hidden_interval :: "int \<Rightarrow> int \<Rightarrow> capture_interruption \<Rightarrow> bool" where
  "hidden_interval from_ms to_ms i \<longleftrightarrow> to_ms \<le> ci_start i
     \<or> (case ci_end i of None \<Rightarrow> False | Some e \<Rightarrow> e \<le> from_ms \<or> e \<le> ci_start i)"

definition include_interval :: "int \<Rightarrow> int \<Rightarrow> capture_observations \<Rightarrow> capture_interruption \<Rightarrow> capture_observations" where
  "include_interval from_ms to_ms s i =
     (if hidden_interval from_ms to_ms i then s
      else if length (co_intervals s) = interval_cap then s\<lparr>co_truncated := True\<rparr>
      else s\<lparr>co_intervals := co_intervals s @ [i]\<rparr>)"

fun snapshot_loop ::
  "int \<Rightarrow> int \<Rightarrow> capture_observations \<Rightarrow> capture_interruption option \<Rightarrow> transition list \<Rightarrow> capture_observations" where
  "snapshot_loop from_ms to_ms s op [] = (case op of None \<Rightarrow> s | Some i \<Rightarrow> include_interval from_ms to_ms s i)"
| "snapshot_loop from_ms to_ms s op (t # ts) =
     snapshot_loop from_ms to_ms
       (case op of None \<Rightarrow> s | Some i \<Rightarrow> include_interval from_ms to_ms s (i\<lparr>ci_end := Some (tr_at t)\<rparr>))
       (case tr_observation t of Started \<Rightarrow> None
        | Interrupted r \<Rightarrow> Some \<lparr>ci_start = tr_at t, ci_end = None, ci_reason = r\<rparr>) ts"

definition snapshot :: "observation_buffer \<Rightarrow> int \<Rightarrow> int \<Rightarrow> capture_observations" where
  "snapshot b from_ms to_ms = snapshot_loop from_ms to_ms
     \<lparr>co_observation_started_at = ob_observation_started_at b, co_unavailable_before = ob_unavailable_before b,
      co_intervals = [], co_truncated = from_ms < ob_unavailable_before b \<or> condition_unknown_in b from_ms to_ms\<rparr>
     None (ob_transitions b)"

section \<open>The intervals of a transition list\<close>

fun intervals_of :: "capture_interruption option \<Rightarrow> transition list \<Rightarrow> capture_interruption list" where
  "intervals_of op [] = (case op of None \<Rightarrow> [] | Some i \<Rightarrow> [i])"
| "intervals_of op (t # ts) =
     (case op of None \<Rightarrow> [] | Some i \<Rightarrow> [i\<lparr>ci_end := Some (tr_at t)\<rparr>]) @
     intervals_of (case tr_observation t of Started \<Rightarrow> None
        | Interrupted r \<Rightarrow> Some \<lparr>ci_start = tr_at t, ci_end = None, ci_reason = r\<rparr>) ts"

lemma snapshot_loop_intervals:
  "snapshot_loop from_ms to_ms s op ts = foldl (include_interval from_ms to_ms) s (intervals_of op ts)"
  by (induction ts arbitrary: s op) (auto split: option.split)

lemma include_all:
  "\<not> co_truncated (foldl (include_interval from_ms to_ms) s is) \<Longrightarrow>
     co_intervals (foldl (include_interval from_ms to_ms) s is) = co_intervals s @ filter (\<lambda>i. \<not> hidden_interval from_ms to_ms i) is
     \<and> \<not> co_truncated s"
proof (induction "is" arbitrary: s)
  case (Cons i "is")
  have "\<not> co_truncated (include_interval from_ms to_ms s i)" using Cons by simp
  then have "\<not> co_truncated s" "co_intervals (include_interval from_ms to_ms s i) = co_intervals s @ filter (\<lambda>i. \<not> hidden_interval from_ms to_ms i) [i]"
    by (auto simp: include_interval_def split: if_splits)
  with Cons show ?case by simp
qed simp

lemma include_bounded:
  "length (co_intervals s) \<le> interval_cap \<Longrightarrow> length (co_intervals (foldl (include_interval from_ms to_ms) s is)) \<le> interval_cap"
  by (induction "is" arbitrary: s) (auto simp: include_interval_def)

lemma snapshot_bounded: "length (co_intervals (snapshot b from_ms to_ms)) \<le> interval_cap"
  by (simp add: snapshot_def snapshot_loop_intervals include_bounded)

text \<open>The last observation at or before an instant.\<close>

definition condition_at :: "transition list \<Rightarrow> int \<Rightarrow> capture_observation option" where
  "condition_at ts x = map_option tr_observation (last_opt (filter (\<lambda>t. tr_at t \<le> x) ts))"

definition covers :: "capture_interruption \<Rightarrow> int \<Rightarrow> bool" where
  "covers i x \<longleftrightarrow> ci_start i \<le> x \<and> (case ci_end i of None \<Rightarrow> True | Some e \<Rightarrow> x < e)"

lemma last_opt_Cons: "last_opt (x # xs) = (case last_opt xs of None \<Rightarrow> Some x | Some y \<Rightarrow> Some y)"
  by (simp add: last_opt_def)

lemma intervals_cover:
  assumes "sorted (map tr_at ts)" and "\<And>i t. op = Some i \<Longrightarrow> t \<in> set ts \<Longrightarrow> ci_start i \<le> tr_at t"
    and "\<And>i. op = Some i \<Longrightarrow> ci_end i = None"
  shows "(\<exists>i\<in>set (intervals_of op ts). covers i x \<and> ci_reason i = r) \<longleftrightarrow>
     (case condition_at ts x of None \<Rightarrow> (\<exists>i. op = Some i \<and> ci_start i \<le> x \<and> ci_reason i = r)
      | Some c \<Rightarrow> c = Interrupted r)"
  using assms
proof (induction ts arbitrary: op)
  case Nil
  then show ?case by (auto simp: condition_at_def covers_def split: option.splits)
next
  case (Cons t ts)
  define op' where "op' = (case tr_observation t of Started \<Rightarrow> None
        | Interrupted r \<Rightarrow> Some \<lparr>ci_start = tr_at t, ci_end = None, ci_reason = r\<rparr>)"
  have later: "tr_at t \<le> tr_at u" if "u \<in> set ts" for u using Cons.prems(1) that by simp
  have IH: "(\<exists>i\<in>set (intervals_of op' ts). covers i x \<and> ci_reason i = r) \<longleftrightarrow>
     (case condition_at ts x of None \<Rightarrow> (\<exists>i. op' = Some i \<and> ci_start i \<le> x \<and> ci_reason i = r)
      | Some c \<Rightarrow> c = Interrupted r)"
    by (rule Cons.IH) (use Cons.prems(1) later in \<open>auto simp: op'_def split: capture_observation.splits\<close>)
  have all: "(\<exists>i\<in>set (intervals_of op (t # ts)). covers i x \<and> ci_reason i = r) \<longleftrightarrow>
      (\<exists>i. op = Some i \<and> ci_start i \<le> x \<and> x < tr_at t \<and> ci_reason i = r)
      \<or> (\<exists>i\<in>set (intervals_of op' ts). covers i x \<and> ci_reason i = r)"
    by (auto simp: op'_def covers_def split: option.splits)
  have op': "(\<exists>i. op' = Some i \<and> ci_start i \<le> x \<and> ci_reason i = r) \<longleftrightarrow> tr_at t \<le> x \<and> tr_observation t = Interrupted r"
    by (auto simp: op'_def split: capture_observation.splits)
  show ?case
  proof (cases "tr_at t \<le> x")
    case True
    have "condition_at (t # ts) x = (case condition_at ts x of None \<Rightarrow> Some (tr_observation t) | Some c \<Rightarrow> Some c)"
      using True by (simp add: condition_at_def last_opt_Cons split: option.split)
    with True show ?thesis unfolding all IH op' by (auto split: option.splits)
  next
    case False
    have none: "condition_at ts x = None" "condition_at (t # ts) x = None"
      using False later by (force simp: condition_at_def filter_empty_conv last_opt_def)+
    show ?thesis unfolding all IH op' none using False by auto
  qed
qed

lemma snapshot_covers:
  assumes "\<not> co_truncated (snapshot b from_ms to_ms)" "sorted (map tr_at (ob_transitions b))" "from_ms \<le> x" "x < to_ms"
  shows "(\<exists>i\<in>set (co_intervals (snapshot b from_ms to_ms)). covers i x \<and> ci_reason i = r)
     \<longleftrightarrow> condition_at (ob_transitions b) x = Some (Interrupted r)"
proof -
  let ?is = "intervals_of None (ob_transitions b)"
  have "co_intervals (snapshot b from_ms to_ms) = filter (\<lambda>i. \<not> hidden_interval from_ms to_ms i) ?is"
    using include_all assms(1) unfolding snapshot_def snapshot_loop_intervals by fastforce
  moreover have "\<not> hidden_interval from_ms to_ms i" if "covers i x" for i
    using that assms(3,4) by (auto simp: covers_def hidden_interval_def split: option.splits)
  ultimately have "(\<exists>i\<in>set (co_intervals (snapshot b from_ms to_ms)). covers i x \<and> ci_reason i = r)
      \<longleftrightarrow> (\<exists>i\<in>set ?is. covers i x \<and> ci_reason i = r)" by auto
  also have "\<dots> \<longleftrightarrow> condition_at (ob_transitions b) x = Some (Interrupted r)"
    by (subst intervals_cover [OF assms(2)]) (auto split: option.split)
  finally show ?thesis .
qed

section \<open>The buffer and the history\<close>

definition as_transition :: "int \<times> capture_observation \<Rightarrow> transition" where
  "as_transition ao = \<lparr>tr_at = fst ao, tr_observation = snd ao\<rparr>"

definition full_history :: "int \<Rightarrow> (int \<times> capture_observation) list \<Rightarrow> transition list" where
  "full_history t0 h = \<lparr>tr_at = t0, tr_observation = Interrupted CaptureStopped\<rparr> # map as_transition h"

definition faithful :: "observation_buffer \<Rightarrow> transition list \<Rightarrow> bool" where
  "faithful b h \<longleftrightarrow> ob_transitions b \<noteq> [] \<and> sorted (map tr_at (ob_transitions b))
     \<and> length (ob_transitions b) \<le> transition_cap \<and> ob_unavailable_before b \<le> tr_at (hd (ob_transitions b))
     \<and> tr_at (last (ob_transitions b)) \<le> tr_at (last h)
     \<and> tr_observation (last (ob_transitions b)) = tr_observation (last h)
     \<and> (\<forall>x. ob_unavailable_before b \<le> x \<longrightarrow> condition_at (ob_transitions b) x = condition_at h x)"

lemma condition_at_snoc:
  "condition_at (ts @ [t]) x = (if tr_at t \<le> x then Some (tr_observation t) else condition_at ts x)"
  by (simp add: condition_at_def)

lemma condition_at_last:
  assumes "ts \<noteq> []" "sorted (map tr_at ts)" "tr_at (last ts) \<le> x"
  shows "condition_at ts x = Some (tr_observation (last ts))"
proof -
  have "condition_at (butlast ts @ [last ts]) x = Some (tr_observation (last ts))"
    unfolding condition_at_snoc using assms(3) by simp
  with assms(1) show ?thesis by simp
qed

lemma condition_at_tl:
  assumes "ts \<noteq> []" "tr_at (hd ts) \<le> x"
  shows "condition_at (t # ts) x = condition_at ts x"
proof -
  have "filter (\<lambda>t. tr_at t \<le> x) ts \<noteq> []" using assms by (cases ts) auto
  then show ?thesis by (auto simp: condition_at_def last_opt_def)
qed

lemma push_faithful:
  assumes "faithful b h" "tr_at (last (ob_transitions b)) \<le> tr_at t"
  shows "faithful (push_transition t b) (h @ [t])"
proof -
  let ?ts = "ob_transitions b @ [t]"
  have f: "ob_transitions b \<noteq> []" "sorted (map tr_at (ob_transitions b))" "length (ob_transitions b) \<le> transition_cap"
    "ob_unavailable_before b \<le> tr_at (hd (ob_transitions b))" "\<And>x. ob_unavailable_before b \<le> x \<Longrightarrow> condition_at (ob_transitions b) x = condition_at h x"
    using assms(1) by (auto simp: faithful_def)
  have "tr_at u \<le> tr_at (last (ob_transitions b))" if "u \<in> set (ob_transitions b)" for u
    using f(2) that by (cases "ob_transitions b" rule: rev_cases) (auto simp: sorted_append)
  with assms(2) f(2) have sorted: "sorted (map tr_at ?ts)" by (fastforce simp: sorted_append)
  have cond: "condition_at ?ts x = condition_at (h @ [t]) x" if "ob_unavailable_before b \<le> x" for x
    using f(5) [OF that] by (simp add: condition_at_snoc)
  show ?thesis
  proof (cases "transition_cap < length ?ts")
    case False
    with sorted cond f(1,4) show ?thesis by (simp add: faithful_def push_transition_def Let_def)
  next
    case True
    then obtain t0 t1 ts where ts: "?ts = t0 # t1 # ts"
      using f(1) by (metis append_is_Nil_conv list.distinct(1) neq_Nil_conv append_Cons append_Nil)
    have b': "ob_transitions (push_transition t b) = t1 # ts" "ob_unavailable_before (push_transition t b) = tr_at t1"
      using True unfolding push_transition_def ts by (simp_all add: Let_def)
    have last: "last (t1 # ts) = t" using ts by (metis last_ConsR last_snoc list.discI)
    have len: "length (t1 # ts) \<le> transition_cap" using f(3) ts by (metis length_Cons length_append_singleton Suc_le_mono)
    have "condition_at (t1 # ts) x = condition_at (h @ [t]) x" if x: "tr_at t1 \<le> x" for x
    proof -
      have "condition_at (t1 # ts) x = condition_at ?ts x" unfolding ts using x by (subst condition_at_tl [of "t1 # ts"]) auto
      also have "\<dots> = condition_at (h @ [t]) x"
      proof (rule cond)
        have "tr_at t0 \<le> tr_at t1" using sorted unfolding ts by simp
        moreover have "hd (ob_transitions b) = t0" using ts f(1) by (metis hd_append2 list.sel(1))
        ultimately show "ob_unavailable_before b \<le> x" using f(4) x by simp
      qed
      finally show ?thesis .
    qed
    with sorted last len show ?thesis unfolding faithful_def b' ts by simp
  qed
qed

lemma record_faithful:
  assumes "faithful b h" "h \<noteq> []" "tr_at (last h) \<le> fst ao" "sorted (map tr_at h)"
  shows "faithful (record_observation b ao) (h @ [as_transition ao])"
proof -
  obtain t obs where ao: "ao = (t, obs)" by fastforce
  have ne: "ob_transitions b \<noteq> []" using assms(1) by (simp add: faithful_def)
  then have lo: "last_opt (ob_transitions b) = Some (last (ob_transitions b))" by (simp add: last_opt_def)
  have le: "tr_at (last (ob_transitions b)) \<le> t" using assms(1,3) ao by (auto simp: faithful_def)
  show ?thesis
  proof (cases "tr_observation (last (ob_transitions b)) = obs")
    case True
    then have r: "record_observation b ao = b" using le by (simp add: record_observation_def ao latest_at_def lo)
    have "condition_at (ob_transitions b) x = condition_at (h @ [as_transition ao]) x" if "ob_unavailable_before b \<le> x" for x
    proof (cases "t \<le> x")
      case True': True
      have "condition_at (ob_transitions b) x = Some obs"
        using condition_at_last [OF ne] assms(1) le True True' by (auto simp: faithful_def)
      then show ?thesis using True' by (simp add: condition_at_snoc as_transition_def ao)
    next
      case False
      then show ?thesis using assms(1) that by (simp add: condition_at_snoc as_transition_def ao faithful_def)
    qed
    with assms(1) le True show ?thesis unfolding r by (simp add: faithful_def as_transition_def ao)
  next
    case False
    then have "record_observation b ao = push_transition (as_transition ao) b"
      using le by (simp add: record_observation_def ao latest_at_def lo as_transition_def)
    moreover have "faithful (push_transition (as_transition ao) b) (h @ [as_transition ao])"
      by (rule push_faithful) (use assms(1) le in \<open>auto simp: as_transition_def ao\<close>)
    ultimately show ?thesis by simp
  qed
qed

lemma history_faithful:
  "sorted (t0 # map fst h) \<Longrightarrow> faithful (foldl record_observation (new_buffer t0) h) (full_history t0 h)"
proof (induction h rule: rev_induct)
  case Nil
  then show ?case by (simp add: faithful_def new_buffer_def full_history_def transition_cap_def)
next
  case (snoc ao h)
  have s: "sorted (t0 # map fst h)" using snoc.prems by (auto simp: sorted_append)
  have times: "map tr_at (full_history t0 h) = t0 # map fst h"
    by (simp add: full_history_def as_transition_def comp_def)
  have "tr_at (last (full_history t0 h)) = last (t0 # map fst h)"
    unfolding times [symmetric] by (simp add: full_history_def last_map)
  also have "\<dots> \<le> fst ao" using snoc.prems by (cases h rule: rev_cases) (auto simp: sorted_append)
  finally have le: "tr_at (last (full_history t0 h)) \<le> fst ao" .
  have "full_history t0 (h @ [ao]) = full_history t0 h @ [as_transition ao]" by (simp add: full_history_def)
  moreover have "full_history t0 h \<noteq> []" by (simp add: full_history_def)
  ultimately show ?case using record_faithful [OF snoc.IH [OF s] _ le] s times by simp
qed

text \<open>C40: The interruption record is honest: when the observations of a process arrive with a clock that does not go
  backwards, a snapshot that does not call itself truncated says of every instant of its window exactly what was
  observed, that is, the instant lies in an interruption of a given reason if and only if the last observation at or
  before it was that interruption, however long the history and whatever was dropped from the bounded buffer; and a
  window never holds more than its cap of intervals.\<close>

theorem snapshot_truthful:
  assumes "sorted (t0 # map fst h)" and "from_ms \<le> x" "x < to_ms"
    and "\<not> co_truncated (snapshot (foldl record_observation (new_buffer t0) h) from_ms to_ms)"
  shows "((\<exists>i\<in>set (co_intervals (snapshot (foldl record_observation (new_buffer t0) h) from_ms to_ms)).
            covers i x \<and> ci_reason i = r)
        \<longleftrightarrow> condition_at (full_history t0 h) x = Some (Interrupted r))
    \<and> length (co_intervals (snapshot (foldl record_observation (new_buffer t0) h) from_ms to_ms)) \<le> interval_cap"
proof -
  let ?b = "foldl record_observation (new_buffer t0) h"
  have f: "faithful ?b (full_history t0 h)" by (rule history_faithful [OF assms(1)])
  have "\<not> from_ms < ob_unavailable_before ?b"
    using include_all assms(4) unfolding snapshot_def snapshot_loop_intervals by fastforce
  then have "condition_at (ob_transitions ?b) x = condition_at (full_history t0 h) x"
    using f assms(2) by (simp add: faithful_def)
  with snapshot_covers [OF assms(4) _ assms(2,3), of r] f snapshot_bounded show ?thesis by (simp add: faithful_def)
qed

definition sample_history :: "(int \<times> capture_observation) list" where
  "sample_history = [(10, Started), (20, Started), (50, Interrupted WorkerError), (70, Started)]"

theorem snapshot_truthful_witness:
  "co_intervals (snapshot (foldl record_observation (new_buffer 0) sample_history) 5 100)
     = [\<lparr>ci_start = 0, ci_end = Some 10, ci_reason = CaptureStopped\<rparr>, \<lparr>ci_start = 50, ci_end = Some 70, ci_reason = WorkerError\<rparr>]
   \<and> condition_at (full_history 0 sample_history) 60 = Some (Interrupted WorkerError)"
proof -
  let ?b = "foldl record_observation (new_buffer 0) sample_history"
  have i: "co_intervals (snapshot ?b 5 100)
     = [\<lparr>ci_start = 0, ci_end = Some 10, ci_reason = CaptureStopped\<rparr>, \<lparr>ci_start = 50, ci_end = Some 70, ci_reason = WorkerError\<rparr>]"
    by code_simp
  have "\<not> co_truncated (snapshot ?b 5 100)" by code_simp
  moreover have "sorted (0 # map fst sample_history)" by (simp add: sample_history_def)
  ultimately have "condition_at (full_history 0 sample_history) 60 = Some (Interrupted WorkerError)"
    using snapshot_truthful [of 0 sample_history 5 60 100 WorkerError] unfolding i by (simp add: covers_def)
  with i show ?thesis by blast
qed

text \<open>A backwards clock makes every window that reaches past the lost history truncated until the next observation.\<close>

lemma rollback_truncates:
  assumes "now < latest_at b" "from_ms < to_ms" "from_ms < i64_max" "latest_at b < to_ms" "ob_unavailable_before b < to_ms"
  shows "co_truncated (snapshot (record_observation b (now, obs)) from_ms to_ms)"
proof -
  let ?b = "record_observation b (now, obs)"
  have "condition_unknown_in ?b from_ms to_ms"
    using assms by (simp add: record_observation_def condition_unknown_in_def Let_def)
  then show ?thesis using include_all unfolding snapshot_def snapshot_loop_intervals by fastforce
qed

end
