(* ===== verification/Text_Filter.thy ===== *)
theory Text_Filter
  imports Prelude
begin

text \<open>
  The attention-first text classifier (\<open>crates/textfilter/src/lib.rs\<close>, with the span types of
  \<open>crates/traits/src/domain.rs\<close>): grouping word spans into lines, the role of each line, the derived
  \<open>content_text\<close>, and the reconciliation against a warm chrome catalog. \<open>str::to_lowercase\<close>, which needs
  Unicode's case tables, is the parameter \<open>lower\<close>; the catalog is its trait method. Coordinates are rationals.
\<close>

section \<open>Spans\<close>

datatype text_role = Content | Chrome | Background | System | Unknown

definition role_as_db_str :: "text_role \<Rightarrow> ustr" where
  "role_as_db_str r = (case r of Content \<Rightarrow> lit ''content'' | Chrome \<Rightarrow> lit ''chrome''
     | Background \<Rightarrow> lit ''background'' | System \<Rightarrow> lit ''system'' | Unknown \<Rightarrow> lit ''unknown'')"

definition role_from_db_str :: "ustr \<Rightarrow> text_role option" where
  "role_from_db_str s =
     (if s = lit ''content'' then Some Content else if s = lit ''chrome'' then Some Chrome
      else if s = lit ''background'' then Some Background else if s = lit ''system'' then Some System
      else if s = lit ''unknown'' then Some Unknown else None)"

datatype suppress_reason = StaticChrome | SystemUi | BackgroundWindow

definition reason_as_db_str :: "suppress_reason \<Rightarrow> ustr" where
  "reason_as_db_str r = (case r of StaticChrome \<Rightarrow> lit ''static_chrome'' | SystemUi \<Rightarrow> lit ''system_ui''
     | BackgroundWindow \<Rightarrow> lit ''background_window'')"

definition reason_from_db_str :: "ustr \<Rightarrow> suppress_reason option" where
  "reason_from_db_str s =
     (if s = lit ''static_chrome'' then Some StaticChrome else if s = lit ''system_ui'' then Some SystemUi
      else if s = lit ''background_window'' then Some BackgroundWindow else None)"

datatype text_source = Ocr | Uia

record text_span =
  sp_text :: ustr
  sp_normalized_text :: ustr
  sp_source :: text_source
  sp_role :: text_role
  sp_x :: rat
  sp_y :: rat
  sp_w :: rat
  sp_h :: rat
  sp_line_index :: int
  sp_is_searchable :: bool
  sp_suppress_reason :: "suppress_reason option"

definition normalize_text :: "(ustr \<Rightarrow> ustr) \<Rightarrow> ustr \<Rightarrow> ustr" where
  "normalize_text lower s = lower (join (lit '' '') (split_whitespace s))"

section \<open>Configuration and lines\<close>

definition unit_sep :: uchar where "unit_sep = 31"
definition system_band_top :: rat where "system_band_top = 95 / 100"
definition content_inset :: rat where "content_inset = 6 / 100"
definition inside_min_fraction :: rat where "inside_min_fraction = 1 / 2"

record filter_config =
  fc_suppress_min_seen :: int
  fc_protect_min_chars :: int
  fc_region_buckets :: int

type_synonym rect = "rat \<times> rat \<times> rat \<times> rat"

record classify_input =
  in_spans :: "text_span list"
  in_target_rect :: "rect option"
  in_window_title :: "ustr option"
  in_app_hint :: "ustr option"

record observed_signature =
  os_signature :: ustr
  os_app_hint :: "ustr option"
  os_region_bucket :: ustr
  os_normalized_text :: ustr

record classify_output =
  out_spans :: "text_span list"
  out_content_text :: ustr
  out_suppressed_count :: nat
  out_observed :: "observed_signature list"

record line_acc =
  la_index :: int
  la_words :: "ustr list"
  la_normalized :: ustr
  la_role :: text_role
  la_x0 :: rat
  la_y0 :: rat
  la_x1 :: rat
  la_y1 :: rat

definition line_bbox :: "line_acc \<Rightarrow> rect" where
  "line_bbox l = (la_x0 l, la_y0 l, max (la_x1 l - la_x0 l) 0, max (la_y1 l - la_y0 l) 0)"

definition line_centroid :: "line_acc \<Rightarrow> rat \<times> rat" where
  "line_centroid l = ((la_x0 l + la_x1 l) / 2, (la_y0 l + la_y1 l) / 2)"

definition line_text :: "line_acc \<Rightarrow> ustr" where "line_text l = join (lit '' '') (la_words l)"

text \<open>A line starts at its first span (the infinities of the code are the neutral bounds).\<close>

definition new_line :: "text_span \<Rightarrow> line_acc" where
  "new_line s = \<lparr>la_index = sp_line_index s, la_words = [sp_text s], la_normalized = [], la_role = sp_role s,
     la_x0 = sp_x s, la_y0 = sp_y s, la_x1 = sp_x s + sp_w s, la_y1 = sp_y s + sp_h s\<rparr>"

definition extend_line :: "text_span \<Rightarrow> line_acc \<Rightarrow> line_acc" where
  "extend_line s l = l\<lparr>la_words := la_words l @ [sp_text s], la_x0 := min (la_x0 l) (sp_x s), la_y0 := min (la_y0 l) (sp_y s),
     la_x1 := max (la_x1 l) (sp_x s + sp_w s), la_y1 := max (la_y1 l) (sp_y s + sp_h s)\<rparr>"

text \<open>The ordered map of the code, by ascending line index.\<close>

fun add_span :: "line_acc list \<Rightarrow> text_span \<Rightarrow> line_acc list" where
  "add_span [] s = [new_line s]"
| "add_span (l # ls) s =
     (if sp_line_index s = la_index l then extend_line s l # ls
      else if sp_line_index s < la_index l then new_line s # l # ls
      else l # add_span ls s)"

definition group_lines :: "(ustr \<Rightarrow> ustr) \<Rightarrow> text_span list \<Rightarrow> line_acc list" where
  "group_lines lower spans =
     map (\<lambda>l. l\<lparr>la_normalized := normalize_text lower (line_text l)\<rparr>) (foldl add_span [] spans)"

section \<open>Geometry and signatures\<close>

definition signature :: "ustr option \<Rightarrow> ustr \<Rightarrow> ustr \<Rightarrow> ustr" where
  "signature app_hint region ntext =
     (case app_hint of None \<Rightarrow> [] | Some a \<Rightarrow> a) @ [unit_sep] @ region @ [unit_sep] @ ntext"

definition region_bucket :: "rat \<Rightarrow> rat \<Rightarrow> int \<Rightarrow> ustr" where
  "region_bucket cx cy n =
     (let col = min \<lfloor>clamp cx 0 1 * of_int n\<rfloor> (n - 1); row = min \<lfloor>clamp cy 0 1 * of_int n\<rfloor> (n - 1)
      in display_int row @ lit '','' @ display_int col)"

definition inside_fraction :: "rect \<Rightarrow> rect \<Rightarrow> rat" where
  "inside_fraction line r = (case line of (lx, ly, lw, lh) \<Rightarrow> (case r of (rx, ry, rw, rh) \<Rightarrow>
     (let area = lw * lh in
      if area \<le> 0 then (if rx \<le> lx \<and> lx \<le> rx + rw \<and> ry \<le> ly \<and> ly \<le> ry + rh then 1 else 0)
      else (let iw = max (min (lx + lw) (rx + rw) - max lx rx) 0;
                ih = max (min (ly + lh) (ry + rh) - max ly ry) 0
            in (iw * ih) / area))))"

definition centroid_interior :: "rect \<Rightarrow> rat \<Rightarrow> rat \<Rightarrow> bool" where
  "centroid_interior r cx cy = (case r of (rx, ry, rw, rh) \<Rightarrow>
     rx + content_inset * rw \<le> cx \<and> cx \<le> rx + rw - content_inset * rw
     \<and> ry + content_inset * rh \<le> cy \<and> cy \<le> ry + rh - content_inset * rh)"

section \<open>Classification\<close>

definition kept_role :: "text_role \<Rightarrow> bool" where "kept_role r \<longleftrightarrow> r = Content \<or> r = Unknown"

definition title_norm :: "(ustr \<Rightarrow> ustr) \<Rightarrow> classify_input \<Rightarrow> ustr option" where
  "title_norm lower inp = (case map_option (normalize_text lower) (in_window_title inp) of
     Some t \<Rightarrow> if t = [] then None else Some t | None \<Rightarrow> None)"

definition is_short :: "filter_config \<Rightarrow> line_acc \<Rightarrow> bool" where
  "is_short cfg l \<longleftrightarrow> int (length (la_normalized l)) < fc_protect_min_chars cfg"

definition line_inside :: "classify_input \<Rightarrow> line_acc \<Rightarrow> rat" where
  "line_inside inp l = (case in_target_rect inp of None \<Rightarrow> 0 | Some r \<Rightarrow> inside_fraction (line_bbox l) r)"

text \<open>The catalogued signature of a short line at the edge of a known rect.\<close>

definition edge_signature :: "classify_input \<Rightarrow> filter_config \<Rightarrow> line_acc \<Rightarrow> observed_signature option" where
  "edge_signature inp cfg l = (case line_centroid l of (cx, cy) \<Rightarrow>
     if \<not> is_short cfg l then None
     else (case in_target_rect inp of
         None \<Rightarrow> None
       | Some r \<Rightarrow> if centroid_interior r cx cy then None
           else (let region = region_bucket cx cy (max (fc_region_buckets cfg) 1)
                 in Some \<lparr>os_signature = signature (in_app_hint inp) region (la_normalized l), os_app_hint = in_app_hint inp,
                          os_region_bucket = region, os_normalized_text = la_normalized l\<rparr>)))"

type_synonym line_decision = "text_role \<times> suppress_reason option"

definition decide_line ::
  "(ustr \<Rightarrow> ustr) \<Rightarrow> (ustr \<Rightarrow> int) \<Rightarrow> classify_input \<Rightarrow> filter_config \<Rightarrow> line_acc \<Rightarrow> line_decision \<times> observed_signature option" where
  "decide_line lower seen_count inp cfg l =
     (let inside = line_inside inp l; known = (in_target_rect inp \<noteq> None) in
      if is_short cfg l \<and> system_band_top \<le> la_y0 l \<and> known \<and> inside < inside_min_fraction
      then ((System, Some SystemUi), None)
      else if known \<and> inside < inside_min_fraction then ((Background, Some BackgroundWindow), None)
      else if title_norm lower inp = Some (la_normalized l) then ((Chrome, Some StaticChrome), None)
      else (let default = (if known then Content else Unknown, None) in
            case edge_signature inp cfg l of
              None \<Rightarrow> (default, None)
            | Some o' \<Rightarrow>
                if max (fc_suppress_min_seen cfg) 1 \<le> sat_add_u32 (seen_count (os_signature o')) 1
                then ((Chrome, Some StaticChrome), Some o')
                else (default, Some o')))"

definition observe_signature :: "observed_signature list \<Rightarrow> observed_signature option \<Rightarrow> observed_signature list" where
  "observe_signature obs new = (case new of None \<Rightarrow> obs
     | Some o' \<Rightarrow> if os_signature o' \<in> os_signature ` set obs then obs else obs @ [o'])"

definition classify_step ::
  "(ustr \<Rightarrow> ustr) \<Rightarrow> (ustr \<Rightarrow> int) \<Rightarrow> classify_input \<Rightarrow> filter_config
     \<Rightarrow> (int \<rightharpoonup> line_decision) \<times> observed_signature list \<Rightarrow> line_acc \<Rightarrow> (int \<rightharpoonup> line_decision) \<times> observed_signature list" where
  "classify_step lower seen_count inp cfg st l = (case st of (decisions, obs) \<Rightarrow>
     (case decide_line lower seen_count inp cfg l of (d, new) \<Rightarrow>
        (decisions(la_index l \<mapsto> d), observe_signature obs new)))"

definition decided :: "(int \<rightharpoonup> line_decision) \<Rightarrow> int \<Rightarrow> line_decision" where
  "decided decisions i = (case decisions i of None \<Rightarrow> (Unknown, None) | Some d \<Rightarrow> d)"

definition label_span :: "(int \<rightharpoonup> line_decision) \<Rightarrow> text_span \<Rightarrow> text_span" where
  "label_span decisions s = (case decided decisions (sp_line_index s) of (role, reason) \<Rightarrow>
     s\<lparr>sp_role := role, sp_is_searchable := kept_role role, sp_suppress_reason := reason\<rparr>)"

definition build_content_text :: "line_acc list \<Rightarrow> (int \<rightharpoonup> line_decision) \<Rightarrow> ustr" where
  "build_content_text lines decisions =
     join [10] (map line_text (filter (\<lambda>l. kept_role (fst (decided decisions (la_index l)))) lines))"

definition classify ::
  "(ustr \<Rightarrow> ustr) \<Rightarrow> (ustr \<Rightarrow> int) \<Rightarrow> classify_input \<Rightarrow> filter_config \<Rightarrow> classify_output" where
  "classify lower seen_count inp cfg =
     (let lines = group_lines lower (in_spans inp);
          (decisions, obs) = foldl (classify_step lower seen_count inp cfg) (Map.empty, []) lines
      in \<lparr>out_spans = map (label_span decisions) (in_spans inp),
          out_content_text = build_content_text lines decisions,
          out_suppressed_count = length (filter (\<lambda>s. \<not> kept_role (fst (decided decisions (sp_line_index s)))) (in_spans inp)),
          out_observed = obs\<rparr>)"

section \<open>Reconciliation\<close>

definition newly_chrome :: "(ustr \<Rightarrow> int) \<Rightarrow> ustr option \<Rightarrow> filter_config \<Rightarrow> line_acc \<Rightarrow> bool" where
  "newly_chrome seen_count app_hint cfg l \<longleftrightarrow> kept_role (la_role l) \<and> is_short cfg l
     \<and> (case line_centroid l of (cx, cy) \<Rightarrow>
          max (fc_suppress_min_seen cfg) 1
            \<le> seen_count (signature app_hint (region_bucket cx cy (max (fc_region_buckets cfg) 1)) (la_normalized l)))"

definition demote_span :: "int set \<Rightarrow> text_span \<Rightarrow> text_span" where
  "demote_span demoted s =
     (if sp_line_index s \<in> demoted
      then s\<lparr>sp_role := Chrome, sp_is_searchable := False, sp_suppress_reason := Some StaticChrome\<rparr>
      else s\<lparr>sp_is_searchable := kept_role (sp_role s)\<rparr>)"

definition reconcile ::
  "(ustr \<Rightarrow> ustr) \<Rightarrow> (ustr \<Rightarrow> int) \<Rightarrow> text_span list \<Rightarrow> ustr option \<Rightarrow> filter_config \<Rightarrow> classify_output" where
  "reconcile lower seen_count spans app_hint cfg =
     (let lines = group_lines lower spans;
          demoted = set (map la_index (filter (newly_chrome seen_count app_hint cfg) lines));
          spans' = map (demote_span demoted) spans
      in \<lparr>out_spans = spans',
          out_content_text = join [10] (map line_text (filter (\<lambda>l. kept_role (la_role l) \<and> la_index l \<notin> demoted) lines)),
          out_suppressed_count = length (filter (\<lambda>s. \<not> sp_is_searchable s) spans'),
          out_observed = []\<rparr>)"

section \<open>Lines\<close>

lemma new_extend_simps [simp]:
  "la_index (new_line s) = sp_line_index s" "la_index (extend_line s l) = la_index l"
  by (simp_all add: new_line_def extend_line_def)

lemma add_span_indices: "set (map la_index (add_span ls s)) = insert (sp_line_index s) (set (map la_index ls))"
  by (induction ls) auto

lemma add_span_sorted: "sorted_wrt (<) (map la_index ls) \<Longrightarrow> sorted_wrt (<) (map la_index (add_span ls s))"
proof (induction ls)
  case (Cons l ls)
  have "set (map la_index (add_span ls s)) = insert (sp_line_index s) (set (map la_index ls))" by (rule add_span_indices)
  with Cons show ?case by (fastforce simp del: list.set_map)
qed simp

lemma foldl_add_span:
  "sorted_wrt (<) (map la_index ls) \<Longrightarrow>
     sorted_wrt (<) (map la_index (foldl add_span ls spans))
     \<and> set (map la_index (foldl add_span ls spans)) = set (map la_index ls) \<union> sp_line_index ` set spans"
proof (induction spans arbitrary: ls)
  case (Cons s spans)
  from Cons.IH [OF add_span_sorted [OF Cons.prems]] show ?case by (simp only: foldl_Cons add_span_indices) auto
qed simp

lemma group_lines_indices:
  "sorted_wrt (<) (map la_index (group_lines lower spans))"
  "la_index ` set (group_lines lower spans) = sp_line_index ` set spans"
  using foldl_add_span [of "[]" spans] by (simp_all add: group_lines_def comp_def image_image)

lemma span_line:
  assumes "s \<in> set spans"
  obtains l where "l \<in> set (group_lines lower spans)" "la_index l = sp_line_index s"
  using assms group_lines_indices(2) [of lower spans] by (metis imageE imageI)

section \<open>What the classifier drops\<close>

lemma classify_step_pair:
  "classify_step lower seen inp cfg (m, obs) l =
     (m(la_index l \<mapsto> fst (decide_line lower seen inp cfg l)), observe_signature obs (snd (decide_line lower seen inp cfg l)))"
  by (simp add: classify_step_def case_prod_beta)

lemma classify_step_other:
  "i \<notin> la_index ` set ls \<Longrightarrow> fst (foldl (classify_step lower seen inp cfg) (m, obs) ls) i = m i"
  by (induction ls arbitrary: m obs) (simp_all add: classify_step_pair)

lemma classify_step_line:
  "sorted_wrt (<) (map la_index ls) \<Longrightarrow> l \<in> set ls \<Longrightarrow>
     fst (foldl (classify_step lower seen inp cfg) (m, obs) ls) (la_index l) = Some (fst (decide_line lower seen inp cfg l))"
proof (induction ls arbitrary: m obs)
  case (Cons a ls)
  show ?case
  proof (cases "l = a")
    case True
    then have "la_index l \<notin> la_index ` set ls" using Cons.prems(1) by auto
    with True show ?thesis by (simp add: classify_step_pair classify_step_other)
  next
    case False
    with Cons show ?thesis by (simp add: classify_step_pair)
  qed
qed simp

lemma decided_line:
  assumes "l \<in> set (group_lines lower (in_spans inp))"
  shows "decided (fst (foldl (classify_step lower seen inp cfg) (Map.empty, []) (group_lines lower (in_spans inp)))) (la_index l)
     = fst (decide_line lower seen inp cfg l)"
  using classify_step_line [OF group_lines_indices(1) assms] by (simp add: decided_def)

lemma classify_span:
  assumes "k < length (in_spans inp)" and "l \<in> set (group_lines lower (in_spans inp))" "la_index l = sp_line_index (in_spans inp ! k)"
    and "fst (decide_line lower seen inp cfg l) = (role, reason)"
  shows "out_spans (classify lower seen inp cfg) ! k =
     (in_spans inp ! k)\<lparr>sp_role := role, sp_is_searchable := kept_role role, sp_suppress_reason := reason\<rparr>"
  using decided_line [OF assms(2), of seen cfg] assms(1,3,4)
  by (simp add: classify_def Let_def case_prod_beta label_span_def)

lemma decide_line_cases:
  assumes "fst (decide_line lower seen inp cfg l) = (role, reason)"
  shows "kept_role role \<longleftrightarrow> reason = None"
    and "\<not> kept_role role \<Longrightarrow> title_norm lower inp = Some (la_normalized l)
      \<or> (in_target_rect inp \<noteq> None \<and> line_inside inp l < inside_min_fraction)
      \<or> (\<exists>o'. edge_signature inp cfg l = Some o'
            \<and> max (fc_suppress_min_seen cfg) 1 \<le> sat_add_u32 (seen (os_signature o')) 1)"
    and "kept_role role \<Longrightarrow> role = (if in_target_rect inp = None then Unknown else Content)"
  using assms by (auto simp: decide_line_def Let_def kept_role_def split: if_splits option.splits)

lemma edge_signature_Some:
  "edge_signature inp cfg l = Some o' \<Longrightarrow> is_short cfg l \<and> (\<exists>r. in_target_rect inp = Some r
     \<and> \<not> centroid_interior r (fst (line_centroid l)) (snd (line_centroid l)))"
  by (auto simp: edge_signature_def Let_def split: if_splits option.splits prod.splits)

text \<open>C36: The classifier never drops a word without one of its three grounds, and changes nothing else of a span: text,
  geometry and order are kept; a span is searchable exactly when it carries no suppress reason; a dropped span's line
  echoes the window title, or lies mostly outside a known target window, or is short, at the edge of a known target window
  and seen often enough; so long or interior lines inside the window are never lost unless they are the title.\<close>

theorem classify_drops_justified:
  assumes "k < length (in_spans inp)" and "l \<in> set (group_lines lower (in_spans inp))" "la_index l = sp_line_index (in_spans inp ! k)"
  shows "\<exists>role reason. out_spans (classify lower seen inp cfg) ! k =
       (in_spans inp ! k)\<lparr>sp_role := role, sp_is_searchable := kept_role role, sp_suppress_reason := reason\<rparr>
     \<and> (kept_role role \<longleftrightarrow> reason = None)
     \<and> (\<not> kept_role role \<longrightarrow>
          title_norm lower inp = Some (la_normalized l)
          \<or> (\<exists>r. in_target_rect inp = Some r \<and> inside_fraction (line_bbox l) r < inside_min_fraction)
          \<or> (\<exists>r o'. in_target_rect inp = Some r \<and> is_short cfg l
               \<and> \<not> centroid_interior r (fst (line_centroid l)) (snd (line_centroid l))
               \<and> edge_signature inp cfg l = Some o' \<and> max (fc_suppress_min_seen cfg) 1 \<le> sat_add_u32 (seen (os_signature o')) 1))"
proof -
  obtain role reason where d: "fst (decide_line lower seen inp cfg l) = (role, reason)" by fastforce
  note c = decide_line_cases [OF d]
  have "title_norm lower inp = Some (la_normalized l)
          \<or> (\<exists>r. in_target_rect inp = Some r \<and> inside_fraction (line_bbox l) r < inside_min_fraction)
          \<or> (\<exists>r o'. in_target_rect inp = Some r \<and> is_short cfg l
               \<and> \<not> centroid_interior r (fst (line_centroid l)) (snd (line_centroid l))
               \<and> edge_signature inp cfg l = Some o' \<and> max (fc_suppress_min_seen cfg) 1 \<le> sat_add_u32 (seen (os_signature o')) 1)"
    if "\<not> kept_role role"
    using c(2) [OF that] edge_signature_Some by (auto simp: line_inside_def)
  with classify_span [OF assms d] c(1) show ?thesis by blast
qed

definition sample_span :: "int \<Rightarrow> string \<Rightarrow> rat \<Rightarrow> rat \<Rightarrow> text_span" where
  "sample_span i txt x y = \<lparr>sp_text = lit txt, sp_normalized_text = lit txt, sp_source = Ocr, sp_role = Unknown,
     sp_x = x, sp_y = y, sp_w = 1 / 10, sp_h = 1 / 50, sp_line_index = i, sp_is_searchable = True, sp_suppress_reason = None\<rparr>"

definition sample_input :: "rect option \<Rightarrow> classify_input" where
  "sample_input r = \<lparr>in_spans = [sample_span 0 ''notes'' (1 / 10) (1 / 10), sample_span 2 ''hello'' (2 / 5) (1 / 2),
       sample_span 2 ''world'' (1 / 2) (1 / 2), sample_span 5 ''12:30'' (9 / 10) (97 / 100)],
     in_target_rect = r, in_window_title = Some (lit ''notes''), in_app_hint = Some (lit ''app'')\<rparr>"

definition sample_config :: filter_config where
  "sample_config = \<lparr>fc_suppress_min_seen = 3, fc_protect_min_chars = 40, fc_region_buckets = 8\<rparr>"

lemma sample_classified:
  "map sp_role (out_spans (classify to_ascii_lowercase (\<lambda>_. 0) (sample_input (Some (0, 0, 1, 9 / 10))) sample_config)) = [Chrome, Content, Content, System]"
  "out_content_text (classify to_ascii_lowercase (\<lambda>_. 0) (sample_input (Some (0, 0, 1, 9 / 10))) sample_config) = lit ''hello world''"
  "map la_index (group_lines to_ascii_lowercase (in_spans (sample_input None))) = [0, 2, 5]"
  by code_simp+

theorem classify_drops_justified_witness:
  "sp_text (out_spans (classify to_ascii_lowercase (\<lambda>_. 0) (sample_input (Some (0, 0, 1, 9 / 10))) sample_config) ! 3) = lit ''12:30''
   \<and> sp_role (out_spans (classify to_ascii_lowercase (\<lambda>_. 0) (sample_input (Some (0, 0, 1, 9 / 10))) sample_config) ! 3) = System"
proof -
  let ?inp = "sample_input (Some (0, 0, 1, 9 / 10))"
  have len: "3 < length (in_spans ?inp)" by (simp add: sample_input_def)
  then have "in_spans ?inp ! 3 \<in> set (in_spans ?inp)" by (rule nth_mem)
  then obtain l where "l \<in> set (group_lines to_ascii_lowercase (in_spans ?inp))" "la_index l = sp_line_index (in_spans ?inp ! 3)"
    by (rule span_line)
  from classify_drops_justified [OF len this, of "\<lambda>_. 0" sample_config]
  obtain role reason where e: "out_spans (classify to_ascii_lowercase (\<lambda>_. 0) ?inp sample_config) ! 3 =
       (in_spans ?inp ! 3)\<lparr>sp_role := role, sp_is_searchable := kept_role role, sp_suppress_reason := reason\<rparr>" by blast
  have "sp_role (out_spans (classify to_ascii_lowercase (\<lambda>_. 0) ?inp sample_config) ! 3)
      = map sp_role (out_spans (classify to_ascii_lowercase (\<lambda>_. 0) ?inp sample_config)) ! 3"
    using len by (simp add: classify_def Let_def case_prod_beta)
  also have "\<dots> = System" unfolding sample_classified(1) by simp
  finally show ?thesis unfolding e by (simp add: sample_input_def sample_span_def)
qed



section \<open>Reconciliation is monotone and idempotent\<close>

lemma add_span_demote:
  "add_span (map (\<lambda>l. l\<lparr>la_role := f (la_index l) (la_role l)\<rparr>) ls) (s\<lparr>sp_role := f (sp_line_index s) (sp_role s),
      sp_is_searchable := b, sp_suppress_reason := r\<rparr>)
     = map (\<lambda>l. l\<lparr>la_role := f (la_index l) (la_role l)\<rparr>) (add_span ls s)"
  by (induction ls) (auto simp: new_line_def extend_line_def)

definition demote_line :: "int set \<Rightarrow> line_acc \<Rightarrow> line_acc" where
  "demote_line demoted l = l\<lparr>la_role := (if la_index l \<in> demoted then Chrome else la_role l)\<rparr>"

lemma foldl_add_span_demote:
  "foldl add_span (map (demote_line demoted) ls) (map (demote_span demoted) spans) =
     map (demote_line demoted) (foldl add_span ls spans)"
proof (induction spans arbitrary: ls)
  case (Cons s spans)
  let ?f = "\<lambda>i r. if i \<in> demoted then Chrome else r"
  obtain b r where "demote_span demoted s = s\<lparr>sp_role := ?f (sp_line_index s) (sp_role s), sp_is_searchable := b, sp_suppress_reason := r\<rparr>"
  proof (cases "sp_line_index s \<in> demoted")
    case True
    with that [where b = False and r = "Some StaticChrome"] show thesis by (simp add: demote_span_def)
  next
    case False
    with that [where b = "kept_role (sp_role s)" and r = "sp_suppress_reason s"] show thesis by (simp add: demote_span_def)
  qed
  then have "add_span (map (demote_line demoted) ls) (demote_span demoted s) = map (demote_line demoted) (add_span ls s)"
    using add_span_demote [where f = ?f and ls = ls and s = s and b = b and r = r] by (simp add: demote_line_def [abs_def])
  with Cons show ?case by simp
qed simp

lemma group_lines_demote:
  "group_lines lower (map (demote_span demoted) spans) = map (demote_line demoted) (group_lines lower spans)"
  using foldl_add_span_demote [of demoted "[]" spans]
  by (simp add: group_lines_def demote_line_def line_text_def)

lemma demote_line_simps [simp]:
  "la_index (demote_line D l) = la_index l" "la_normalized (demote_line D l) = la_normalized l" "line_text (demote_line D l) = line_text l"
  "line_centroid (demote_line D l) = line_centroid l" "is_short cfg (demote_line D l) = is_short cfg l"
  "la_role (demote_line D l) = (if la_index l \<in> D then Chrome else la_role l)"
  by (simp_all add: demote_line_def line_text_def line_centroid_def is_short_def)

text \<open>Reconciling a stored frame with the warm catalog is safe to repeat: a second run on its own output, with the same
  catalog, returns the same output; it never resurrects a dropped span, and a span it does not demote keeps its role,
  its reason and its text.\<close>

theorem reconcile_idempotent:
  "reconcile lower seen (out_spans (reconcile lower seen spans app_hint cfg)) app_hint cfg = reconcile lower seen spans app_hint cfg
   \<and> (\<forall>k<length spans. (kept_role (sp_role (out_spans (reconcile lower seen spans app_hint cfg) ! k)) \<longrightarrow> kept_role (sp_role (spans ! k)))
        \<and> (sp_role (out_spans (reconcile lower seen spans app_hint cfg) ! k) \<noteq> Chrome \<longrightarrow>
             out_spans (reconcile lower seen spans app_hint cfg) ! k = (spans ! k)\<lparr>sp_is_searchable := kept_role (sp_role (spans ! k))\<rparr>))"
proof
  let ?lines = "group_lines lower spans"
  define D where "D = set (map la_index (filter (newly_chrome seen app_hint cfg) ?lines))"
  let ?spans' = "map (demote_span D) spans"
  have r1: "reconcile lower seen spans app_hint cfg = \<lparr>out_spans = ?spans',
      out_content_text = join [10] (map line_text (filter (\<lambda>l. kept_role (la_role l) \<and> la_index l \<notin> D) ?lines)),
      out_suppressed_count = length (filter (\<lambda>s. \<not> sp_is_searchable s) ?spans'), out_observed = []\<rparr>"
    by (simp only: reconcile_def Let_def D_def)
  then have out: "out_spans (reconcile lower seen spans app_hint cfg) = ?spans'" by simp
  have lines': "group_lines lower ?spans' = map (demote_line D) ?lines" by (rule group_lines_demote)
  have none: "\<not> newly_chrome seen app_hint cfg (demote_line D l)" if "l \<in> set ?lines" for l
  proof (cases "la_index l \<in> D")
    case True
    then show ?thesis by (simp add: newly_chrome_def kept_role_def)
  next
    case False
    then have "\<not> newly_chrome seen app_hint cfg l" using that by (auto simp: D_def)
    with False show ?thesis by (simp add: newly_chrome_def)
  qed
  then have D': "set (map la_index (filter (newly_chrome seen app_hint cfg) (map (demote_line D) ?lines))) = {}"
    by (auto simp: filter_empty_conv)
  have same: "demote_span {} (demote_span D s) = demote_span D s" for s
    by (simp add: demote_span_def kept_role_def)
  have kept: "map line_text (filter (\<lambda>l. kept_role (la_role l)) (map (demote_line D) ls))
      = map line_text (filter (\<lambda>l. kept_role (la_role l) \<and> la_index l \<notin> D) ls)" for ls
    by (induction ls) (simp_all add: kept_role_def)
  show "reconcile lower seen (out_spans (reconcile lower seen spans app_hint cfg)) app_hint cfg = reconcile lower seen spans app_hint cfg"
    unfolding out by (subst reconcile_def) (simp only: Let_def lines' D', simp add: r1 same kept comp_def)
  show "\<forall>k<length spans. (kept_role (sp_role (out_spans (reconcile lower seen spans app_hint cfg) ! k)) \<longrightarrow> kept_role (sp_role (spans ! k)))
        \<and> (sp_role (out_spans (reconcile lower seen spans app_hint cfg) ! k) \<noteq> Chrome \<longrightarrow>
             out_spans (reconcile lower seen spans app_hint cfg) ! k = (spans ! k)\<lparr>sp_is_searchable := kept_role (sp_role (spans ! k))\<rparr>)"
    unfolding out by (auto simp: demote_span_def kept_role_def)
qed

theorem reconcile_idempotent_witness:
  "sp_role (out_spans (reconcile to_ascii_lowercase (\<lambda>_. 9) (in_spans (sample_input None)) None sample_config) ! 1) = Chrome
   \<and> reconcile to_ascii_lowercase (\<lambda>_. 9) (out_spans (reconcile to_ascii_lowercase (\<lambda>_. 9) (in_spans (sample_input None)) None sample_config)) None sample_config
     = reconcile to_ascii_lowercase (\<lambda>_. 9) (in_spans (sample_input None)) None sample_config"
proof -
  have "sp_role (out_spans (reconcile to_ascii_lowercase (\<lambda>_. 9) (in_spans (sample_input None)) None sample_config) ! 1) = Chrome"
    by code_simp
  with reconcile_idempotent show ?thesis by blast
qed

text \<open>The stored tokens of roles and reasons read back.\<close>

lemma role_roundtrip: "role_from_db_str (role_as_db_str r) = Some r"
  by (cases r) (simp_all add: role_from_db_str_def role_as_db_str_def)

lemma reason_roundtrip: "reason_from_db_str (reason_as_db_str r) = Some r"
  by (cases r) (simp_all add: reason_from_db_str_def reason_as_db_str_def)

end
