(* ===== verification/Exchange_Extraction.thy ===== *)
theory Exchange_Extraction
  imports Session_Types
begin

text \<open>
  Exchange extraction (\<open>crates/sessions/src/exchange.rs\<close>): role markers per tool, the structural
  markers of the Codex desktop screen, turn blocks, and the duplicate suppression over the frames of a
  session. The set of seen turns is a list here; only membership is read.
\<close>

section \<open>Codex desktop\<close>

definition is_codex_work_status :: "ustr \<Rightarrow> bool" where
  "is_codex_work_status line = list_ex (\<lambda>p. case strip_prefix line p of
       None \<Rightarrow> False
     | Some d \<Rightarrow> suffix (lit ''s'') d \<and> list_all (\<lambda>c. (48 \<le> c \<and> c \<le> 57) \<or> c \<in> set (lit ''hms '')) d)
     [lit ''Working for '', lit ''Worked for '']"

definition is_codex_response_stop :: "ustr \<Rightarrow> bool" where
  "is_codex_response_stop line \<longleftrightarrow>
     starts_with line (lit ''@'') \<or> list_all (\<lambda>c. 48 \<le> c \<and> c \<le> 57) line
     \<or> line \<in> set (map lit [''File'', ''Codex'', ''New task'', ''Scheduled'', ''Plugins'', ''Chat'', ''Projects'', ''Tasks'',
          ''Outputs'', ''Sources'', ''Web search'', ''View all'', ''Ask for follow-up changes'', ''Full access''])"

definition has_nav_signature :: "ustr list \<Rightarrow> bool" where
  "has_nav_signature lines = list_all (\<lambda>n. lit n \<in> set lines) [''Codex'', ''New task'', ''Projects'']"

definition codex_prompt :: "ustr list \<Rightarrow> (artifact_role \<times> ustr) list" where
  "codex_prompt rest =
     (let window = take 8 rest
      in if lit ''File'' \<in> set window
         then (let content = join [10] (takeWhile (\<lambda>l. l \<noteq> lit ''File'') window)
               in if content \<noteq> [] then [(User, content)] else [])
         else [])"

definition codex_response :: "ustr list \<Rightarrow> (artifact_role \<times> ustr) list" where
  "codex_response rest =
     (let content = join [10] (take 4 (takeWhile (\<lambda>l. \<not> is_codex_response_stop l) rest))
      in if content \<noteq> [] then [(Agent, content)] else [])"

fun codex_turns :: "ustr list \<Rightarrow> (artifact_role \<times> ustr) list" where
  "codex_turns [] = []"
| "codex_turns (line # rest) =
     (if line = lit ''Q'' then codex_prompt rest
      else if is_codex_work_status line then codex_response rest else []) @ codex_turns rest"

definition codex_desktop_blocks :: "ustr \<Rightarrow> (artifact_role \<times> ustr) list" where
  "codex_desktop_blocks txt =
     (let lines = filter (\<lambda>l. l \<noteq> []) (map trim (str_lines txt))
      in if has_nav_signature lines then codex_turns lines else [])"

section \<open>Marked turns\<close>

definition nonempty :: "ustr \<Rightarrow> ustr option" where
  "nonempty v = (if v \<noteq> [] then Some v else None)"

definition is_token :: "ustr \<Rightarrow> string list \<Rightarrow> bool" where
  "is_token head names \<longleftrightarrow> head \<in> set (map lit names)"

definition tool_role :: "ustr \<Rightarrow> ustr \<Rightarrow> artifact_role option" where
  "tool_role tool head =
     (if tool = lit ''claude-code'' then
        (if is_token head [''user'', ''human'', ''you''] then Some User
         else if is_token head [''assistant'', ''claude''] then Some Agent else None)
      else if tool = lit ''codex'' then
        (if is_token head [''user'', ''you''] then Some User
         else if is_token head [''assistant'', ''codex'', ''chatgpt''] then Some Agent else None)
      else if tool = lit ''claude-desktop'' then
        (if is_token head [''user'', ''you''] then Some User
         else if is_token head [''assistant'', ''claude''] then Some Agent else None)
      else if tool = lit ''browser-ai'' then
        (if is_token head [''user'', ''you''] then Some User
         else if is_token head [''assistant'', ''claude'', ''chatgpt'', ''gemini''] then Some Agent else None)
      else None)"

definition colon_marker :: "ustr \<Rightarrow> ustr \<Rightarrow> (artifact_role \<times> ustr option) option" where
  "colon_marker tool line = (case split_once line (lit '':'') of
     None \<Rightarrow> None
   | Some (head, tail_text) \<Rightarrow>
       map_option (\<lambda>r. (r, nonempty (trim tail_text))) (tool_role tool (to_ascii_lowercase (trim head))))"

text \<open>The prompt glyph of Claude Code is U+276F, its answer glyphs are U+23FA and U+25CF.\<close>

definition marker :: "ustr \<Rightarrow> ustr \<Rightarrow> (artifact_role \<times> ustr option) option" where
  "marker tool line =
     (if tool = lit ''claude-code'' then
        (case strip_prefix line [10095] of
           Some rest \<Rightarrow> map_option (\<lambda>c. (User, Some c)) (nonempty (trim rest))
         | None \<Rightarrow> (case strip_prefix line [9210] of
             Some rest \<Rightarrow> Some (Agent, nonempty (trim rest))
           | None \<Rightarrow> (case strip_prefix line [9679] of
               Some rest \<Rightarrow> Some (Agent, nonempty (trim rest))
             | None \<Rightarrow> colon_marker tool line)))
      else colon_marker tool line)"

definition flush_turn :: "(artifact_role \<times> ustr list) option \<Rightarrow> (artifact_role \<times> ustr) list" where
  "flush_turn cur = (case cur of None \<Rightarrow> []
     | Some (role, lines) \<Rightarrow> (let content = trim (join [10] lines) in if content \<noteq> [] then [(role, content)] else []))"

fun turn_blocks ::
  "ustr \<Rightarrow> (artifact_role \<times> ustr list) option \<Rightarrow> ustr list \<Rightarrow> (artifact_role \<times> ustr) list" where
  "turn_blocks tool cur [] = flush_turn cur"
| "turn_blocks tool cur (line # ls) =
     (let trimmed = trim line in
      if trimmed = [] then turn_blocks tool (map_option (\<lambda>(r, ws). (r, ws @ [[]])) cur) ls
      else (case marker tool trimmed of
          Some (role, inline) \<Rightarrow>
            flush_turn cur @ turn_blocks tool (Some (role, case inline of None \<Rightarrow> [] | Some w \<Rightarrow> [w])) ls
        | None \<Rightarrow> turn_blocks tool (map_option (\<lambda>(r, ws). (r, ws @ [trimmed])) cur) ls))"

definition blocks :: "ustr \<Rightarrow> ustr \<Rightarrow> (artifact_role \<times> ustr) list" where
  "blocks tool txt = turn_blocks tool None (str_lines txt)"

section \<open>Extraction\<close>

type_synonym seen_turns = "(artifact_role \<times> ustr) list"

definition normal_turn :: "ustr \<Rightarrow> ustr" where
  "normal_turn content = join (lit '' '') (split_whitespace content)"

definition duplicate_turn :: "seen_turns \<Rightarrow> artifact_role \<Rightarrow> ustr \<Rightarrow> bool" where
  "duplicate_turn seen role ntext = list_ex (\<lambda>(r, c). r = role \<and> (contains c ntext \<or> contains ntext c)) seen"

definition take_turn ::
  "int \<Rightarrow> seen_turns \<times> extracted_exchange list \<Rightarrow> artifact_role \<times> ustr \<Rightarrow> seen_turns \<times> extracted_exchange list" where
  "take_turn frame_id st rc = (case st of (seen, out) \<Rightarrow> (case rc of (role, content) \<Rightarrow>
     (let ntext = normal_turn content
      in if ntext = [] \<or> duplicate_turn seen role ntext then st
         else (seen @ [(role, ntext)], out @ [\<lparr>ee_role = role, ee_content = content, ee_frame_id = frame_id\<rparr>]))))"

definition candidates :: "ustr \<Rightarrow> session_content \<Rightarrow> (artifact_role \<times> ustr) list" where
  "candidates tool frame =
     (if tool = lit ''codex'' then codex_desktop_blocks (sc_content_text frame) else blocks tool (sc_content_text frame))"

definition take_frame ::
  "ustr \<Rightarrow> seen_turns \<times> extracted_exchange list \<Rightarrow> session_content \<Rightarrow> seen_turns \<times> extracted_exchange list" where
  "take_frame tool st frame = foldl (take_turn (sc_frame_id frame)) st (candidates tool frame)"

definition extract_exchanges :: "ustr \<Rightarrow> session_content list \<Rightarrow> extracted_exchange list" where
  "extract_exchanges tool contents =
     snd (foldl (take_frame tool) ([], []) (sort_key (\<lambda>c. (sc_captured_at c, sc_frame_id c)) contents))"

section \<open>No turn twice\<close>

definition turn_key :: "extracted_exchange \<Rightarrow> artifact_role \<times> ustr" where
  "turn_key e = (ee_role e, normal_turn (ee_content e))"

definition unrelated :: "artifact_role \<times> ustr \<Rightarrow> artifact_role \<times> ustr \<Rightarrow> bool" where
  "unrelated a b \<longleftrightarrow> (fst a = fst b \<longrightarrow> \<not> contains (snd a) (snd b) \<and> \<not> contains (snd b) (snd a))"

definition turns_ok :: "seen_turns \<times> extracted_exchange list \<Rightarrow> bool" where
  "turns_ok st \<longleftrightarrow> fst st = map turn_key (snd st) \<and> sorted_wrt unrelated (fst st) \<and> (\<forall>a\<in>set (fst st). snd a \<noteq> [])"

lemma duplicate_turn_iff:
  "duplicate_turn seen role ntext \<longleftrightarrow> (\<exists>c. (role, c) \<in> set seen \<and> (contains c ntext \<or> contains ntext c))"
  by (auto simp: duplicate_turn_def list_ex_iff)

lemma take_turn_ok: "turns_ok st \<Longrightarrow> turns_ok (take_turn i st rc)"
  by (cases st; cases rc)
    (auto simp: turns_ok_def take_turn_def Let_def turn_key_def sorted_wrt_append duplicate_turn_iff unrelated_def)

lemma take_turns_ok: "turns_ok st \<Longrightarrow> turns_ok (foldl (take_turn i) st rcs)"
  by (induction rcs arbitrary: st) (simp_all add: take_turn_ok)

lemma take_frames_ok: "turns_ok st \<Longrightarrow> turns_ok (foldl (take_frame tool) st fs)"
  by (induction fs arbitrary: st) (simp_all add: take_frame_def take_turns_ok)

lemma take_turn_grows: "set (fst st) \<subseteq> set (fst (take_turn i st rc))"
  by (cases st; cases rc) (auto simp: take_turn_def Let_def)

lemma take_turns_grow: "set (fst st) \<subseteq> set (fst (foldl (take_turn i) st rcs))"
proof (induction rcs arbitrary: st)
  case (Cons rc rcs)
  from Cons.IH [of "take_turn i st rc"] take_turn_grows [of st i rc] show ?case by simp
qed simp

lemma take_frames_grow: "set (fst st) \<subseteq> set (fst (foldl (take_frame tool) st fs))"
proof (induction fs arbitrary: st)
  case (Cons f fs)
  from Cons.IH [of "take_frame tool st f"] take_turns_grow [of st "sc_frame_id f" "candidates tool f"]
  show ?case by (simp add: take_frame_def)
qed simp

text \<open>A turn is settled when taking it again would change nothing.\<close>

definition settled :: "seen_turns \<Rightarrow> artifact_role \<times> ustr \<Rightarrow> bool" where
  "settled seen rc \<longleftrightarrow> normal_turn (snd rc) = [] \<or> duplicate_turn seen (fst rc) (normal_turn (snd rc))"

lemma settled_mono: "settled seen rc \<Longrightarrow> set seen \<subseteq> set seen' \<Longrightarrow> settled seen' rc"
  by (auto simp: settled_def duplicate_turn_iff)

lemma take_turn_settled: "settled (fst (take_turn i st rc)) rc"
  by (cases st; cases rc) (auto simp: take_turn_def settled_def Let_def duplicate_turn_iff contains_def)

lemma settled_take_turn: "settled (fst st) rc \<Longrightarrow> take_turn i st rc = st"
  by (cases st; cases rc) (auto simp: take_turn_def settled_def)

lemma take_turns_settled: "rc \<in> set rcs \<Longrightarrow> settled (fst (foldl (take_turn i) st rcs)) rc"
proof (induction rcs arbitrary: st)
  case (Cons a rcs)
  show ?case
  proof (cases "rc = a")
    case True
    show ?thesis using settled_mono [OF take_turn_settled take_turns_grow] by (simp add: True)
  qed (use Cons in simp)
qed simp

lemma take_frames_settled:
  "f \<in> set fs \<Longrightarrow> rc \<in> set (candidates tool f) \<Longrightarrow> settled (fst (foldl (take_frame tool) st fs)) rc"
proof (induction fs arbitrary: st)
  case (Cons a fs)
  show ?case
  proof (cases "f = a")
    case True
    with Cons.prems have "settled (fst (take_frame tool st a)) rc" by (simp add: take_frame_def take_turns_settled)
    from settled_mono [OF this take_frames_grow] show ?thesis by simp
  qed (use Cons in simp)
qed simp

lemma settled_take_turns: "(\<And>rc. rc \<in> set rcs \<Longrightarrow> settled (fst st) rc) \<Longrightarrow> foldl (take_turn i) st rcs = st"
  by (induction rcs) (simp_all add: settled_take_turn)

lemma settled_take_frames:
  "(\<And>f rc. f \<in> set fs \<Longrightarrow> rc \<in> set (candidates tool f) \<Longrightarrow> settled (fst st) rc) \<Longrightarrow> foldl (take_frame tool) st fs = st"
proof (induction fs)
  case (Cons a fs)
  have "take_frame tool st a = st" unfolding take_frame_def by (rule settled_take_turns) (metis Cons.prems list.set_intros(1))
  moreover have "foldl (take_frame tool) st fs = st" by (rule Cons.IH) (metis Cons.prems list.set_intros(2))
  ultimately show ?case by simp
qed simp

lemma candidates_text: "sc_content_text f = sc_content_text g \<Longrightarrow> candidates tool f = candidates tool g"
  by (simp add: candidates_def)


definition sample_content :: "int \<Rightarrow> string \<Rightarrow> session_content" where
  "sample_content i txt = \<lparr>sc_frame_id = i, sc_captured_at = 10 * i, sc_content_text = lit txt\<rparr>"

definition sample_chat :: "session_content list" where
  "sample_chat = [sample_content 1 (''You: fix the bug'' @ [CHR 0x0A] @ ''Claude: done, tests pass''), sample_content 2 ''You: thanks''] "


section \<open>No invented roles\<close>

lemma tool_role_known: "tool_role tool head \<noteq> None \<Longrightarrow> tool \<in> lit ` {''claude-code'', ''codex'', ''claude-desktop'', ''browser-ai''}"
  by (auto simp: tool_role_def split: if_splits)

lemma marker_known:
  "marker tool line \<noteq> None \<Longrightarrow> tool \<in> lit ` {''claude-code'', ''codex'', ''claude-desktop'', ''browser-ai''}"
  using tool_role_known [of tool] by (auto simp: marker_def colon_marker_def split: if_splits option.splits)

lemma turn_blocks_unmarked:
  "(\<And>l. l \<in> set ls \<Longrightarrow> marker tool (trim l) = None) \<Longrightarrow> turn_blocks tool None ls = []"
  by (induction ls) (auto simp: flush_turn_def Let_def)

lemma foldl_no_candidates:
  "(\<And>f. f \<in> set fs \<Longrightarrow> candidates tool f = []) \<Longrightarrow> foldl (take_frame tool) st fs = st"
  by (rule settled_take_frames) auto

text \<open>Roles are never invented: a session whose tool is none of the four known ones, and a Codex desktop session none of
  whose screens shows the navigation signature, yields no exchange, and text without a single role marker yields none.\<close>

theorem exchanges_need_markers:
  assumes "tool \<notin> lit ` {''claude-code'', ''codex'', ''claude-desktop'', ''browser-ai''}
    \<or> (tool = lit ''codex'' \<and> (\<forall>f\<in>set contents. \<not> has_nav_signature (filter (\<lambda>l. l \<noteq> []) (map trim (str_lines (sc_content_text f))))))
    \<or> (tool \<noteq> lit ''codex'' \<and> (\<forall>f\<in>set contents. \<forall>l\<in>set (str_lines (sc_content_text f)). marker tool (trim l) = None))"
  shows "extract_exchanges tool contents = []"
proof -
  have "candidates tool f = []" if "f \<in> set contents" for f
  proof (cases "tool = lit ''codex''")
    case True
    with assms that show ?thesis by (auto simp: candidates_def codex_desktop_blocks_def Let_def)
  next
    case False
    have "marker tool (trim l) = None" if l: "l \<in> set (str_lines (sc_content_text f))" for l
    proof (cases "tool \<in> lit ` {''claude-code'', ''codex'', ''claude-desktop'', ''browser-ai''}")
      case True
      with assms False have "\<forall>f\<in>set contents. \<forall>l\<in>set (str_lines (sc_content_text f)). marker tool (trim l) = None" by argo
      with \<open>f \<in> set contents\<close> l show ?thesis by blast
    next
      case False
      with marker_known show ?thesis by blast
    qed
    then have "blocks tool (sc_content_text f) = []" unfolding blocks_def by (rule turn_blocks_unmarked)
    with False show ?thesis by (simp add: candidates_def)
  qed
  then have "foldl (take_frame tool) st (sort_key k contents) = st" for st and k :: "session_content \<Rightarrow> int \<times> int"
    by (intro foldl_no_candidates) (metis set_sort)
  then show ?thesis by (simp add: extract_exchanges_def)
qed

theorem exchanges_need_markers_witness:
  "extract_exchanges (lit ''codex'') [sample_content 1 ''You: hello'', sample_content 2 ''Codex''] = []"
proof -
  let ?cs = "[sample_content 1 ''You: hello'', sample_content 2 ''Codex'']"
  have "\<not> has_nav_signature (filter (\<lambda>l. l \<noteq> []) (map trim (str_lines (sc_content_text (sample_content 1 ''You: hello'')))))"
    "\<not> has_nav_signature (filter (\<lambda>l. l \<noteq> []) (map trim (str_lines (sc_content_text (sample_content 2 ''Codex'')))))"
    by code_simp+
  then have "\<forall>f\<in>set ?cs. \<not> has_nav_signature (filter (\<lambda>l. l \<noteq> []) (map trim (str_lines (sc_content_text f))))" by simp
  then show ?thesis using exchanges_need_markers [of "lit ''codex''" ?cs] by blast
qed

text \<open>A later turn contained in an earlier one of the same role is lost, although the crate's comment
  speaks of consecutive duplicates only.\<close>

lemma contained_turn_lost:
  "map ee_content (extract_exchanges (lit ''claude-desktop'')
      [sample_content 1 ''You: look at this'', sample_content 2 ''Claude: ok'', sample_content 3 ''You: at this''])
     = [lit ''look at this'', lit ''ok'']"
  by code_simp

end
