(* ===== verification/Trigger.thy ===== *)
theory Trigger
  imports Prelude
begin

text \<open>
  The event-driven capture trigger machine (\<open>crates/capture/src/trigger.rs\<close>): trailing-edge debounce
  of foreground changes, the edge-detected idle trigger and the global rate ceiling. A run is a list
  of inputs (hook events and polls, with the caller's clock); its emissions are what the polls return.
\<close>

section \<open>Model\<close>

datatype input_event_kind = Foreground

datatype capture_trigger = Timer | Idle | ForegroundChange | ClipboardChange | TypingPause | Click | ScrollStop | Manual

record trigger_config =
  tc_on_foreground :: bool
  tc_on_idle :: bool
  tc_debounce_ms :: int
  tc_min_interval_ms :: int
  tc_idle_threshold_ms :: int

record trigger_machine =
  tg_cfg :: trigger_config
  tg_pending :: "(capture_trigger \<times> int) option"
  tg_last_emit_ms :: "int option"
  tg_fired_idle :: bool

definition new_trigger :: "trigger_config \<Rightarrow> trigger_machine" where
  "new_trigger cfg = \<lparr>tg_cfg = cfg, tg_pending = None, tg_last_emit_ms = None, tg_fired_idle = False\<rparr>"

lemma new_trigger_simps [simp]:
  "tg_cfg (new_trigger cfg) = cfg" "tg_pending (new_trigger cfg) = None" "tg_last_emit_ms (new_trigger cfg) = None"
  "\<not> tg_fired_idle (new_trigger cfg)"
  by (simp_all add: new_trigger_def)

definition on_input_event :: "input_event_kind \<Rightarrow> int \<Rightarrow> trigger_machine \<Rightarrow> trigger_machine" where
  "on_input_event kind now m = (case kind of Foreground \<Rightarrow>
     if tc_on_foreground (tg_cfg m) then m\<lparr>tg_pending := Some (ForegroundChange, now)\<rparr> else m)"

definition try_emit :: "capture_trigger \<Rightarrow> int \<Rightarrow> trigger_machine \<Rightarrow> capture_trigger option \<times> trigger_machine" where
  "try_emit tr now m = (case tg_last_emit_ms m of
     Some l \<Rightarrow> if now - l < tc_min_interval_ms (tg_cfg m) then (None, m) else (Some tr, m\<lparr>tg_last_emit_ms := Some now\<rparr>)
   | None \<Rightarrow> (Some tr, m\<lparr>tg_last_emit_ms := Some now\<rparr>))"

definition rearm :: "int \<Rightarrow> trigger_machine \<Rightarrow> trigger_machine" where
  "rearm idle_ms m = (if idle_ms < tc_idle_threshold_ms (tg_cfg m) then m\<lparr>tg_fired_idle := False\<rparr> else m)"

definition flush_event :: "int \<Rightarrow> trigger_machine \<Rightarrow> capture_trigger option \<times> trigger_machine" where
  "flush_event now m = (case tg_pending m of
     None \<Rightarrow> (None, m)
   | Some (tr, latest) \<Rightarrow>
       if tc_debounce_ms (tg_cfg m) \<le> now - latest
       then (case try_emit tr now m of
           (Some t, m') \<Rightarrow> (Some t, m'\<lparr>tg_pending := None\<rparr>)
         | (None, m') \<Rightarrow> (None, m'))
       else (None, m))"

definition poll_trigger :: "int \<Rightarrow> int \<Rightarrow> trigger_machine \<Rightarrow> capture_trigger option \<times> trigger_machine" where
  "poll_trigger now idle_ms m0 =
     (let m = rearm idle_ms m0
      in if tc_on_idle (tg_cfg m) \<and> tc_idle_threshold_ms (tg_cfg m) \<le> idle_ms \<and> \<not> tg_fired_idle m
         then (case try_emit Idle now m of
             (Some t, m') \<Rightarrow> (Some t, m'\<lparr>tg_fired_idle := True\<rparr>)
           | (None, m') \<Rightarrow> flush_event now m')
         else flush_event now m)"

datatype trigger_input = Input input_event_kind int | Poll int int

text \<open>The captures of a run, with their times.\<close>

fun emissions :: "trigger_machine \<Rightarrow> trigger_input list \<Rightarrow> (capture_trigger \<times> int) list" where
  "emissions m [] = []"
| "emissions m (Input k now # is) = emissions (on_input_event k now m) is"
| "emissions m (Poll now idle_ms # is) = (case poll_trigger now idle_ms m of (e, m') \<Rightarrow>
     (case e of None \<Rightarrow> [] | Some t \<Rightarrow> [(t, now)]) @ emissions m' is)"

section \<open>One poll\<close>

lemma try_emit_cases:
  obtains (blocked) l where "tg_last_emit_ms m = Some l" "now - l < tc_min_interval_ms (tg_cfg m)" "try_emit tr now m = (None, m)"
  | (fired) "\<forall>l. tg_last_emit_ms m = Some l \<longrightarrow> tc_min_interval_ms (tg_cfg m) \<le> now - l"
      "try_emit tr now m = (Some tr, m\<lparr>tg_last_emit_ms := Some now\<rparr>)"
proof (cases "\<exists>l. tg_last_emit_ms m = Some l \<and> now - l < tc_min_interval_ms (tg_cfg m)")
  case True
  with blocked show ?thesis by (auto simp: try_emit_def)
next
  case False
  then show ?thesis by (intro fired) (auto simp: try_emit_def split: option.split)
qed

lemma rearm_simps [simp]:
  "tg_cfg (rearm i m) = tg_cfg m" "tg_pending (rearm i m) = tg_pending m" "tg_last_emit_ms (rearm i m) = tg_last_emit_ms m"
  by (simp_all add: rearm_def)

text \<open>What a poll can do: nothing but re-arm, capture the idle edge, or flush the pending event.\<close>

lemma poll_cases:
  assumes "poll_trigger now idle_ms m = (e, m')"
  obtains (quiet) "e = None" "m' = rearm idle_ms m"
  | (idle) "e = Some Idle" "m' = (rearm idle_ms m)\<lparr>tg_last_emit_ms := Some now, tg_fired_idle := True\<rparr>"
      "tc_on_idle (tg_cfg m)" "tc_idle_threshold_ms (tg_cfg m) \<le> idle_ms" "\<not> tg_fired_idle m"
      "\<forall>l. tg_last_emit_ms m = Some l \<longrightarrow> tc_min_interval_ms (tg_cfg m) \<le> now - l"
  | (flush) tr latest where "e = Some tr" "tg_pending m = Some (tr, latest)" "tc_debounce_ms (tg_cfg m) \<le> now - latest"
      "m' = (rearm idle_ms m)\<lparr>tg_last_emit_ms := Some now, tg_pending := None\<rparr>"
      "\<forall>l. tg_last_emit_ms m = Some l \<longrightarrow> tc_min_interval_ms (tg_cfg m) \<le> now - l"
proof -
  let ?m = "rearm idle_ms m"
  have fl: thesis if "flush_event now ?m = (e, m')"
  proof (cases "tg_pending m")
    case None
    with that quiet show ?thesis by (simp add: flush_event_def)
  next
    case (Some p)
    obtain tr latest where p: "p = (tr, latest)" by fastforce
    show ?thesis
    proof (cases "tc_debounce_ms (tg_cfg m) \<le> now - latest")
      case True
      show ?thesis
        by (rule try_emit_cases [of ?m now tr]) (use that True Some p quiet flush in \<open>auto simp: flush_event_def\<close>)
    next
      case False
      with that Some p quiet show ?thesis by (simp add: flush_event_def)
    qed
  qed
  show ?thesis
  proof (cases "tc_on_idle (tg_cfg ?m) \<and> tc_idle_threshold_ms (tg_cfg ?m) \<le> idle_ms \<and> \<not> tg_fired_idle ?m")
    case True
    then have "\<not> tg_fired_idle m" by (auto simp: rearm_def split: if_splits)
    with True fl idle assms show ?thesis
      by (rule_tac try_emit_cases [of ?m now Idle]) (auto simp: poll_trigger_def Let_def)
  next
    case False
    with fl assms show ?thesis by (auto simp: poll_trigger_def Let_def)
  qed
qed

lemma poll_cfg [simp]: "tg_cfg (snd (poll_trigger now idle_ms m)) = tg_cfg m"
proof -
  obtain e m' where p: "poll_trigger now idle_ms m = (e, m')" by fastforce
  from p show ?thesis by (rule poll_cases) (simp_all add: p)
qed

lemma event_simps [simp]:
  "tg_cfg (on_input_event k now m) = tg_cfg m" "tg_last_emit_ms (on_input_event k now m) = tg_last_emit_ms m"
  "tg_fired_idle (on_input_event k now m) = tg_fired_idle m"
  by (simp_all add: on_input_event_def split: input_event_kind.split)

section \<open>Runs\<close>

lemma emissions_spaced:
  assumes "0 \<le> tc_min_interval_ms (tg_cfg m)"
  shows "sorted_wrt (\<lambda>a b. a + tc_min_interval_ms (tg_cfg m) \<le> b)
     ((case tg_last_emit_ms m of None \<Rightarrow> [] | Some l \<Rightarrow> [l]) @ map snd (emissions m is))"
  using assms
proof (induction m "is" rule: emissions.induct)
  case (3 m now idle_ms "is")
  obtain e m' where p: "poll_trigger now idle_ms m = (e, m')" by fastforce
  have cfg: "tg_cfg m' = tg_cfg m" using poll_cfg [of now idle_ms m] by (simp add: p)
  note IH = 3(1) [OF p [symmetric], unfolded cfg, OF 3(2)]
  from p show ?case
  proof (cases rule: poll_cases)
    case quiet
    with IH show ?thesis by (simp add: p)
  next
    case idle
    with IH 3(2) show ?thesis by (force simp: p split: option.splits)
  next
    case (flush tr latest)
    with IH 3(2) show ?thesis by (force simp: p split: option.splits)
  qed
qed (auto split: option.splits)

text \<open>The rate ceiling holds over every run, whatever the inputs and the clock: any two captures of a run are at least
  the minimum interval apart, the later one later.\<close>

theorem trigger_rate_ceiling:
  assumes "0 \<le> tc_min_interval_ms cfg"
  shows "sorted_wrt (\<lambda>a b. snd a + tc_min_interval_ms cfg \<le> snd b) (emissions (new_trigger cfg) is)"
  using emissions_spaced [of "new_trigger cfg" "is"] assms by (simp add: sorted_wrt_map)

definition sample_trigger :: trigger_config where
  "sample_trigger = \<lparr>tc_on_foreground = True, tc_on_idle = True, tc_debounce_ms = 100, tc_min_interval_ms = 1000, tc_idle_threshold_ms = 5000\<rparr>"

definition sample_inputs :: "trigger_input list" where
  "sample_inputs = [Input Foreground 0, Input Foreground 50, Poll 120 0, Poll 150 0, Input Foreground 200, Poll 400 0,
     Poll 1200 0, Poll 6000 5000, Poll 7500 6500, Poll 8000 0, Poll 14000 6000]"

theorem trigger_rate_ceiling_witness:
  "emissions (new_trigger sample_trigger) sample_inputs
     = [(ForegroundChange, 150), (ForegroundChange, 1200), (Idle, 6000), (Idle, 14000)]
   \<and> snd (ForegroundChange, 150::int) + 1000 \<le> snd (ForegroundChange, 1200::int)"
proof -
  have e: "emissions (new_trigger sample_trigger) sample_inputs
     = [(ForegroundChange, 150), (ForegroundChange, 1200), (Idle, 6000), (Idle, 14000)]" by code_simp
  have "0 \<le> tc_min_interval_ms sample_trigger" by (simp add: sample_trigger_def)
  from trigger_rate_ceiling [OF this, of sample_inputs] show ?thesis unfolding e by (simp add: sample_trigger_def)
qed

text \<open>The captures of each kind, and what can cause them.\<close>

definition count_trigger :: "capture_trigger \<Rightarrow> (capture_trigger \<times> int) list \<Rightarrow> nat" where
  "count_trigger t es = length (filter (\<lambda>e. fst e = t) es)"

definition count_events :: "trigger_input list \<Rightarrow> nat" where
  "count_events is = length (filter (\<lambda>i. case i of Input k now \<Rightarrow> True | Poll now idle \<Rightarrow> False) is)"

definition count_active :: "int \<Rightarrow> trigger_input list \<Rightarrow> nat" where
  "count_active threshold is = length (filter (\<lambda>i. case i of Input k now \<Rightarrow> False | Poll now idle \<Rightarrow> idle < threshold) is)"

definition pending_fg :: "trigger_machine \<Rightarrow> bool" where
  "pending_fg m \<longleftrightarrow> (case tg_pending m of None \<Rightarrow> True | Some (tr, t) \<Rightarrow> tr = ForegroundChange \<and> tc_on_foreground (tg_cfg m))"

lemma emissions_caused:
  assumes "pending_fg m"
  shows "set (map fst (emissions m is)) \<subseteq> {ForegroundChange, Idle}
    \<and> count_trigger ForegroundChange (emissions m is) \<le> (if tg_pending m = None then 0 else 1) + (if tc_on_foreground (tg_cfg m) then count_events is else 0)
    \<and> count_trigger Idle (emissions m is)
        \<le> (if tc_on_idle (tg_cfg m) then (if tg_fired_idle m then 0 else 1) + count_active (tc_idle_threshold_ms (tg_cfg m)) is else 0)"
  using assms
proof (induction m "is" rule: emissions.induct)
  case (1 m)
  then show ?case by (simp add: count_trigger_def)
next
  case (2 m k now "is")
  have "pending_fg (on_input_event k now m)"
    using 2(2) by (simp add: pending_fg_def on_input_event_def split: input_event_kind.split)
  from 2(1) [OF this] show ?case
    by (cases k) (auto simp: count_events_def count_active_def on_input_event_def split: if_splits)
next
  case (3 m now idle_ms "is")
  obtain e m' where p: "poll_trigger now idle_ms m = (e, m')" by fastforce
  have cfg: "tg_cfg m' = tg_cfg m" using poll_cfg [of now idle_ms m] by (simp add: p)
  from p show ?case
  proof (cases rule: poll_cases)
    case quiet
    then have "pending_fg m'" using 3(2) by (auto simp: pending_fg_def split: option.splits)
    from 3(1) [OF p [symmetric] this] quiet show ?thesis
      by (auto simp: p count_events_def count_active_def rearm_def split: if_splits)
  next
    case idle
    then have "pending_fg m'" using 3(2) by (auto simp: pending_fg_def split: option.splits)
    from 3(1) [OF p [symmetric] this] idle show ?thesis
      by (auto simp: p cfg count_events_def count_active_def count_trigger_def split: if_splits)
  next
    case (flush tr latest)
    then have "pending_fg m'" "tr = ForegroundChange" "tc_on_foreground (tg_cfg m)"
      using 3(2) by (simp_all add: pending_fg_def)
    from 3(1) [OF p [symmetric] this(1)] this flush show ?thesis
      by (auto simp: p cfg count_events_def count_active_def count_trigger_def rearm_def split: if_splits)
  qed
qed

text \<open>Every capture of a run has its own cause: only foreground and idle captures occur, there are at most as many
  foreground captures as foreground events (bursts coalesce, nothing is captured twice), at most one idle capture more
  than there were polls with the user active (one per quiet period), and a disabled trigger never fires.\<close>

theorem trigger_captures_caused:
  "set (map fst (emissions (new_trigger cfg) is)) \<subseteq> {ForegroundChange, Idle}
   \<and> count_trigger ForegroundChange (emissions (new_trigger cfg) is) \<le> (if tc_on_foreground cfg then count_events is else 0)
   \<and> count_trigger Idle (emissions (new_trigger cfg) is)
       \<le> (if tc_on_idle cfg then 1 + count_active (tc_idle_threshold_ms cfg) is else 0)"
  using emissions_caused [of "new_trigger cfg" "is"] by (auto simp: pending_fg_def split: if_splits)

text \<open>C39: The ceiling delays a capture, it never drops one: a foreground event that is pending stays pending through every
  poll that does not capture it, and it is captured by the first poll that finds the burst settled, the ceiling free
  and no idle edge to capture instead.\<close>

theorem pending_event_not_lost:
  assumes "tg_pending m = Some (tr, latest)"
  shows "(case poll_trigger now idle_ms m of (e, m') \<Rightarrow>
      (tg_pending m' = Some (tr, latest) \<or> (tg_pending m' = None \<and> e = Some tr \<and> tc_debounce_ms (tg_cfg m) \<le> now - latest))
    \<and> (tc_debounce_ms (tg_cfg m) \<le> now - latest
        \<and> (\<forall>l. tg_last_emit_ms m = Some l \<longrightarrow> tc_min_interval_ms (tg_cfg m) \<le> now - l)
        \<and> (\<not> tc_on_idle (tg_cfg m) \<or> idle_ms < tc_idle_threshold_ms (tg_cfg m) \<or> tg_fired_idle m)
       \<longrightarrow> e = Some tr \<and> tg_pending m' = None))"
proof -
  obtain e m' where p: "poll_trigger now idle_ms m = (e, m')" by fastforce
  have keep: "tg_pending m' = Some (tr, latest) \<or> (tg_pending m' = None \<and> e = Some tr \<and> tc_debounce_ms (tg_cfg m) \<le> now - latest)"
    using p by (rule poll_cases) (use assms in auto)
  moreover have "e = Some tr \<and> tg_pending m' = None"
    if d: "tc_debounce_ms (tg_cfg m) \<le> now - latest" "\<forall>l. tg_last_emit_ms m = Some l \<longrightarrow> tc_min_interval_ms (tg_cfg m) \<le> now - l"
      "\<not> tc_on_idle (tg_cfg m) \<or> idle_ms < tc_idle_threshold_ms (tg_cfg m) \<or> tg_fired_idle m"
  proof -
    have "\<not> (tc_on_idle (tg_cfg m) \<and> tc_idle_threshold_ms (tg_cfg m) \<le> idle_ms \<and> \<not> tg_fired_idle (rearm idle_ms m))"
      using d(3) by (auto simp: rearm_def)
    then have "flush_event now (rearm idle_ms m) = (e, m')" using p by (auto simp: poll_trigger_def Let_def)
    moreover have "try_emit tr now (rearm idle_ms m) = (Some tr, (rearm idle_ms m)\<lparr>tg_last_emit_ms := Some now\<rparr>)"
      using d(2) by (auto simp: try_emit_def split: option.split)
    ultimately show ?thesis using d(1) assms by (auto simp: flush_event_def)
  qed
  ultimately show ?thesis by (simp add: p)
qed

theorem pending_event_not_lost_witness:
  "fst (poll_trigger 200 0 (on_input_event Foreground 50 (new_trigger sample_trigger))) = Some ForegroundChange"
proof -
  let ?m = "on_input_event Foreground 50 (new_trigger sample_trigger)"
  have "tg_pending ?m = Some (ForegroundChange, 50)" by (simp add: on_input_event_def new_trigger_def sample_trigger_def)
  from pending_event_not_lost [OF this, of 200 0] show ?thesis
    by (simp add: new_trigger_def sample_trigger_def case_prod_beta on_input_event_def)
qed

end
