(* ===== verification/Capture_Rules.thy ===== *)
theory Capture_Rules
  imports Trigger
begin

text \<open>
  The pure rules around a captured frame: the diff gate (\<open>crates/capture/src/diff.rs\<close>), the privacy
  matcher (\<open>crates/traits/src/privacy.rs\<close>, \<open>crates/capture/src/privacy.rs\<close>), the gates and word splitting of
  the UIA walk (\<open>crates/uia/src/classify.rs\<close>) and its rectangle normalization (\<open>crates/uia/src/geometry.rs\<close>).
  Coordinates and ratios are rationals. The blake3 content hash is not modelled.
\<close>

section \<open>Diff gate\<close>

definition grid :: nat where "grid = 32"

record image_rgba =
  im_width :: nat
  im_height :: nat
  im_pixel :: "nat \<Rightarrow> nat \<Rightarrow> nat \<times> nat \<times> nat"

record fingerprint =
  fp_width :: nat
  fp_height :: nat
  fp_luma :: "nat list"

definition luma :: "nat \<times> nat \<times> nat \<Rightarrow> nat" where
  "luma p = (case p of (r, g, b) \<Rightarrow> (77 * r + 150 * g + 29 * b) div 256)"

definition sample_at :: "nat \<Rightarrow> nat \<Rightarrow> nat" where
  "sample_at g len = min (g * len div grid) (len - 1)"

definition fingerprint_of :: "image_rgba \<Rightarrow> fingerprint" where
  "fingerprint_of img =
     (let iw = max (im_width img) 1; ih = max (im_height img) 1
      in \<lparr>fp_width = im_width img, fp_height = im_height img,
          fp_luma = concat (map (\<lambda>gy. map (\<lambda>gx. luma (im_pixel img (sample_at gx iw) (sample_at gy ih))) [0..<grid]) [0..<grid])\<rparr>)"

definition abs_diff :: "nat \<Rightarrow> nat \<Rightarrow> nat" where
  "abs_diff x y = (if x < y then y - x else x - y)"

definition luma_sum :: "nat list \<Rightarrow> nat list \<Rightarrow> nat" where
  "luma_sum xs ys = sum_list (map (\<lambda>(x, y). abs_diff x y) (zip xs ys))"

definition difference :: "fingerprint \<Rightarrow> fingerprint \<Rightarrow> rat" where
  "difference a b =
     (if fp_width a \<noteq> fp_width b \<or> fp_height a \<noteq> fp_height b then 1
      else of_nat (luma_sum (fp_luma a) (fp_luma b)) / (of_nat (length (fp_luma a)) * 255))"

definition gate_passes :: "bool \<Rightarrow> fingerprint option \<Rightarrow> fingerprint \<Rightarrow> rat \<Rightarrow> bool" where
  "gate_passes bypass prev fp threshold \<longleftrightarrow>
     bypass \<or> (case prev of None \<Rightarrow> True | Some p \<Rightarrow> threshold < difference p fp)"

section \<open>Privacy\<close>

definition lowered :: "ustr option \<Rightarrow> ustr" where
  "lowered v = to_ascii_lowercase (case v of None \<Rightarrow> [] | Some s \<Rightarrow> s)"

definition is_excluded :: "ustr option \<Rightarrow> ustr option \<Rightarrow> ustr list \<Rightarrow> bool" where
  "is_excluded app title excl = list_ex (\<lambda>e.
     (let needle = to_ascii_lowercase (trim e)
      in needle \<noteq> [] \<and> (contains (lowered app) needle \<or> contains (lowered title) needle))) excl"

definition is_own_window_pid :: "int \<Rightarrow> int \<Rightarrow> bool" where
  "is_own_window_pid fg_pid own_pid \<longleftrightarrow> fg_pid \<noteq> 0 \<and> own_pid \<noteq> 0 \<and> fg_pid = own_pid"

section \<open>UIA walk rules\<close>

definition containers :: "int list" where
  "containers = [50033, 50032, 50026, 50021, 50010, 50023, 50008, 50036, 50014, 50038, 50018, 50037]"

definition is_container :: "int \<Rightarrow> bool" where "is_container ct \<longleftrightarrow> ct \<in> set containers"

definition should_emit :: "int \<Rightarrow> bool \<Rightarrow> bool \<Rightarrow> bool" where
  "should_emit ct is_password is_offscreen \<longleftrightarrow> \<not> is_password \<and> \<not> is_offscreen \<and> \<not> is_container ct"

definition control_type_wants_textpattern :: "int \<Rightarrow> bool" where
  "control_type_wants_textpattern ct \<longleftrightarrow> ct \<in> {50030, 50004, 50020}"

definition trigger_runs_uia :: "capture_trigger \<Rightarrow> bool" where
  "trigger_runs_uia t = (case t of ScrollStop \<Rightarrow> False | Click \<Rightarrow> False | Timer \<Rightarrow> True | Idle \<Rightarrow> True
     | TypingPause \<Rightarrow> True | ForegroundChange \<Rightarrow> True | ClipboardChange \<Rightarrow> True | Manual \<Rightarrow> True)"

definition input_gate_skips_uia :: "capture_trigger \<Rightarrow> int \<Rightarrow> int \<Rightarrow> bool" where
  "input_gate_skips_uia t ms_since_last_input suppress_window_ms =
     (if suppress_window_ms = 0 then False else t = Timer \<and> ms_since_last_input < suppress_window_ms)"

definition is_chromium_window_class :: "ustr \<Rightarrow> bool" where
  "is_chromium_window_class class_name = starts_with class_name (lit ''Chrome_WidgetWin_'')"

fun number_lines :: "ustr list \<Rightarrow> int \<Rightarrow> (int \<times> ustr) list \<times> int" where
  "number_lines [] line = ([], line)"
| "number_lines (raw # ls) line =
     (let ws = split_whitespace raw
      in case number_lines ls (if ws \<noteq> [] then line + 1 else line) of
           (out, end_line) \<Rightarrow> (map (\<lambda>w. (line, w)) ws @ out, end_line))"

definition split_words :: "ustr \<Rightarrow> int \<Rightarrow> (int \<times> ustr) list \<times> int" where
  "split_words txt first_line = number_lines (split_on (\<lambda>c. c = 10) txt) first_line"

section \<open>Rectangles\<close>

definition normalize_screen_rect ::
  "int \<Rightarrow> int \<Rightarrow> int \<Rightarrow> int \<Rightarrow> int \<times> int \<Rightarrow> int \<times> int \<Rightarrow> rat \<times> rat \<times> rat \<times> rat" where
  "normalize_screen_rect l t r b origin frame_size = (case origin of (mon_left, mon_top) \<Rightarrow> (case frame_size of (frame_w, frame_h) \<Rightarrow>
     if frame_w = 0 \<or> frame_h = 0 \<or> r \<le> l \<or> b \<le> t then (0, 0, 0, 0)
     else (let fw = of_int frame_w; fh = of_int frame_h;
               vis_left = max l mon_left; vis_top = max t mon_top;
               x = clamp (of_int (vis_left - mon_left) / fw) 0 1;
               y = clamp (of_int (vis_top - mon_top) / fh) 0 1;
               w = clamp (of_int (r - vis_left) / fw) 0 (1 - x);
               h = clamp (of_int (b - vis_top) / fh) 0 (1 - y)
           in (x, y, w, h))))"

section \<open>Properties\<close>

lemma luma_byte: "r \<le> 255 \<Longrightarrow> g \<le> 255 \<Longrightarrow> b \<le> 255 \<Longrightarrow> luma (r, g, b) \<le> 255"
  by (simp add: luma_def)

definition byte_image :: "image_rgba \<Rightarrow> bool" where
  "byte_image img \<longleftrightarrow> (\<forall>x y. case im_pixel img x y of (r, g, b) \<Rightarrow> r \<le> 255 \<and> g \<le> 255 \<and> b \<le> 255)"

lemma fingerprint_luma:
  assumes "byte_image img" "v \<in> set (fp_luma (fingerprint_of img))"
  shows "v \<le> 255"
proof -
  from assms(2) obtain x y where v: "v = luma (im_pixel img x y)" by (auto simp: fingerprint_of_def Let_def)
  obtain r g b where p: "im_pixel img x y = (r, g, b)" by (metis surj_pair)
  from assms(1) have "\<forall>x y. case im_pixel img x y of (r, g, b) \<Rightarrow> r \<le> 255 \<and> g \<le> 255 \<and> b \<le> 255"
    by (simp add: byte_image_def)
  from spec [OF spec [OF this, of x], of y] show ?thesis unfolding v p by (simp add: luma_byte)
qed

lemma fingerprint_length: "length (fp_luma (fingerprint_of img)) = grid * grid"
  by (simp add: fingerprint_of_def Let_def length_concat comp_def sum_list_triv)

lemma luma_sum_le:
  "\<forall>x\<in>set xs. x \<le> c \<Longrightarrow> \<forall>y\<in>set ys. y \<le> c \<Longrightarrow> luma_sum xs ys \<le> length xs * c"
proof (induction xs arbitrary: ys)
  case (Cons x xs)
  show ?case
  proof (cases ys)
    case (Cons y ys')
    with Cons.IH [of ys'] Cons.prems have "luma_sum xs ys' \<le> length xs * c" by simp
    moreover have "abs_diff x y \<le> c" using Cons.prems Cons by (auto simp: abs_diff_def)
    ultimately show ?thesis using Cons by (simp add: luma_sum_def)
  qed (simp add: luma_sum_def)
qed (simp add: luma_sum_def)

lemma luma_sum_sym: "luma_sum xs ys = luma_sum ys xs"
proof (induction xs arbitrary: ys)
  case (Cons x xs)
  show ?case
  proof (cases ys)
    case (Cons y ys')
    with Cons.IH [of ys'] show ?thesis by (simp add: luma_sum_def abs_diff_def)
  qed (simp add: luma_sum_def)
qed (simp add: luma_sum_def)

lemma luma_sum_0: "length xs = length ys \<Longrightarrow> luma_sum xs ys = 0 \<longleftrightarrow> xs = ys"
  by (induction xs ys rule: list_induct2) (auto simp: luma_sum_def abs_diff_def)

text \<open>The change metric of the diff gate is a normalized distance on the fingerprints of real images: it lies between 0
  and 1, it is symmetric and it is 0 exactly for equal fingerprints; so with a non-negative threshold a frame that looks
  the same is dropped unless demanded, and a first, demanded or resized frame (threshold below 1) always passes.\<close>

theorem diff_gate_metric:
  assumes "byte_image p" "byte_image q"
  shows "0 \<le> difference (fingerprint_of p) (fingerprint_of q) \<and> difference (fingerprint_of p) (fingerprint_of q) \<le> 1
    \<and> difference (fingerprint_of p) (fingerprint_of q) = difference (fingerprint_of q) (fingerprint_of p)
    \<and> (difference (fingerprint_of p) (fingerprint_of q) = 0 \<longleftrightarrow> fingerprint_of p = fingerprint_of q)
    \<and> (0 \<le> threshold \<longrightarrow> \<not> gate_passes False (Some (fingerprint_of p)) (fingerprint_of p) threshold)
    \<and> gate_passes bypass None (fingerprint_of q) threshold \<and> gate_passes True prev (fingerprint_of q) threshold
    \<and> (threshold < 1 \<and> (im_width p \<noteq> im_width q \<or> im_height p \<noteq> im_height q)
        \<longrightarrow> gate_passes bypass (Some (fingerprint_of p)) (fingerprint_of q) threshold)"
proof -
  let ?p = "fingerprint_of p" and ?q = "fingerprint_of q"
  have len: "length (fp_luma ?p) = 1024" "length (fp_luma ?q) = 1024" by (simp_all add: fingerprint_length grid_def)
  have "luma_sum (fp_luma ?p) (fp_luma ?q) \<le> 1024 * 255"
    using luma_sum_le [of "fp_luma ?p" 255 "fp_luma ?q"] fingerprint_luma assms len by simp
  then have le: "(of_nat (luma_sum (fp_luma ?p) (fp_luma ?q)) :: rat) \<le> 1024 * 255" by (metis of_nat_le_iff of_nat_mult of_nat_numeral)
  have wh: "fp_width ?p = im_width p" "fp_height ?p = im_height p" "fp_width ?q = im_width q" "fp_height ?q = im_height q"
    by (simp_all add: fingerprint_of_def Let_def)
  have zero: "difference ?p ?q = 0 \<longleftrightarrow> ?p = ?q"
    using luma_sum_0 [of "fp_luma ?p" "fp_luma ?q"] len by (auto simp: difference_def)
  have self: "difference ?p ?p = 0" using luma_sum_0 [of "fp_luma ?p" "fp_luma ?p"] by (simp add: difference_def)
  have "0 \<le> difference ?p ?q \<and> difference ?p ?q \<le> 1" using le len by (simp add: difference_def)
  moreover have "difference ?p ?q = difference ?q ?p"
    using len luma_sum_sym [of "fp_luma ?p" "fp_luma ?q"] by (simp add: difference_def)
  moreover have "threshold < difference ?p ?q" if "threshold < 1" "im_width p \<noteq> im_width q \<or> im_height p \<noteq> im_height q"
    using that by (auto simp: difference_def wh)
  ultimately show ?thesis using zero self by (auto simp: gate_passes_def)
qed

definition flat_image :: "nat \<Rightarrow> image_rgba" where
  "flat_image v = \<lparr>im_width = 64, im_height = 48, im_pixel = (\<lambda>x y. (v, v, v))\<rparr>"

theorem diff_gate_metric_witness:
  "difference (fingerprint_of (flat_image 0)) (fingerprint_of (flat_image 255)) \<le> 1
   \<and> gate_passes True None (fingerprint_of (flat_image 255)) (1 / 100)"
  using diff_gate_metric [of "flat_image 0" "flat_image 255" 0 True None] by (simp add: byte_image_def flat_image_def gate_passes_def)

text \<open>The words of a text, numbered by line.\<close>

lemma split_on_append: "split_on P (xs @ c # ys) = split_on P xs @ split_on P ys" if "P c"
proof (induction xs)
  case (Cons x xs)
  then show ?case by (cases "split_on P xs") auto
qed (simp add: that)

lemma split_on_single: "\<forall>c\<in>set xs. \<not> P c \<Longrightarrow> split_on P xs = [xs]"
  by (induction xs) auto

text \<open>Splitting at more separators refines the pieces.\<close>

lemma split_on_refine:
  assumes "\<And>c. Q c \<Longrightarrow> P c"
  shows "concat (map (split_on P) (split_on Q s)) = split_on P s"
proof (induction s)
  case (Cons c s)
  obtain w ws where w: "split_on Q s = w # ws" by (cases "split_on Q s") auto
  show ?case
  proof (cases "Q c")
    case True
    with Cons assms show ?thesis by simp
  next
    case False
    obtain v vs where v: "split_on P w = v # vs" by (cases "split_on P w") auto
    have "split_on P s = v # vs @ concat (map (split_on P) ws)" using Cons.IH by (simp add: w v)
    with False show ?thesis by (simp add: w v)
  qed
qed simp

lemma split_whitespace_lines: "concat (map split_whitespace (split_on (\<lambda>c. c = 10) s)) = split_whitespace s"
proof -
  have "concat (map (\<lambda>l. filter (\<lambda>w. w \<noteq> []) (split_on is_ws l)) (split_on (\<lambda>c. c = 10) s))
      = filter (\<lambda>w. w \<noteq> []) (concat (map (split_on is_ws) (split_on (\<lambda>c. c = 10) s)))"
    by (simp add: filter_concat comp_def)
  also have "\<dots> = filter (\<lambda>w. w \<noteq> []) (split_on is_ws s)"
    by (subst split_on_refine) (simp_all add: is_ws_def)
  finally show ?thesis by (simp add: split_whitespace_def [abs_def])
qed

lemma number_lines_spec:
  "number_lines ls n = (out, m) \<Longrightarrow>
     map snd out = concat (map split_whitespace ls) \<and> sorted (map fst out) \<and> n \<le> m \<and> fst ` set out = {n..<m}"
proof (induction ls arbitrary: n out m)
  case (Cons l ls)
  let ?ws = "split_whitespace l"
  obtain out' where o': "number_lines ls (if ?ws \<noteq> [] then n + 1 else n) = (out', m)" and out: "out = map (\<lambda>w. (n, w)) ?ws @ out'"
    using Cons.prems by (auto simp: Let_def split: prod.splits)
  note IH = Cons.IH [OF o']
  show ?case
  proof (cases "?ws = []")
    case True
    with IH out show ?thesis by simp
  next
    case False
    with IH have "fst ` set out' = {n + 1..<m}" "n + 1 \<le> m" "sorted (map fst out')" "map snd out' = concat (map split_whitespace ls)" by simp_all
    moreover have "fst ` set (map (\<lambda>w. (n, w)) ?ws) = {n}" using False by (cases ?ws) auto
    ultimately show ?thesis unfolding out using False
      by (auto simp: sorted_append comp_def image_Un map_replicate_const simp flip: image_set)
  qed
qed simp

text \<open>Splitting a block of UIA text loses no word and invents none: the words are exactly the whitespace-separated words of the
  text in order, their line indices never decrease and leave no gap from the first index to the next free one.\<close>

theorem split_words_complete:
  "map snd (fst (split_words txt first_line)) = split_whitespace txt
   \<and> sorted (map fst (fst (split_words txt first_line)))
   \<and> fst ` set (fst (split_words txt first_line)) = {first_line..<snd (split_words txt first_line)}"
  using number_lines_spec [OF prod.collapse [symmetric], of "split_on (\<lambda>c. c = 10) txt" first_line]
  by (simp add: split_words_def split_whitespace_lines)

text \<open>A normalized UIA rectangle always lies inside the unit frame with non-negative extent, and for a rectangle wholly on the
  captured monitor it is the exact affine image (nothing is clipped).\<close>

theorem screen_rect_in_frame:
  assumes "normalize_screen_rect l t r b (ml, mt) (fw, fh) = (x, y, w, h)"
    and "0 \<le> fw" "0 \<le> fh"
  shows "0 \<le> x \<and> 0 \<le> y \<and> 0 \<le> w \<and> 0 \<le> h \<and> x + w \<le> 1 \<and> y + h \<le> 1
    \<and> (0 < fw \<and> 0 < fh \<and> ml \<le> l \<and> l < r \<and> r \<le> ml + fw \<and> mt \<le> t \<and> t < b \<and> b \<le> mt + fh
       \<longrightarrow> x = of_int (l - ml) / of_int fw \<and> w = of_int (r - l) / of_int fw
         \<and> y = of_int (t - mt) / of_int fh \<and> h = of_int (b - t) / of_int fh)"
proof -
  have c: "0 \<le> clamp v 0 1 \<and> clamp v 0 1 \<le> 1" for v :: rat by (auto simp: clamp_def)
  have c2: "0 \<le> clamp v 0 (1 - clamp u 0 1) \<and> clamp v 0 (1 - clamp u 0 1) \<le> 1 - clamp u 0 1" for u v :: rat
    using c [of u] by (auto simp: clamp_def)
  have exact: "clamp (of_int (p - m) / of_int f) 0 1 = (of_int (p - m) / of_int f :: rat)
      \<and> clamp (of_int (q - p) / of_int f) 0 (1 - of_int (p - m) / of_int f) = (of_int (q - p) / of_int f :: rat)"
    if "0 < f" "m \<le> p" "p < q" "q \<le> m + f" for p q m f :: int
  proof -
    have "of_int (p - m) \<le> (of_int f :: rat)" "of_int (p - m) + of_int (q - p) \<le> (of_int f :: rat)"
      using that by (simp_all flip: of_int_add of_int_diff)
    then have "of_int (p - m) / of_int f \<le> (1 :: rat)" "of_int (p - m) / of_int f + of_int (q - p) / of_int f \<le> (1 :: rat)"
      using that(1) by (simp_all add: divide_le_eq flip: add_divide_distrib)
    moreover have "0 \<le> (of_int (p - m) / of_int f :: rat)" "0 \<le> (of_int (q - p) / of_int f :: rat)" using that by simp_all
    ultimately show ?thesis by (auto intro!: clamp_id)
  qed
  show ?thesis
  proof (cases "fw = 0 \<or> fh = 0 \<or> r \<le> l \<or> b \<le> t")
    case True
    with assms(1) show ?thesis by (auto simp: normalize_screen_rect_def)
  next
    case False
    then have e: "x = clamp (of_int (max l ml - ml) / of_int fw) 0 1" "y = clamp (of_int (max t mt - mt) / of_int fh) 0 1"
      "w = clamp (of_int (r - max l ml) / of_int fw) 0 (1 - x)" "h = clamp (of_int (b - max t mt) / of_int fh) 0 (1 - y)"
      using assms(1) by (auto simp: normalize_screen_rect_def Let_def)
    have "0 \<le> x \<and> 0 \<le> y \<and> 0 \<le> w \<and> 0 \<le> h \<and> x + w \<le> 1 \<and> y + h \<le> 1"
      unfolding e(3,4) using c c2 by (simp add: e(1,2) le_diff_eq add.commute)
    moreover have "x = of_int (l - ml) / of_int fw \<and> w = of_int (r - l) / of_int fw \<and> y = of_int (t - mt) / of_int fh \<and> h = of_int (b - t) / of_int fh"
      if "0 < fw \<and> 0 < fh \<and> ml \<le> l \<and> l < r \<and> r \<le> ml + fw \<and> mt \<le> t \<and> t < b \<and> b \<le> mt + fh"
    proof -
      have m: "max l ml = l" "max t mt = t" using that by simp_all
      show ?thesis using e exact [of fw ml l r] exact [of fh mt t b] that unfolding m by simp
    qed
    ultimately show ?thesis by blast
  qed
qed

theorem screen_rect_in_frame_witness:
  "normalize_screen_rect (-50) 100 50 300 (0, 0) (100, 400) = (0, 1 / 4, 1 / 2, 1 / 2) \<and> (0::rat) + 1 / 2 \<le> 1"
proof -
  have "normalize_screen_rect (-50) 100 50 300 (0, 0) (100, 400) = (0, 1 / 4, 1 / 2, 1 / 2)"
    by (simp add: normalize_screen_rect_def clamp_def)
  with screen_rect_in_frame [OF this] show ?thesis by simp
qed

end
