(* ===== verification/Resume.thy ===== *)
theory Resume
  imports Capture_Rules
begin

text \<open>
  Where-was-i (\<open>crates/kernel/src/resume.rs\<close>): context keys, raw segments, runs consolidated over brief
  excursions, and the choice of the last sustained context before the anchor. The hash map of the gap
  test is an association list; only its values are read. The frames are a parameter of the pure
  function, newest first, as the store returns them.
\<close>

section \<open>Model\<close>

record frame_context_row =
  fx_frame_id :: int
  fx_captured_at :: int
  fx_app_hint :: "ustr option"
  fx_window_title :: "ustr option"
  fx_browser_url :: "ustr option"
  fx_image_path :: ustr
  fx_image_purged :: bool

record resume_params =
  rp_min_dwell_ms :: int
  rp_excluded_apps :: "ustr list"

record resume_context =
  rx_frame_id :: int
  rx_app :: ustr
  rx_window_title :: "ustr option"
  rx_browser_url :: "ustr option"
  rx_span_start :: int
  rx_span_end :: int
  rx_image_path :: ustr
  rx_image_purged :: bool

record ctx_key =
  ck_app :: ustr
  ck_domain :: "ustr option"

text \<open>A \<open>Segment\<close> and a \<open>Run\<close> have the same fields.\<close>

record resume_run =
  rr_key :: ctx_key
  rr_first_ts :: int
  rr_last_ts :: int
  rr_rep :: nat

definition resume_scan_cap :: nat where "resume_scan_cap = 4000"

definition resume_domain :: "ustr option \<Rightarrow> ustr option" where
  "resume_domain url = (case url of None \<Rightarrow> None | Some raw \<Rightarrow>
     (let u = trim raw in
      if u = [] then None
      else (let after_scheme = (case split_once u (lit ''://'') of None \<Rightarrow> u | Some (_, rest) \<Rightarrow> rest);
                host0 = hd (split_on (\<lambda>c. c \<in> set (lit ''/?:#'')) after_scheme);
                host = trim (case strip_prefix host0 (lit ''www.'') of None \<Rightarrow> host0 | Some h \<Rightarrow> h)
            in if host \<noteq> [] then Some (to_ascii_lowercase host) else None)))"

definition resume_key :: "frame_context_row \<Rightarrow> ctx_key option" where
  "resume_key row = (case fx_app_hint row of None \<Rightarrow> None | Some hint \<Rightarrow>
     (let app = trim hint in
      if app = [] then None
      else Some \<lparr>ck_app = to_ascii_lowercase app, ck_domain = resume_domain (fx_browser_url row)\<rparr>))"

definition widen_key_span :: "(ctx_key \<times> int \<times> int) list \<Rightarrow> resume_run \<Rightarrow> (ctx_key \<times> int \<times> int) list" where
  "widen_key_span spans seg =
     (let entry = (case map_of spans (rr_key seg) of None \<Rightarrow> (rr_first_ts seg, rr_last_ts seg) | Some e \<Rightarrow> e)
      in AList.update (rr_key seg) (min (fst entry) (rr_first_ts seg), max (snd entry) (rr_last_ts seg)) spans)"

definition sustained_gap :: "resume_run list \<Rightarrow> int \<Rightarrow> bool" where
  "sustained_gap gap min_dwell = list_ex (\<lambda>(_, first, last). min_dwell \<le> last - first) (foldl widen_key_span [] gap)"

definition push_resume_segment :: "resume_run list \<Rightarrow> nat \<times> frame_context_row \<Rightarrow> resume_run list" where
  "push_resume_segment segs ir = (case ir of (idx, f) \<Rightarrow> (case resume_key f of
       None \<Rightarrow> segs
     | Some key \<Rightarrow>
         if segs \<noteq> [] \<and> rr_key (last segs) = key
         then butlast segs @ [(last segs)\<lparr>rr_last_ts := fx_captured_at f, rr_rep := idx\<rparr>]
         else segs @ [\<lparr>rr_key = key, rr_first_ts = fx_captured_at f, rr_last_ts = fx_captured_at f, rr_rep = idx\<rparr>]))"

definition resume_segments :: "frame_context_row list \<Rightarrow> resume_run list" where
  "resume_segments frames = foldl push_resume_segment [] (enumerate 0 frames)"

definition next_with_key :: "resume_run list \<Rightarrow> ctx_key \<Rightarrow> nat \<Rightarrow> nat option" where
  "next_with_key segs key last_seg = List.find (\<lambda>k. rr_key (segs ! k) = key) [Suc last_seg..<length segs]"

lemma next_with_key_bounds:
  "next_with_key segs key l = Some n \<Longrightarrow> l < n \<and> n < length segs \<and> rr_key (segs ! n) = key"
  by (auto simp: next_with_key_def dest!: find_SomeD)

text \<open>The inner loop: later segments of the run's key, up to a sustained interruption.\<close>

function extend_run ::
  "int \<Rightarrow> resume_run list \<Rightarrow> nat \<Rightarrow> bool list \<Rightarrow> resume_run \<Rightarrow> bool list \<times> resume_run" where
  "extend_run dwell segs last_seg consumed run = (case next_with_key segs (rr_key run) last_seg of
     None \<Rightarrow> (consumed, run)
   | Some nxt \<Rightarrow>
       if sustained_gap (slice (Suc last_seg) nxt segs) dwell then (consumed, run)
       else extend_run dwell segs nxt (consumed[nxt := True])
              (run\<lparr>rr_last_ts := rr_last_ts (segs ! nxt), rr_rep := rr_rep (segs ! nxt)\<rparr>))"
  by pat_completeness auto
termination
  by (relation "measure (\<lambda>(_, segs, l, _). length segs - l)") (auto dest!: next_with_key_bounds)

declare extend_run.simps [simp del]

definition run_step :: "int \<Rightarrow> resume_run list \<Rightarrow> bool list \<times> resume_run list \<Rightarrow> nat \<Rightarrow> bool list \<times> resume_run list" where
  "run_step dwell segs st start = (case st of (consumed, runs) \<Rightarrow>
     if consumed ! start then st
     else (case extend_run dwell segs start (consumed[start := True]) (segs ! start) of
         (consumed', run) \<Rightarrow> (consumed', runs @ [run])))"

definition resume_runs :: "int \<Rightarrow> resume_run list \<Rightarrow> resume_run list" where
  "resume_runs dwell segs =
     snd (foldl (run_step dwell segs) (replicate (length segs) False, []) [0..<length segs])"

definition candidate_run :: "resume_params \<Rightarrow> frame_context_row list \<Rightarrow> ctx_key \<Rightarrow> resume_run \<Rightarrow> bool" where
  "candidate_run params frames anchor run \<longleftrightarrow>
     rr_key run \<noteq> anchor \<and> \<not> contains (ck_app (rr_key run)) (lit ''screensearch'')
     \<and> \<not> is_excluded (fx_app_hint (frames ! rr_rep run)) (fx_window_title (frames ! rr_rep run)) (rp_excluded_apps params)
     \<and> rp_min_dwell_ms params \<le> rr_last_ts run - rr_first_ts run"

definition end_key :: "frame_context_row list \<Rightarrow> resume_run \<Rightarrow> int \<times> int" where
  "end_key frames run = (rr_last_ts run, fx_frame_id (frames ! rr_rep run))"

definition pick_run ::
  "resume_params \<Rightarrow> frame_context_row list \<Rightarrow> ctx_key \<Rightarrow> resume_run option \<Rightarrow> resume_run \<Rightarrow> resume_run option" where
  "pick_run params frames anchor best run =
     (if candidate_run params frames anchor run
         \<and> (case best of None \<Rightarrow> True | Some b \<Rightarrow> end_key frames b < end_key frames run)
      then Some run else best)"

definition last_sustained_context :: "frame_context_row list \<Rightarrow> resume_params \<Rightarrow> resume_context option" where
  "last_sustained_context rows params =
     (let frames = rev rows; segs = resume_segments frames
      in if segs = [] then None
         else map_option (\<lambda>run. let rep = frames ! rr_rep run in
             \<lparr>rx_frame_id = fx_frame_id rep, rx_app = (case fx_app_hint rep of None \<Rightarrow> [] | Some a \<Rightarrow> a),
              rx_window_title = fx_window_title rep, rx_browser_url = fx_browser_url rep,
              rx_span_start = rr_first_ts run, rx_span_end = rr_last_ts run,
              rx_image_path = fx_image_path rep, rx_image_purged = fx_image_purged rep\<rparr>)
           (foldl (pick_run params frames (rr_key (last segs))) None (resume_runs (rp_min_dwell_ms params) segs)))"

section \<open>Runs are anchored in frames\<close>

text \<open>A run (or segment) starts at a frame of its key and ends at its representative, another one or the same.\<close>

definition anchored :: "frame_context_row list \<Rightarrow> resume_run \<Rightarrow> bool" where
  "anchored frames r \<longleftrightarrow> rr_rep r < length frames \<and> resume_key (frames ! rr_rep r) = Some (rr_key r)
     \<and> fx_captured_at (frames ! rr_rep r) = rr_last_ts r
     \<and> (\<exists>i\<le>rr_rep r. resume_key (frames ! i) = Some (rr_key r) \<and> fx_captured_at (frames ! i) = rr_first_ts r)"

lemma push_segment_anchored:
  assumes "\<forall>s\<in>set segs. anchored frames s \<and> rr_rep s < n" and "n < length frames"
  shows "\<forall>s\<in>set (push_resume_segment segs (n, frames ! n)). anchored frames s \<and> rr_rep s < Suc n"
proof (cases "resume_key (frames ! n)")
  case None
  with assms show ?thesis by (auto simp: push_resume_segment_def less_Suc_eq)
next
  case (Some key)
  show ?thesis
  proof (cases "segs \<noteq> [] \<and> rr_key (last segs) = key")
    case True
    then have "last segs \<in> set segs" by simp
    with assms have l: "anchored frames (last segs)" "rr_rep (last segs) < n" by auto
    then have "anchored frames ((last segs)\<lparr>rr_last_ts := fx_captured_at (frames ! n), rr_rep := n\<rparr>)"
      using Some True assms(2) unfolding anchored_def by (auto intro: less_imp_le order_trans)
    with assms True Some show ?thesis by (auto simp: push_resume_segment_def less_Suc_eq dest: in_set_butlastD)
  next
    case False
    with assms Some show ?thesis by (auto simp: push_resume_segment_def anchored_def less_Suc_eq)
  qed
qed

lemma resume_segments_anchored: "s \<in> set (resume_segments frames) \<Longrightarrow> anchored frames s"
proof -
  have "\<forall>s\<in>set (foldl push_resume_segment [] (enumerate 0 (take n frames))). anchored frames s \<and> rr_rep s < n"
    if "n \<le> length frames" for n
    using that
  proof (induction n)
    case (Suc n)
    then have "take (Suc n) frames = take n frames @ [frames ! n]" by (simp add: take_Suc_conv_app_nth)
    with Suc push_segment_anchored [of _ frames n] show ?case by (simp add: enumerate_append_eq)
  qed simp
  from this [of "length frames"] show "s \<in> set (resume_segments frames) \<Longrightarrow> anchored frames s"
    by (simp add: resume_segments_def)
qed

lemma segment_reps_sorted:
  assumes "n \<le> length frames"
  shows "sorted_wrt (\<lambda>a b. rr_rep a < rr_rep b) (foldl push_resume_segment [] (enumerate 0 (take n frames)))
     \<and> (\<forall>s\<in>set (foldl push_resume_segment [] (enumerate 0 (take n frames))). rr_rep s < n)"
  using assms
proof (induction n)
  case (Suc n)
  define segs where "segs = foldl push_resume_segment [] (enumerate 0 (take n frames))"
  have IH: "sorted_wrt (\<lambda>a b. rr_rep a < rr_rep b) segs" "\<forall>s\<in>set segs. rr_rep s < n" using Suc by (auto simp: segs_def)
  have "take (Suc n) frames = take n frames @ [frames ! n]" using Suc.prems by (simp add: take_Suc_conv_app_nth)
  then have e: "foldl push_resume_segment [] (enumerate 0 (take (Suc n) frames)) = push_resume_segment segs (n, frames ! n)"
    using Suc.prems by (simp add: enumerate_append_eq segs_def)
  show ?case unfolding e
  proof (cases segs rule: rev_cases)
    case Nil
    then show "sorted_wrt (\<lambda>a b. rr_rep a < rr_rep b) (push_resume_segment segs (n, frames ! n))
        \<and> (\<forall>s\<in>set (push_resume_segment segs (n, frames ! n)). rr_rep s < Suc n)"
      by (simp add: push_resume_segment_def split: option.split)
  next
    case (snoc ys y)
    with IH show "sorted_wrt (\<lambda>a b. rr_rep a < rr_rep b) (push_resume_segment segs (n, frames ! n))
        \<and> (\<forall>s\<in>set (push_resume_segment segs (n, frames ! n)). rr_rep s < Suc n)"
      by (auto simp: push_resume_segment_def sorted_wrt_append less_Suc_eq split: option.split)
  qed
qed simp

lemma extend_run_anchored:
  assumes segs: "\<forall>s\<in>set segs. anchored frames s" and reps: "sorted_wrt (\<lambda>a b. rr_rep a < rr_rep b) segs"
  shows "l < length segs \<Longrightarrow> anchored frames run \<Longrightarrow> rr_rep run = rr_rep (segs ! l) \<Longrightarrow>
     anchored frames (snd (extend_run dwell segs l consumed run))"
  using assms
proof (induction dwell segs l consumed run rule: extend_run.induct)
  case (1 dwell segs l consumed run)
  show ?case
  proof (cases "next_with_key segs (rr_key run) l")
    case None
    with 1 show ?thesis by (subst extend_run.simps) simp
  next
    case (Some nxt)
    note b = next_with_key_bounds [OF Some]
    show ?thesis
    proof (cases "sustained_gap (slice (Suc l) nxt segs) dwell")
      case True
      with Some 1 show ?thesis by (subst extend_run.simps) simp
    next
      case False
      have n: "anchored frames (segs ! nxt)" using 1(5) b by simp
      have "rr_rep (segs ! l) < rr_rep (segs ! nxt)" using sorted_wrt_nth_less [OF 1(6)] b by simp
      with 1(3,4) n b have "anchored frames (run\<lparr>rr_last_ts := rr_last_ts (segs ! nxt), rr_rep := rr_rep (segs ! nxt)\<rparr>)"
        unfolding anchored_def by (auto intro: less_imp_le order_trans)
      from 1(1) [OF Some False _ this _ 1(5,6)] b Some False show ?thesis
        by (subst extend_run.simps) simp
    qed
  qed
qed

lemma resume_runs_anchored:
  assumes "r \<in> set (resume_runs dwell (resume_segments frames))"
  shows "anchored frames r"
proof -
  let ?segs = "resume_segments frames"
  have segs: "\<forall>s\<in>set ?segs. anchored frames s" using resume_segments_anchored by blast
  have reps: "sorted_wrt (\<lambda>a b. rr_rep a < rr_rep b) ?segs"
    using segment_reps_sorted [of "length frames" frames] by (simp add: resume_segments_def)
  have "\<forall>r\<in>set (snd (foldl (run_step dwell ?segs) st is)). anchored frames r"
    if "set is \<subseteq> {..<length ?segs}" "\<forall>r\<in>set (snd st). anchored frames r" for st "is"
    using that
  proof (induction "is" arbitrary: st)
    case (Cons i "is")
    have "anchored frames (snd (extend_run dwell ?segs i consumed (?segs ! i)))" for consumed
      by (rule extend_run_anchored [OF segs reps]) (use Cons.prems segs in auto)
    then have "\<forall>r\<in>set (snd (run_step dwell ?segs st i)). anchored frames r"
      using Cons.prems(2) by (cases st) (auto simp: run_step_def case_prod_beta)
    with Cons show ?case by simp
  qed simp
  from this [of "[0..<length ?segs]" "(replicate (length ?segs) False, [])"] assms show ?thesis
    by (auto simp: resume_runs_def lessThan_atLeast0)
qed

section \<open>The choice\<close>

lemma foldl_pick:
  assumes "foldl (pick_run params frames anchor) b runs = best"
  shows "case best of
      None \<Rightarrow> b = None \<and> (\<forall>r\<in>set runs. \<not> candidate_run params frames anchor r)
    | Some r \<Rightarrow> (Some r = b \<or> r \<in> set runs \<and> candidate_run params frames anchor r)
        \<and> (\<forall>r'\<in>set runs. candidate_run params frames anchor r' \<longrightarrow> end_key frames r' \<le> end_key frames r)
        \<and> (\<forall>b'. b = Some b' \<longrightarrow> end_key frames b' \<le> end_key frames r)"
  using assms
proof (induction runs arbitrary: b)
  case Nil
  then show ?case by (auto split: option.split)
next
  case (Cons r runs)
  from Cons.IH [OF Cons.prems [unfolded foldl_Cons]] show ?case
    by (cases best) (auto simp: pick_run_def split: if_splits option.splits)
qed

text \<open>The current context is the key of the newest frame that has one; it is the key of the last segment.\<close>

definition current_context :: "frame_context_row list \<Rightarrow> ctx_key option" where
  "current_context rows = (case List.map_filter resume_key rows of [] \<Rightarrow> None | k # _ \<Rightarrow> Some k)"

lemma current_context_last_segment:
  "current_context (rev frames) = (if resume_segments frames = [] then None else Some (rr_key (last (resume_segments frames))))"
proof (induction frames rule: rev_induct)
  case (snoc f frames)
  then show ?case
    by (cases "resume_key f")
      (auto simp: current_context_def resume_segments_def map_filter_simps enumerate_append_eq push_resume_segment_def
        split: list.splits if_splits)
qed (simp add: current_context_def resume_segments_def map_filter_simps)

definition allowed_run :: "resume_params \<Rightarrow> frame_context_row list \<Rightarrow> ctx_key \<Rightarrow> resume_run \<Rightarrow> bool" where
  "allowed_run params rows anchor r \<longleftrightarrow> rr_key r \<noteq> anchor \<and> rp_min_dwell_ms params \<le> rr_last_ts r - rr_first_ts r
     \<and> \<not> contains (ck_app (rr_key r)) (lit ''screensearch'')
     \<and> (let rep = rev rows ! rr_rep r in \<not> is_excluded (fx_app_hint rep) (fx_window_title rep) (rp_excluded_apps params))"

lemma allowed_run_candidate: "allowed_run params rows anchor r = candidate_run params (rev rows) anchor r"
  by (auto simp: allowed_run_def candidate_run_def Let_def)


definition sample_ctx :: "int \<Rightarrow> int \<Rightarrow> string \<Rightarrow> frame_context_row" where
  "sample_ctx i t app = \<lparr>fx_frame_id = i, fx_captured_at = t, fx_app_hint = Some (lit app), fx_window_title = None,
     fx_browser_url = None, fx_image_path = [], fx_image_purged = False\<rparr>"

definition sample_rows :: "frame_context_row list" where
  "sample_rows = rev [sample_ctx 1 0 ''code'', sample_ctx 2 100 ''code'', sample_ctx 3 110 ''mail'', sample_ctx 4 130 ''code'',
     sample_ctx 5 300 ''code'', sample_ctx 6 310 ''chat'', sample_ctx 7 320 ''chat'']"


text \<open>The store query is a parameter: the newest frames, at most the scan cap.\<close>

definition where_was_i ::
  "(nat \<Rightarrow> 'e + frame_context_row list) \<Rightarrow> int \<Rightarrow> ustr list \<Rightarrow> 'e + resume_context option" where
  "where_was_i recent_frame_contexts min_dwell_secs excl =
     bind_r (recent_frame_contexts resume_scan_cap) (\<lambda>rows.
       Inr (last_sustained_context rows \<lparr>rp_min_dwell_ms = min_dwell_secs * 1000, rp_excluded_apps = excl\<rparr>))"

end
