(* ===== verification/Memory_Schedule.thy ===== *)
theory Memory_Schedule
  imports Prelude
begin

text \<open>
  Calendar scheduling of memory reports (\<open>crates/kernel/src/memory_schedule.rs\<close>). The chrono and chrono-tz
  crates are the record \<open>chrono\<close> of functions: zone, time and date parsing and printing, the local result
  of a wall time and the local date of an instant. A date is a day number, a wall time the minutes since
  day 0 (the code only builds whole minutes), an instant unix milliseconds. What a lemma needs of the
  zone data is a hypothesis of the lemma.
\<close>

section \<open>The calendar crate\<close>

datatype local_result = Single int | Ambiguous int int | NoTime

record 'z chrono =
  cz_parse_zone :: "ustr \<Rightarrow> 'z option"
  cz_parse_time :: "ustr \<Rightarrow> int option"
  cz_show_time :: "int \<Rightarrow> ustr"
  cz_parse_date :: "ustr \<Rightarrow> int option"
  cz_show_date :: "int \<Rightarrow> ustr"
  cz_from_local :: "'z \<Rightarrow> int \<Rightarrow> local_result"
  cz_local_date :: "'z \<Rightarrow> int \<Rightarrow> int option"
  cz_min_day :: int
  cz_max_day :: int

datatype schedule_error = UnknownZone | BadTime | OutsideCalendar | CalendarOverflow | Unresolved
  | BadDate | StartAfterEnd | FutureDate | NoElapsedTime

section \<open>Model\<close>

record daily_window =
  dw_start :: int
  dw_end :: int
  dw_local_date :: ustr
  dw_due_at :: int

record schedule_due =
  sc_windows :: "daily_window list"
  sc_gap :: "(int \<times> int) option"

definition validate :: "'z chrono \<Rightarrow> ustr \<Rightarrow> ustr \<Rightarrow> schedule_error + 'z \<times> int" where
  "validate cal tz local_time =
     bind_r (ok_or UnknownZone (cz_parse_zone cal tz)) (\<lambda>zone.
     bind_r (ok_or BadTime (cz_parse_time cal local_time)) (\<lambda>t.
       if cz_show_time cal t \<noteq> local_time then Inl BadTime else Inr (zone, t)))"

definition local_date :: "'z chrono \<Rightarrow> 'z \<Rightarrow> int \<Rightarrow> schedule_error + int" where
  "local_date cal zone ms = ok_or OutsideCalendar (cz_local_date cal zone ms)"

text \<open>A skipped wall time is moved on by minutes, for up to two days.\<close>

function resolve_from :: "int \<Rightarrow> 'z chrono \<Rightarrow> 'z \<Rightarrow> int \<Rightarrow> schedule_error + int" where
  "resolve_from k cal zone wall =
     (if 2880 < k then Inl Unresolved
      else (case cz_from_local cal zone wall of
          Single t \<Rightarrow> Inr t
        | Ambiguous a b \<Rightarrow> Inr (min a b)
        | NoTime \<Rightarrow> if (cz_max_day cal + 1) * 1440 \<le> wall + 1 then Inl CalendarOverflow
            else resolve_from (k + 1) cal zone (wall + 1)))"
  by pat_completeness auto
termination by (relation "measure (\<lambda>(k, _). nat (2881 - k))") auto

declare resolve_from.simps [simp del]

definition resolve :: "'z chrono \<Rightarrow> 'z \<Rightarrow> int \<Rightarrow> schedule_error + int" where
  "resolve cal zone wall = resolve_from 0 cal zone wall"

lemma resolve_Single: "cz_from_local cal zone wall = Single t \<Longrightarrow> resolve cal zone wall = Inr t"
  by (simp add: resolve_def resolve_from.simps)

definition next_day :: "'z chrono \<Rightarrow> int \<Rightarrow> schedule_error + int" where
  "next_day cal day = (if day < cz_max_day cal then Inr (day + 1) else Inl CalendarOverflow)"

definition pred_day :: "'z chrono \<Rightarrow> int \<Rightarrow> schedule_error + int" where
  "pred_day cal day = (if cz_min_day cal < day then Inr (day - 1) else Inl CalendarOverflow)"

definition window :: "'z chrono \<Rightarrow> 'z \<Rightarrow> int \<Rightarrow> int \<Rightarrow> schedule_error + daily_window" where
  "window cal zone t day =
     bind_r (next_day cal day) (\<lambda>tomorrow.
     bind_r (resolve cal zone (day * 1440)) (\<lambda>s.
     bind_r (resolve cal zone (tomorrow * 1440)) (\<lambda>e.
     bind_r (resolve cal zone (tomorrow * 1440 + t)) (\<lambda>due.
       Inr \<lparr>dw_start = s, dw_end = e, dw_local_date = cz_show_date cal day, dw_due_at = due\<rparr>))))"

text \<open>Skip civil dates that the zone does not have.\<close>

function first_nonempty :: "'z chrono \<Rightarrow> 'z \<Rightarrow> int \<Rightarrow> int \<Rightarrow> schedule_error + daily_window" where
  "first_nonempty cal zone t day = (case window cal zone t day of
     Inl e \<Rightarrow> Inl e
   | Inr w \<Rightarrow> if dw_start w = dw_end w
       then (case next_day cal day of Inl e \<Rightarrow> Inl e | Inr d \<Rightarrow> first_nonempty cal zone t d)
       else Inr w)"
  by pat_completeness auto
termination
  by (relation "measure (\<lambda>(cal, _, _, day). nat (cz_max_day cal - day))") (auto simp: next_day_def split: if_splits)

declare first_nonempty.simps [simp del]

definition first_window :: "'z chrono \<Rightarrow> ustr \<Rightarrow> ustr \<Rightarrow> int \<Rightarrow> schedule_error + daily_window" where
  "first_window cal tz local_time activated_at =
     bind_r (validate cal tz local_time) (\<lambda>(zone, t).
     bind_r (local_date cal zone activated_at) (\<lambda>day.
     bind_r (resolve cal zone (day * 1440)) (\<lambda>midnight.
     bind_r (if midnight < activated_at then next_day cal day else Inr day) (\<lambda>day'.
       first_nonempty cal zone t day'))))"

function last_nonempty :: "'z chrono \<Rightarrow> 'z \<Rightarrow> int \<Rightarrow> schedule_error + daily_window" where
  "last_nonempty cal zone day = (case window cal zone 0 day of
     Inl e \<Rightarrow> Inl e
   | Inr w \<Rightarrow> if dw_start w < dw_end w then Inr w
       else (case pred_day cal day of Inl e \<Rightarrow> Inl e | Inr d \<Rightarrow> last_nonempty cal zone d))"
  by pat_completeness auto
termination
  by (relation "measure (\<lambda>(cal, _, day). nat (day - cz_min_day cal))") (auto simp: pred_day_def split: if_splits)

declare last_nonempty.simps [simp del]

definition previous_day :: "'z chrono \<Rightarrow> ustr \<Rightarrow> int \<Rightarrow> schedule_error + daily_window" where
  "previous_day cal tz now =
     bind_r (ok_or UnknownZone (cz_parse_zone cal tz)) (\<lambda>zone.
     bind_r (local_date cal zone now) (\<lambda>today.
     bind_r (pred_day cal today) (\<lambda>day. last_nonempty cal zone day)))"

definition parse_date :: "'z chrono \<Rightarrow> ustr \<Rightarrow> schedule_error + int" where
  "parse_date cal v = bind_r (ok_or BadDate (cz_parse_date cal v)) (\<lambda>d.
     if length v \<noteq> 10 \<or> cz_show_date cal d \<noteq> v then Inl BadDate else Inr d)"

definition selected_range :: "'z chrono \<Rightarrow> ustr \<Rightarrow> ustr \<Rightarrow> ustr \<Rightarrow> int \<Rightarrow> schedule_error + daily_window" where
  "selected_range cal tz start_date end_date now =
     bind_r (ok_or UnknownZone (cz_parse_zone cal tz)) (\<lambda>zone.
     bind_r (parse_date cal start_date) (\<lambda>first.
     bind_r (parse_date cal end_date) (\<lambda>last.
       if last < first then Inl StartAfterEnd
       else bind_r (local_date cal zone now) (\<lambda>today.
         if today < last then Inl FutureDate
         else bind_r (resolve cal zone (first * 1440)) (\<lambda>start_ms.
              bind_r (next_day cal last) (\<lambda>after.
              bind_r (resolve cal zone (after * 1440)) (\<lambda>after_ms.
                let end_ms = min after_ms now in
                if end_ms \<le> start_ms then Inl NoElapsedTime
                else Inr \<lparr>dw_start = start_ms, dw_end = end_ms, dw_local_date = start_date, dw_due_at = now\<rparr>)))))))"

definition range_is_in_progress :: "'z chrono \<Rightarrow> ustr \<Rightarrow> ustr \<Rightarrow> int \<Rightarrow> schedule_error + bool" where
  "range_is_in_progress cal tz end_date window_end =
     bind_r (ok_or UnknownZone (cz_parse_zone cal tz)) (\<lambda>zone.
     bind_r (parse_date cal end_date) (\<lambda>d.
     bind_r (next_day cal d) (\<lambda>after.
     bind_r (resolve cal zone (after * 1440)) (\<lambda>e. Inr (window_end < e)))))"

section \<open>The day grid\<close>

definition midnight :: "'z chrono \<Rightarrow> 'z \<Rightarrow> int \<Rightarrow> int \<Rightarrow> schedule_error + int" where
  "midnight cal zone first offset =
     (if offset < 0 \<or> cz_max_day cal < first + offset then Inl CalendarOverflow
      else resolve cal zone ((first + offset) * 1440))"

function grid_periods ::
  "'z chrono \<Rightarrow> 'z \<Rightarrow> int \<Rightarrow> int \<Rightarrow> int \<Rightarrow> int \<Rightarrow> int \<Rightarrow> int \<Rightarrow> schedule_error + (int \<times> int) list" where
  "grid_periods cal zone first days grp start end_ms offset =
     (if days \<le> offset \<or> grp < 1 then Inr []
      else bind_r (if offset = 0 then Inr start else midnight cal zone first offset) (\<lambda>ps.
           bind_r (if days \<le> offset + grp then Inr end_ms else midnight cal zone first (offset + grp)) (\<lambda>pe.
           bind_r (grid_periods cal zone first days grp start end_ms (offset + grp)) (\<lambda>rest.
             Inr ((if ps < pe then [(ps, pe)] else []) @ rest)))))"
  by pat_completeness auto
termination
  by (relation "measure (\<lambda>(_, _, _, days, _, _, _, offset). nat (days - offset))") auto

declare grid_periods.simps [simp del]

definition grid_group :: "int \<Rightarrow> int \<Rightarrow> int" where
  "grid_group days max_periods = (let cap = max max_periods 1 in max ((days + cap - 1) div cap) 1)"

definition local_day_grid ::
  "'z chrono \<Rightarrow> ustr \<Rightarrow> int \<Rightarrow> int \<Rightarrow> int \<Rightarrow> schedule_error + (int \<times> int) list" where
  "local_day_grid cal tz start end_ms max_periods =
     (if end_ms \<le> start then Inr []
      else bind_r (ok_or UnknownZone (cz_parse_zone cal tz)) (\<lambda>zone.
           bind_r (local_date cal zone start) (\<lambda>first.
           bind_r (local_date cal zone (end_ms - 1)) (\<lambda>last.
             let days = last - first + 1
             in grid_periods cal zone first days (grid_group days max_periods) start end_ms 0))))"

section \<open>Overdue windows\<close>

fun recent_windows ::
  "nat \<Rightarrow> 'z chrono \<Rightarrow> 'z \<Rightarrow> int \<Rightarrow> int \<Rightarrow> int \<Rightarrow> int \<Rightarrow> int \<Rightarrow> daily_window list \<Rightarrow> schedule_error + daily_window list" where
  "recent_windows 0 cal zone t floor_ms first_start now day ws = Inr ws"
| "recent_windows (Suc fuel) cal zone t floor_ms first_start now day ws =
     bind_r (window cal zone t day) (\<lambda>w.
       if dw_end w \<le> floor_ms \<or> dw_start w < first_start then Inr ws
       else (let ws' = (if floor_ms \<le> dw_start w \<and> dw_start w < dw_end w \<and> dw_due_at w \<le> now then ws @ [w] else ws)
             in if length ws' = 7 \<and> ws' \<noteq> ws then Inr ws'
                else bind_r (pred_day cal day) (\<lambda>day'. recent_windows fuel cal zone t floor_ms first_start now day' ws')))"

definition due_windows ::
  "'z chrono \<Rightarrow> ustr \<Rightarrow> ustr \<Rightarrow> int \<Rightarrow> int option \<Rightarrow> int \<Rightarrow> schedule_error + schedule_due" where
  "due_windows cal tz local_time activated_at cursor_end now =
     bind_r (validate cal tz local_time) (\<lambda>(zone, t).
     bind_r (first_window cal tz local_time activated_at) (\<lambda>first.
     let floor_ms = max (case cursor_end of None \<Rightarrow> dw_start first | Some c \<Rightarrow> c) (dw_start first) in
     bind_r (local_date cal zone now) (\<lambda>today.
     bind_r (pred_day cal today) (\<lambda>day.
     bind_r (recent_windows 10 cal zone t floor_ms (dw_start first) now day []) (\<lambda>ws.
       let windows = rev ws
       in Inr \<lparr>sc_windows = windows,
               sc_gap = (case windows of [] \<Rightarrow> None
                 | w # _ \<Rightarrow> if floor_ms < dw_start w then Some (floor_ms, dw_start w) else None)\<rparr>)))))"

section \<open>The grid partitions the window\<close>

lemma grid_group_pos: "1 \<le> grid_group days m"
  by (simp add: grid_group_def Let_def)

text \<open>The boundary of the grid at an offset.\<close>

definition bound_at :: "'z chrono \<Rightarrow> 'z \<Rightarrow> int \<Rightarrow> int \<Rightarrow> int \<Rightarrow> int \<Rightarrow> int \<Rightarrow> int" where
  "bound_at cal zone first days start end_ms off =
     (if off = 0 then start else if days \<le> off then end_ms
      else (case midnight cal zone first off of Inr m \<Rightarrow> m | Inl _ \<Rightarrow> 0))"

definition ordered_bounds :: "'z chrono \<Rightarrow> 'z \<Rightarrow> int \<Rightarrow> int \<Rightarrow> int \<Rightarrow> int \<Rightarrow> bool" where
  "ordered_bounds cal zone first days start end_ms \<longleftrightarrow>
     (\<forall>i j. 0 \<le> i \<and> i \<le> j \<longrightarrow> bound_at cal zone first days start end_ms i \<le> bound_at cal zone first days start end_ms j)"

fun contiguous :: "int \<Rightarrow> (int \<times> int) list \<Rightarrow> int \<Rightarrow> bool" where
  "contiguous a [] b \<longleftrightarrow> a = b"
| "contiguous a (p # ps) b \<longleftrightarrow> fst p = a \<and> fst p < snd p \<and> contiguous (snd p) ps b"

lemma grid_contiguous:
  assumes ord: "ordered_bounds cal zone first days start end_ms" and g: "1 \<le> grp"
  shows "0 \<le> off \<Longrightarrow> off < days \<or> off \<noteq> 0 \<Longrightarrow> grid_periods cal zone first days grp start end_ms off = Inr ps \<Longrightarrow>
     contiguous (bound_at cal zone first days start end_ms off) ps end_ms
     \<and> int (length ps) * grp \<le> max 0 (days - off + grp - 1)"
proof (induction "nat (days - off)" arbitrary: off ps rule: less_induct)
  case less
  show ?case
  proof (cases "days \<le> off")
    case True
    then have "ps = []" using less.prems(3) by (subst (asm) grid_periods.simps) simp
    with True less.prems show ?thesis by (auto simp: bound_at_def)
  next
    case False
    let ?b = "bound_at cal zone first days start end_ms"
    have e: "grid_periods cal zone first days grp start end_ms off =
        bind_r (if off = 0 then Inr start else midnight cal zone first off) (\<lambda>ps.
           bind_r (if days \<le> off + grp then Inr end_ms else midnight cal zone first (off + grp)) (\<lambda>pe.
           bind_r (grid_periods cal zone first days grp start end_ms (off + grp)) (\<lambda>rest.
             Inr ((if ps < pe then [(ps, pe)] else []) @ rest))))"
      using False g by (subst grid_periods.simps) simp
    from less.prems(3) obtain p q rest where p: "(if off = 0 then Inr start else midnight cal zone first off) = Inr p"
      and q: "(if days \<le> off + grp then Inr end_ms else midnight cal zone first (off + grp)) = Inr q"
      and rest: "grid_periods cal zone first days grp start end_ms (off + grp) = Inr rest"
      and ps: "ps = (if p < q then [(p, q)] else []) @ rest"
      unfolding e by (auto simp: bind_r_Inr)
    have bp: "?b off = p" using p False less.prems(1) by (auto simp: bound_at_def split: if_splits)
    have bq: "?b (off + grp) = q" using q g less.prems(1) by (auto simp: bound_at_def split: if_splits)
    have "p \<le> q" using ord less.prems(1) g bp bq unfolding ordered_bounds_def by (metis add_increasing2 le_add_same_cancel1 order_trans zero_le_one)
    have "nat (days - (off + grp)) < nat (days - off)" using False g by simp
    moreover have "0 \<le> off + grp" "off + grp < days \<or> off + grp \<noteq> 0" using less.prems(1) g by simp_all
    ultimately have "contiguous (?b (off + grp)) rest end_ms \<and> int (length rest) * grp \<le> max 0 (days - (off + grp) + grp - 1)"
      using less.hyps rest by blast
    then have IH: "contiguous q rest end_ms" "int (length rest) * grp \<le> max 0 (days - (off + grp) + grp - 1)"
      using bq by simp_all
    show ?thesis
    proof (cases "p < q")
      case True
      have "int (length ps) * grp = int (length rest) * grp + grp" using True by (simp add: ps algebra_simps)
      with IH(2) False g have "int (length ps) * grp \<le> max 0 (days - off + grp - 1)" by linarith
      with True IH(1) show ?thesis by (simp add: ps bp)
    next
      case neq: False
      with \<open>p \<le> q\<close> have "p = q" by simp
      with neq IH False g show ?thesis by (auto simp: ps bp)
    qed
  qed
qed

lemma grid_group_count:
  assumes "1 \<le> days" "int n * grid_group days m \<le> days + grid_group days m - 1"
  shows "int n \<le> max m 1"
proof (rule ccontr)
  define cap where "cap = max m 1"
  define g where "g = grid_group days m"
  assume "\<not> int n \<le> max m 1"
  then have n: "cap + 1 \<le> int n" by (simp add: cap_def)
  have cap: "1 \<le> cap" by (simp add: cap_def)
  have g: "1 \<le> g" "(days + cap - 1) div cap \<le> g" by (simp_all add: g_def grid_group_def cap_def Let_def)
  have "days \<le> cap * ((days + cap - 1) div cap)"
  proof -
    have "days + cap - 1 = cap * ((days + cap - 1) div cap) + (days + cap - 1) mod cap" by simp
    moreover have "(days + cap - 1) mod cap < cap" using cap by simp
    ultimately show ?thesis by linarith
  qed
  also have "\<dots> \<le> cap * g" using g(2) cap by (intro mult_left_mono) simp_all
  finally have d: "days \<le> cap * g" .
  have "(cap + 1) * g \<le> int n * g" using n g(1) by (intro mult_right_mono) simp_all
  also have "\<dots> \<le> days + g - 1" using assms(2) by (simp add: g_def)
  finally show False using d by (simp add: algebra_simps)
qed

text \<open>The report grid is a partition: when the zone's midnights are in order (each window boundary not before the
  earlier one), the periods of a non-empty window start at its start, end at its end, follow each other without gap
  or overlap, none is empty, and there are at most as many as allowed.\<close>

theorem day_grid_partition:
  assumes "local_day_grid cal tz start end_ms max_periods = Inr ps" and "start < end_ms"
    and "cz_parse_zone cal tz = Some zone" "cz_local_date cal zone start = Some first" "cz_local_date cal zone (end_ms - 1) = Some final_day"
    and "first \<le> final_day" and "ordered_bounds cal zone first (final_day - first + 1) start end_ms"
  shows "contiguous start ps end_ms \<and> int (length ps) \<le> max max_periods 1"
proof -
  let ?days = "final_day - first + 1"
  have "grid_periods cal zone first ?days (grid_group ?days max_periods) start end_ms 0 = Inr ps"
    using assms(1-5) by (simp add: local_day_grid_def local_date_def ok_or_def Let_def)
  from grid_contiguous [OF assms(7) grid_group_pos _ _ this] assms(6)
  have c: "contiguous start ps end_ms" "int (length ps) * grid_group ?days max_periods \<le> max 0 (?days + grid_group ?days max_periods - 1)"
    by (auto simp: bound_at_def)
  have "1 \<le> ?days" using assms(6) by simp
  moreover have "int (length ps) * grid_group ?days max_periods \<le> ?days + grid_group ?days max_periods - 1"
    using c(2) grid_group_pos [of ?days max_periods] assms(6) by linarith
  ultimately show ?thesis using c(1) grid_group_count by blast
qed

text \<open>The UTC calendar as an instance, with days of 24 hours.\<close>

definition utc_calendar :: "unit chrono" where
  "utc_calendar = \<lparr>cz_parse_zone = (\<lambda>s. if s = lit ''UTC'' then Some () else None), cz_parse_time = (\<lambda>s. if s = lit ''08:00'' then Some 480 else None),
     cz_show_time = (\<lambda>_. lit ''08:00''), cz_parse_date = (\<lambda>_. None), cz_show_date = display_int,
     cz_from_local = (\<lambda>_ wall. Single (wall * 60000)), cz_local_date = (\<lambda>_ ms. Some (ms div 86400000)),
     cz_min_day = -100000, cz_max_day = 100000\<rparr>"

theorem day_grid_partition_witness:
  "local_day_grid utc_calendar (lit ''UTC'') 3600000 400000000 2 = Inr [(3600000, 259200000), (259200000, 400000000)]
   \<and> contiguous 3600000 [(3600000, 259200000), (259200000, 400000000)] 400000000"
proof -
  have g: "local_day_grid utc_calendar (lit ''UTC'') 3600000 400000000 2 = Inr [(3600000, 259200000), (259200000, 400000000)]"
    by code_simp
  have "midnight utc_calendar () 0 off = Inr (off * 86400000)" if "0 \<le> off" "off < 5" for off
    using that by (auto simp: midnight_def utc_calendar_def intro!: resolve_Single)
  then have "ordered_bounds utc_calendar () 0 (4 - 0 + 1) 3600000 400000000"
    unfolding ordered_bounds_def by (auto simp: bound_at_def)
  with day_grid_partition [OF g, of "()" 0 4] show ?thesis using g by (simp add: utc_calendar_def)
qed

section \<open>Overdue windows are sound and in order\<close>

definition eligible :: "int \<Rightarrow> int \<Rightarrow> daily_window \<Rightarrow> bool" where
  "eligible floor_ms now w \<longleftrightarrow> floor_ms \<le> dw_start w \<and> dw_start w < dw_end w \<and> dw_due_at w \<le> now"

definition ordered_midnights :: "'z chrono \<Rightarrow> 'z \<Rightarrow> bool" where
  "ordered_midnights cal zone \<longleftrightarrow> (\<forall>d d' m m'. d \<le> d' \<longrightarrow> resolve cal zone (d * 1440) = Inr m
     \<longrightarrow> resolve cal zone (d' * 1440) = Inr m' \<longrightarrow> m \<le> m')"

lemma window_Inr:
  "window cal zone t day = Inr w \<Longrightarrow> resolve cal zone (day * 1440) = Inr (dw_start w)
     \<and> resolve cal zone ((day + 1) * 1440) = Inr (dw_end w)"
  by (auto simp: window_def bind_r_Inr next_day_def split: if_splits)

lemma recent_windows_sound:
  assumes ord: "ordered_midnights cal zone"
  shows "recent_windows fuel cal zone t floor_ms first_start now day ws = Inr res \<Longrightarrow> length ws < 7 \<Longrightarrow>
     \<forall>w\<in>set ws. eligible floor_ms now w \<and> (\<exists>d>day. resolve cal zone (d * 1440) = Inr (dw_start w)) \<Longrightarrow>
     sorted_wrt (\<lambda>a b. dw_end b \<le> dw_start a) ws \<Longrightarrow>
     length res \<le> 7 \<and> (\<forall>w\<in>set res. eligible floor_ms now w) \<and> sorted_wrt (\<lambda>a b. dw_end b \<le> dw_start a) res"
proof (induction fuel arbitrary: day ws)
  case (Suc fuel)
  from Suc.prems(1) obtain w where w: "window cal zone t day = Inr w" by (auto simp: bind_r_Inr)
  show ?case
  proof (cases "dw_end w \<le> floor_ms \<or> dw_start w < first_start")
    case True
    with Suc.prems w show ?thesis by auto
  next
    case False
    define ws' where "ws' = (if eligible floor_ms now w then ws @ [w] else ws)"
    have inv: "\<forall>v\<in>set ws'. eligible floor_ms now v \<and> (\<exists>d>day - 1. resolve cal zone (d * 1440) = Inr (dw_start v))"
    proof
      fix v assume v: "v \<in> set ws'"
      show "eligible floor_ms now v \<and> (\<exists>d>day - 1. resolve cal zone (d * 1440) = Inr (dw_start v))"
      proof (cases "v \<in> set ws")
        case True
        then obtain d where "day < d" "resolve cal zone (d * 1440) = Inr (dw_start v)" "eligible floor_ms now v"
          using Suc.prems(3) by blast
        then show ?thesis by (intro conjI exI [of _ d]) simp_all
      next
        case False
        with v have "v = w" "eligible floor_ms now w" by (simp_all add: ws'_def split: if_splits)
        with window_Inr [OF w] show ?thesis by (intro conjI exI [of _ day]) simp_all
      qed
    qed
    have "dw_end w \<le> dw_start v" if v: "v \<in> set ws" for v
    proof -
      obtain d where "day < d" "resolve cal zone (d * 1440) = Inr (dw_start v)" using Suc.prems(3) v by blast
      with window_Inr [OF w] ord show ?thesis unfolding ordered_midnights_def by (metis zless_imp_add1_zle)
    qed
    then have sorted: "sorted_wrt (\<lambda>a b. dw_end b \<le> dw_start a) ws'"
      using Suc.prems(4) by (simp add: ws'_def sorted_wrt_append)
    have len: "length ws' \<le> 7" using Suc.prems(2) by (simp add: ws'_def)
    have step: "(if length ws' = 7 \<and> ws' \<noteq> ws then Inr ws'
         else bind_r (pred_day cal day) (\<lambda>day'. recent_windows fuel cal zone t floor_ms first_start now day' ws')) = Inr res"
      using Suc.prems(1) w False by (auto simp: ws'_def eligible_def Let_def split: if_splits)
    show ?thesis
    proof (cases "length ws' = 7 \<and> ws' \<noteq> ws")
      case True
      with step inv sorted len show ?thesis by auto
    next
      case go: False
      then have "length ws' < 7" using len Suc.prems(2) by (auto simp: ws'_def split: if_splits)
      moreover from step go obtain day' where "pred_day cal day = Inr day'"
        "recent_windows fuel cal zone t floor_ms first_start now day' ws' = Inr res" by (auto simp: bind_r_Inr)
      ultimately show ?thesis using Suc.IH [of day' ws'] inv sorted by (auto simp: pred_day_def split: if_splits)
    qed
  qed
qed auto

text \<open>The overdue windows are safe to enqueue: at most seven, each starting no earlier than the cursor and the activation,
  non-empty and already due; they come oldest first and do not overlap; and time before the first of them that the
  cursor has not covered is reported as a gap, exactly.\<close>

theorem due_windows_sound:
  assumes "due_windows cal tz local_time activated_at cursor_end now = Inr sd"
    and "validate cal tz local_time = Inr (zone, t)" and "ordered_midnights cal zone"
  shows "\<exists>first. first_window cal tz local_time activated_at = Inr first
    \<and> (let floor_ms = max (case cursor_end of None \<Rightarrow> dw_start first | Some c \<Rightarrow> c) (dw_start first) in
        length (sc_windows sd) \<le> 7 \<and> (\<forall>w\<in>set (sc_windows sd). eligible floor_ms now w)
        \<and> sorted_wrt (\<lambda>a b. dw_end a \<le> dw_start b) (sc_windows sd)
        \<and> sc_gap sd = (if sc_windows sd = [] \<or> dw_start (hd (sc_windows sd)) = floor_ms then None
                       else Some (floor_ms, dw_start (hd (sc_windows sd)))))"
proof -
  from assms(1,2) obtain first today day ws where f: "first_window cal tz local_time activated_at = Inr first"
    and ws: "recent_windows 10 cal zone t (max (case cursor_end of None \<Rightarrow> dw_start first | Some c \<Rightarrow> c) (dw_start first))
        (dw_start first) now day [] = Inr ws"
    and sd: "sd = \<lparr>sc_windows = rev ws, sc_gap = (case rev ws of [] \<Rightarrow> None
                 | w # _ \<Rightarrow> if max (case cursor_end of None \<Rightarrow> dw_start first | Some c \<Rightarrow> c) (dw_start first) < dw_start w
                     then Some (max (case cursor_end of None \<Rightarrow> dw_start first | Some c \<Rightarrow> c) (dw_start first), dw_start w) else None)\<rparr>"
    unfolding due_windows_def by (auto simp: bind_r_Inr Let_def)
  define floor_ms where "floor_ms = max (case cursor_end of None \<Rightarrow> dw_start first | Some c \<Rightarrow> c) (dw_start first)"
  note sd' = sd [folded floor_ms_def]
  from recent_windows_sound [OF assms(3) ws] have s: "length ws \<le> 7" "\<forall>w\<in>set ws. eligible floor_ms now w"
    "sorted_wrt (\<lambda>a b. dw_end b \<le> dw_start a) ws" by (simp_all add: floor_ms_def)
  have "sc_gap sd = (if rev ws = [] \<or> dw_start (hd (rev ws)) = floor_ms then None else Some (floor_ms, dw_start (hd (rev ws))))"
  proof (cases "rev ws")
    case (Cons w vs)
    then have "w \<in> set ws" by (metis list.set_intros(1) set_rev)
    with s(2) have "floor_ms \<le> dw_start w" by (simp add: eligible_def)
    with Cons show ?thesis by (simp add: sd')
  qed (simp add: sd')
  moreover have "sc_windows sd = rev ws" by (simp add: sd)
  ultimately have res: "length (sc_windows sd) \<le> 7 \<and> (\<forall>w\<in>set (sc_windows sd). eligible floor_ms now w)
      \<and> sorted_wrt (\<lambda>a b. dw_end a \<le> dw_start b) (sc_windows sd)
      \<and> sc_gap sd = (if sc_windows sd = [] \<or> dw_start (hd (sc_windows sd)) = floor_ms then None
                     else Some (floor_ms, dw_start (hd (sc_windows sd))))"
    using s by (simp add: sorted_wrt_rev)
  show ?thesis unfolding Let_def by (intro exI [of _ first] conjI f) (use res [unfolded floor_ms_def] in blast)+
qed

theorem due_windows_sound_witness:
  "\<exists>sd. due_windows utc_calendar (lit ''UTC'') (lit ''08:00'') 0 (Some 86400000) 400000000 = Inr sd
     \<and> map dw_start (sc_windows sd) = [86400000, 172800000, 259200000] \<and> sorted_wrt (\<lambda>a b. dw_end a \<le> dw_start b) (sc_windows sd)"
proof -
  let ?r = "due_windows utc_calendar (lit ''UTC'') (lit ''08:00'') 0 (Some 86400000) 400000000"
  have "(case ?r of Inr sd \<Rightarrow> map dw_start (sc_windows sd) | Inl _ \<Rightarrow> []) = [86400000, 172800000, 259200000]" by code_simp
  then obtain sd where sd: "?r = Inr sd" "map dw_start (sc_windows sd) = [86400000, 172800000, 259200000]" by (cases ?r) auto
  have v: "validate utc_calendar (lit ''UTC'') (lit ''08:00'') = Inr ((), 480)" by code_simp
  have "resolve utc_calendar () (d * 1440) = Inr (d * 86400000)" for d
    by (rule resolve_Single) (simp add: utc_calendar_def)
  then have "ordered_midnights utc_calendar ()" by (auto simp: ordered_midnights_def)
  from due_windows_sound [OF sd(1) v this] have "sorted_wrt (\<lambda>a b. dw_end a \<le> dw_start b) (sc_windows sd)" by metis
  with sd show ?thesis by (intro exI [of _ sd] conjI)
qed

end
