(* ===== verification/Embeddings.thy ===== *)
theory Embeddings
  imports Session_Store "HOL-Library.Word"
begin

text \<open>
  Text embeddings (\<open>crates/store/src/embeddings.rs\<close>). An embedding lives in two tables that have to
  stay in lock-step: its metadata row in \<open>embeddings\<close> and its vector in the sqlite-vec table
  \<open>embedding_vectors\<close> under the same id. The methods are functions on the rows of \<open>frames\<close>,
  \<open>embeddings\<close> and \<open>embedding_vectors\<close>; a failed statement rolls the transaction back and is an
  error. Deleting a frame cascades (foreign key and the trigger \<open>embeddings_ad\<close> of
  \<open>crates/store/src/schema.rs\<close>). An \<open>f32\<close> is its 32 bits. Hashing is a parameter.
\<close>

section \<open>Rows\<close>

text \<open>A stored frame: the columns the session statements read, and the image columns.\<close>

record stored_frame = frame_row +
  fr_image_path :: ustr
  fr_image_purged :: bool

datatype chunk_source = Ocr | VisionDescription

definition source_token :: "chunk_source \<Rightarrow> ustr" where
  "source_token s = (case s of Ocr \<Rightarrow> lit ''ocr'' | VisionDescription \<Rightarrow> lit ''vision_description'')"

record embedding_row =
  em_id :: int
  em_frame_id :: int
  em_chunk_index :: int
  em_chunk_text :: ustr
  em_source :: ustr
  em_model :: ustr
  em_dim :: nat
  em_content_hash :: ustr

type_synonym f32 = "32 word"
type_synonym blob = "8 word list"

record vector_db =
  vd_frames :: "stored_frame list"
  vd_embeddings :: "embedding_row list"
  vd_vectors :: "(int \<times> blob) list"

definition embedding_dim :: nat where "embedding_dim = 768"
definition sqlite_vec_max_k :: nat where "sqlite_vec_max_k = 4096"

definition to_le_bytes :: "f32 \<Rightarrow> blob" where
  "to_le_bytes x = map (\<lambda>i. ucast (drop_bit (8 * i) x)) [0, 1, 2, 3]"

definition f32_blob :: "f32 list \<Rightarrow> blob" where
  "f32_blob v = concat (map to_le_bytes v)"

fun dedup_from :: "int set \<Rightarrow> int list \<Rightarrow> int list" where
  "dedup_from seen [] = []"
| "dedup_from seen (i # ids) = (if i \<in> seen then dedup_from seen ids else i # dedup_from (insert i seen) ids)"

definition dedup_keep_order :: "int list \<Rightarrow> int list" where "dedup_keep_order ids = dedup_from {} ids"

section \<open>Statements\<close>

datatype embed_error = WrongDim nat | MissingFrame | DuplicateVector

definition same_chunk :: "int \<Rightarrow> int \<Rightarrow> embedding_row \<Rightarrow> bool" where
  "same_chunk f c m \<longleftrightarrow> em_frame_id m = f \<and> em_chunk_index m = c"

text \<open>The insertion into the \<open>vec0\<close> table: its primary key must be new.\<close>

definition insert_vector :: "int \<Rightarrow> blob \<Rightarrow> vector_db \<Rightarrow> embed_error + vector_db" where
  "insert_vector i b db =
     (if i \<in> fst ` set (vd_vectors db) then Inl DuplicateVector
      else Inr (db\<lparr>vd_vectors := vd_vectors db @ [(i, b)]\<rparr>))"

definition rewrite_embedding :: "int \<Rightarrow> ustr \<Rightarrow> chunk_source \<Rightarrow> ustr \<Rightarrow> ustr \<Rightarrow> embedding_row \<Rightarrow> embedding_row" where
  "rewrite_embedding i txt src model h m =
     (if em_id m = i then m\<lparr>em_chunk_text := txt, em_source := source_token src, em_model := model,
        em_dim := embedding_dim, em_content_hash := h\<rparr> else m)"

lemma rewrite_embedding_keys [simp]:
  "em_id (rewrite_embedding i txt src model h m) = em_id m"
  "em_frame_id (rewrite_embedding i txt src model h m) = em_frame_id m"
  "em_chunk_index (rewrite_embedding i txt src model h m) = em_chunk_index m"
  "em_dim (rewrite_embedding i txt src model h m) = (if em_id m = i then embedding_dim else em_dim m)"
  by (simp_all add: rewrite_embedding_def)

definition upsert_text_embedding ::
  "(ustr \<Rightarrow> ustr) \<Rightarrow> int \<Rightarrow> int \<Rightarrow> ustr \<Rightarrow> chunk_source \<Rightarrow> f32 list \<Rightarrow> ustr \<Rightarrow> vector_db \<Rightarrow> embed_error + vector_db" where
  "upsert_text_embedding hash f c txt src emb model db =
     (if length emb \<noteq> embedding_dim then Inl (WrongDim (length emb))
      else (case List.find (same_chunk f c) (vd_embeddings db) of
          Some old \<Rightarrow>
            insert_vector (em_id old) (f32_blob emb)
              (db\<lparr>vd_embeddings := map (rewrite_embedding (em_id old) txt src model (hash txt)) (vd_embeddings db),
                  vd_vectors := filter (\<lambda>v. fst v \<noteq> em_id old) (vd_vectors db)\<rparr>)
        | None \<Rightarrow>
            (if f \<notin> fr_id ` set (vd_frames db) then Inl MissingFrame
             else (let i = next_rowid (map em_id (vd_embeddings db))
                   in insert_vector i (f32_blob emb)
                        (db\<lparr>vd_embeddings := vd_embeddings db @ [\<lparr>em_id = i, em_frame_id = f, em_chunk_index = c,
                            em_chunk_text = txt, em_source = source_token src, em_model = model,
                            em_dim = embedding_dim, em_content_hash = hash txt\<rparr>]\<rparr>)))))"

definition delete_frame :: "int \<Rightarrow> vector_db \<Rightarrow> vector_db" where
  "delete_frame f db =
     (let gone = map em_id (filter (\<lambda>m. em_frame_id m = f) (vd_embeddings db))
      in db\<lparr>vd_frames := filter (\<lambda>r. fr_id r \<noteq> f) (vd_frames db),
            vd_embeddings := filter (\<lambda>m. em_frame_id m \<noteq> f) (vd_embeddings db),
            vd_vectors := filter (\<lambda>v. fst v \<notin> set gone) (vd_vectors db)\<rparr>)"

definition text_embedding_count :: "vector_db \<Rightarrow> nat" where
  "text_embedding_count db = length (vd_embeddings db)"

text \<open>The KNN query of sqlite-vec is a parameter: the ids of the vectors nearest to a query, nearest first,
  at most \<open>k\<close> of them. The join keeps the frame of each id that has a metadata row.\<close>

type_synonym knn = "(int \<times> blob) list \<Rightarrow> blob \<Rightarrow> nat \<Rightarrow> int list"

definition embedding_of :: "vector_db \<Rightarrow> int \<Rightarrow> embedding_row option" where
  "embedding_of db i = List.find (\<lambda>m. em_id m = i) (vd_embeddings db)"

definition nearest_text_frames :: "knn \<Rightarrow> f32 list \<Rightarrow> nat \<Rightarrow> vector_db \<Rightarrow> embed_error + int list" where
  "nearest_text_frames knn query k db =
     (if length query \<noteq> embedding_dim then Inl (WrongDim (length query))
      else Inr (dedup_keep_order (List.map_filter (\<lambda>i. map_option em_frame_id (embedding_of db i))
                  (knn (vd_vectors db) (f32_blob query) (min k sqlite_vec_max_k)))))"

section \<open>First-seen de-duplication\<close>

lemma set_dedup_from: "set (dedup_from seen ids) = set ids - seen"
  by (induction ids arbitrary: seen) auto

lemma distinct_dedup_from: "distinct (dedup_from seen ids)"
  by (induction ids arbitrary: seen) (auto simp: set_dedup_from)

lemma dedup_from_append: "dedup_from seen (xs @ ys) = dedup_from seen xs @ dedup_from (seen \<union> set xs) ys"
  by (induction xs arbitrary: seen) (auto simp: insert_absorb)

lemma set_dedup [simp]: "set (dedup_keep_order ids) = set ids"
  by (simp add: dedup_keep_order_def set_dedup_from)

lemma distinct_dedup [simp]: "distinct (dedup_keep_order ids)"
  by (simp add: dedup_keep_order_def distinct_dedup_from)

lemma dedup_prefix: "prefix xs ys \<Longrightarrow> prefix (dedup_keep_order xs) (dedup_keep_order ys)"
  by (auto simp: dedup_keep_order_def dedup_from_append prefix_def)

section \<open>Vectors are read back as written\<close>

text \<open>What sqlite-vec documents of a \<open>FLOAT[n]\<close> blob: \<open>n\<close> little-endian 32-bit values.\<close>

fun read_f32s :: "blob \<Rightarrow> f32 list option" where
  "read_f32s [] = Some []"
| "read_f32s (a # b # c # d # bs) =
     map_option ((#) (or (or (ucast a) (push_bit 8 (ucast b))) (or (push_bit 16 (ucast c)) (push_bit 24 (ucast d))))) (read_f32s bs)"
| "read_f32s _ = None"

lemma f32_bytes:
  "or (or (ucast (ucast x :: 8 word)) (push_bit 8 (ucast (ucast (drop_bit 8 x) :: 8 word))))
      (or (push_bit 16 (ucast (ucast (drop_bit 16 x) :: 8 word))) (push_bit 24 (ucast (ucast (drop_bit 24 x) :: 8 word))))
   = (x :: f32)"
proof (rule bit_word_eqI)
  fix n assume "n < LENGTH(32)"
  then consider "n < 8" | "8 \<le> n" "n < 16" | "16 \<le> n" "n < 24" | "24 \<le> n" "n < 32" by fastforce
  then show "bit (or (or (ucast (ucast x :: 8 word)) (push_bit 8 (ucast (ucast (drop_bit 8 x) :: 8 word))))
      (or (push_bit 16 (ucast (ucast (drop_bit 16 x) :: 8 word))) (push_bit 24 (ucast (ucast (drop_bit 24 x) :: 8 word)))) :: f32) n
    = bit x n"
    by cases (auto simp: bit_simps)
qed

lemma read_f32_blob: "read_f32s (f32_blob v) = Some v"
  by (induction v) (simp_all add: f32_blob_def to_le_bytes_def f32_bytes)

section \<open>Lock-step\<close>

definition full_vector :: "blob \<Rightarrow> bool" where
  "full_vector b \<longleftrightarrow> (\<exists>e. length e = embedding_dim \<and> b = f32_blob e)"

lemma full_vector_blob: "length e = embedding_dim \<Longrightarrow> full_vector (f32_blob e)"
  by (auto simp: full_vector_def)

definition lockstep :: "vector_db \<Rightarrow> bool" where
  "lockstep db \<longleftrightarrow> distinct (map em_id (vd_embeddings db)) \<and> distinct (map fst (vd_vectors db))
     \<and> fst ` set (vd_vectors db) = em_id ` set (vd_embeddings db)
     \<and> (\<forall>m\<in>set (vd_embeddings db). em_frame_id m \<in> fr_id ` set (vd_frames db))
     \<and> distinct (map (\<lambda>m. (em_frame_id m, em_chunk_index m)) (vd_embeddings db))
     \<and> (\<forall>m\<in>set (vd_embeddings db). em_dim m = embedding_dim)
     \<and> (\<forall>v\<in>set (vd_vectors db). full_vector (snd v))"

text \<open>Everything else the store does to these tables: frames come and change, none disappears otherwise.\<close>

inductive store_step :: "vector_db \<Rightarrow> vector_db \<Rightarrow> bool" where
  upsert: "upsert_text_embedding hash f c txt src emb model db = Inr db' \<Longrightarrow> store_step db db'"
| delete: "store_step db (delete_frame f db)"
| frames: "fr_id ` set (vd_frames db) \<subseteq> fr_id ` set fs \<Longrightarrow> store_step db (db\<lparr>vd_frames := fs\<rparr>)"

inductive store_reachable :: "vector_db \<Rightarrow> bool" where
  empty: "store_reachable \<lparr>vd_frames = [], vd_embeddings = [], vd_vectors = []\<rparr>"
| step: "store_reachable db \<Longrightarrow> store_step db db' \<Longrightarrow> store_reachable db'"

lemma upsert_lockstep:
  assumes "lockstep db" and "upsert_text_embedding hash f c txt src emb model db = Inr db'"
  shows "lockstep db'"
proof (cases "List.find (same_chunk f c) (vd_embeddings db)")
  case None
  then have n: "(f, c) \<notin> (\<lambda>m. (em_frame_id m, em_chunk_index m)) ` set (vd_embeddings db)"
    by (auto simp: find_None_iff same_chunk_def)
  define i where "i = next_rowid (map em_id (vd_embeddings db))"
  have fresh: "i \<notin> em_id ` set (vd_embeddings db)"
    using next_rowid_fresh [of "map em_id (vd_embeddings db)"] by (simp add: i_def)
  define m where "m = \<lparr>em_id = i, em_frame_id = f, em_chunk_index = c, em_chunk_text = txt,
    em_source = source_token src, em_model = model, em_dim = embedding_dim, em_content_hash = hash txt\<rparr>"
  have db': "db' = db\<lparr>vd_embeddings := vd_embeddings db @ [m], vd_vectors := vd_vectors db @ [(i, f32_blob emb)]\<rparr>"
    and f: "f \<in> fr_id ` set (vd_frames db)" and len: "length emb = embedding_dim"
    using assms(2) None
    by (auto simp: upsert_text_embedding_def insert_vector_def Let_def i_def m_def split: if_splits)
  from assms(1) fresh n f full_vector_blob [OF len] show ?thesis
    unfolding lockstep_def db' by (simp add: m_def)
next
  case (Some old)
  then have o: "old \<in> set (vd_embeddings db)" by (blast dest: find_SomeD)
  from assms(2) Some have db': "db' = db\<lparr>vd_embeddings := map (rewrite_embedding (em_id old) txt src model (hash txt)) (vd_embeddings db),
        vd_vectors := filter (\<lambda>v. fst v \<noteq> em_id old) (vd_vectors db) @ [(em_id old, f32_blob emb)]\<rparr>"
      and len: "length emb = embedding_dim"
    by (auto simp: upsert_text_embedding_def insert_vector_def split: if_splits)
  have v: "fst ` {v \<in> set (vd_vectors db). fst v \<noteq> em_id old} = fst ` set (vd_vectors db) - {em_id old}" by auto
  from assms(1) have "em_id old \<in> fst ` set (vd_vectors db)" using o by (simp add: lockstep_def)
  with assms(1) o full_vector_blob [OF len] show ?thesis
    by (simp add: db' lockstep_def image_image o_def v distinct_map_filter insert_absorb)
qed

lemma delete_lockstep:
  assumes "lockstep db"
  shows "lockstep (delete_frame f db)"
proof -
  let ?gone = "em_id ` {m \<in> set (vd_embeddings db). em_frame_id m = f}"
  have "em_id ` {m \<in> set (vd_embeddings db). em_frame_id m \<noteq> f} = em_id ` set (vd_embeddings db) - ?gone"
    using assms distinct_map_eq [of em_id "vd_embeddings db"] by (auto simp: lockstep_def)
  moreover have "fst ` {v \<in> set (vd_vectors db). fst v \<notin> ?gone} = fst ` set (vd_vectors db) - ?gone" by auto
  ultimately have "fst ` {v \<in> set (vd_vectors db). fst v \<notin> ?gone} = em_id ` {m \<in> set (vd_embeddings db). em_frame_id m \<noteq> f}"
    using assms by (simp add: lockstep_def)
  with assms show ?thesis
    by (auto simp: lockstep_def delete_frame_def Let_def distinct_map_filter)
qed

lemma store_reachable_lockstep: "store_reachable db \<Longrightarrow> lockstep db"
proof (induction rule: store_reachable.induct)
  case (step db db')
  from step.hyps(2) step.IH show ?case
    by (cases rule: store_step.cases) (auto intro: upsert_lockstep delete_lockstep, auto simp: lockstep_def subset_iff image_subset_iff)
qed (simp add: lockstep_def)

section \<open>Reading back\<close>

definition stored_vector :: "vector_db \<Rightarrow> int \<Rightarrow> int \<Rightarrow> blob option" where
  "stored_vector db f c = Option.bind (List.find (same_chunk f c) (vd_embeddings db)) (\<lambda>m. map_of (vd_vectors db) (em_id m))"

lemma find_map_keep: "(\<And>x. P (g x) = P x) \<Longrightarrow> List.find P (map g xs) = map_option g (List.find P xs)"
  by (induction xs) auto

lemma map_of_filter_fst: "map_of (filter (\<lambda>v. fst v \<noteq> i) vs) j = (if j = i then None else map_of vs j)"
  by (induction vs) auto

lemma same_chunk_inj: "same_chunk f c m \<Longrightarrow> same_chunk f' c' m \<longleftrightarrow> f' = f \<and> c' = c"
  by (auto simp: same_chunk_def)

lemma upsert_new:
  assumes "lockstep db" and "f \<in> fr_id ` set (vd_frames db)" and "length emb = embedding_dim"
    and none: "List.find (same_chunk f c) (vd_embeddings db) = None"
  shows "\<exists>db' m. upsert_text_embedding hash f c txt src emb model db = Inr db'
     \<and> List.find (same_chunk f c) (vd_embeddings db') = Some m \<and> em_chunk_text m = txt \<and> em_content_hash m = hash txt
     \<and> stored_vector db' f c = Some (f32_blob emb)
     \<and> (\<forall>f' c'. (f', c') \<noteq> (f, c) \<longrightarrow> stored_vector db' f' c' = stored_vector db f' c')"
proof -
  let ?i = "next_rowid (map em_id (vd_embeddings db))"
  have fresh: "?i \<notin> em_id ` set (vd_embeddings db)"
    using next_rowid_fresh [of "map em_id (vd_embeddings db)"] by simp
  then have vfresh: "?i \<notin> fst ` set (vd_vectors db)" using assms(1) by (simp add: lockstep_def)
  define m where "m = \<lparr>em_id = ?i, em_frame_id = f, em_chunk_index = c, em_chunk_text = txt,
    em_source = source_token src, em_model = model, em_dim = embedding_dim, em_content_hash = hash txt\<rparr>"
  define db' where "db' = db\<lparr>vd_embeddings := vd_embeddings db @ [m], vd_vectors := vd_vectors db @ [(?i, f32_blob emb)]\<rparr>"
  have u: "upsert_text_embedding hash f c txt src emb model db = Inr db'"
    using assms(2-4) vfresh by (auto simp: upsert_text_embedding_def insert_vector_def Let_def db'_def m_def)
  have sc: "same_chunk f' c' m \<longleftrightarrow> f' = f \<and> c' = c" for f' c' by (auto simp: same_chunk_def m_def)
  have f1: "List.find (same_chunk f c) (vd_embeddings db') = Some m" using none by (simp add: db'_def find_append sc)
  have "map_of (vd_vectors db) ?i = None" using vfresh by (simp add: map_of_eq_None_iff)
  then have "stored_vector db' f c = Some (f32_blob emb)"
    unfolding stored_vector_def f1 by (simp add: db'_def m_def map_add_def)
  moreover have "stored_vector db' f' c' = stored_vector db f' c'" if "(f', c') \<noteq> (f, c)" for f' c'
  proof (cases "List.find (same_chunk f' c') (vd_embeddings db)")
    case None
    then show ?thesis using that by (auto simp: stored_vector_def db'_def find_append sc)
  next
    case (Some m')
    then have "m' \<in> set (vd_embeddings db)" by (blast dest: find_SomeD)
    then have "em_id m' \<noteq> ?i" using fresh by (metis imageI)
    then show ?thesis using Some by (auto simp: stored_vector_def db'_def find_append map_add_def split: option.split)
  qed
  ultimately show ?thesis using u f1 by (intro exI [of _ db'] exI [of _ m]) (simp add: m_def)
qed

lemma upsert_old:
  assumes "lockstep db" and "length emb = embedding_dim"
    and old: "List.find (same_chunk f c) (vd_embeddings db) = Some old"
  shows "\<exists>db' m. upsert_text_embedding hash f c txt src emb model db = Inr db'
     \<and> List.find (same_chunk f c) (vd_embeddings db') = Some m \<and> em_chunk_text m = txt \<and> em_content_hash m = hash txt
     \<and> stored_vector db' f c = Some (f32_blob emb)
     \<and> (\<forall>f' c'. (f', c') \<noteq> (f, c) \<longrightarrow> stored_vector db' f' c' = stored_vector db f' c')"
proof -
  let ?g = "rewrite_embedding (em_id old) txt src model (hash txt)"
  define db' where "db' = db\<lparr>vd_embeddings := map ?g (vd_embeddings db),
    vd_vectors := filter (\<lambda>v. fst v \<noteq> em_id old) (vd_vectors db) @ [(em_id old, f32_blob emb)]\<rparr>"
  have u: "upsert_text_embedding hash f c txt src emb model db = Inr db'"
    using assms(2) old by (auto simp: upsert_text_embedding_def insert_vector_def db'_def)
  have fnd: "List.find (same_chunk f' c') (vd_embeddings db') = map_option ?g (List.find (same_chunk f' c') (vd_embeddings db))" for f' c'
    unfolding db'_def by (simp, rule find_map_keep) (simp add: same_chunk_def)
  have o: "old \<in> set (vd_embeddings db)" "same_chunk f c old" using old by (blast dest: find_SomeD)+
  have "stored_vector db' f c = Some (f32_blob emb)"
    unfolding stored_vector_def fnd old by (simp add: db'_def map_add_def map_of_filter_fst)
  moreover have "stored_vector db' f' c' = stored_vector db f' c'" if ne: "(f', c') \<noteq> (f, c)" for f' c'
  proof (cases "List.find (same_chunk f' c') (vd_embeddings db)")
    case (Some m')
    then have m': "m' \<in> set (vd_embeddings db)" "same_chunk f' c' m'" by (blast dest: find_SomeD)+
    have "em_id m' \<noteq> em_id old"
    proof
      assume "em_id m' = em_id old"
      with assms(1) m'(1) o(1) have "m' = old" using distinct_map_eq [of em_id "vd_embeddings db"] by (simp add: lockstep_def)
      with m'(2) o(2) ne show False by (auto simp: same_chunk_def)
    qed
    then show ?thesis using Some by (simp add: stored_vector_def fnd) (auto simp: db'_def map_add_def map_of_filter_fst split: option.split)
  qed (simp add: stored_vector_def fnd)
  moreover have "em_chunk_text (?g old) = txt" "em_content_hash (?g old) = hash txt" by (simp_all add: rewrite_embedding_def)
  ultimately show ?thesis using u fnd [of f c] old by (intro exI [of _ db'] exI [of _ "?g old"]) simp
qed

text \<open>C13: An upsert of a full-length vector for a stored frame always succeeds, whatever the history of the store, and is
  read back: the chunk's row carries the new text and hash, its blob decodes to exactly the vector that was written, and the
  vector of every other chunk is untouched. (No id is left behind in the vector table that could make the insertion fail
  or hand a new chunk an old vector.)\<close>

theorem embedding_upsert_roundtrip:
  assumes "store_reachable db" and "f \<in> fr_id ` set (vd_frames db)" and "length emb = embedding_dim"
  shows "\<exists>db' m. upsert_text_embedding hash f c txt src emb model db = Inr db'
     \<and> List.find (same_chunk f c) (vd_embeddings db') = Some m \<and> em_chunk_text m = txt \<and> em_content_hash m = hash txt
     \<and> Option.bind (stored_vector db' f c) read_f32s = Some emb
     \<and> (\<forall>f' c'. (f', c') \<noteq> (f, c) \<longrightarrow> stored_vector db' f' c' = stored_vector db f' c')"
proof -
  note l = store_reachable_lockstep [OF assms(1)]
  from upsert_new [OF l assms(2,3), of c hash "txt" src model] upsert_old [OF l assms(3), of f c _ hash "txt" src model]
  obtain db' m where "upsert_text_embedding hash f c txt src emb model db = Inr db'"
     "List.find (same_chunk f c) (vd_embeddings db') = Some m" "em_chunk_text m = txt" "em_content_hash m = hash txt"
     "stored_vector db' f c = Some (f32_blob emb)" "\<forall>f' c'. (f', c') \<noteq> (f, c) \<longrightarrow> stored_vector db' f' c' = stored_vector db f' c'"
    by (cases "List.find (same_chunk f c) (vd_embeddings db)") auto
  then show ?thesis by (intro exI [of _ db'] exI [of _ m]) (simp add: read_f32_blob)
qed

definition sample_stored_frame :: "int \<Rightarrow> int \<Rightarrow> int option \<Rightarrow> stored_frame" where
  "sample_stored_frame i t s = \<lparr>fr_id = i, fr_captured_at = t, fr_app_hint = None, fr_window_title = None,
     fr_browser_url = None, fr_session_id = s, fr_content_text = Some (lit ''text''), fr_image_path = lit ''p'',
     fr_image_purged = False\<rparr>"

theorem embedding_upsert_roundtrip_witness:
  "\<exists>db' m. upsert_text_embedding id 7 0 (lit ''hello'') Ocr (replicate 768 5) (lit ''m'')
       \<lparr>vd_frames = [sample_stored_frame 7 100 None], vd_embeddings = [], vd_vectors = []\<rparr> = Inr db'
     \<and> List.find (same_chunk 7 0) (vd_embeddings db') = Some m \<and> em_chunk_text m = lit ''hello''"
proof -
  let ?e = "\<lparr>vd_frames = [], vd_embeddings = [], vd_vectors = []\<rparr> :: vector_db"
  have "store_step ?e (?e\<lparr>vd_frames := [sample_stored_frame 7 100 None]\<rparr>)" by (rule store_step.frames) simp
  then have r: "store_reachable \<lparr>vd_frames = [sample_stored_frame 7 100 None], vd_embeddings = [], vd_vectors = []\<rparr>"
    using store_reachable.step [OF store_reachable.empty] by simp
  show ?thesis
    using embedding_upsert_roundtrip [OF r, of 7 "replicate 768 5" id 0 "lit ''hello''" Ocr "lit ''m''"]
    by (fastforce simp: sample_stored_frame_def embedding_dim_def)
qed

end
