(* ===== verification/Search.thy ===== *)
theory Search
  imports Embeddings
begin

text \<open>
  Hybrid retrieval (\<open>crates/store/src/search.rs\<close>): the full-text arms and the vector arm, fused by
  reciprocal rank and hydrated into hits. FTS5's ranked \<open>MATCH\<close> (\<open>fts\<close>), sqlite-vec's KNN (\<open>knn\<close>)
  and the embedder are parameters; the joins, filters, limits and the Rust around them are functions.
  The arms and the hydration are separate reads, so each reads its own state of the database
  (\<open>db stage\<close>). Scores are exact rationals.
\<close>

section \<open>Constants and small helpers\<close>

definition rrf_k :: rat where "rrf_k = 60"
definition max_search_limit :: nat where "max_search_limit = 2000"
definition max_candidate_pool :: nat where "max_candidate_pool = 2000"
definition knn_escalation_factor :: nat where "knn_escalation_factor = 8"
definition max_time_range_knn :: nat where "max_time_range_knn = sqlite_vec_max_k"
definition count_scan_cap :: nat where "count_scan_cap = max_time_range_knn"

definition normalized_limit :: "nat \<Rightarrow> nat" where
  "normalized_limit limit = clamp limit 1 max_search_limit"

definition candidate_pool :: "nat \<Rightarrow> nat" where
  "candidate_pool limit = clamp (limit * 5) 50 max_candidate_pool"

text \<open>Each term in double quotes, its own quotes doubled; the terms separated by blanks.\<close>

definition quote :: "uchar" where "quote = 34"

definition quoted :: "ustr \<Rightarrow> ustr" where
  "quoted t = [quote] @ concat (map (\<lambda>c. if c = quote then [quote, quote] else [c]) t) @ [quote]"

definition fts_match_query :: "ustr \<Rightarrow> ustr option" where
  "fts_match_query txt = (let terms = map quoted (filter (\<lambda>t. t \<noteq> []) (split_whitespace txt))
     in if terms = [] then None else Some (join (lit '' '') terms))"

definition truncate_snippet :: "ustr \<Rightarrow> ustr" where
  "truncate_snippet txt = (if length txt \<le> 160 then txt else take 160 txt @ [8230])"

section \<open>Rank fusion\<close>

text \<open>The score map of the loops over the arms, as an association list.\<close>

definition add_score :: "(int \<times> rat) list \<Rightarrow> nat \<times> int \<Rightarrow> (int \<times> rat) list" where
  "add_score scores ri = (case ri of (rank, i) \<Rightarrow>
     AList.update i ((case map_of scores i of None \<Rightarrow> 0 | Some s \<Rightarrow> s) + 1 / (rrf_k + of_nat (rank + 1))) scores)"

definition score_arm :: "(int \<times> rat) list \<Rightarrow> int list \<Rightarrow> (int \<times> rat) list" where
  "score_arm scores arm = foldl add_score scores (enumerate 0 arm)"

definition rrf_fuse :: "int list list \<Rightarrow> nat \<Rightarrow> (int \<times> rat) list" where
  "rrf_fuse arms limit = take limit (sort_key (\<lambda>is. (- snd is, - fst is)) (foldl score_arm [] arms))"

section \<open>The vector arm\<close>

datatype search_error = SqlError ustr | EmbedFailed ustr | NoVector

partial_function (option) escalate_loop ::
  "nat \<Rightarrow> nat \<Rightarrow> (nat \<Rightarrow> 'e + nat \<times> int list) \<Rightarrow> nat \<Rightarrow> ('e + int list) option" where
  "escalate_loop pool target fetch k = (case fetch k of
     Inl e \<Rightarrow> Some (Inl e)
   | Inr (raw, in_range) \<Rightarrow>
       (let ids = dedup_keep_order in_range
        in if target \<le> length ids \<or> raw < k \<or> max_time_range_knn \<le> k then Some (Inr (take pool ids))
           else escalate_loop pool target fetch (min (k * knn_escalation_factor) max_time_range_knn)))"

definition escalate_in_range_knn ::
  "nat \<Rightarrow> nat \<Rightarrow> (nat \<Rightarrow> 'e + nat \<times> int list) \<Rightarrow> ('e + int list) option" where
  "escalate_in_range_knn pool target fetch = escalate_loop pool target fetch (min pool max_time_range_knn)"

text \<open>The scope of a search: a half-open window and, when set, the owning session.\<close>

definition in_window :: "int \<Rightarrow> int \<Rightarrow> stored_frame \<Rightarrow> bool" where
  "in_window s e f \<longleftrightarrow> s \<le> fr_captured_at f \<and> fr_captured_at f < e"

definition in_scope :: "int \<Rightarrow> int \<Rightarrow> int option \<Rightarrow> stored_frame \<Rightarrow> bool" where
  "in_scope s e sid f \<longleftrightarrow> in_window s e f \<and> (case sid of None \<Rightarrow> True | Some i \<Rightarrow> fr_session_id f = Some i)"

definition frame_of :: "vector_db \<Rightarrow> int \<Rightarrow> stored_frame option" where
  "frame_of db i = List.find (\<lambda>f. fr_id f = i) (vd_frames db)"

definition count_embedded_frames_in_range ::
  "vector_db \<Rightarrow> int \<Rightarrow> int \<Rightarrow> int option \<Rightarrow> nat \<Rightarrow> nat \<Rightarrow> nat option" where
  "count_embedded_frames_in_range db s e sid pool scan_cap =
     (let rows = take scan_cap (filter (in_scope s e sid) (vd_frames db));
          embedded = length (filter (\<lambda>f. list_ex (\<lambda>m. em_frame_id m = fr_id f) (vd_embeddings db)) rows)
      in if scan_cap \<le> length rows then Some pool
         else if embedded = 0 then None
         else Some (min embedded pool))"

definition joined_frame :: "vector_db \<Rightarrow> int \<Rightarrow> stored_frame option" where
  "joined_frame db v = Option.bind (embedding_of db v) (\<lambda>m. frame_of db (em_frame_id m))"

definition fetch_knn :: "vector_db \<Rightarrow> knn \<Rightarrow> blob \<Rightarrow> int \<Rightarrow> int \<Rightarrow> int option \<Rightarrow> nat \<Rightarrow> search_error + nat \<times> int list" where
  "fetch_knn db knn b s e sid k =
     (let rows = List.map_filter (joined_frame db) (knn (vd_vectors db) b (min k sqlite_vec_max_k))
      in Inr (length rows, map fr_id (filter (in_scope s e sid) rows)))"

definition text_knn_in_range ::
  "vector_db \<Rightarrow> knn \<Rightarrow> f32 list \<Rightarrow> nat \<Rightarrow> int \<Rightarrow> int \<Rightarrow> int option \<Rightarrow> (search_error + int list) option" where
  "text_knn_in_range db knn query pool s e sid =
     (let b = f32_blob query;
          bounded = (s \<noteq> i64_min \<or> e \<noteq> i64_max \<or> sid \<noteq> None)
      in if \<not> bounded
         then Some (bind_r (fetch_knn db knn b s e sid pool) (\<lambda>(raw, in_range). Inr (take pool (dedup_keep_order in_range))))
         else (case count_embedded_frames_in_range db s e sid pool count_scan_cap of
             None \<Rightarrow> Some (Inr [])
           | Some target \<Rightarrow> escalate_in_range_knn pool target (fetch_knn db knn b s e sid)))"

section \<open>Search\<close>

record search_query =
  sq_text :: ustr
  sq_limit :: nat
  sq_time_range :: "(int \<times> int) option"
  sq_include_chrome :: bool

record search_hit =
  sh_frame_id :: int
  sh_captured_at :: int
  sh_snippet :: ustr
  sh_score :: rat
  sh_image_path :: ustr
  sh_image_purged :: bool
  sh_app_hint :: "ustr option"

datatype fts_table = FrameTextFts | FrameTextRawFts
datatype search_stage = ContentArm | RawArm | VectorArm | Hydration

text \<open>\<open>fts table db expr\<close>: the rows matching the expression with their snippets, best \<open>bm25\<close> first.\<close>

type_synonym fts = "fts_table \<Rightarrow> vector_db \<Rightarrow> ustr \<Rightarrow> search_error + (int \<times> ustr) list"

definition fts_arm ::
  "fts \<Rightarrow> fts_table \<Rightarrow> vector_db \<Rightarrow> ustr \<Rightarrow> int \<Rightarrow> int \<Rightarrow> nat \<Rightarrow> int option \<Rightarrow> search_error + (int \<times> ustr) list" where
  "fts_arm fts table db txt s e pool sid = (case fts_match_query txt of
     None \<Rightarrow> Inr []
   | Some expr \<Rightarrow> bind_r (fts table db expr) (\<lambda>rows.
       Inr (take pool (filter (\<lambda>r. case frame_of db (fst r) of None \<Rightarrow> False | Some f \<Rightarrow> in_scope s e sid f) rows))))"

definition merge_snippets :: "(int \<rightharpoonup> ustr) \<Rightarrow> (int \<times> ustr) list \<Rightarrow> (int \<rightharpoonup> ustr)" where
  "merge_snippets m raw = foldl (\<lambda>m (i, s). if m i = None then m(i \<mapsto> s) else m) m raw"

text \<open>\<open>FrameTextFts\<close> snippets; a later duplicate id overwrites an earlier one, as collecting into a map does.\<close>

definition snippet_map :: "(int \<times> ustr) list \<Rightarrow> (int \<rightharpoonup> ustr)" where
  "snippet_map rows = map_of (rev rows)"

definition hydrate_row :: "vector_db \<Rightarrow> (int \<rightharpoonup> ustr) \<Rightarrow> int \<times> rat \<Rightarrow> search_hit option" where
  "hydrate_row db snippets is = (case is of (i, score) \<Rightarrow>
     map_option (\<lambda>f. \<lparr>sh_frame_id = i, sh_captured_at = fr_captured_at f,
         sh_snippet = (case snippets i of Some s \<Rightarrow> s
           | None \<Rightarrow> (case fr_content_text f of None \<Rightarrow> [] | Some t \<Rightarrow> truncate_snippet t)),
         sh_score = score, sh_image_path = fr_image_path f, sh_image_purged = fr_image_purged f,
         sh_app_hint = fr_app_hint f\<rparr>) (frame_of db i))"

definition hydrate :: "vector_db \<Rightarrow> (int \<times> rat) list \<Rightarrow> (int \<rightharpoonup> ustr) \<Rightarrow> search_hit list" where
  "hydrate db fused snippets = List.map_filter (hydrate_row db snippets) fused"

text \<open>The query's vector: the last of what the embedder returns for the one text.\<close>

definition vector_arm ::
  "(ustr \<Rightarrow> search_error + f32 list list) option \<Rightarrow> knn \<Rightarrow> vector_db \<Rightarrow> ustr \<Rightarrow> nat \<Rightarrow> int \<Rightarrow> int \<Rightarrow> int option
     \<Rightarrow> (search_error + int list) option" where
  "vector_arm embedder knn db txt pool s e sid = (case embedder of
     Some embed_texts \<Rightarrow> if trim txt = [] then Some (Inr [])
       else (case embed_texts txt of
           Inl err \<Rightarrow> Some (Inl err)
         | Inr embs \<Rightarrow> (case last_opt embs of None \<Rightarrow> Some (Inl NoVector)
             | Some v \<Rightarrow> text_knn_in_range db knn v pool s e sid))
   | None \<Rightarrow> Some (Inr []))"

definition query_window :: "search_query \<Rightarrow> int \<times> int" where
  "query_window q = (case sq_time_range q of None \<Rightarrow> (i64_min, i64_max) | Some r \<Rightarrow> r)"

definition hybrid_search_scoped ::
  "fts \<Rightarrow> (ustr \<Rightarrow> search_error + f32 list list) option \<Rightarrow> knn \<Rightarrow> (search_stage \<Rightarrow> vector_db) \<Rightarrow> search_query \<Rightarrow> int option
     \<Rightarrow> (search_error + search_hit list) option" where
  "hybrid_search_scoped fts embedder knn db q sid =
     (let limit = normalized_limit (sq_limit q);
          pool = candidate_pool limit;
          (s, e) = query_window q
      in case fts_arm fts FrameTextFts (db ContentArm) (sq_text q) s e pool sid of
           Inl err \<Rightarrow> Some (Inl err)
         | Inr content \<Rightarrow>
        (case (if sq_include_chrome q then fts_arm fts FrameTextRawFts (db RawArm) (sq_text q) s e pool sid else Inr []) of
           Inl err \<Rightarrow> Some (Inl err)
         | Inr raw \<Rightarrow>
        (case vector_arm embedder knn (db VectorArm) (sq_text q) pool s e sid of
           None \<Rightarrow> None
         | Some (Inl err) \<Rightarrow> Some (Inl err)
         | Some (Inr vec_ids) \<Rightarrow>
             (let arms = [map fst content] @ (if sq_include_chrome q then [map fst raw] else []) @ [vec_ids]
              in Some (Inr (hydrate (db Hydration) (rrf_fuse arms limit)
                              (merge_snippets (snippet_map content) raw)))))))"

definition hybrid_search ::
  "fts \<Rightarrow> (ustr \<Rightarrow> search_error + f32 list list) option \<Rightarrow> knn \<Rightarrow> (search_stage \<Rightarrow> vector_db) \<Rightarrow> search_query
     \<Rightarrow> (search_error + search_hit list) option" where
  "hybrid_search fts embedder knn db q = hybrid_search_scoped fts embedder knn db q None"

definition hybrid_search_in_session ::
  "fts \<Rightarrow> (ustr \<Rightarrow> search_error + f32 list list) option \<Rightarrow> knn \<Rightarrow> (search_stage \<Rightarrow> vector_db) \<Rightarrow> search_query \<Rightarrow> int
     \<Rightarrow> (search_error + search_hit list) option" where
  "hybrid_search_in_session fts embedder knn db q i = hybrid_search_scoped fts embedder knn db q (Some i)"

section \<open>The match expression\<close>

text \<open>What FTS5 documents of its query strings: a string is opened and closed by a double quote, a doubled quote inside
  stands for one; a query of strings separated by single blanks asks for all of them.\<close>

fun read_string :: "ustr \<Rightarrow> (ustr \<times> ustr) option" where
  "read_string [] = None"
| "read_string [c] = (if c = quote then Some ([], []) else None)"
| "read_string (c # d # s) =
     (if c \<noteq> quote then map_option (\<lambda>(t, r). (c # t, r)) (read_string (d # s))
      else if d = quote then map_option (\<lambda>(t, r). (quote # t, r)) (read_string s)
      else Some ([], d # s))"

fun read_strings :: "nat \<Rightarrow> ustr \<Rightarrow> ustr list option" where
  "read_strings 0 s = None"
| "read_strings (Suc n) s = (case s of
     [] \<Rightarrow> None
   | c # s' \<Rightarrow> if c \<noteq> quote then None
       else (case read_string s' of
           None \<Rightarrow> None
         | Some (t, []) \<Rightarrow> Some [t]
         | Some (t, b # r) \<Rightarrow> if b = 32 then map_option ((#) t) (read_strings n r) else None))"

definition parse_match :: "ustr \<Rightarrow> ustr list option" where
  "parse_match s = read_strings (length s) s"

definition escaped :: "ustr \<Rightarrow> ustr" where
  "escaped t = concat (map (\<lambda>c. if c = quote then [quote, quote] else [c]) t)"

lemma read_string_escaped:
  "(r = [] \<or> hd r \<noteq> quote) \<Longrightarrow> read_string (escaped t @ quote # r) = Some (t, r)"
proof (induction t)
  case Nil
  then show ?case by (cases r) (auto simp: escaped_def)
next
  case (Cons c t)
  obtain d s where d: "escaped t @ quote # r = d # s" by (cases "escaped t @ quote # r") auto
  show ?case
  proof (cases "c = quote")
    case True
    then show ?thesis using Cons by (simp add: escaped_def)
  next
    case False
    then have "escaped (c # t) @ quote # r = c # d # s" using d by (simp add: escaped_def)
    then show ?thesis using Cons False d by simp
  qed
qed

lemma quoted_escaped: "quoted t = quote # escaped t @ [quote]"
  by (simp add: quoted_def escaped_def)

lemma read_strings_join:
  "ts \<noteq> [] \<Longrightarrow> length ts \<le> n \<Longrightarrow> read_strings n (join [32] (map quoted ts)) = Some ts"
proof (induction ts arbitrary: n)
  case (Cons t ts)
  then obtain m where n: "n = Suc m" by (cases n) auto
  show ?case
  proof (cases ts)
    case Nil
    then show ?thesis using read_string_escaped [of "[]" t] by (simp add: n quoted_escaped)
  next
    case (Cons u us)
    have "read_string (escaped t @ quote # 32 # join [32] (map quoted ts)) = Some (t, 32 # join [32] (map quoted ts))"
      by (rule read_string_escaped) (simp add: quote_def)
    moreover have "join [32] (map quoted (t # ts)) = quote # escaped t @ quote # 32 # join [32] (map quoted ts)"
      by (simp add: Cons quoted_escaped)
    moreover have "read_strings m (join [32] (map quoted ts)) = Some ts" using Cons Cons.IH [of m] Cons.prems n by simp
    ultimately show ?thesis unfolding n by simp
  qed
qed simp

lemma length_join_quoted: "length ts \<le> length (join [32] (map quoted ts))"
proof (induction ts)
  case (Cons t ts)
  then show ?case by (cases ts) (simp_all add: quoted_escaped)
qed simp

text \<open>The \<open>MATCH\<close> expression built from free text is inert: read by FTS5's quoting rules it is exactly the list of the
  text's whitespace-separated words as plain strings, whatever quotes or operators they contain, and there is an expression
  exactly when there is a word.\<close>

theorem fts_match_query_roundtrip:
  "map_option parse_match (fts_match_query txt)
     = (if split_whitespace txt = [] then None else Some (Some (split_whitespace txt)))"
proof -
  have f: "filter (\<lambda>t. t \<noteq> []) (split_whitespace txt) = split_whitespace txt"
    by (simp add: split_whitespace_def)
  show ?thesis
    using read_strings_join [OF _ length_join_quoted, of "split_whitespace txt"]
    by (simp add: fts_match_query_def f parse_match_def)
qed

section \<open>Fusion\<close>

definition rrf_score :: "int list list \<Rightarrow> int \<Rightarrow> rat" where
  "rrf_score arms i = (\<Sum>arm\<leftarrow>arms. \<Sum>(rank, j)\<leftarrow>enumerate 0 arm. if j = i then 1 / (60 + of_nat rank + 1) else 0)"

definition score_of :: "(int \<times> rat) list \<Rightarrow> int \<Rightarrow> rat" where
  "score_of sc i = (case map_of sc i of None \<Rightarrow> 0 | Some s \<Rightarrow> s)"

lemma add_score:
  assumes "distinct (map fst sc)"
  shows "distinct (map fst (add_score sc (rank, j)))"
    and "fst ` set (add_score sc (rank, j)) = insert j (fst ` set sc)"
    and "score_of (add_score sc (rank, j)) i = score_of sc i + (if j = i then 1 / (60 + of_nat rank + 1) else 0)"
  using assms
  by (auto simp: add_score_def score_of_def distinct_update dom_update update_conv' rrf_k_def add.assoc split: option.split)

lemma foldl_add_score:
  assumes "distinct (map fst sc)"
  shows "distinct (map fst (foldl add_score sc rs)) \<and> fst ` set (foldl add_score sc rs) = fst ` set sc \<union> snd ` set rs
    \<and> score_of (foldl add_score sc rs) i = score_of sc i + (\<Sum>(rank, j)\<leftarrow>rs. if j = i then 1 / (60 + of_nat rank + 1) else 0)"
  using assms
proof (induction rs arbitrary: sc)
  case (Cons r rs)
  obtain rank j where r: "r = (rank, j)" by (cases r)
  note a = add_score [OF Cons.prems, of rank j]
  from Cons.IH [OF a(1)] a(2) a(3) [of i] show ?case by (auto simp: r add.assoc)
qed simp

lemma fused_scores:
  assumes "distinct (map fst sc)"
  shows "distinct (map fst (foldl score_arm sc arms)) \<and> fst ` set (foldl score_arm sc arms) = fst ` set sc \<union> \<Union> (set ` set arms)
    \<and> score_of (foldl score_arm sc arms) i = score_of sc i + rrf_score arms i"
  using assms
proof (induction arms arbitrary: sc)
  case (Cons arm arms)
  have s: "snd ` set (enumerate 0 arm) = set arm"
    by (metis list.set_map map_snd_enumerate)
  note a = foldl_add_score [OF Cons.prems, of "enumerate 0 arm" i, folded score_arm_def]
  from Cons.IH [of "score_arm sc arm"] a show ?case by (auto simp: rrf_score_def s add.assoc)
qed (simp add: rrf_score_def)

lemma rrf_fuse_basic:
  "sorted_wrt (\<lambda>a b. (snd b, fst b) < (snd a, fst a) \<and> fst a \<noteq> fst b) (rrf_fuse arms limit)"
  "length (rrf_fuse arms limit) \<le> limit" "fst ` set (rrf_fuse arms limit) \<subseteq> \<Union> (set ` set arms)"
proof -
  note f = fused_scores [of "[]" arms]
  let ?key = "\<lambda>is :: int \<times> rat. (- snd is, - fst is)"
  have d: "distinct (map fst (sort_key ?key (foldl score_arm [] arms)))"
    using f by (simp add: distinct_map)
  have "sorted_wrt (\<lambda>a b. ?key a \<le> ?key b \<and> fst a \<noteq> fst b) (sort_key ?key (foldl score_arm [] arms))"
    using sorted_wrt_sort_key [of ?key "foldl score_arm [] arms"] d by (simp add: distinct_conv_nth sorted_wrt_iff_nth_less)
  then have "sorted_wrt (\<lambda>a b. (snd b, fst b) < (snd a, fst a) \<and> fst a \<noteq> fst b) (sort_key ?key (foldl score_arm [] arms))"
    by (rule sorted_wrt_mono_rel [rotated]) auto
  then show "sorted_wrt (\<lambda>a b. (snd b, fst b) < (snd a, fst a) \<and> fst a \<noteq> fst b) (rrf_fuse arms limit)"
    unfolding rrf_fuse_def by (rule sorted_wrt_take)
  show "length (rrf_fuse arms limit) \<le> limit" by (simp add: rrf_fuse_def)
  show "fst ` set (rrf_fuse arms limit) \<subseteq> \<Union> (set ` set arms)"
  proof -
    have "fst ` set (rrf_fuse arms limit) \<subseteq> fst ` set (foldl score_arm [] arms)"
      unfolding rrf_fuse_def by (rule image_mono) (metis set_sort set_take_subset)
    with f show ?thesis by simp
  qed
qed

text \<open>Fusion ranks correctly: every id appears once, only ids of the arms appear, each with the sum of its reciprocal
  ranks over all arms; the result is ordered by score and among equal scores by the newer id, and it is the best \<open>limit\<close> of
  them: every id left out scores below (or ties as an older id) every id kept, and ids are only left out when the limit is
  reached.\<close>

theorem rrf_fuse_correct:
  defines "ids \<equiv> \<lambda>arms. \<Union> (set ` set arms)"
  shows "distinct (map fst (rrf_fuse arms limit))
    \<and> length (rrf_fuse arms limit) = min limit (card (ids arms))
    \<and> set (rrf_fuse arms limit) \<subseteq> (\<lambda>i. (i, rrf_score arms i)) ` ids arms
    \<and> sorted_wrt (\<lambda>a b. (snd b, fst b) < (snd a, fst a)) (rrf_fuse arms limit)
    \<and> (\<forall>i s j. (j, s) \<in> set (rrf_fuse arms limit) \<and> i \<in> ids arms - fst ` set (rrf_fuse arms limit)
         \<longrightarrow> (rrf_score arms i, i) \<le> (s, j))"
proof (intro conjI allI impI)
  let ?sc = "foldl score_arm [] arms"
  let ?key = "\<lambda>is :: int \<times> rat. (- snd is, - fst is)"
  have sc: "distinct (map fst ?sc)" "fst ` set ?sc = ids arms" "\<And>i. score_of ?sc i = rrf_score arms i"
    using fused_scores [of "[]" arms] by (auto simp: ids_def score_of_def)
  have val: "s = rrf_score arms i" if "(i, s) \<in> set ?sc" for i s
    using that sc(1) sc(3) [of i] by (simp add: score_of_def)
  have mem: "set (rrf_fuse arms limit) \<subseteq> set ?sc"
    unfolding rrf_fuse_def by (metis set_sort set_take_subset)
  show so: "sorted_wrt (\<lambda>a b. (snd b, fst b) < (snd a, fst a)) (rrf_fuse arms limit)"
    by (rule sorted_wrt_mono_rel [OF _ rrf_fuse_basic(1)]) simp
  show "distinct (map fst (rrf_fuse arms limit))"
    using rrf_fuse_basic(1) [of arms limit] by (auto simp: distinct_conv_nth sorted_wrt_iff_nth_less) (metis linorder_neqE_nat)
  have "card (ids arms) = length ?sc" using sc(1,2) distinct_card [of "map fst ?sc"] by simp
  then show "length (rrf_fuse arms limit) = min limit (card (ids arms))" by (simp add: rrf_fuse_def)
  show "set (rrf_fuse arms limit) \<subseteq> (\<lambda>i. (i, rrf_score arms i)) ` ids arms"
  proof
    fix x assume "x \<in> set (rrf_fuse arms limit)"
    then have x: "x \<in> set ?sc" using mem by blast
    then have "fst x \<in> ids arms" using sc(2) by (metis image_eqI)
    moreover have "x = (fst x, rrf_score arms (fst x))" using val [of "fst x" "snd x"] x by (simp add: prod_eq_iff)
    ultimately show "x \<in> (\<lambda>i. (i, rrf_score arms i)) ` ids arms" by blast
  qed
  fix i s j assume h: "(j, s) \<in> set (rrf_fuse arms limit) \<and> i \<in> ids arms - fst ` set (rrf_fuse arms limit)"
  then obtain s' where s': "(i, s') \<in> set ?sc" using sc(2) by (metis DiffE imageE prod.collapse)
  have "(i, s') \<notin> set (rrf_fuse arms limit)" using h by force
  from take_sort_key_best [OF s', of limit ?key, folded rrf_fuse_def, OF this conjunct1 [OF h]] val [OF s']
  show "(rrf_score arms i, i) \<le> (s, j)" by auto
qed

theorem rrf_fuse_correct_witness:
  "map fst (rrf_fuse [[1, 2], [2, 3]] 2) = [2, 1]
   \<and> (rrf_score [[1, 2], [2, 3]] 3, 3) \<le> (rrf_score [[1, 2], [2, 3]] 1, 1::int)"
proof -
  have r: "rrf_fuse [[1, 2], [2, 3]] 2 = [(2, 1 / 62 + 1 / 61), (1, 1 / 61)]" by code_simp
  have s: "rrf_score [[1, 2], [2, 3]] 1 = 1 / 61" by code_simp
  note c = rrf_fuse_correct [of "[[1, 2], [2, 3]]" 2, THEN conjunct2, THEN conjunct2, THEN conjunct2, THEN conjunct2, rule_format]
  have "(rrf_score [[1, 2], [2, 3]] 3, 3) \<le> (1 / 61, 1::int)"
    by (rule c) (simp add: r)
  then show ?thesis unfolding r s by simp
qed

section \<open>The vector arm\<close>

text \<open>What sqlite-vec documents: for a query it returns the \<open>k\<close> nearest of the stored vectors in the order of distance, for
  \<open>k\<close> up to its limit.\<close>

definition knn_contract :: "knn \<Rightarrow> bool" where
  "knn_contract knn \<longleftrightarrow> (\<forall>vs b. \<exists>order. mset order = mset (map fst vs) \<and> (\<forall>k. k \<le> sqlite_vec_max_k \<longrightarrow> knn vs b k = take k order))"

lemma joined_frame_lockstep:
  assumes "lockstep db" and "v \<in> fst ` set (vd_vectors db)"
  obtains f m where "joined_frame db v = Some f" "f \<in> set (vd_frames db)" "m \<in> set (vd_embeddings db)" "em_frame_id m = fr_id f"
proof -
  from assms have "v \<in> em_id ` set (vd_embeddings db)" by (simp add: lockstep_def)
  then obtain m where m: "embedding_of db v = Some m" "m \<in> set (vd_embeddings db)"
    unfolding embedding_of_def by (cases "List.find (\<lambda>m. em_id m = v) (vd_embeddings db)") (auto simp: find_None_iff dest: find_SomeD)
  with assms(1) have "em_frame_id m \<in> fr_id ` set (vd_frames db)" by (simp add: lockstep_def)
  then obtain f where f: "frame_of db (em_frame_id m) = Some f" "f \<in> set (vd_frames db)" "fr_id f = em_frame_id m"
    unfolding frame_of_def by (cases "List.find (\<lambda>f. fr_id f = em_frame_id m) (vd_frames db)") (auto simp: find_None_iff dest: find_SomeD)
  show thesis by (rule that [of f m]) (simp_all add: joined_frame_def m f)
qed

lemma map_filter_total: "(\<And>x. x \<in> set xs \<Longrightarrow> f x \<noteq> None) \<Longrightarrow> List.map_filter f xs = map (\<lambda>x. the (f x)) xs"
proof (induction xs)
  case (Cons x xs)
  from Cons.prems [of x] obtain y where "f x = Some y" by auto
  with Cons show ?case by (simp add: map_filter_simps)
qed (simp add: map_filter_simps)

lemma escalate_loop_full:
  fixes F :: "stored_frame list" and P :: "stored_frame \<Rightarrow> bool"
  defines "ids \<equiv> \<lambda>k. dedup_keep_order (map fr_id (filter P (take k F)))"
  assumes fetch: "\<And>k. k \<le> sqlite_vec_max_k \<Longrightarrow> fetch k = Inr (length (take k F), map fr_id (filter P (take k F)))"
    and target: "target = pool \<or> length (ids sqlite_vec_max_k) \<le> target"
  shows "0 < k \<Longrightarrow> k \<le> sqlite_vec_max_k \<Longrightarrow> escalate_loop pool target fetch k = Some (Inr (take pool (ids sqlite_vec_max_k)))"
proof (induction "sqlite_vec_max_k - k" arbitrary: k rule: less_induct)
  case less
  have "prefix (take k F) (take sqlite_vec_max_k F)"
    using less.prems(2) by (metis min.absorb1 take_is_prefix take_take)
  then have "prefix (map fr_id (filter P (take k F))) (map fr_id (filter P (take sqlite_vec_max_k F)))"
    by (auto simp: prefix_def)
  then have p: "prefix (ids k) (ids sqlite_vec_max_k)" unfolding ids_def by (rule dedup_prefix)
  then obtain zs where zs: "ids sqlite_vec_max_k = ids k @ zs" by (auto simp: prefix_def)
  have f: "fetch k = Inr (length (take k F), map fr_id (filter P (take k F)))" using fetch less.prems(2) by blast
  show ?case
  proof (cases "target \<le> length (ids k) \<or> length (take k F) < k \<or> sqlite_vec_max_k \<le> k")
    case True
    have "take pool (ids k) = take pool (ids sqlite_vec_max_k)"
    proof (cases "target \<le> length (ids k)")
      case True
      from target show ?thesis
      proof
        assume "target = pool"
        with True show ?thesis by (simp add: zs)
      next
        assume "length (ids sqlite_vec_max_k) \<le> target"
        moreover have "length (ids sqlite_vec_max_k) = length (ids k) + length zs" by (simp add: zs)
        ultimately have "length zs = 0" using True by linarith
        with zs show ?thesis by simp
      qed
    next
      case False
      with \<open>target \<le> _ \<or> _\<close> less.prems(2) have "take k F = take sqlite_vec_max_k F" by auto
      then show ?thesis by (simp add: ids_def)
    qed
    with True show ?thesis by (subst escalate_loop.simps) (simp add: f Let_def ids_def max_time_range_knn_def)
  next
    case False
    let ?k = "min (k * knn_escalation_factor) max_time_range_knn"
    have k: "0 < ?k" "?k \<le> sqlite_vec_max_k" "sqlite_vec_max_k - ?k < sqlite_vec_max_k - k"
      using less.prems False by (auto simp: knn_escalation_factor_def max_time_range_knn_def)
    from less.hyps [OF k(3,1,2)] False show ?thesis
      by (subst escalate_loop.simps) (simp add: f Let_def ids_def max_time_range_knn_def)
  qed
qed

text \<open>C12: Escalation is only an optimisation: for every bounded window or session scope the vector arm returns exactly what one
  query at sqlite-vec's limit followed by the scope filter would, the first \<open>pool\<close> distinct frames in order of distance,
  although it usually stops at a smaller \<open>k\<close>; so the sparse-window count never cuts a match off, and the loop ends.\<close>

theorem knn_escalation_exact:
  assumes "store_reachable db" and "knn_contract knn" and "s \<noteq> i64_min \<or> e \<noteq> i64_max \<or> sid \<noteq> None"
  shows "text_knn_in_range db knn query (candidate_pool limit) s e sid =
    Some (Inr (take (candidate_pool limit) (dedup_keep_order (map fr_id (filter (in_scope s e sid)
      (List.map_filter (joined_frame db) (knn (vd_vectors db) (f32_blob query) sqlite_vec_max_k)))))))"
proof -
  note l = store_reachable_lockstep [OF assms(1)]
  define pool where "pool = candidate_pool limit"
  have pool: "0 < pool" "pool \<le> sqlite_vec_max_k"
    by (auto simp: pool_def candidate_pool_def clamp_def max_candidate_pool_def sqlite_vec_max_k_def)
  obtain order where o: "mset order = mset (map fst (vd_vectors db))"
      "\<And>k. k \<le> sqlite_vec_max_k \<Longrightarrow> knn (vd_vectors db) (f32_blob query) k = take k order"
    using assms(2) unfolding knn_contract_def by meson
  have so: "set order = fst ` set (vd_vectors db)" using mset_eq_setD [OF o(1)] by simp
  define F where "F = map (\<lambda>v. the (joined_frame db v)) order"
  have mf: "List.map_filter (joined_frame db) (take k order) = take k F" for k
  proof -
    have "joined_frame db v \<noteq> None" if "v \<in> set (take k order)" for v
      using joined_frame_lockstep [OF l, of v] in_set_takeD [OF that] so by auto
    then show ?thesis by (simp add: map_filter_total F_def take_map)
  qed
  have F: "f \<in> set (vd_frames db) \<and> list_ex (\<lambda>m. em_frame_id m = fr_id f) (vd_embeddings db)" if "f \<in> set F" for f
    using that joined_frame_lockstep [OF l] so unfolding F_def list_ex_iff by (auto, metis imageI fst_conv option.sel, metis imageI fst_conv option.sel)
  have fetch: "fetch_knn db knn (f32_blob query) s e sid k = Inr (length (take k F), map fr_id (filter (in_scope s e sid) (take k F)))"
    if "k \<le> sqlite_vec_max_k" for k
    using that by (simp add: fetch_knn_def o(2) mf Let_def min_def)
  define ids where "ids = dedup_keep_order (map fr_id (filter (in_scope s e sid) (take sqlite_vec_max_k F)))"
  let ?rows = "filter (in_scope s e sid) (vd_frames db)"
  let ?emb = "filter (\<lambda>f. list_ex (\<lambda>m. em_frame_id m = fr_id f) (vd_embeddings db)) ?rows"
  have "set ids \<subseteq> fr_id ` set ?emb" using F by (auto simp: ids_def dest: in_set_takeD)
  then have "card (set ids) \<le> card (set (map fr_id ?emb))" by (intro card_mono) auto
  then have n: "length ids \<le> length ?emb"
    using card_length [of "map fr_id ?emb"] distinct_card [of ids] by (simp add: ids_def)
  have "text_knn_in_range db knn query pool s e sid = Some (Inr (take pool ids))"
  proof (cases "count_embedded_frames_in_range db s e sid pool count_scan_cap")
    case None
    then have "length ?emb = 0"
      by (auto simp: count_embedded_frames_in_range_def Let_def split: if_splits)
    with n None assms(3) show ?thesis by (simp add: text_knn_in_range_def Let_def)
  next
    case (Some target)
    then have "target = pool \<or> length ids \<le> target"
      using n by (auto simp: count_embedded_frames_in_range_def Let_def min_def split: if_splits)
    from escalate_loop_full [where P = "in_scope s e sid" and F = F, folded ids_def, OF fetch this pool] Some assms(3) pool(2)
    show ?thesis by (auto simp: text_knn_in_range_def escalate_in_range_knn_def max_time_range_knn_def Let_def min_absorb1)
  qed
  then show ?thesis by (simp add: pool_def o(2) mf ids_def)
qed

definition sample_vec :: "f32 list" where "sample_vec = replicate embedding_dim 5"

definition sample_vector_db :: vector_db where
  "sample_vector_db = \<lparr>vd_frames = [sample_stored_frame 7 100 (Some 3)],
     vd_embeddings = [\<lparr>em_id = 1, em_frame_id = 7, em_chunk_index = 0, em_chunk_text = lit ''hello'',
       em_source = source_token Ocr, em_model = lit ''m'', em_dim = embedding_dim, em_content_hash = lit ''hello''\<rparr>],
     vd_vectors = [(1, f32_blob sample_vec)]\<rparr>"

lemma sample_vector_db_reachable: "store_reachable sample_vector_db"
proof -
  let ?f = "sample_stored_frame 7 100 (Some 3)"
  let ?e = "\<lparr>vd_frames = [], vd_embeddings = [], vd_vectors = []\<rparr> :: vector_db"
  have "store_step ?e (?e\<lparr>vd_frames := [?f]\<rparr>)" by (rule store_step.frames) simp
  then have r: "store_reachable \<lparr>vd_frames = [?f], vd_embeddings = [], vd_vectors = []\<rparr>"
    using store_reachable.step [OF store_reachable.empty] by simp
  have "upsert_text_embedding id 7 0 (lit ''hello'') Ocr sample_vec (lit ''m'')
      \<lparr>vd_frames = [?f], vd_embeddings = [], vd_vectors = []\<rparr> = Inr sample_vector_db"
    by (simp add: upsert_text_embedding_def insert_vector_def sample_vector_db_def sample_vec_def next_rowid_def list_max_def
        sample_stored_frame_def)
  from store_reachable.step [OF r store_step.upsert [OF this]] show ?thesis .
qed

definition sample_knn :: knn where "sample_knn vs b k = take k (map fst vs)"

lemma sample_knn_contract: "knn_contract sample_knn"
  unfolding knn_contract_def
proof (intro allI)
  fix vs :: "(int \<times> blob) list" and b
  show "\<exists>order. mset order = mset (map fst vs) \<and> (\<forall>k. k \<le> sqlite_vec_max_k \<longrightarrow> sample_knn vs b k = take k order)"
    by (rule exI [of _ "map fst vs"]) (simp add: sample_knn_def)
qed

theorem knn_escalation_exact_witness:
  "text_knn_in_range sample_vector_db sample_knn sample_vec (candidate_pool 10) 0 1000 (Some 3) = Some (Inr [7])"
  using knn_escalation_exact [OF sample_vector_db_reachable sample_knn_contract,
      where s = 0 and e = 1000 and sid = "Some 3" and query = sample_vec and limit = 10]
  by (simp add: i64_min_def sample_knn_def sample_vector_db_def joined_frame_def embedding_of_def frame_of_def map_filter_simps
      sample_stored_frame_def in_scope_def in_window_def dedup_keep_order_def candidate_pool_def clamp_def
      max_candidate_pool_def sqlite_vec_max_k_def)

section \<open>The whole search\<close>

lemma escalate_loop_result:
  "0 < k \<Longrightarrow> \<exists>r. escalate_loop pool target fetch k = Some r
     \<and> (\<forall>ids. r = Inr ids \<longrightarrow> (\<exists>k' raw ir. fetch k' = Inr (raw, ir) \<and> ids = take pool (dedup_keep_order ir)))"
proof (induction "max_time_range_knn - k" arbitrary: k rule: less_induct)
  case less
  show ?case
  proof (cases "fetch k")
    case (Inl e)
    then show ?thesis by (subst escalate_loop.simps) simp
  next
    case (Inr ri)
    then obtain raw ir where f: "fetch k = Inr (raw, ir)" by (cases ri) simp
    show ?thesis
    proof (cases "target \<le> length (dedup_keep_order ir) \<or> raw < k \<or> max_time_range_knn \<le> k")
      case True
      then show ?thesis using f by (subst escalate_loop.simps) (auto simp: Let_def)
    next
      case False
      let ?k = "min (k * knn_escalation_factor) max_time_range_knn"
      have "0 < ?k" "max_time_range_knn - ?k < max_time_range_knn - k"
        using less.prems False by (auto simp: knn_escalation_factor_def max_time_range_knn_def sqlite_vec_max_k_def)
      from less.hyps [OF this(2,1)] False f show ?thesis by (subst escalate_loop.simps) (simp add: Let_def)
    qed
  qed
qed

lemma text_knn_result:
  "\<exists>r. text_knn_in_range db knn query (candidate_pool limit) s e sid = Some r
     \<and> (\<forall>ids. r = Inr ids \<longrightarrow> (\<forall>i\<in>set ids. \<exists>f\<in>set (vd_frames db). fr_id f = i \<and> in_scope s e sid f))"
proof -
  have p: "0 < min (candidate_pool limit) max_time_range_knn"
    by (auto simp: candidate_pool_def clamp_def max_candidate_pool_def max_time_range_knn_def sqlite_vec_max_k_def)
  have j: "f \<in> set (vd_frames db)" if "joined_frame db v = Some f" for f v
    using that by (auto simp: joined_frame_def frame_of_def bind_eq_Some_conv dest: find_SomeD)
  have m: "\<exists>f\<in>set (vd_frames db). fr_id f = i \<and> in_scope s e sid f"
    if "fetch_knn db knn b s e sid k = Inr (raw, ir)" "i \<in> set ir" for i k raw ir b
  proof -
    from that obtain f v where "joined_frame db v = Some f" "in_scope s e sid f" "fr_id f = i"
      by (auto simp: fetch_knn_def Let_def set_map_filter)
    with j show ?thesis by blast
  qed
  show ?thesis
  proof (cases "s \<noteq> i64_min \<or> e \<noteq> i64_max \<or> sid \<noteq> None")
    case False
    then show ?thesis using m
      by (auto simp: text_knn_in_range_def Let_def bind_r_Inr dest!: in_set_takeD)
  next
    case True
    show ?thesis
    proof (cases "count_embedded_frames_in_range db s e sid (candidate_pool limit) count_scan_cap")
      case None
      with True show ?thesis by (auto simp: text_knn_in_range_def Let_def)
    next
      case (Some target)
      obtain r where r: "escalate_loop (candidate_pool limit) target (fetch_knn db knn (f32_blob query) s e sid)
            (min (candidate_pool limit) max_time_range_knn) = Some r
          \<and> (\<forall>ids. r = Inr ids \<longrightarrow> (\<exists>k' raw ir. fetch_knn db knn (f32_blob query) s e sid k' = Inr (raw, ir)
             \<and> ids = take (candidate_pool limit) (dedup_keep_order ir)))"
        using escalate_loop_result [OF p, of "candidate_pool limit" target "fetch_knn db knn (f32_blob query) s e sid"] by (rule exE)
      have "\<exists>f\<in>set (vd_frames db). fr_id f = i \<and> in_scope s e sid f" if h: "r = Inr ids" "i \<in> set ids" for ids i
      proof -
        from r h(1) obtain k' raw ir where "fetch_knn db knn (f32_blob query) s e sid k' = Inr (raw, ir)"
            "ids = take (candidate_pool limit) (dedup_keep_order ir)" by blast
        with m h(2) show ?thesis by (metis in_set_takeD set_dedup)
      qed
      with r Some True show ?thesis by (simp add: text_knn_in_range_def escalate_in_range_knn_def Let_def)
    qed
  qed
qed

lemma text_knn_returns [simp]: "text_knn_in_range db knn query (candidate_pool limit) s e sid \<noteq> None"
  using text_knn_result [of db knn query limit s e sid] by auto

text \<open>A search always returns: whatever the full-text engine, the KNN engine and the embedder answer, errors included, the
  escalation ends and the search yields hits or the first error.\<close>

theorem hybrid_search_returns:
  "hybrid_search_scoped fts embedder knn db q sid \<noteq> None"
  by (auto simp: hybrid_search_scoped_def vector_arm_def Let_def split: sum.split option.split prod.split)

lemma fts_arm_scope:
  assumes "fts_arm fts table db txt s e pool sid = Inr rows" and "i \<in> fst ` set rows"
  shows "\<exists>f\<in>set (vd_frames db). fr_id f = i \<and> in_scope s e sid f"
proof -
  from assms obtain f where "frame_of db i = Some f" "in_scope s e sid f"
    by (auto simp: fts_arm_def bind_r_Inr split: option.splits dest!: in_set_takeD)
  then show ?thesis unfolding frame_of_def using find_SomeD [of _ _ f] by blast
qed

lemma vector_arm_scope:
  assumes "vector_arm embedder knn db txt (candidate_pool limit) s e sid = Some (Inr ids)" and "i \<in> set ids"
  shows "\<exists>f\<in>set (vd_frames db). fr_id f = i \<and> in_scope s e sid f"
proof -
  from assms obtain v where
    "text_knn_in_range db knn v (candidate_pool limit) s e sid = (Some (Inr ids) :: (search_error + int list) option)"
    by (auto simp: vector_arm_def split: option.splits if_splits sum.splits)
  with text_knn_result [of db knn v limit s e sid] assms(2) show ?thesis by auto
qed

lemma map_filter_sorted_wrt:
  "sorted_wrt R xs \<Longrightarrow> (\<And>x y a b. R x y \<Longrightarrow> f x = Some a \<Longrightarrow> f y = Some b \<Longrightarrow> S a b) \<Longrightarrow> sorted_wrt S (List.map_filter f xs)"
  by (induction xs) (auto simp: map_filter_simps set_map_filter split: option.split)

lemma length_map_filter: "length (List.map_filter f xs) \<le> length xs"
  by (induction xs) (auto simp: map_filter_simps split: option.split)

text \<open>C11: A search answers only from its scope. Every hit was, in the state one of the arms read, a frame inside the half-open
  time window and, for a session search, owned by that very session; every hit is a frame that still exists when the answer
  is assembled and carries its image, time and app; there are no two hits for one frame, at most the limit (never more than
  2000), and scores do not increase down the list.\<close>

theorem search_hits_in_scope:
  assumes "hybrid_search_scoped fts embedder knn db q sid = Some (Inr hits)" and "query_window q = (s, e)"
  shows "length hits \<le> normalized_limit (sq_limit q) \<and> distinct (map sh_frame_id hits)
    \<and> sorted_wrt (\<lambda>a b. sh_score b \<le> sh_score a) hits
    \<and> (\<forall>h\<in>set hits. (\<exists>stage. \<exists>f\<in>set (vd_frames (db stage)). fr_id f = sh_frame_id h \<and> in_scope s e sid f)
        \<and> (\<exists>f\<in>set (vd_frames (db Hydration)). fr_id f = sh_frame_id h \<and> fr_captured_at f = sh_captured_at h
             \<and> fr_image_path f = sh_image_path h \<and> fr_image_purged f = sh_image_purged h \<and> fr_app_hint f = sh_app_hint h))"
proof -
  let ?limit = "normalized_limit (sq_limit q)"
  from assms obtain content raw vec where
    content: "fts_arm fts FrameTextFts (db ContentArm) (sq_text q) s e (candidate_pool ?limit) sid = Inr content" and
    raw: "(if sq_include_chrome q then fts_arm fts FrameTextRawFts (db RawArm) (sq_text q) s e (candidate_pool ?limit) sid else Inr []) = Inr raw" and
    vec: "vector_arm embedder knn (db VectorArm) (sq_text q) (candidate_pool ?limit) s e sid = Some (Inr vec)" and
    hits: "hits = hydrate (db Hydration) (rrf_fuse ([map fst content] @ (if sq_include_chrome q then [map fst raw] else []) @ [vec]) ?limit)
        (merge_snippets (snippet_map content) raw)"
    by (auto simp: hybrid_search_scoped_def Let_def split: sum.splits option.splits)
  define arms where "arms = [map fst content] @ (if sq_include_chrome q then [map fst raw] else []) @ [vec]"
  define row where "row = hydrate_row (db Hydration) (merge_snippets (snippet_map content) raw)"
  have hits: "hits = List.map_filter row (rrf_fuse arms ?limit)" by (simp add: hits hydrate_def row_def arms_def)
  have row: "sh_frame_id h = fst is \<and> sh_score h = snd is \<and> (\<exists>f\<in>set (vd_frames (db Hydration)). fr_id f = sh_frame_id h
       \<and> fr_captured_at f = sh_captured_at h \<and> fr_image_path f = sh_image_path h \<and> fr_image_purged f = sh_image_purged h
       \<and> fr_app_hint f = sh_app_hint h)" if "row is = Some h" for "is" h
    using that by (cases "is") (auto simp: row_def hydrate_row_def frame_of_def dest!: find_SomeD)
  have scope: "\<exists>stage. \<exists>f\<in>set (vd_frames (db stage)). fr_id f = i \<and> in_scope s e sid f" if "i \<in> \<Union> (set ` set arms)" for i
  proof -
    from that consider "i \<in> fst ` set content" | "sq_include_chrome q" "i \<in> fst ` set raw" | "i \<in> set vec"
      by (auto simp: arms_def split: if_splits)
    then show ?thesis
    proof cases
      case 1
      then show ?thesis using fts_arm_scope [OF content] by blast
    next
      case 2
      with raw have "fts_arm fts FrameTextRawFts (db RawArm) (sq_text q) s e (candidate_pool ?limit) sid = Inr raw" by simp
      from fts_arm_scope [OF this 2(2)] show ?thesis by blast
    next
      case 3
      then show ?thesis using vector_arm_scope [OF vec] by blast
    qed
  qed
  note r = rrf_fuse_basic [of arms ?limit]
  have "sorted_wrt (\<lambda>a b. sh_score b \<le> sh_score a \<and> sh_frame_id a \<noteq> sh_frame_id b) hits"
    unfolding hits
  proof (rule map_filter_sorted_wrt [OF r(1)])
    fix x y a b assume "(snd y, fst y) < (snd x, fst x) \<and> fst x \<noteq> fst y" "row x = Some a" "row y = Some b"
    with row [of x a] row [of y b] show "sh_score b \<le> sh_score a \<and> sh_frame_id a \<noteq> sh_frame_id b" by auto
  qed
  then have "sorted_wrt (\<lambda>a b. sh_score b \<le> sh_score a) hits" "distinct (map sh_frame_id hits)"
    by (auto simp: distinct_conv_nth sorted_wrt_iff_nth_less) (metis linorder_neqE_nat)
  moreover have "length hits \<le> ?limit" using length_map_filter [of row "rrf_fuse arms ?limit"] r(2) by (simp add: hits)
  moreover have "(\<exists>stage. \<exists>f\<in>set (vd_frames (db stage)). fr_id f = sh_frame_id h \<and> in_scope s e sid f)
      \<and> (\<exists>f\<in>set (vd_frames (db Hydration)). fr_id f = sh_frame_id h \<and> fr_captured_at f = sh_captured_at h
         \<and> fr_image_path f = sh_image_path h \<and> fr_image_purged f = sh_image_purged h \<and> fr_app_hint f = sh_app_hint h)"
    if "h \<in> set hits" for h
  proof -
    from that obtain "is" where i: "is \<in> set (rrf_fuse arms ?limit)" "row is = Some h" by (auto simp: hits set_map_filter)
    then have "fst is \<in> \<Union> (set ` set arms)" using r(3) by blast
    moreover have e: "sh_frame_id h = fst is" using row [OF i(2)] by blast
    ultimately have "sh_frame_id h \<in> \<Union> (set ` set arms)" by simp
    from scope [OF this] row [OF i(2)] show ?thesis by blast
  qed
  ultimately show ?thesis by blast
qed

definition sample_fts :: fts where
  "sample_fts table db expr = Inr (map (\<lambda>f. (fr_id f, lit ''[text]'')) (vd_frames db))"

theorem search_hits_in_scope_witness:
  "\<exists>hits. hybrid_search_scoped sample_fts None sample_knn (\<lambda>_. sample_vector_db)
       \<lparr>sq_text = lit ''text'', sq_limit = 10, sq_time_range = Some (0, 1000), sq_include_chrome = False\<rparr> (Some 3) = Some (Inr hits)
     \<and> map sh_frame_id hits = [7] \<and> (\<forall>h\<in>set hits. \<exists>f\<in>set (vd_frames sample_vector_db). fr_id f = sh_frame_id h \<and> in_scope 0 1000 (Some 3) f)"
proof -
  let ?q = "\<lparr>sq_text = lit ''text'', sq_limit = 10, sq_time_range = Some (0, 1000), sq_include_chrome = False\<rparr>"
  have m: "fts_match_query (lit ''text'') = Some (lit [CHR 0x22] @ lit ''text'' @ lit [CHR 0x22])" by code_simp
  have a: "fts_arm sample_fts FrameTextFts sample_vector_db (lit ''text'') 0 1000 pool (Some 3) = Inr (take pool [(7, lit ''[text]'')])" for pool
    unfolding fts_arm_def m
    by (simp add: sample_fts_def sample_vector_db_def frame_of_def in_scope_def in_window_def sample_stored_frame_def)
  have l: "candidate_pool (normalized_limit 10) = 50" by code_simp
  have f: "rrf_fuse [[7], []] (normalized_limit 10) = [(7, 1 / 61)]" by code_simp
  have w: "query_window ?q = (0, 1000)" by (simp add: query_window_def)
  define hits where "hits = hydrate sample_vector_db (rrf_fuse [[7], []] (normalized_limit 10)) (merge_snippets (snippet_map [(7, lit ''[text]'')]) [])"
  have h: "hybrid_search_scoped sample_fts None sample_knn (\<lambda>_. sample_vector_db) ?q (Some 3) = Some (Inr hits)"
    by (simp add: hybrid_search_scoped_def w Let_def a l vector_arm_def hits_def del: lit_Nil lit_Cons)
  have "frame_of sample_vector_db 7 = Some (sample_stored_frame 7 100 (Some 3))"
    by (simp add: frame_of_def sample_vector_db_def sample_stored_frame_def)
  then have ids: "map sh_frame_id hits = [7]" by (simp add: hits_def f hydrate_def hydrate_row_def map_filter_simps)
  from search_hits_in_scope [OF h w]
  have "\<forall>h\<in>set hits. \<exists>f\<in>set (vd_frames sample_vector_db). fr_id f = sh_frame_id h \<and> in_scope 0 1000 (Some 3) f" by auto
  with h ids show ?thesis by (intro exI [of _ hits] conjI)
qed

end
