(* ===== verification/Frames.thy ===== *)
theory Frames
  imports Embeddings Resume
begin

text \<open>
  Frame browsing (\<open>crates/store/src/frames.rs\<close>), the timeline counts (\<open>crates/store/src/timeline.rs\<close>) and
  the bulk text read (\<open>ocr_texts\<close> of \<open>crates/store/src/records.rs\<close>), as functions on the rows of \<open>frames\<close>.
  Where a statement orders by \<open>captured_at\<close> alone, rows of one time come in the order of the index
  \<open>idx_frames_captured_at\<close>, that is by id in the direction of the scan.
\<close>

section \<open>Rows in time order\<close>

record frame_meta =
  fm_frame_id :: int
  fm_captured_at :: int
  fm_image_path :: ustr
  fm_image_purged :: bool
  fm_app_hint :: "ustr option"

definition row_to_meta :: "stored_frame \<Rightarrow> frame_meta" where
  "row_to_meta f = \<lparr>fm_frame_id = fr_id f, fm_captured_at = fr_captured_at f, fm_image_path = fr_image_path f,
     fm_image_purged = fr_image_purged f, fm_app_hint = fr_app_hint f\<rparr>"

definition by_time :: "stored_frame list \<Rightarrow> stored_frame list" where
  "by_time fs = sort_key (\<lambda>f. (fr_captured_at f, fr_id f)) fs"

definition captured_in :: "int \<Rightarrow> int \<Rightarrow> stored_frame \<Rightarrow> bool" where
  "captured_in s e f \<longleftrightarrow> s \<le> fr_captured_at f \<and> fr_captured_at f < e"

section \<open>Browsing\<close>

definition frames_in_range :: "stored_frame list \<Rightarrow> int \<Rightarrow> int \<Rightarrow> nat \<Rightarrow> frame_meta list" where
  "frames_in_range fs s e limit =
     (if e \<le> s \<or> limit = 0 then []
      else map row_to_meta (take limit (rev (by_time (filter (captured_in s e) fs)))))"

text \<open>The ranks kept by \<open>WHERE rn = 0 OR (rn * n) / total <> ((rn - 1) * n) / total\<close>.\<close>

definition sample_ranks :: "nat \<Rightarrow> nat \<Rightarrow> nat list" where
  "sample_ranks tot n = filter (\<lambda>rn. rn = 0 \<or> (rn * n) div tot \<noteq> ((rn - 1) * n) div tot) [0..<tot]"

definition spread_rows :: "stored_frame list \<Rightarrow> int \<Rightarrow> int \<Rightarrow> nat \<Rightarrow> stored_frame list" where
  "spread_rows fs s e limit =
     (let rows = by_time (filter (captured_in s e) fs)
      in take limit (map ((!) rows) (sample_ranks (length rows) limit)))"

definition sample_frames_in_range :: "stored_frame list \<Rightarrow> int \<Rightarrow> int \<Rightarrow> nat \<Rightarrow> frame_meta list" where
  "sample_frames_in_range fs s e limit =
     (if e \<le> s \<or> limit = 0 then [] else map row_to_meta (spread_rows fs s e limit))"

text \<open>Distances are taken in 128 bits by the code, so they are exact.\<close>

definition nearer :: "int \<Rightarrow> frame_meta option \<Rightarrow> frame_meta option \<Rightarrow> frame_meta option" where
  "nearer at_ms before after = (case (before, after) of
     (None, None) \<Rightarrow> None
   | (Some b, None) \<Rightarrow> Some b
   | (None, Some a) \<Rightarrow> Some a
   | (Some b, Some a) \<Rightarrow>
       if \<bar>fm_captured_at a - at_ms\<bar> \<le> \<bar>at_ms - fm_captured_at b\<bar> then Some a else Some b)"

definition nearest_frame :: "stored_frame list \<Rightarrow> int \<Rightarrow> frame_meta option" where
  "nearest_frame fs at_ms = nearer at_ms
     (map_option row_to_meta (last_opt (by_time (filter (\<lambda>f. fr_captured_at f < at_ms) fs))))
     (map_option row_to_meta (first_opt (by_time (filter (\<lambda>f. at_ms \<le> fr_captured_at f) fs))))"

definition nearest_frame_in_range :: "stored_frame list \<Rightarrow> int \<Rightarrow> int \<Rightarrow> int \<Rightarrow> frame_meta option" where
  "nearest_frame_in_range fs at_ms s e =
     (if e \<le> s then None
      else nearer at_ms
        (map_option row_to_meta (last_opt (by_time (filter (\<lambda>f. fr_captured_at f < at_ms \<and> captured_in s e f) fs))))
        (map_option row_to_meta (first_opt (by_time (filter (\<lambda>f. at_ms \<le> fr_captured_at f \<and> captured_in s e f) fs)))))"

definition frames_with_image_older_than :: "stored_frame list \<Rightarrow> int \<Rightarrow> nat \<Rightarrow> frame_meta list" where
  "frames_with_image_older_than fs cutoff limit =
     map row_to_meta (take limit (by_time (filter (\<lambda>f. fr_captured_at f < cutoff \<and> \<not> fr_image_purged f) fs)))"

definition purge_frame_image :: "int \<Rightarrow> stored_frame list \<Rightarrow> stored_frame list" where
  "purge_frame_image i fs = map (\<lambda>f. if fr_id f = i then f\<lparr>fr_image_purged := True\<rparr> else f) fs"

definition purged_frame_ids :: "stored_frame list \<Rightarrow> int \<Rightarrow> nat \<Rightarrow> int list" where
  "purged_frame_ids fs after limit = take limit (sort (map fr_id (filter (\<lambda>f. fr_image_purged f \<and> after < fr_id f) fs)))"

definition frames_older_than :: "stored_frame list \<Rightarrow> int \<Rightarrow> nat \<Rightarrow> frame_meta list" where
  "frames_older_than fs cutoff limit =
     map row_to_meta (take limit (by_time (filter (\<lambda>f. fr_captured_at f < cutoff) fs)))"

text \<open>\<open>COLLATE NOCASE\<close> folds the ASCII letters.\<close>

definition frames_with_app_hint :: "stored_frame list \<Rightarrow> ustr \<Rightarrow> nat \<Rightarrow> frame_meta list" where
  "frames_with_app_hint fs hint limit =
     (if hint = [] \<or> limit = 0 then []
      else map row_to_meta (take limit (by_time (filter (\<lambda>f. case fr_app_hint f of
          None \<Rightarrow> False | Some a \<Rightarrow> to_ascii_lowercase a = to_ascii_lowercase hint) fs))))"

definition neighbour_frames :: "stored_frame list \<Rightarrow> int \<Rightarrow> int \<Rightarrow> nat \<Rightarrow> frame_meta list" where
  "neighbour_frames fs at_ms half_window_ms limit_each =
     (if half_window_ms \<le> 0 \<or> limit_each = 0 then []
      else (let lo = sat_sub64 at_ms half_window_ms;
                hi = sat_add64 at_ms half_window_ms;
                before = take limit_each (rev (by_time (filter (captured_in lo at_ms) fs)));
                after = take limit_each (by_time (filter (\<lambda>f. at_ms < fr_captured_at f \<and> fr_captured_at f \<le> hi) fs))
            in sort_key fm_captured_at (map row_to_meta (before @ after))))"

definition row_to_context :: "stored_frame \<Rightarrow> frame_context_row" where
  "row_to_context f = \<lparr>fx_frame_id = fr_id f, fx_captured_at = fr_captured_at f, fx_app_hint = fr_app_hint f,
     fx_window_title = fr_window_title f, fx_browser_url = fr_browser_url f, fx_image_path = fr_image_path f,
     fx_image_purged = fr_image_purged f\<rparr>"

definition recent_frame_contexts :: "stored_frame list \<Rightarrow> nat \<Rightarrow> frame_context_row list" where
  "recent_frame_contexts fs limit = map row_to_context (take limit (rev (by_time fs)))"

section \<open>Timeline and texts\<close>

record timeline_bucket =
  tb_start :: int
  tb_end :: int
  tb_count :: nat

definition bucket_width :: "int \<Rightarrow> int \<Rightarrow> int" where
  "bucket_width sp n = max (sp div n + (if sp mod n \<noteq> 0 then 1 else 0)) 1"

text \<open>\<open>GROUP BY bucket ORDER BY bucket\<close> over the buckets of the frames in the window.\<close>

definition group_buckets :: "int list \<Rightarrow> (int \<times> nat) list" where
  "group_buckets bs = map (\<lambda>b. (b, count_list bs b)) (sort (remdups bs))"

definition timeline_buckets :: "stored_frame list \<Rightarrow> int \<Rightarrow> int \<Rightarrow> nat \<Rightarrow> timeline_bucket list" where
  "timeline_buckets fs s e n =
     (if e \<le> s \<or> n = 0 \<or> \<not> in_i64 (e - s) then []
      else (let width = bucket_width (e - s) (int n)
            in map (\<lambda>(b, count). let b_start = s + b * width
                      in \<lparr>tb_start = b_start,
                          tb_end = (if in_i64 (b_start + width) then min (b_start + width) e else e),
                          tb_count = min count (2 ^ 32 - 1)\<rparr>)
                 (group_buckets (map (\<lambda>f. (fr_captured_at f - s) div width) (filter (captured_in s e) fs)))))"

definition ocr_texts :: "stored_frame list \<Rightarrow> int list \<Rightarrow> (int \<rightharpoonup> ustr)" where
  "ocr_texts fs ids = map_of (List.map_filter (\<lambda>f. case fr_content_text f of
     None \<Rightarrow> None | Some t \<Rightarrow> if fr_id f \<in> set ids \<and> t \<noteq> [] then Some (fr_id f, t) else None) fs)"

section \<open>Even samples\<close>

lemma by_time_simps [simp]: "set (by_time fs) = set fs" "length (by_time fs) = length fs" "mset (by_time fs) = mset fs"
  by (simp_all add: by_time_def)

lemma by_time_sorted: "sorted_wrt (\<lambda>a b. (fr_captured_at a, fr_id a) \<le> (fr_captured_at b, fr_id b)) (by_time fs)"
  unfolding by_time_def by (rule sorted_wrt_sort_key)

text \<open>The rank kept from the \<open>k\<close>-th of \<open>n\<close> equal shares is the least one at or after \<open>k * tot / n\<close>.\<close>

definition share_start :: "nat \<Rightarrow> nat \<Rightarrow> nat \<Rightarrow> nat" where
  "share_start tot n k = (k * tot + n - 1) div n"

lemma share_start_bounds:
  assumes "0 < n"
  shows "k * tot \<le> share_start tot n k * n" and "share_start tot n k * n < k * tot + n"
proof -
  have "(k * tot + n - 1) div n * n + (k * tot + n - 1) mod n = k * tot + n - 1" by (rule div_mult_mod_eq)
  moreover have "(k * tot + n - 1) mod n < n" using assms by simp
  ultimately show "k * tot \<le> share_start tot n k * n" "share_start tot n k * n < k * tot + n"
    unfolding share_start_def using assms by linarith+
qed

lemma div_eqI: "k * (m::nat) \<le> x \<Longrightarrow> x < (k + 1) * m \<Longrightarrow> x div m = k"
  by (metis Suc_eq_plus1 div_nat_eqI mult.commute)

lemma sample_rank_iff:
  assumes "0 < n" "n \<le> tot"
  shows "rn < tot \<and> (rn = 0 \<or> (rn * n) div tot \<noteq> ((rn - 1) * n) div tot) \<longleftrightarrow> (\<exists>k<n. rn = share_start tot n k)"
proof
  assume l: "rn < tot \<and> (rn = 0 \<or> (rn * n) div tot \<noteq> ((rn - 1) * n) div tot)"
  define k where "k = (rn * n) div tot"
  have "rn * n < tot * n" using l assms by simp
  then have kn: "k < n" using assms unfolding k_def by (simp add: less_mult_imp_div_less mult.commute)
  have k: "k * tot \<le> rn * n" by (simp add: k_def)
  have lt: "rn * n < k * tot + n"
  proof (cases "rn = 0")
    case True
    then show ?thesis using assms by simp
  next
    case False
    have "((rn - 1) * n) div tot \<le> k" unfolding k_def by (rule div_le_mono) simp
    with l False have "((rn - 1) * n) div tot < k" unfolding k_def by auto
    then have "(rn - 1) * n < k * tot" using assms by (metis div_less_iff_less_mult less_le_trans)
    moreover have "rn * n = (rn - 1) * n + n" using False by (cases rn) auto
    ultimately show ?thesis by simp
  qed
  have "rn = share_start tot n k"
  proof (rule ccontr)
    assume "rn \<noteq> share_start tot n k"
    then have "Suc rn \<le> share_start tot n k \<or> Suc (share_start tot n k) \<le> rn" by arith
    then have "rn * n + n \<le> share_start tot n k * n \<or> share_start tot n k * n + n \<le> rn * n"
      by (metis add.commute mult_Suc mult_le_mono1)
    with k lt share_start_bounds [OF assms(1), where k = k and tot = tot] show False by arith
  qed
  with kn show "\<exists>k<n. rn = share_start tot n k" by blast
next
  assume "\<exists>k<n. rn = share_start tot n k"
  then obtain k where k: "k < n" "rn = share_start tot n k" by blast
  note b = share_start_bounds [OF assms(1), where k = k and tot = tot, folded k(2)]
  have "Suc k * tot \<le> n * tot" using k(1) by (intro mult_le_mono1) simp
  then have "rn * n < n * tot" using b(2) assms(2) unfolding mult_Suc by linarith
  then have rn: "rn < tot" by (simp add: mult.commute)
  have d: "(rn * n) div tot = k" by (rule div_eqI) (use b assms(2) in simp_all)
  moreover have "((rn - 1) * n) div tot < k" if "rn \<noteq> 0"
  proof -
    from that have "rn * n = (rn - 1) * n + n" by (cases rn) auto
    with b(2) have "(rn - 1) * n < k * tot" by simp
    then show ?thesis by (simp add: less_mult_imp_div_less)
  qed
  ultimately show "rn < tot \<and> (rn = 0 \<or> (rn * n) div tot \<noteq> ((rn - 1) * n) div tot)" using rn by fastforce
qed

lemma share_start_mono: assumes "0 < n" "n \<le> tot" "j < k" shows "share_start tot n j < share_start tot n k"
proof -
  have "Suc j * tot \<le> k * tot" using assms(3) by (intro mult_le_mono1) simp
  then have "share_start tot n j * n < share_start tot n k * n"
    using share_start_bounds [OF assms(1), where k = j and tot = tot] share_start_bounds [OF assms(1), where k = k and tot = tot] assms(2) unfolding mult_Suc by linarith
  then show ?thesis by simp
qed

lemma sample_ranks_shares:
  assumes "0 < n" "n \<le> tot"
  shows "sample_ranks tot n = map (share_start tot n) [0..<n]"
proof (rule sorted_distinct_set_unique)
  show "sorted (sample_ranks tot n)" "distinct (sample_ranks tot n)"
    unfolding sample_ranks_def by (rule sorted_wrt_filter, simp) simp
  have s: "sorted_wrt (<) (map (share_start tot n) [0..<n])"
    using share_start_mono [OF assms] by (auto simp: sorted_wrt_iff_nth_less)
  then show "sorted (map (share_start tot n) [0..<n])" "distinct (map (share_start tot n) [0..<n])"
    by (auto simp: strict_sorted_iff)
  show "set (sample_ranks tot n) = set (map (share_start tot n) [0..<n])"
    using sample_rank_iff [OF assms] unfolding sample_ranks_def by (auto simp: image_iff)
qed

lemma sample_ranks_all:
  assumes "tot \<le> n"
  shows "sample_ranks tot n = [0..<tot]"
proof -
  have "rn = 0 \<or> (rn * n) div tot \<noteq> ((rn - 1) * n) div tot" if "rn < tot" for rn
  proof (cases rn)
    case (Suc m)
    have "(m * n + tot) div tot \<le> (rn * n) div tot" using assms Suc by (intro div_le_mono) simp
    then show ?thesis using that Suc by simp
  qed simp
  then show ?thesis by (auto simp: sample_ranks_def filter_id_conv)
qed

text \<open>A coverage sample uses its whole quota and is even: all frames of the window, in time order, when they are no more
  than the limit, and otherwise exactly \<open>limit\<close> frames, the first frame of each of \<open>limit\<close> equal shares of the window's
  frames.\<close>

theorem sample_frames_even:
  assumes "s < e" and "0 < limit"
  shows "sample_frames_in_range fs s e limit =
    (let rows = by_time (filter (captured_in s e) fs)
     in if length rows \<le> limit then map row_to_meta rows
        else map (\<lambda>k. row_to_meta (rows ! ((k * length rows + limit - 1) div limit))) [0..<limit])"
proof -
  let ?rows = "by_time (filter (captured_in s e) fs)"
  show ?thesis
  proof (cases "length ?rows \<le> limit")
    case True
    then show ?thesis
      using assms by (simp add: sample_frames_in_range_def spread_rows_def Let_def sample_ranks_all map_nth del: by_time_simps)
  next
    case False
    then have "sample_ranks (length ?rows) limit = map (share_start (length ?rows) limit) [0..<limit]"
      using assms by (intro sample_ranks_shares) simp_all
    with False assms show ?thesis
      by (simp add: sample_frames_in_range_def spread_rows_def Let_def share_start_def take_map del: by_time_simps)
  qed
qed

theorem sample_frames_even_witness:
  "map fm_frame_id (sample_frames_in_range (map (\<lambda>i. sample_stored_frame i (100 * i) None) [1, 2, 3, 4, 5, 6, 7]) 0 1000 3) = [1, 4, 6]"
proof -
  let ?fs = "map (\<lambda>i. sample_stored_frame i (100 * i) None) [1, 2, 3, 4, 5, 6, 7]"
  have r: "by_time (filter (captured_in 0 1000) ?fs) = ?fs" by (simp add: by_time_def captured_in_def sample_stored_frame_def)
  show ?thesis
    using sample_frames_even [of 0 1000 3 ?fs] unfolding r by (simp add: upt_rec row_to_meta_def sample_stored_frame_def)
qed

section \<open>Nearest frames\<close>

lemma by_time_Nil: "by_time fs = [] \<longleftrightarrow> fs = []" by (metis by_time_simps(2) length_0_conv)

lemma first_by_time:
  "case first_opt (by_time fs) of None \<Rightarrow> fs = []
   | Some f \<Rightarrow> f \<in> set fs \<and> (\<forall>g\<in>set fs. fr_captured_at f \<le> fr_captured_at g)"
proof (cases "by_time fs")
  case (Cons f gs)
  then have "set fs = insert f (set gs)" using by_time_simps(1) [of fs] by simp
  then show ?thesis using by_time_sorted [of fs] Cons by (auto simp: less_eq_prod_def)
qed (use by_time_Nil [of fs] in simp)

lemma last_by_time:
  "case last_opt (by_time fs) of None \<Rightarrow> fs = []
   | Some f \<Rightarrow> f \<in> set fs \<and> (\<forall>g\<in>set fs. fr_captured_at g \<le> fr_captured_at f)"
proof (cases "by_time fs" rule: rev_cases)
  case (snoc gs f)
  then have "set fs = insert f (set gs)" using by_time_simps(1) [of fs] by simp
  then show ?thesis using by_time_sorted [of fs] snoc by (auto simp: last_opt_def sorted_wrt_append less_eq_prod_def)
qed (use by_time_Nil [of fs] in \<open>simp add: last_opt_def\<close>)

text \<open>The nearest row among those that satisfy a condition, from the two sides of the instant.\<close>

lemma nearer_sides:
  assumes "nearer at_ms (map_option row_to_meta (last_opt (by_time (filter (\<lambda>f. fr_captured_at f < at_ms \<and> P f) fs))))
     (map_option row_to_meta (first_opt (by_time (filter (\<lambda>f. at_ms \<le> fr_captured_at f \<and> P f) fs)))) = res"
  shows "case res of None \<Rightarrow> \<forall>g\<in>set fs. \<not> P g
    | Some m \<Rightarrow> (\<exists>f\<in>set fs. P f \<and> m = row_to_meta f) \<and> (\<forall>g\<in>set fs. P g \<longrightarrow>
        \<bar>fm_captured_at m - at_ms\<bar> < \<bar>fr_captured_at g - at_ms\<bar>
        \<or> \<bar>fm_captured_at m - at_ms\<bar> = \<bar>fr_captured_at g - at_ms\<bar> \<and> fr_captured_at g \<le> fm_captured_at m)"
proof -
  let ?B = "filter (\<lambda>f. fr_captured_at f < at_ms \<and> P f) fs" and ?A = "filter (\<lambda>f. at_ms \<le> fr_captured_at f \<and> P f) fs"
  have sides: "g \<in> set ?B \<or> g \<in> set ?A" if "g \<in> set fs" "P g" for g using that by auto
  have cap: "fm_captured_at (row_to_meta f) = fr_captured_at f" for f by (simp add: row_to_meta_def)
  note b = last_by_time [of ?B] and a = first_by_time [of ?A]
  show ?thesis
  proof (cases "last_opt (by_time ?B)")
    case B: None
    with b have nb: "?B = []" by simp
    show ?thesis
    proof (cases "first_opt (by_time ?A)")
      case None
      with a have "?A = []" by simp
      with nb sides have "\<forall>g\<in>set fs. \<not> P g" by fastforce
      moreover have "res = None" using assms B None by (simp add: nearer_def)
      ultimately show ?thesis by simp
    next
      case (Some x)
      with a have x: "x \<in> set fs" "P x" "at_ms \<le> fr_captured_at x" and le: "\<And>g. g \<in> set ?A \<Longrightarrow> fr_captured_at x \<le> fr_captured_at g" by auto
      have r: "res = Some (row_to_meta x)" using assms B Some by (simp add: nearer_def)
      have "fr_captured_at x \<le> fr_captured_at g" if "g \<in> set fs" "P g" for g using sides [OF that] nb le by force
      with x show ?thesis unfolding r by (fastforce simp: cap)
    qed
  next
    case B: (Some y)
    with b have y: "y \<in> set fs" "P y" "fr_captured_at y < at_ms" and ley: "\<And>g. g \<in> set ?B \<Longrightarrow> fr_captured_at g \<le> fr_captured_at y" by auto
    show ?thesis
    proof (cases "first_opt (by_time ?A)")
      case None
      with a have na: "?A = []" by simp
      have r: "res = Some (row_to_meta y)" using assms B None by (simp add: nearer_def)
      have "fr_captured_at g \<le> fr_captured_at y" if "g \<in> set fs" "P g" for g using sides [OF that] na ley by force
      with y show ?thesis unfolding r by (fastforce simp: cap)
    next
      case (Some x)
      with a have x: "x \<in> set fs" "P x" "at_ms \<le> fr_captured_at x" and lex: "\<And>g. g \<in> set ?A \<Longrightarrow> fr_captured_at x \<le> fr_captured_at g" by auto
      have r: "res = Some (row_to_meta (if \<bar>fr_captured_at x - at_ms\<bar> \<le> \<bar>at_ms - fr_captured_at y\<bar> then x else y))"
        using assms B Some by (auto simp: nearer_def cap)
      have le: "fr_captured_at g \<le> fr_captured_at y \<or> fr_captured_at x \<le> fr_captured_at g" if "g \<in> set fs" "P g" for g
        using sides [OF that] ley lex by blast
      have far: "\<bar>fr_captured_at z - at_ms\<bar> < \<bar>fr_captured_at g - at_ms\<bar>
          \<or> \<bar>fr_captured_at z - at_ms\<bar> = \<bar>fr_captured_at g - at_ms\<bar> \<and> fr_captured_at g \<le> fr_captured_at z"
        if "g \<in> set fs" "P g" "z = (if \<bar>fr_captured_at x - at_ms\<bar> \<le> \<bar>at_ms - fr_captured_at y\<bar> then x else y)" for g z
        using le [OF that(1,2)] x(3) y(3) that(3) by (auto split: if_splits)
      show ?thesis unfolding r using x(1,2) y(1,2) far by (auto simp: cap)
    qed
  qed
qed

text \<open>The nearest frame is nearest: there is one exactly when the window holds a frame, it is a stored frame of the window, no
  frame of the window is closer to the asked instant, and among equally close ones it is the later.\<close>

theorem nearest_frame_in_range_correct:
  assumes "s < e"
  shows "case nearest_frame_in_range fs at_ms s e of
      None \<Rightarrow> \<forall>g\<in>set fs. \<not> captured_in s e g
    | Some m \<Rightarrow> (\<exists>f\<in>set fs. captured_in s e f \<and> m = row_to_meta f) \<and> (\<forall>g\<in>set fs. captured_in s e g \<longrightarrow>
        \<bar>fm_captured_at m - at_ms\<bar> < \<bar>fr_captured_at g - at_ms\<bar>
        \<or> \<bar>fm_captured_at m - at_ms\<bar> = \<bar>fr_captured_at g - at_ms\<bar> \<and> fr_captured_at g \<le> fm_captured_at m)"
  by (rule nearer_sides) (use assms in \<open>simp add: nearest_frame_in_range_def\<close>)

theorem nearest_frame_in_range_correct_witness:
  "map_option fm_frame_id (nearest_frame_in_range (map (\<lambda>i. sample_stored_frame i (100 * i) None) [1, 2, 3, 4]) 250 100 400) = Some 3
   \<and> captured_in 100 400 (sample_stored_frame 3 300 None)"
proof -
  let ?fs = "map (\<lambda>i. sample_stored_frame i (100 * i) None) [1, 2, 3, 4]"
  obtain m where m: "nearest_frame_in_range ?fs 250 100 400 = Some m" "fm_frame_id m = 3"
    by (simp add: nearest_frame_in_range_def by_time_def captured_in_def sample_stored_frame_def nearer_def row_to_meta_def last_opt_def)
  from nearest_frame_in_range_correct [of 100 400 ?fs 250] m have "\<exists>f\<in>set ?fs. captured_in 100 400 f \<and> m = row_to_meta f" by simp
  with m show ?thesis by (auto simp: captured_in_def sample_stored_frame_def row_to_meta_def)
qed

section \<open>Timeline counts\<close>

lemma bucket_width_bounds:
  assumes "0 < sp" "0 < n"
  shows "1 \<le> bucket_width sp n" "sp \<le> bucket_width sp n * n"
proof -
  show "1 \<le> bucket_width sp n" by (simp add: bucket_width_def)
  have e: "sp = sp div n * n + sp mod n" by simp
  have m: "sp mod n < n" using assms by simp
  have "sp \<le> (sp div n + (if sp mod n \<noteq> 0 then 1 else 0)) * n"
  proof (cases "sp mod n = 0")
    case False
    then show ?thesis using e m by (simp only: if_P not_False_eq_True distrib_right mult_1)
  qed (use e in auto)
  also have "\<dots> \<le> bucket_width sp n * n"
    unfolding bucket_width_def using assms by (intro mult_right_mono) simp_all
  finally show "sp \<le> bucket_width sp n * n" .
qed

lemma sum_count_list: "(\<Sum>b\<leftarrow>sort (remdups bs). count_list bs b) = length bs"
proof -
  have "(\<Sum>b\<leftarrow>sort (remdups bs). count_list bs b) = (\<Sum>b\<in>set bs. count_list bs b)"
    by (subst sum_list_distinct_conv_sum_set) simp_all
  also have "\<dots> = length bs" by (rule sum_count_set) simp_all
  finally show ?thesis .
qed

lemma count_list_map: "count_list (map f xs) y = length (filter (\<lambda>x. f x = y) xs)"
  by (induction xs) auto

lemma div_bucket_iff: "(0::int) < w \<Longrightarrow> (x - s) div w = b \<longleftrightarrow> s + b * w \<le> x \<and> x < s + b * w + w"
proof -
  assume w: "0 < w"
  have e: "x - s = (x - s) div w * w + (x - s) mod w" "0 \<le> (x - s) mod w" "(x - s) mod w < w" using w by simp_all
  moreover have "(x - s) div w = b" if "s + b * w \<le> x" "x < s + b * w + w"
    by (rule int_div_pos_eq [of _ _ _ "x - s - b * w"]) (use that in \<open>simp_all add: algebra_simps\<close>)
  moreover have "s + b * w \<le> x \<and> x < s + b * w + w" if "(x - s) div w = b"
    using e that by (auto simp del: div_mult_mod_eq)
  ultimately show ?thesis by blast
qed

lemma timeline_buckets_eq:
  assumes "in_i64 s" "in_i64 e" "in_i64 (e - s)" "s < e" "0 < n"
  defines "w \<equiv> bucket_width (e - s) (int n)"
  shows "timeline_buckets fs s e n = map (\<lambda>(b, c). \<lparr>tb_start = s + b * w, tb_end = min (s + b * w + w) e, tb_count = min c (2 ^ 32 - 1)\<rparr>)
     (group_buckets (map (\<lambda>f. (fr_captured_at f - s) div w) (filter (captured_in s e) fs)))"
proof -
  have w: "1 \<le> w" unfolding w_def by (rule bucket_width_bounds) (use assms in simp_all)
  have close: "(if in_i64 (s + b * w + w) then min (s + b * w + w) e else e) = min (s + b * w + w) e"
    if "b \<in> (\<lambda>f. (fr_captured_at f - s) div w) ` set (filter (captured_in s e) fs)" for b
  proof -
    have "0 \<le> b" using that w by (auto simp: captured_in_def pos_imp_zdiv_nonneg_iff)
    then have "0 \<le> b * w" using w by simp
    then have "i64_min \<le> s + b * w + w" using assms(1) w unfolding in_i64_def by linarith
    then show ?thesis using assms(2) by (auto simp: in_i64_def)
  qed
  show ?thesis
    unfolding timeline_buckets_def group_buckets_def Let_def w_def [symmetric] map_map
    using assms(3-5) close by simp
qed

lemma timeline_buckets_exact:
  assumes i64: "in_i64 s" "in_i64 e" "in_i64 (e - s)" and se: "s < e" and n: "0 < n" and few: "length fs < 2 ^ 32"
  defines "bks \<equiv> timeline_buckets fs s e n"
  shows "sorted_wrt (\<lambda>a b. tb_end a \<le> tb_start b) bks
    \<and> (\<forall>b\<in>set bks. s \<le> tb_start b \<and> tb_start b < tb_end b \<and> tb_end b \<le> e \<and> 0 < tb_count b
      \<and> tb_count b = length (filter (captured_in (tb_start b) (tb_end b)) fs))
    \<and> (\<Sum>b\<leftarrow>bks. tb_count b) = length (filter (captured_in s e) fs)
    \<and> length bks \<le> n"
proof (intro conjI ballI)
  define w where "w = bucket_width (e - s) (int n)"
  define bs where "bs = map (\<lambda>f. (fr_captured_at f - s) div w) (filter (captured_in s e) fs)"
  have w: "1 \<le> w" "e - s \<le> w * int n" unfolding w_def using bucket_width_bounds [of "e - s" "int n"] se n by simp_all
  have cnt: "count_list bs b < 2 ^ 32" for b
    unfolding bs_def count_list_map using few le_less_trans [OF length_filter_le [of _ fs]] by (simp add: le_less_trans [OF length_filter_le])
  have le: "count_list bs b \<le> 2 ^ 32 - 1" for b using cnt [of b] by simp
  have bks: "bks = map (\<lambda>b. \<lparr>tb_start = s + b * w, tb_end = min (s + b * w + w) e, tb_count = count_list bs b\<rparr>) (sort (remdups bs))"
    unfolding bks_def timeline_buckets_eq [OF i64 se n] w_def [symmetric] bs_def [symmetric] group_buckets_def
    using le by (simp add: min_absorb1)
  have mem: "0 \<le> b \<and> s + b * w < e" if b: "b \<in> set bs" for b
  proof -
    from b have "\<exists>f::stored_frame. s \<le> fr_captured_at f \<and> fr_captured_at f < e \<and> (fr_captured_at f - s) div w = b"
      unfolding bs_def set_map by (auto simp: captured_in_def intro: exI conjI)
    then obtain f :: stored_frame where f: "s \<le> fr_captured_at f" "fr_captured_at f < e" "(fr_captured_at f - s) div w = b" by blast
    then have "0 \<le> b" using w by (auto simp: pos_imp_zdiv_nonneg_iff)
    moreover have "s + b * w \<le> fr_captured_at f" using f w div_bucket_iff [of w] by auto
    ultimately show ?thesis using f by simp
  qed
  have srt: "sorted_wrt (<) (sort (remdups bs))" by (simp add: strict_sorted_iff)
  have step: "b * w + w \<le> c * w" if "b < c" for b c
    using mult_right_mono [of "b + 1" c w] that w by (simp add: algebra_simps)
  show "sorted_wrt (\<lambda>a b. tb_end a \<le> tb_start b) bks"
    unfolding bks sorted_wrt_map by (rule sorted_wrt_mono_rel [OF _ srt]) (use step in \<open>auto simp: min_def, fastforce\<close>)
  have bucket: "s \<le> tb_start b \<and> tb_start b < tb_end b \<and> tb_end b \<le> e \<and> 0 < tb_count b
      \<and> tb_count b = length (filter (captured_in (tb_start b) (tb_end b)) fs)" if "b \<in> set bks" for b
  proof -
    from that obtain k where k: "k \<in> set bs"
      "b = \<lparr>tb_start = s + k * w, tb_end = min (s + k * w + w) e, tb_count = count_list bs k\<rparr>" by (auto simp: bks)
    have "filter (\<lambda>f. (fr_captured_at f - s) div w = k) (filter (captured_in s e) fs)
        = filter (captured_in (s + k * w) (min (s + k * w + w) e)) fs"
      unfolding filter_filter
    proof (intro filter_cong refl)
      fix f
      have "0 \<le> k * w" using mem [OF k(1)] w by simp
      then show "captured_in s e f \<and> (fr_captured_at f - s) div w = k \<longleftrightarrow> captured_in (s + k * w) (min (s + k * w + w) e) f"
        using w(1) unfolding captured_in_def by (subst div_bucket_iff) (simp, linarith)
    qed
    then have "count_list bs k = length (filter (captured_in (s + k * w) (min (s + k * w + w) e)) fs)"
      unfolding bs_def count_list_map by simp
    moreover have "0 < count_list bs k" using k(1) by (meson count_list_0_iff gr0I)
    ultimately show ?thesis using mem [OF k(1)] w by (simp add: k(2))
  qed
  then show "s \<le> tb_start b" "tb_start b < tb_end b" "tb_end b \<le> e" "0 < tb_count b"
    "tb_count b = length (filter (captured_in (tb_start b) (tb_end b)) fs)" if "b \<in> set bks" for b
    using that by blast+
  have "(\<Sum>b\<leftarrow>bks. tb_count b) = (\<Sum>b\<leftarrow>sort (remdups bs). count_list bs b)" by (simp add: bks comp_def)
  also have "\<dots> = length (filter (captured_in s e) fs)" by (simp add: sum_count_list bs_def)
  finally show "(\<Sum>b\<leftarrow>bks. tb_count b) = length (filter (captured_in s e) fs)" .
  have "set bs \<subseteq> {0..<int n}"
  proof
    fix b assume b: "b \<in> set bs"
    then have "b * w < w * int n" using mem [OF b] w by linarith
    then have "b < int n" using w by (simp add: mult.commute)
    with mem [OF b] show "b \<in> {0..<int n}" by simp
  qed
  then have "card (set bs) \<le> card {0..<int n}" by (intro card_mono) simp_all
  then show "length bks \<le> n" by (simp add: bks length_remdups_card_conv)
qed

text \<open>C26: The timeline is exact: its buckets are non-empty, lie inside the asked window, are disjoint and ascending, at most as many as
  were asked for, each counts exactly the frames captured between its ends, and the counts add up to the number of frames in
  the window.\<close>

theorem timeline_exact:
  assumes i64: "in_i64 s" "in_i64 e" "in_i64 (e - s)" and se: "s < e" and n: "0 < n" and few: "length fs < 2 ^ 32"
  defines "bks \<equiv> timeline_buckets fs s e n"
  shows "sorted_wrt (\<lambda>a b. tb_end a \<le> tb_start b) bks
    \<and> (\<forall>b\<in>set bks. s \<le> tb_start b \<and> tb_start b < tb_end b \<and> tb_end b \<le> e \<and> 0 < tb_count b
      \<and> tb_count b = length (filter (captured_in (tb_start b) (tb_end b)) fs))
    \<and> (\<Sum>b\<leftarrow>bks. tb_count b) = length (filter (captured_in s e) fs)
    \<and> length bks \<le> n"
  unfolding bks_def by (rule timeline_buckets_exact [OF i64 se n few])

theorem timeline_exact_witness:
  "map tb_count (timeline_buckets (map (\<lambda>i. sample_stored_frame i (100 * i) None) [1, 2, 3, 4, 5]) 100 450 2) = [2, 2]
   \<and> length (filter (captured_in 100 450) (map (\<lambda>i. sample_stored_frame i (100 * i) None) [1, 2, 3, 4, 5])) = 4"
proof
  let ?fs = "map (\<lambda>i. sample_stored_frame i (100 * i) None) [1, 2, 3, 4, 5]"
  show l: "map tb_count (timeline_buckets ?fs 100 450 2) = [2, 2]"
    by (simp add: timeline_buckets_def bucket_width_def captured_in_def sample_stored_frame_def in_i64_def i64_min_def i64_max_def group_buckets_def)
  have "(\<Sum>b\<leftarrow>timeline_buckets ?fs 100 450 2. tb_count b) = length (filter (captured_in 100 450) ?fs)"
    using timeline_exact [of 100 450 2 ?fs] by (simp add: in_i64_def i64_min_def i64_max_def)
  then show "length (filter (captured_in 100 450) ?fs) = 4" unfolding l by simp
qed

lemma set_sample_rows: "set (spread_rows fs s e limit) \<subseteq> set (filter (captured_in s e) fs)"
proof -
  have "set (map ((!) rows) (sample_ranks (length rows) limit)) \<subseteq> set rows" for rows :: "stored_frame list"
    by (auto simp: sample_ranks_def)
  from this [of "by_time (filter (captured_in s e) fs)"] show ?thesis
    unfolding spread_rows_def Let_def by_time_simps(1) by (meson order_trans set_take_subset)
qed

lemma sample_frames_in_range_sound:
  assumes "m \<in> set (sample_frames_in_range fs s e limit)"
  shows "\<exists>f\<in>set fs. captured_in s e f \<and> m = row_to_meta f"
  using assms set_sample_rows [of fs s e limit] by (auto simp: sample_frames_in_range_def split: if_splits)

lemma length_sample_frames_in_range: "length (sample_frames_in_range fs s e limit) \<le> limit"
  by (simp add: sample_frames_in_range_def spread_rows_def Let_def)

lemma ocr_texts_sound:
  assumes "ocr_texts fs ids i = Some t"
  shows "\<exists>f\<in>set fs. fr_id f = i \<and> fr_content_text f = Some t"
  using map_of_SomeD [OF assms [unfolded ocr_texts_def]] by (auto simp: set_map_filter split: option.splits if_splits)

end
