(* ===== verification/Utf8.thy ===== *)
theory Utf8
  imports Prelude
begin

text \<open>
  UTF-8 as the source uses it from the standard library: the encoded length that \<open>str::len\<close> counts, the
  encoder, and \<open>String::from_utf8_lossy\<close>, which replaces every maximal ill-formed piece by U+FFFD. Bytes are the
  integers below 256.
\<close>

type_synonym byte = int

definition scalar :: "uchar \<Rightarrow> bool" where
  "scalar c \<longleftrightarrow> 0 \<le> c \<and> c < 55296 \<or> 57344 \<le> c \<and> c < 1114112"

definition utf8_char :: "uchar \<Rightarrow> byte list" where
  "utf8_char c =
     (if c < 128 then [c]
      else if c < 2048 then [192 + c div 64, 128 + c mod 64]
      else if c < 65536 then [224 + c div 4096, 128 + c div 64 mod 64, 128 + c mod 64]
      else [240 + c div 262144, 128 + c div 4096 mod 64, 128 + c div 64 mod 64, 128 + c mod 64])"

definition utf8_encode :: "ustr \<Rightarrow> byte list" where
  "utf8_encode s = concat (map utf8_char s)"

definition char_len :: "uchar \<Rightarrow> nat" where
  "char_len c = (if c < 128 then 1 else if c < 2048 then 2 else if c < 65536 then 3 else 4)"

definition byte_len :: "ustr \<Rightarrow> nat" where
  "byte_len s = sum_list (map char_len s)"

definition replacement :: uchar where "replacement = 65533"

definition cont :: "byte \<Rightarrow> bool" where "cont b \<longleftrightarrow> 128 \<le> b \<and> b < 192"

text \<open>The bytes that may follow a leading byte of a sequence of three or of four.\<close>

definition second3 :: "byte \<Rightarrow> byte \<Rightarrow> bool" where
  "second3 a b \<longleftrightarrow> (if a = 224 then 160 \<le> b \<and> b < 192 else if a = 237 then 128 \<le> b \<and> b < 160 else cont b)"

definition second4 :: "byte \<Rightarrow> byte \<Rightarrow> bool" where
  "second4 a b \<longleftrightarrow> (if a = 240 then 144 \<le> b \<and> b < 192 else if a = 244 then 128 \<le> b \<and> b < 144 else cont b)"

text \<open>The first scalar value of a byte string and what follows it.\<close>

definition decode_char :: "byte \<Rightarrow> byte list \<Rightarrow> uchar \<times> byte list" where
  "decode_char a bs =
     (if a < 128 then (a, bs)
      else if 194 \<le> a \<and> a < 224 then (case bs of
          b # bs1 \<Rightarrow> if cont b then ((a - 192) * 64 + (b - 128), bs1) else (replacement, bs)
        | [] \<Rightarrow> (replacement, bs))
      else if 224 \<le> a \<and> a < 240 then (case bs of
          b # bs1 \<Rightarrow> if second3 a b then (case bs1 of
              c # bs2 \<Rightarrow> if cont c then ((a - 224) * 4096 + (b - 128) * 64 + (c - 128), bs2) else (replacement, bs1)
            | [] \<Rightarrow> (replacement, bs1))
            else (replacement, bs)
        | [] \<Rightarrow> (replacement, bs))
      else if 240 \<le> a \<and> a < 245 then (case bs of
          b # bs1 \<Rightarrow> if second4 a b then (case bs1 of
              c # bs2 \<Rightarrow> if cont c then (case bs2 of
                  d # bs3 \<Rightarrow> if cont d then ((a - 240) * 262144 + (b - 128) * 4096 + (c - 128) * 64 + (d - 128), bs3)
                    else (replacement, bs2)
                | [] \<Rightarrow> (replacement, bs2))
                else (replacement, bs1)
            | [] \<Rightarrow> (replacement, bs1))
            else (replacement, bs)
        | [] \<Rightarrow> (replacement, bs))
      else (replacement, bs))"

lemma decode_char_shorter: "length (snd (decode_char a bs)) \<le> length bs"
  by (auto simp: decode_char_def split: list.splits)

function from_utf8_lossy :: "byte list \<Rightarrow> ustr" where
  "from_utf8_lossy [] = []"
| "from_utf8_lossy (a # bs) = fst (decode_char a bs) # from_utf8_lossy (snd (decode_char a bs))"
  by pat_completeness auto
termination
  by (relation "measure length") (use decode_char_shorter in \<open>auto simp: less_Suc_eq_le\<close>)

section \<open>Round trip\<close>

lemma length_utf8_char: "length (utf8_char c) = char_len c"
  by (simp add: utf8_char_def char_len_def)

lemma length_utf8_encode: "length (utf8_encode s) = byte_len s"
  by (simp add: utf8_encode_def byte_len_def length_concat comp_def length_utf8_char)

lemma byte_len_simps [simp]:
  "byte_len [] = 0" "byte_len (c # s) = char_len c + byte_len s" "byte_len (s @ t) = byte_len s + byte_len t"
  by (simp_all add: byte_len_def)

lemma char_len_pos: "1 \<le> char_len c" "char_len c \<le> 4"
  by (simp_all add: char_len_def)

lemma byte_len_0 [simp]: "byte_len s = 0 \<longleftrightarrow> s = []"
  by (cases s) (simp_all add: char_len_def)

lemma decode_utf8_char:
  assumes "scalar c"
  shows "\<exists>a as. utf8_char c = a # as \<and> decode_char a (as @ rest) = (c, rest)"
proof -
  define q1 q2 q3 where q: "q1 = c div 64" "q2 = q1 div 64" "q3 = q2 div 64"
  have e: "c div 64 = q1" "c div 4096 = q2" "c div 262144 = q3"
    using zdiv_zmult2_eq [of 64 c 64] zdiv_zmult2_eq [of 64 q1 64] zdiv_zmult2_eq [of 4096 c 64] by (simp_all add: q)
  have d: "c = q1 * 64 + c mod 64" "q1 = q2 * 64 + q1 mod 64" "q2 = q3 * 64 + q2 mod 64"
    by (simp_all add: q)
  have m: "0 \<le> c mod 64" "c mod 64 < 64" "0 \<le> q1 mod 64" "q1 mod 64 < 64" "0 \<le> q2 mod 64" "q2 mod 64 < 64" by simp_all
  consider "c < 128" | "128 \<le> c" "c < 2048" | "2048 \<le> c" "c < 65536" | "65536 \<le> c" "c < 1114112"
    using assms unfolding scalar_def by linarith
  then show ?thesis
  proof cases
    case 1
    then show ?thesis by (simp add: utf8_char_def decode_char_def)
  next
    case 2
    then have "2 \<le> q1" "q1 < 32" using d(1) m by linarith+
    moreover have "q1 * 64 + c mod 64 = c" using d(1) by linarith
    ultimately show ?thesis using 2 by (simp add: utf8_char_def decode_char_def cont_def e)
  next
    case 3
    then have "q2 < 16" "0 \<le> q2" using d m by linarith+
    moreover have "32 \<le> q1 mod 64" if "q2 = 0" using 3 that d(1,2) m by linarith
    moreover have "q1 mod 64 < 32" if "q2 = 13"
    proof -
      have "\<not> (55296 \<le> c \<and> c < 57344)" using assms unfolding scalar_def by linarith
      then show ?thesis using that d(1,2) m by linarith
    qed
    moreover have "q2 * 4096 + q1 mod 64 * 64 + c mod 64 = c" using d by linarith
    ultimately show ?thesis using 3 m by (auto simp: utf8_char_def decode_char_def cont_def second3_def e)
  next
    case 4
    then have "q3 < 5" "0 \<le> q3" using d m by linarith+
    moreover have "16 \<le> q2 mod 64" if "q3 = 0" using 4 that d m by linarith
    moreover have "q2 mod 64 < 16" if "q3 = 4" using 4 that d m by linarith
    moreover have "q3 * 262144 + q2 mod 64 * 4096 + q1 mod 64 * 64 + c mod 64 = c" using d by linarith
    ultimately show ?thesis using 4 m by (auto simp: utf8_char_def decode_char_def cont_def second4_def e)
  qed
qed

text \<open>Decoding is the inverse of encoding, whatever bytes follow.\<close>

lemma from_utf8_lossy_encode_append:
  "list_all scalar s \<Longrightarrow> from_utf8_lossy (utf8_encode s @ rest) = s @ from_utf8_lossy rest"
proof (induction s)
  case (Cons c s)
  then obtain a as where a: "utf8_char c = a # as" "decode_char a (as @ utf8_encode s @ rest) = (c, utf8_encode s @ rest)"
    using decode_utf8_char [of c "utf8_encode s @ rest"] by auto
  with Cons show ?case by (simp add: utf8_encode_def)
qed (simp add: utf8_encode_def)

lemma from_utf8_lossy_encode: "list_all scalar s \<Longrightarrow> from_utf8_lossy (utf8_encode s) = s"
  using from_utf8_lossy_encode_append [of s "[]"] by simp

end
