(* ===== verification/Streams.thy ===== *)
theory Streams
  imports Utf8
begin

text \<open>
  The interface of the incremental parsers of the program: a parser is fed a stream in pieces cut anywhere, keeps
  what it cannot decide yet, and is flushed when the stream ends. Its contract is that what comes out is a function
  of the whole stream alone.
\<close>

fun feed_all :: "('s \<Rightarrow> 'i list \<Rightarrow> 'o list \<times> 's) \<Rightarrow> 's \<Rightarrow> 'i list list \<Rightarrow> 'o list \<times> 's" where
  "feed_all push s [] = ([], s)"
| "feed_all push s (x # xs) = (let (out, s1) = push s x; (outs, s2) = feed_all push s1 xs in (out @ outs, s2))"

locale stream_parser =
  fixes push :: "'s \<Rightarrow> 'i list \<Rightarrow> 'o list \<times> 's"
    and fin :: "'s \<Rightarrow> 'o list"
    and view :: "'o list \<Rightarrow> 'v list"
    and ok :: "'s \<Rightarrow> bool"
    and meaning :: "'s \<Rightarrow> 'i list \<Rightarrow> 'v list"
  assumes view_append: "view (a @ b) = view a @ view b"
    and push_ok: "ok s \<Longrightarrow> push s x = (out, s') \<Longrightarrow> ok s'"
    and push_meaning: "ok s \<Longrightarrow> push s x = (out, s') \<Longrightarrow> meaning s (x @ rest) = view out @ meaning s' rest"
    and fin_meaning: "ok s \<Longrightarrow> view (fin s) = meaning s []"
begin

lemma feed_all_meaning:
  "ok s \<Longrightarrow> feed_all push s xs = (outs, s') \<Longrightarrow> ok s' \<and> meaning s (concat xs @ rest) = view outs @ meaning s' rest"
proof (induction xs arbitrary: s outs s')
  case Nil
  have "view [] = []" using view_append [of "[]" "[]"] by simp
  with Nil show ?case by simp
next
  case (Cons x xs)
  obtain out s1 where p: "push s x = (out, s1)" by fastforce
  obtain outs2 s2 where f: "feed_all push s1 xs = (outs2, s2)" by fastforce
  have o: "outs = out @ outs2" "s' = s2" using Cons.prems(2) p f by simp_all
  have "meaning s (concat (x # xs) @ rest) = view out @ meaning s1 (concat xs @ rest)"
    using push_meaning [OF Cons.prems(1) p] by simp
  with Cons.IH [OF push_ok [OF Cons.prems(1) p] f] show ?case by (simp add: o view_append)
qed

text \<open>However the stream is cut, the output is that of the whole stream.\<close>

lemma whole_stream:
  assumes "ok s" and "feed_all push s xs = (outs, s')"
  shows "view (outs @ fin s') = meaning s (concat xs)"
  using feed_all_meaning [OF assms, of "[]"] fin_meaning by (simp add: view_append)

lemma cut_independent:
  assumes "ok s" and "concat xs = concat ys" and "feed_all push s xs = (o1, s1)" and "feed_all push s ys = (o2, s2)"
  shows "view (o1 @ fin s1) = view (o2 @ fin s2)"
  using whole_stream [OF assms(1,3)] whole_stream [OF assms(1,4)] assms(2) by simp

end

end
