(* ===== verification/Answer.thy ===== *)
theory Answer
  imports Streams
begin

text \<open>
  The answer lane (\<open>crates/inference/src/answer.rs\<close>): packing context under the model's window, splitting inline
  \<open><think>\<close> reasoning from the answer, and pumping the sidecar's stream to the consumer. The model itself, its
  launch and its lease are parameters.
\<close>

section \<open>Prompts\<close>

record chunk =
  rc_frame_id :: int
  rc_text :: ustr
  rc_score :: rat
  rc_captured_at :: int

record chat_message =
  cm_role :: ustr
  cm_content :: ustr

definition system_prompt :: ustr where
  "system_prompt = lit ''You answer questions about the user's screen history. Use ONLY the provided context snippets, each tagged with its source frame id. Ground your answer in them and be concise. If the context does not contain the answer, say so plainly rather than guessing.''"

definition template_overhead_tokens :: nat where "template_overhead_tokens = 96"
definition id_framing_tokens :: nat where "id_framing_tokens = 6"
definition bytes_per_token :: nat where "bytes_per_token = 2"

definition effective_reply_budget :: "nat \<Rightarrow> nat \<Rightarrow> nat" where
  "effective_reply_budget requested ctx_size = min requested (max (ctx_size div 2) 1)"

definition estimate_tokens :: "ustr \<Rightarrow> nat" where
  "estimate_tokens s = byte_len s div bytes_per_token + 1"

text \<open>The longest prefix of at most so many bytes that ends between two characters.\<close>

fun take_bytes :: "nat \<Rightarrow> ustr \<Rightarrow> ustr" where
  "take_bytes n [] = []"
| "take_bytes n (c # s) = (if char_len c \<le> n then c # take_bytes (n - char_len c) s else [])"

definition truncate_to_tokens :: "ustr \<Rightarrow> nat \<Rightarrow> ustr" where
  "truncate_to_tokens s budget_tokens = take_bytes (min (budget_tokens * bytes_per_token) (byte_len s)) s"

definition frame_line :: "int \<Rightarrow> ustr \<Rightarrow> ustr" where
  "frame_line i snippet = lit ''[frame '' @ display_int i @ lit ''] '' @ snippet @ [10]"

definition include_id :: "int list \<Rightarrow> int \<Rightarrow> int list" where
  "include_id ids i = (if i \<in> set ids then ids else ids @ [i])"

fun pack_loop :: "chunk list \<Rightarrow> nat \<Rightarrow> ustr \<Rightarrow> int list \<Rightarrow> ustr \<times> int list" where
  "pack_loop [] budget user included = (user, included)"
| "pack_loop (c # cs) budget user included =
     (if budget = 0 then (user, included)
      else (let t = trim (rc_text c); cost = estimate_tokens t + id_framing_tokens
            in if t = [] then pack_loop cs budget user included
               else if cost \<le> budget then
                 pack_loop cs (budget - cost) (user @ frame_line (rc_frame_id c) t) (include_id included (rc_frame_id c))
               else if included = [] then
                 (let s = truncate_to_tokens t (budget - id_framing_tokens)
                  in if s = [] then (user, included)
                     else pack_loop cs 0 (user @ frame_line (rc_frame_id c) s) (include_id included (rc_frame_id c)))
               else (user, included)))"

definition pack_context :: "ustr \<Rightarrow> chunk list \<Rightarrow> nat \<Rightarrow> ustr \<times> int list" where
  "pack_context intro context_chunks budget_tokens =
     (let (user, included) = pack_loop context_chunks budget_tokens intro []
      in (if included = [] then user @ lit ''(no relevant snippets found)'' @ [10] else user, included))"

definition build_messages :: "ustr \<Rightarrow> chunk list \<Rightarrow> nat \<Rightarrow> nat \<Rightarrow> chat_message list \<times> int list" where
  "build_messages query context_chunks ctx_size max_tokens =
     (let reserve = max_tokens + estimate_tokens system_prompt + estimate_tokens query + template_overhead_tokens;
          (user, included) = pack_context (lit ''Context snippets from my screen history:'' @ [10]) context_chunks (ctx_size - reserve)
      in ([\<lparr>cm_role = lit ''system'', cm_content = system_prompt\<rparr>,
           \<lparr>cm_role = lit ''user'', cm_content = user @ [10] @ lit ''Question: '' @ query\<rparr>], included))"

definition build_summary_messages :: "ustr \<Rightarrow> ustr \<Rightarrow> chunk list \<Rightarrow> nat \<Rightarrow> nat \<Rightarrow> chat_message list \<times> int list" where
  "build_summary_messages sys_prompt instruction context_chunks ctx_size max_tokens =
     (let reserve = max_tokens + estimate_tokens sys_prompt + estimate_tokens instruction + template_overhead_tokens;
          (user, included) = pack_context (lit ''Content from my screen history:'' @ [10]) context_chunks (ctx_size - reserve)
      in ([\<lparr>cm_role = lit ''system'', cm_content = sys_prompt\<rparr>,
           \<lparr>cm_role = lit ''user'', cm_content = (if trim instruction \<noteq> [] then user @ [10] @ instruction else user)\<rparr>], included))"

section \<open>Thinking tags\<close>

record think_splitter =
  th_in_think :: bool
  th_buf :: ustr

definition think_start :: think_splitter where "think_start = \<lparr>th_in_think = False, th_buf = []\<rparr>"

definition think_marker :: "bool \<Rightarrow> ustr" where
  "think_marker in_think = (if in_think then lit ''</think>'' else lit ''<think>'')"

text \<open>The marker is ASCII, so a suffix equal to one of its prefixes starts between two characters.\<close>

definition partial_marker_suffix :: "ustr \<Rightarrow> ustr \<Rightarrow> nat" where
  "partial_marker_suffix buf m =
     (case List.find (\<lambda>k. drop (length buf - k) buf = take k m) (rev [1..<Suc (min (length m - 1) (length buf))]) of
        Some k \<Rightarrow> k | None \<Rightarrow> 0)"

lemma split_once_parts: "split_once s p = Some (a, b) \<Longrightarrow> s = a @ p @ b"
proof (induction s arbitrary: a)
  case (Cons c s)
  then show ?case by (auto split: if_splits simp: prefix_def)
qed (auto split: if_splits)

function split_loop :: "bool \<Rightarrow> ustr \<Rightarrow> (bool \<times> ustr) list \<times> think_splitter" where
  "split_loop in_think buf =
     (case split_once buf (think_marker in_think) of
        Some (before, rest) \<Rightarrow>
          (let (out, st) = split_loop (\<not> in_think) rest
           in ((if before \<noteq> [] then [(in_think, before)] else []) @ out, st))
      | None \<Rightarrow>
          (let emit_len = length buf - partial_marker_suffix buf (think_marker in_think)
           in (if 0 < emit_len then [(in_think, take emit_len buf)] else [],
               \<lparr>th_in_think = in_think, th_buf = drop emit_len buf\<rparr>)))"
  by pat_completeness auto
termination
  by (relation "measure (\<lambda>(_, buf). length buf)") (auto dest: split_once_parts simp: think_marker_def)

declare split_loop.simps [simp del]

definition think_push :: "think_splitter \<Rightarrow> ustr \<Rightarrow> (bool \<times> ustr) list \<times> think_splitter" where
  "think_push st s = split_loop (th_in_think st) (th_buf st @ s)"

definition think_flush :: "think_splitter \<Rightarrow> (bool \<times> ustr) list" where
  "think_flush st = (if th_buf st = [] then [] else [(th_in_think st, th_buf st)])"

section \<open>Pumping the stream\<close>

datatype stream_piece = Reasoning ustr | ContentPiece ustr | DonePiece
datatype answer_delta = Thinking ustr | Token ustr | Citation int | DoneDelta | ErrorDelta ustr
datatype pump_outcome = Completed | PumpFailed ustr | Cancelled

text \<open>What \<open>select!\<close> sees, in order: a piece of the stream, or the consumer going away. The list ends where the
  channel closes.\<close>

datatype pump_event = Piece stream_piece | ConsumerGone

text \<open>The consumer's end of the channel: what it got, and how many more deltas it takes before it hangs up, if it does.\<close>

record sink =
  sk_deltas :: "answer_delta list"
  sk_room :: "nat option"

definition send_delta :: "answer_delta \<Rightarrow> sink \<Rightarrow> bool \<times> sink" where
  "send_delta d k = (case sk_room k of
     Some 0 \<Rightarrow> (False, k)
   | Some (Suc n) \<Rightarrow> (True, \<lparr>sk_deltas = sk_deltas k @ [d], sk_room = Some n\<rparr>)
   | None \<Rightarrow> (True, k\<lparr>sk_deltas := sk_deltas k @ [d]\<rparr>))"

definition emit_segment :: "bool \<Rightarrow> sink \<Rightarrow> bool \<times> ustr \<Rightarrow> bool \<times> sink" where
  "emit_segment thinking_on k seg =
     (if snd seg = [] then (True, k)
      else if fst seg then (if \<not> thinking_on then (True, k) else send_delta (Thinking (snd seg)) k)
      else send_delta (Token (snd seg)) k)"

fun emit_segments :: "bool \<Rightarrow> sink \<Rightarrow> (bool \<times> ustr) list \<Rightarrow> bool \<times> sink" where
  "emit_segments thinking_on k [] = (True, k)"
| "emit_segments thinking_on k (seg # segs) =
     (case emit_segment thinking_on k seg of (ok, k1) \<Rightarrow> if ok then emit_segments thinking_on k1 segs else (False, k1))"

text \<open>The loop: \<open>None\<close> for a return with \<open>Cancelled\<close>, where the guard aborts the sidecar's task.\<close>

fun pump_loop :: "bool \<Rightarrow> pump_event list \<Rightarrow> think_splitter \<Rightarrow> sink \<Rightarrow> think_splitter option \<times> sink" where
  "pump_loop thinking_on [] st k = (Some st, k)"
| "pump_loop thinking_on (ConsumerGone # evs) st k = (None, k)"
| "pump_loop thinking_on (Piece DonePiece # evs) st k = (Some st, k)"
| "pump_loop thinking_on (Piece (Reasoning s) # evs) st k =
     (if thinking_on then (case send_delta (Thinking s) k of
          (ok, k1) \<Rightarrow> if ok then pump_loop thinking_on evs st k1 else (None, k1))
      else pump_loop thinking_on evs st k)"
| "pump_loop thinking_on (Piece (ContentPiece s) # evs) st k =
     (case think_push st s of (segs, st1) \<Rightarrow>
        (case emit_segments thinking_on k segs of
           (ok, k1) \<Rightarrow> if ok then pump_loop thinking_on evs st1 k1 else (None, k1)))"

definition pump_deltas :: "bool \<Rightarrow> pump_event list \<Rightarrow> ustr + unit \<Rightarrow> sink \<Rightarrow> pump_outcome \<times> sink" where
  "pump_deltas thinking_on evs task k = (case pump_loop thinking_on evs think_start k of
     (None, k1) \<Rightarrow> (Cancelled, k1)
   | (Some st, k1) \<Rightarrow>
       (let k2 = foldl (\<lambda>k seg. snd (emit_segment thinking_on k seg)) k1 (think_flush st)
        in (case task of Inr _ \<Rightarrow> (Completed, k2) | Inl e \<Rightarrow> (PumpFailed e, k2))))"

text \<open>The model: for a prompt and a reply budget, what the pump sees and how the stream's task ends.\<close>

type_synonym answer_model = "chat_message list \<Rightarrow> nat \<Rightarrow> pump_event list \<times> (ustr + unit)"

definition answer_run :: "ustr + nat \<Rightarrow> answer_model \<Rightarrow> ustr \<Rightarrow> chunk list \<Rightarrow> bool \<Rightarrow> nat \<Rightarrow> sink \<Rightarrow> (ustr + unit) \<times> sink" where
  "answer_run setup_ctx model query context_chunks thinking max_tokens0 k = (case setup_ctx of
     Inl e \<Rightarrow> (Inl e, k)
   | Inr ctx_size \<Rightarrow>
       (let max_tokens = effective_reply_budget max_tokens0 ctx_size;
            (messages, cited) = build_messages query context_chunks ctx_size max_tokens;
            (evs, task) = model messages max_tokens
        in (case pump_deltas thinking evs task k of
              (Cancelled, k1) \<Rightarrow> (Inr (), k1)
            | (PumpFailed e, k1) \<Rightarrow> (Inr (), snd (send_delta (ErrorDelta e) k1))
            | (Completed, k1) \<Rightarrow>
                (Inr (), snd (send_delta DoneDelta (foldl (\<lambda>k i. snd (send_delta (Citation i) k)) k1 cited))))))"

definition answer :: "ustr + nat \<Rightarrow> answer_model \<Rightarrow> ustr \<Rightarrow> chunk list \<Rightarrow> bool \<Rightarrow> nat \<Rightarrow> sink \<Rightarrow> sink" where
  "answer setup_ctx model query context_chunks thinking max_tokens k =
     (case answer_run setup_ctx model query context_chunks thinking max_tokens k of
        (Inl e, k1) \<Rightarrow> snd (send_delta (ErrorDelta e) k1)
      | (Inr _, k1) \<Rightarrow> k1)"

definition answer_text :: "(bool \<times> ustr) list \<Rightarrow> ustr" where
  "answer_text segs = concat (map snd (filter (\<lambda>seg. \<not> fst seg) segs))"

fun collect_loop :: "stream_piece list \<Rightarrow> think_splitter \<Rightarrow> ustr \<Rightarrow> think_splitter \<times> ustr" where
  "collect_loop [] st out = (st, out)"
| "collect_loop (DonePiece # ps) st out = (st, out)"
| "collect_loop (Reasoning s # ps) st out = collect_loop ps st out"
| "collect_loop (ContentPiece s # ps) st out =
     (case think_push st s of (segs, st1) \<Rightarrow> collect_loop ps st1 (out @ answer_text segs))"

definition collect_stream :: "stream_piece list \<Rightarrow> ustr + unit \<Rightarrow> ustr + ustr" where
  "collect_stream pieces task =
     (let (st, out) = collect_loop pieces think_start []
      in (case task of Inl e \<Rightarrow> Inl e | Inr _ \<Rightarrow> Inr (out @ answer_text (think_flush st))))"

type_synonym summary_model = "chat_message list \<Rightarrow> nat \<Rightarrow> stream_piece list \<times> (ustr + unit)"

definition summarize :: "ustr + nat \<Rightarrow> summary_model \<Rightarrow> nat \<Rightarrow> ustr \<Rightarrow> ustr \<Rightarrow> chunk list \<Rightarrow> ustr + ustr \<times> int list" where
  "summarize setup_ctx model reply_tokens sys_prompt instruction context_chunks = bind_r setup_ctx (\<lambda>ctx_size.
     (let max_tokens = effective_reply_budget reply_tokens ctx_size;
          (messages, cited) = build_summary_messages sys_prompt instruction context_chunks ctx_size max_tokens;
          (pieces, task) = model messages max_tokens
      in bind_r (collect_stream pieces task) (\<lambda>s. Inr (s, cited))))"

definition default_answer_ctx :: nat where "default_answer_ctx = 8192"

definition answer_context_budget :: "nat \<Rightarrow> nat option" where
  "answer_context_budget launch_ctx = Some (if launch_ctx = 0 then default_answer_ctx else launch_ctx)"

section \<open>The splitter reads the stream as a whole\<close>

text \<open>The reference: read from the left, a marker switches between answer and reasoning, every other character is
  emitted with its kind.\<close>

function tag_chars :: "bool \<Rightarrow> ustr \<Rightarrow> (bool \<times> uchar) list" where
  "tag_chars t [] = []"
| "tag_chars t (c # s) =
     (if prefix (think_marker t) (c # s) then tag_chars (\<not> t) (drop (length (think_marker t)) (c # s)) else (t, c) # tag_chars t s)"
  by pat_completeness auto
termination
  by (relation "measure (\<lambda>(_, s). length s)") (auto simp: think_marker_def)

declare tag_chars.simps(2) [simp del]

definition tagged :: "(bool \<times> ustr) list \<Rightarrow> (bool \<times> uchar) list" where
  "tagged segs = concat (map (\<lambda>(t, s). map (Pair t) s) segs)"

lemma tagged_simps [simp]: "tagged [] = []" "tagged ((t, s) # segs) = map (Pair t) s @ tagged segs"
  "tagged (a @ b) = tagged a @ tagged b"
  by (simp_all add: tagged_def)

lemma marker_len: "0 < length (think_marker t)" "length (think_marker t) \<le> 8"
  by (auto simp: think_marker_def)

lemma tag_chars_skip:
  "(\<And>i. i < n \<Longrightarrow> \<not> prefix (think_marker t) (drop i s)) \<Longrightarrow> n \<le> length s
     \<Longrightarrow> tag_chars t s = map (Pair t) (take n s) @ tag_chars t (drop n s)"
proof (induction n arbitrary: s)
  case (Suc n)
  then obtain c s' where s: "s = c # s'" by (cases s) auto
  have "\<not> prefix (think_marker t) (c # s')" using Suc.prems(1) [of 0] s by simp
  moreover have "tag_chars t s' = map (Pair t) (take n s') @ tag_chars t (drop n s')"
    by (rule Suc.IH) (use Suc.prems(1) [of "Suc _"] Suc.prems(2) s in auto)
  ultimately show ?case by (simp add: s tag_chars.simps(2))
qed simp

lemma tag_chars_marker: "tag_chars t (think_marker t @ s) = tag_chars (\<not> t) s"
proof -
  obtain c cs where c: "think_marker t = c # cs" using marker_len(1) [of t] by (cases "think_marker t") auto
  have "tag_chars t (c # cs @ s) = tag_chars (\<not> t) (drop (length (think_marker t)) (c # cs @ s))"
    by (simp add: tag_chars.simps(2) c)
  then show ?thesis by (simp add: c)
qed

lemma split_once_first:
  "split_once s p = Some (a, b) \<Longrightarrow> p \<noteq> [] \<Longrightarrow> i < length a \<Longrightarrow> \<not> prefix p (drop i s)"
proof (induction s arbitrary: a i)
  case (Cons c s)
  then show ?case by (cases i) (auto split: if_splits)
qed (auto split: if_splits)

lemma split_once_None: "split_once s p = None \<Longrightarrow> i \<le> length s \<Longrightarrow> \<not> prefix p (drop i s)"
proof (induction s arbitrary: i)
  case (Cons c s)
  then show ?case by (cases i) (auto split: if_splits simp: prefix_def)
qed (auto split: if_splits)

lemma partial_marker_suffix_le: "partial_marker_suffix buf m \<le> length buf" "m \<noteq> [] \<Longrightarrow> partial_marker_suffix buf m < length m"
  by (auto simp: partial_marker_suffix_def split: option.splits dest!: find_SomeD)

lemma partial_marker_suffix_longest:
  assumes "k \<le> length buf" "k < length m" "drop (length buf - k) buf = take k m"
  shows "k \<le> partial_marker_suffix buf m"
proof (cases "k = 0")
  case False
  define ks where "ks = rev [1..<Suc (min (length m - 1) (length buf))]"
  have k: "k \<in> set ks" using assms False by (auto simp: ks_def)
  then obtain j where j: "List.find (\<lambda>k. drop (length buf - k) buf = take k m) ks = Some j"
    using assms(3) by (cases "List.find (\<lambda>k. drop (length buf - k) buf = take k m) ks") (auto simp: find_None_iff)
  then obtain i where i: "i < length ks" "ks ! i = j" "\<forall>i'<i. \<not> (drop (length buf - ks ! i') buf = take (ks ! i') m)"
    by (auto simp: find_Some_iff)
  obtain i' where i': "i' < length ks" "ks ! i' = k" using k by (auto simp: in_set_conv_nth)
  have "i \<le> i'" using i(3) i'(2) assms(3) not_less by blast
  moreover have "sorted (rev ks)" by (simp add: ks_def del: upt_Suc)
  ultimately have "k \<le> j" using i i' by (metis sorted_rev_nth_mono)
  then show ?thesis using j by (simp add: partial_marker_suffix_def ks_def)
qed simp

text \<open>What is emitted without a marker in sight cannot be part of one, however the stream goes on.\<close>

lemma hold_back_safe:
  assumes none: "split_once buf m = None" and m: "m \<noteq> []"
    and i: "i < length buf - partial_marker_suffix buf m"
  shows "\<not> prefix m (drop i (buf @ rest))"
proof
  assume "prefix m (drop i (buf @ rest))"
  then have p: "prefix m (drop i buf @ rest)" using i by simp
  show False
  proof (cases "length m \<le> length (drop i buf)")
    case True
    with p have "prefix m (drop i buf)" by (metis append_take_drop_id prefix_length_prefix prefixI)
    then show False using split_once_None [OF none] i by simp
  next
    case False
    have "take (length (drop i buf)) m = drop i buf"
      using p False by (auto simp: prefix_def append_eq_append_conv2 dest: arg_cong [of _ _ length])
    then have "length buf - i \<le> partial_marker_suffix buf m"
      using False i by (intro partial_marker_suffix_longest) simp_all
    with i show False by simp
  qed
qed

lemma split_loop_meaning:
  "split_loop t buf = (out, st) \<Longrightarrow> length (th_buf st) < length (think_marker (th_in_think st))
     \<and> tag_chars t (buf @ rest) = tagged out @ tag_chars (th_in_think st) (th_buf st @ rest)"
proof (induction t buf arbitrary: out st rule: split_loop.induct)
  case (1 t buf)
  have m: "think_marker t \<noteq> []" using marker_len(1) [of t] by simp
  show ?case
  proof (cases "split_once buf (think_marker t)")
    case None
    let ?n = "length buf - partial_marker_suffix buf (think_marker t)"
    have o: "out = (if 0 < ?n then [(t, take ?n buf)] else [])" "st = \<lparr>th_in_think = t, th_buf = drop ?n buf\<rparr>"
      using 1(2) None unfolding split_loop.simps [of t buf] by (auto simp: Let_def)
    have "tag_chars t (buf @ rest) = map (Pair t) (take ?n (buf @ rest)) @ tag_chars t (drop ?n (buf @ rest))"
      by (rule tag_chars_skip) (use hold_back_safe [OF None m] in auto)
    then show ?thesis using partial_marker_suffix_le(1) [of buf "think_marker t"] partial_marker_suffix_le(2) [OF m, of buf] by (auto simp: o)
  next
    case (Some p)
    obtain before after where p: "p = (before, after)" by fastforce
    obtain out2 st2 where r: "split_loop (\<not> t) after = (out2, st2)" by fastforce
    have o: "out = (if before \<noteq> [] then [(t, before)] else []) @ out2" "st = st2"
      using 1(2) Some p r unfolding split_loop.simps [of t buf] by auto
    have buf: "buf = before @ think_marker t @ after" using split_once_parts Some p by metis
    have "tag_chars t (buf @ rest) = map (Pair t) before @ tag_chars t (think_marker t @ after @ rest)"
    proof (subst tag_chars_skip [of "length before"])
      fix i assume i: "i < length before"
      then have d: "drop i (buf @ rest) = drop i buf @ rest" "length (think_marker t) \<le> length (drop i buf)" by (simp_all add: buf)
      show "\<not> prefix (think_marker t) (drop i (buf @ rest))"
        using split_once_first [OF Some [unfolded p] m i] d by (metis prefixI prefix_length_prefix)
    qed (simp_all add: buf)
    also have "tag_chars t (think_marker t @ after @ rest) = tag_chars (\<not> t) (after @ rest)"
      by (rule tag_chars_marker)
    finally show ?thesis using 1(1) [OF Some [unfolded p] refl r] by (simp add: o)
  qed
qed

lemma tag_chars_short: "length s < length (think_marker t) \<Longrightarrow> tag_chars t s = map (Pair t) s"
  by (subst tag_chars_skip [of "length s"]) (auto dest!: prefix_length_le)

interpretation thinking: stream_parser think_push think_flush tagged
    "\<lambda>st. length (th_buf st) < length (think_marker (th_in_think st))" "\<lambda>st s. tag_chars (th_in_think st) (th_buf st @ s)"
proof
  fix s :: think_splitter and x rest out and s' :: think_splitter
  assume p: "think_push s x = (out, s')"
  then show "length (th_buf s') < length (think_marker (th_in_think s'))"
    unfolding think_push_def by (blast dest: split_loop_meaning)
  show "tag_chars (th_in_think s) (th_buf s @ x @ rest) = tagged out @ tag_chars (th_in_think s') (th_buf s' @ rest)"
    using split_loop_meaning [of "th_in_think s" "th_buf s @ x" out s' rest] p by (simp add: think_push_def)
next
  fix s :: think_splitter
  assume "length (th_buf s) < length (think_marker (th_in_think s))"
  then show "tagged (think_flush s) = tag_chars (th_in_think s) (th_buf s @ [])"
    by (simp add: think_flush_def tag_chars_short)
qed simp

text \<open>C25: However the model's text is cut into pieces, tags cut in the middle included, the splitter emits exactly the
  characters outside the markers, each as answer or reasoning as in a reading of the whole text from the left.\<close>

theorem think_split_cut_independent:
  assumes "feed_all think_push think_start pieces = (out, st)"
  shows "tagged (out @ think_flush st) = tag_chars False (concat pieces)"
  using thinking.whole_stream [OF _ assms] marker_len(1) [of False] by (simp add: think_start_def)

theorem think_split_cut_independent_witness:
  "tagged (fst (feed_all think_push think_start [lit ''a<thi'', lit ''nk>b</think'', lit ''>c'']))
     @ tagged (think_flush (snd (feed_all think_push think_start [lit ''a<thi'', lit ''nk>b</think'', lit ''>c''])))
   = [(False, 97), (True, 98), (False, 99)]"
proof -
  obtain out st where f: "feed_all think_push think_start [lit ''a<thi'', lit ''nk>b</think'', lit ''>c''] = (out, st)" by fastforce
  have "tag_chars False (concat [lit ''a<thi'', lit ''nk>b</think'', lit ''>c'']) = [(False, 97), (True, 98), (False, 99)]"
    by (simp add: tag_chars.simps(2) think_marker_def)
  with think_split_cut_independent [OF f] show ?thesis by (simp only: f fst_conv snd_conv tagged_simps)
qed

section \<open>Packing stays in the window\<close>

lemma take_bytes_prefix: "prefix (take_bytes n s) s"
  by (induction n s rule: take_bytes.induct) auto

lemma byte_len_take_bytes: "byte_len (take_bytes n s) \<le> n"
  by (induction n s rule: take_bytes.induct) auto

lemma truncate_to_tokens_bounds: "prefix (truncate_to_tokens s b) s" "byte_len (truncate_to_tokens s b) \<le> 2 * b"
  using byte_len_take_bytes [of "min (b * bytes_per_token) (byte_len s)" s] take_bytes_prefix
  by (simp_all add: truncate_to_tokens_def bytes_per_token_def)

lemma set_include_ids: "set (foldl include_id ids is) = set ids \<union> set is"
  by (induction "is" arbitrary: ids) (auto simp: include_id_def)

lemma distinct_include_ids: "distinct ids \<Longrightarrow> distinct (foldl include_id ids is)"
  by (induction "is" arbitrary: ids) (auto simp: include_id_def)

lemma include_ids_Nil: "foldl include_id ids is = [] \<longleftrightarrow> ids = [] \<and> is = []"
  using set_include_ids [of ids "is"] by (cases "is") auto

definition snippet_lines :: "(chunk \<times> ustr) list \<Rightarrow> ustr" where
  "snippet_lines snips = concat (map (\<lambda>(c, s). frame_line (rc_frame_id c) s) snips)"

definition snippets_ok :: "chunk list \<Rightarrow> nat \<Rightarrow> (chunk \<times> ustr) list \<Rightarrow> bool" where
  "snippets_ok cs budget snips \<longleftrightarrow> subseq (map fst snips) cs
     \<and> (\<forall>(c, s)\<in>set snips. s \<noteq> [] \<and> prefix s (trim (rc_text c)))
     \<and> (\<Sum>(c, s)\<leftarrow>snips. byte_len s + 2 * id_framing_tokens) \<le> 2 * budget"

lemma snippets_ok_Nil: "snippets_ok cs b []"
  by (simp add: snippets_ok_def)

lemma snippets_ok_skip: "snippets_ok cs b snips \<Longrightarrow> snippets_ok (c # cs) b snips"
  by (auto simp: snippets_ok_def)

lemma snippets_ok_Cons:
  assumes "snippets_ok cs b' snips" and "s \<noteq> []" "prefix s (trim (rc_text c))"
    and "byte_len s + 2 * id_framing_tokens + 2 * b' \<le> 2 * b"
  shows "snippets_ok (c # cs) b ((c, s) # snips)"
  using assms by (auto simp: snippets_ok_def)

lemma pack_loop_snippets:
  "\<exists>snips. snippets_ok cs budget snips \<and> pack_loop cs budget user included
     = (user @ snippet_lines snips, foldl include_id included (map (\<lambda>p. rc_frame_id (fst p)) snips))"
proof (induction cs budget user included rule: pack_loop.induct)
  case (1 budget user included)
  show ?case using snippets_ok_Nil by (intro exI [of _ "[]"]) (simp add: snippet_lines_def)
next
  case (2 c cs budget user included)
  let ?t = "trim (rc_text c)" and ?cost = "estimate_tokens (trim (rc_text c)) + id_framing_tokens"
  let ?s = "truncate_to_tokens (trim (rc_text c)) (budget - id_framing_tokens)"
  have stop: "\<exists>snips. snippets_ok (c # cs) budget snips \<and> (user, included)
      = (user @ snippet_lines snips, foldl include_id included (map (\<lambda>p. rc_frame_id (fst p)) snips))"
    using snippets_ok_Nil by (intro exI [of _ "[]"]) (simp add: snippet_lines_def)
  have add: "\<exists>snips. snippets_ok (c # cs) budget snips \<and>
       pack_loop cs b' (user @ frame_line (rc_frame_id c) s) (include_id included (rc_frame_id c))
        = (user @ snippet_lines snips, foldl include_id included (map (\<lambda>p. rc_frame_id (fst p)) snips))"
    if "\<exists>snips. snippets_ok cs b' snips \<and> pack_loop cs b' (user @ frame_line (rc_frame_id c) s) (include_id included (rc_frame_id c))
        = ((user @ frame_line (rc_frame_id c) s) @ snippet_lines snips,
           foldl include_id (include_id included (rc_frame_id c)) (map (\<lambda>p. rc_frame_id (fst p)) snips))"
      and s: "s \<noteq> []" "prefix s ?t" "byte_len s + 2 * id_framing_tokens + 2 * b' \<le> 2 * budget" for b' s
  proof -
    from that obtain snips where sn: "snippets_ok cs b' snips"
      "pack_loop cs b' (user @ frame_line (rc_frame_id c) s) (include_id included (rc_frame_id c))
        = ((user @ frame_line (rc_frame_id c) s) @ snippet_lines snips,
           foldl include_id (include_id included (rc_frame_id c)) (map (\<lambda>p. rc_frame_id (fst p)) snips))" by blast
    from snippets_ok_Cons [OF sn(1) s] sn(2) show ?thesis
      by (intro exI [of _ "(c, s) # snips"]) (simp add: snippet_lines_def)
  qed
  consider (zero) "budget = 0" | (blank) "budget \<noteq> 0" "?t = []" | (fits) "budget \<noteq> 0" "?t \<noteq> []" "?cost \<le> budget"
    | (head) "budget \<noteq> 0" "?t \<noteq> []" "\<not> ?cost \<le> budget" "included = []"
    | (full) "budget \<noteq> 0" "?t \<noteq> []" "\<not> ?cost \<le> budget" "included \<noteq> []" by blast
  then show ?case
  proof cases
    case zero
    with stop show ?thesis by simp
  next
    case blank
    with 2(1) show ?thesis using snippets_ok_skip by (simp add: Let_def) blast
  next
    case fits
    have "byte_len ?t + 2 * id_framing_tokens + 2 * (budget - ?cost) \<le> 2 * budget"
      using fits(3) by (simp add: estimate_tokens_def bytes_per_token_def)
    with add [of "budget - ?cost" ?t] 2(2) fits show ?thesis by (simp add: Let_def)
  next
    case head
    show ?thesis
    proof (cases "?s = []")
      case True
      with head stop show ?thesis by (simp add: Let_def)
    next
      case False
      have "id_framing_tokens < budget"
      proof (rule ccontr)
        assume "\<not> id_framing_tokens < budget"
        then have "byte_len ?s = 0" using truncate_to_tokens_bounds(2) [of ?t "budget - id_framing_tokens"] by simp
        with False show False by simp
      qed
      then have "byte_len ?s + 2 * id_framing_tokens + 2 * 0 \<le> 2 * budget"
        using truncate_to_tokens_bounds(2) [of ?t "budget - id_framing_tokens"] by simp
      with add [of 0 ?s] 2(3) head False truncate_to_tokens_bounds(1) show ?thesis by (simp add: Let_def)
    qed
  next
    case full
    with stop show ?thesis by (simp add: Let_def)
  qed
qed

lemma pack_context_distinct: "distinct (snd (pack_context intro cs budget))"
  using pack_loop_snippets [of cs budget intro "[]"] distinct_include_ids [of "[]"] by (auto simp: pack_context_def)

lemma pack_context_snippets:
  "\<exists>snips. snippets_ok cs budget snips
     \<and> fst (pack_context intro cs budget)
         = intro @ snippet_lines snips @ (if snips = [] then lit ''(no relevant snippets found)'' @ [10] else [])
     \<and> distinct (snd (pack_context intro cs budget))
     \<and> set (snd (pack_context intro cs budget)) = (\<lambda>p. rc_frame_id (fst p)) ` set snips"
proof -
  obtain snips where s: "snippets_ok cs budget snips"
    "pack_loop cs budget intro [] = (intro @ snippet_lines snips, foldl include_id [] (map (\<lambda>p. rc_frame_id (fst p)) snips))"
    using pack_loop_snippets by blast
  then have "pack_context intro cs budget
      = (intro @ snippet_lines snips @ (if snips = [] then lit ''(no relevant snippets found)'' @ [10] else []),
         foldl include_id [] (map (\<lambda>p. rc_frame_id (fst p)) snips))"
    by (auto simp: pack_context_def include_ids_Nil simp del: lit_Cons)
  with s(1) show ?thesis
    using distinct_include_ids [of "[]"] set_include_ids [of "[]"] by (intro exI [of _ snips]) simp
qed

text \<open>The context the model is shown fits the budget and is what the citations say: the prompt is the introduction followed by
  snippets in the order of the context, each a non-empty beginning of its chunk, with at most two bytes per token of the
  budget (framing included); the cited ids are exactly those of the snippets, each once; without any snippet the prompt
  says so.\<close>

theorem pack_context_bounded:
  "\<exists>snips. snippets_ok cs budget snips
     \<and> fst (pack_context intro cs budget)
         = intro @ snippet_lines snips @ (if snips = [] then lit ''(no relevant snippets found)'' @ [10] else [])
     \<and> distinct (snd (pack_context intro cs budget))
     \<and> set (snd (pack_context intro cs budget)) = (\<lambda>p. rc_frame_id (fst p)) ` set snips"
  by (rule pack_context_snippets)

text \<open>A context whose estimate fits is shown in full.\<close>

definition shown_cost :: "chunk list \<Rightarrow> nat" where
  "shown_cost cs = (\<Sum>c\<leftarrow>filter (\<lambda>c. trim (rc_text c) \<noteq> []) cs. estimate_tokens (trim (rc_text c)) + id_framing_tokens)"

lemma pack_loop_complete:
  "shown_cost cs \<le> budget \<Longrightarrow> snd (pack_loop cs budget user included)
     = foldl include_id included (map rc_frame_id (filter (\<lambda>c. trim (rc_text c) \<noteq> []) cs))"
proof (induction cs budget user included rule: pack_loop.induct)
  case (2 c cs budget user included)
  show ?case
  proof (cases "trim (rc_text c) = []")
    case True
    show ?thesis
    proof (cases "budget = 0")
      case z: True
      have "filter (\<lambda>c. trim (rc_text c) \<noteq> []) cs = []"
      proof (rule ccontr)
        assume "filter (\<lambda>c. trim (rc_text c) \<noteq> []) cs \<noteq> []"
        then obtain d ds where "filter (\<lambda>c. trim (rc_text c) \<noteq> []) cs = d # ds" by (cases "filter (\<lambda>c. trim (rc_text c) \<noteq> []) cs") auto
        with 2(4) z True show False by (simp add: shown_cost_def id_framing_tokens_def)
      qed
      with z True show ?thesis by simp
    next
      case False
      with True 2(1) 2(4) show ?thesis by (simp add: shown_cost_def Let_def)
    qed
  next
    case False
    then have "0 < budget" "estimate_tokens (trim (rc_text c)) + id_framing_tokens \<le> budget"
      "shown_cost cs \<le> budget - (estimate_tokens (trim (rc_text c)) + id_framing_tokens)"
      using 2(4) by (auto simp: shown_cost_def id_framing_tokens_def)
    with False 2(2) show ?thesis by (simp add: Let_def)
  qed
qed simp

lemma pack_context_complete:
  assumes "shown_cost cs \<le> budget"
  shows "set (snd (pack_context intro cs budget)) = rc_frame_id ` {c \<in> set cs. trim (rc_text c) \<noteq> []}"
  using pack_loop_complete [OF assms, of intro "[]"] set_include_ids [of "[]"]
  by (cases "pack_loop cs budget intro []") (simp add: pack_context_def)

lemma build_summary_cited:
  "snd (build_summary_messages sys_prompt ins cs ctx m) = snd (pack_context (lit ''Content from my screen history:'' @ [10]) cs
     (ctx - (m + estimate_tokens sys_prompt + estimate_tokens ins + template_overhead_tokens)))"
  by (simp only: build_summary_messages_def Let_def case_prod_beta snd_conv)

lemma summarize_cited:
  assumes "summarize setup_ctx model reply sys_prompt ins cs = Inr (t, cited)"
  shows "\<exists>ctx. setup_ctx = Inr ctx
    \<and> cited = snd (build_summary_messages sys_prompt ins cs ctx (effective_reply_budget reply ctx))"
proof (cases setup_ctx)
  case (Inr ctx)
  obtain ms ids where b: "build_summary_messages sys_prompt ins cs ctx (effective_reply_budget reply ctx) = (ms, ids)" by fastforce
  obtain ps task where m: "model ms (effective_reply_budget reply ctx) = (ps, task)" by fastforce
  from assms have "cited = ids" by (auto simp: summarize_def Inr b m bind_r_Inr Let_def)
  then show ?thesis using b Inr by simp
qed (use assms in \<open>simp add: summarize_def\<close>)

lemma summarize_cites_input:
  assumes "summarize setup_ctx model reply sys_prompt ins cs = Inr (t, cited)"
  shows "distinct cited" and "set cited \<subseteq> rc_frame_id ` set cs"
proof -
  obtain budget where b: "cited = snd (pack_context (lit ''Content from my screen history:'' @ [10]) cs budget)"
    using summarize_cited [OF assms] unfolding build_summary_cited by blast
  from pack_context_snippets [of cs budget "lit ''Content from my screen history:'' @ [10]"]
  obtain snips where s: "snippets_ok cs budget snips" "distinct cited" "set cited = (\<lambda>p. rc_frame_id (fst p)) ` set snips"
    unfolding b by blast
  from s(1) have "fst ` set snips \<subseteq> set cs"
    unfolding snippets_ok_def by (metis list.set_map subseq_order.dual_order.refl set_nths_subset subseq_conv_nths)
  with s(2,3) show "distinct cited" "set cited \<subseteq> rc_frame_id ` set cs" by auto
qed

section \<open>What the consumer gets\<close>

fun contents :: "stream_piece list \<Rightarrow> ustr list" where
  "contents [] = []"
| "contents (DonePiece # ps) = []"
| "contents (Reasoning s # ps) = contents ps"
| "contents (ContentPiece s # ps) = s # contents ps"

definition said :: "(bool \<times> uchar) list \<Rightarrow> ustr" where
  "said cs = map snd (filter (\<lambda>p. \<not> fst p) cs)"

lemma said_append [simp]: "said (a @ b) = said a @ said b"
  by (simp add: said_def)

lemma answer_text_tagged: "answer_text segs = said (tagged segs)"
proof (induction segs)
  case (Cons seg segs)
  have "filter (\<lambda>p. \<not> fst p) (map (Pair t) s) = (if t then [] else map (Pair t) s)" for t and s :: ustr
    by (induction s) auto
  then show ?case using Cons by (cases seg) (simp add: answer_text_def said_def comp_def)
qed (simp add: answer_text_def said_def)

definition delta_text :: "answer_delta list \<Rightarrow> ustr" where
  "delta_text ds = concat (map (\<lambda>d. case d of Token s \<Rightarrow> s | _ \<Rightarrow> []) ds)"

definition body_delta :: "bool \<Rightarrow> answer_delta \<Rightarrow> bool" where
  "body_delta thinking_on d = (case d of Token _ \<Rightarrow> True | Thinking _ \<Rightarrow> thinking_on | _ \<Rightarrow> False)"

text \<open>\<open>sent th k k' s\<close>: between two states of the consumer only body deltas were sent, with the answer text \<open>s\<close>.\<close>

definition sent :: "bool \<Rightarrow> sink \<Rightarrow> sink \<Rightarrow> ustr \<Rightarrow> bool" where
  "sent th k k' s \<longleftrightarrow> (\<exists>body. sk_deltas k' = sk_deltas k @ body \<and> list_all (body_delta th) body \<and> delta_text body = s)"

lemma sent_refl: "sent th k k []"
  by (simp add: sent_def delta_text_def)

lemma sent_trans: "sent th k k1 s \<Longrightarrow> sent th k1 k2 t \<Longrightarrow> sent th k k2 (s @ t)"
  unfolding sent_def delta_text_def by fastforce

lemma send_delta_stays: "sk_room k = None \<Longrightarrow> send_delta d k = (True, k\<lparr>sk_deltas := sk_deltas k @ [d]\<rparr>)"
  by (simp add: send_delta_def)

lemma emit_segment_stays:
  assumes "sk_room k = None" and "emit_segment th k seg = (b, k1)"
  shows "b \<and> sk_room k1 = None \<and> sent th k k1 (if fst seg then [] else snd seg)"
  using assms
  by (auto simp: emit_segment_def send_delta_stays sent_def delta_text_def body_delta_def split: if_splits)

lemma emit_segments_stays:
  "sk_room k = None \<Longrightarrow> emit_segments th k segs = (b, k1) \<Longrightarrow> b \<and> sk_room k1 = None \<and> sent th k k1 (answer_text segs)"
proof (induction segs arbitrary: k)
  case Nil
  then show ?case by (simp add: answer_text_def sent_refl)
next
  case (Cons seg segs)
  obtain b1 k2 where e: "emit_segment th k seg = (b1, k2)" by fastforce
  note e1 = emit_segment_stays [OF Cons.prems(1) e]
  then have "emit_segments th k2 segs = (b, k1)" using Cons.prems(2) e by auto
  from Cons.IH [OF _ this] e1 have r: "b" "sk_room k1 = None" "sent th k2 k1 (answer_text segs)" by auto
  from sent_trans [OF _ r(3)] e1 have "sent th k k1 ((if fst seg then [] else snd seg) @ answer_text segs)" by blast
  with r show ?case by (cases "fst seg") (simp_all add: answer_text_def)
qed

lemma pump_loop_stays:
  "sk_room k = None \<Longrightarrow> pump_loop th (map Piece ps) st k = (r, k1) \<Longrightarrow> \<exists>outs st1. feed_all think_push st (contents ps) = (outs, st1)
     \<and> r = Some st1 \<and> sk_room k1 = None \<and> sent th k k1 (answer_text outs)"
proof (induction ps arbitrary: st k)
  case Nil
  then show ?case by (simp add: answer_text_def sent_refl)
next
  case (Cons p ps)
  show ?case
  proof (cases p)
    case (Reasoning s)
    show ?thesis
    proof (cases th)
      case True
      let ?k = "k\<lparr>sk_deltas := sk_deltas k @ [Thinking s]\<rparr>"
      have "pump_loop th (map Piece ps) st ?k = (r, k1)" using Cons.prems Reasoning True by (simp add: send_delta_stays)
      from Cons.IH [OF _ this] Cons.prems(1) obtain outs st1 where i: "feed_all think_push st (contents ps) = (outs, st1)"
        "r = Some st1" "sk_room k1 = None" "sent th ?k k1 (answer_text outs)" by auto
      have "sent th k ?k []" using True by (simp add: sent_def delta_text_def body_delta_def)
      from sent_trans [OF this i(4)] i(1-3) show ?thesis by (simp add: Reasoning)
    next
      case False
      with Cons Reasoning show ?thesis by simp
    qed
  next
    case (ContentPiece s)
    obtain segs st2 where t: "think_push st s = (segs, st2)" by fastforce
    obtain b k2 where e: "emit_segments th k segs = (b, k2)" by fastforce
    note e1 = emit_segments_stays [OF Cons.prems(1) e]
    then have "pump_loop th (map Piece ps) st2 k2 = (r, k1)" using Cons.prems(2) ContentPiece t e by auto
    from Cons.IH [OF _ this] e1 obtain outs st1 where i: "feed_all think_push st2 (contents ps) = (outs, st1)"
      "r = Some st1" "sk_room k1 = None" "sent th k2 k1 (answer_text outs)" by auto
    from sent_trans [OF _ i(4)] e1 have "sent th k k1 (answer_text segs @ answer_text outs)" by blast
    with i t show ?thesis by (simp add: ContentPiece answer_text_def)
  next
    case DonePiece
    with Cons.prems show ?thesis by (simp add: answer_text_def sent_refl)
  qed
qed

lemma pump_deltas_stays:
  assumes "sk_room k = None" and "pump_deltas th (map Piece ps) task k = (out, k1)"
  shows "out = (case task of Inr _ \<Rightarrow> Completed | Inl e \<Rightarrow> PumpFailed e)" and "sk_room k1 = None"
    and "sent th k k1 (said (tag_chars False (concat (contents ps))))"
proof -
  obtain r k2 where p: "pump_loop th (map Piece ps) think_start k = (r, k2)" by fastforce
  from pump_loop_stays [OF assms(1) p] obtain outs st where i: "feed_all think_push think_start (contents ps) = (outs, st)"
    "r = Some st" "sk_room k2 = None" "sent th k k2 (answer_text outs)" by blast
  have f: "sk_room (foldl (\<lambda>k seg. snd (emit_segment th k seg)) k2 (think_flush st)) = None
      \<and> sent th k2 (foldl (\<lambda>k seg. snd (emit_segment th k seg)) k2 (think_flush st)) (answer_text (think_flush st))"
  proof (cases "th_buf st = []")
    case True
    then show ?thesis using i(3) by (simp add: think_flush_def answer_text_def sent_refl)
  next
    case False
    then show ?thesis using emit_segment_stays [OF i(3), of th "(th_in_think st, th_buf st)"]
      by (cases "emit_segment th k2 (th_in_think st, th_buf st)"; cases "th_in_think st") (simp_all add: think_flush_def answer_text_def)
  qed
  have "k1 = foldl (\<lambda>k seg. snd (emit_segment th k seg)) k2 (think_flush st)" "out = (case task of Inr _ \<Rightarrow> Completed | Inl e \<Rightarrow> PumpFailed e)"
    using assms(2) p i(2) by (auto simp: pump_deltas_def Let_def split: sum.splits)
  moreover have "answer_text outs @ answer_text (think_flush st) = said (tag_chars False (concat (contents ps)))"
    using thinking.whole_stream [OF _ i(1)] marker_len(1) [of False]
    by (simp add: answer_text_tagged think_start_def flip: said_append tagged_simps(3))
  ultimately show "out = (case task of Inr _ \<Rightarrow> Completed | Inl e \<Rightarrow> PumpFailed e)" and "sk_room k1 = None"
    and "sent th k k1 (said (tag_chars False (concat (contents ps))))"
    using f sent_trans [OF i(4)] by fastforce+
qed

lemma send_citations_stays:
  "sk_room k = None \<Longrightarrow> foldl (\<lambda>k i. snd (send_delta (Citation i) k)) k is = k\<lparr>sk_deltas := sk_deltas k @ map Citation is\<rparr>"
  by (induction "is" arbitrary: k) (simp_all add: send_delta_stays)

lemma answer_stream_body:
  assumes b: "build_messages query cs ctx m = (msgs, cited)" and m: "m = effective_reply_budget max_tokens ctx"
    and model: "model msgs m = (map Piece ps, task)"
  shows "\<exists>body. sk_deltas (answer (Inr ctx) model query cs thinking max_tokens \<lparr>sk_deltas = [], sk_room = None\<rparr>)
      = body @ (case task of Inl e \<Rightarrow> [ErrorDelta e] | Inr _ \<Rightarrow> map Citation cited @ [DoneDelta])
    \<and> list_all (body_delta thinking) body \<and> delta_text body = said (tag_chars False (concat (contents ps)))"
proof -
  let ?k = "\<lparr>sk_deltas = [], sk_room = None\<rparr>"
  obtain out k1 where p: "pump_deltas thinking (map Piece ps) task ?k = (out, k1)" by fastforce
  note d = pump_deltas_stays [OF _ p, simplified]
  from d(3) obtain body where body: "sk_deltas k1 = body" "list_all (body_delta thinking) body"
    "delta_text body = said (tag_chars False (concat (contents ps)))" by (auto simp: sent_def)
  have "answer (Inr ctx) model query cs thinking max_tokens ?k = (case out of
      Cancelled \<Rightarrow> k1 | PumpFailed e \<Rightarrow> snd (send_delta (ErrorDelta e) k1)
    | Completed \<Rightarrow> snd (send_delta DoneDelta (foldl (\<lambda>k i. snd (send_delta (Citation i) k)) k1 cited)))"
    by (simp add: answer_def answer_run_def Let_def b model p split: pump_outcome.split flip: m)
  then have "sk_deltas (answer (Inr ctx) model query cs thinking max_tokens ?k)
      = body @ (case task of Inl e \<Rightarrow> [ErrorDelta e] | Inr _ \<Rightarrow> map Citation cited @ [DoneDelta])"
    using d(1,2) body(1) by (cases task) (simp_all add: send_delta_stays send_citations_stays)
  with body show ?thesis by blast
qed

lemma answer_start_failed: "sk_deltas (answer (Inl e) model query cs thinking max_tokens \<lparr>sk_deltas = [], sk_room = None\<rparr>) = [ErrorDelta e]"
  by (simp add: answer_def answer_run_def send_delta_def)

text \<open>A consumer that stays gets the whole answer and one end: the tokens spell exactly the model's text without its inline
  reasoning, however it was cut; reasoning comes only when asked for; a finished answer is followed by the frames the prompt
  showed and by one done, a failed one by one error, a failed start is one error alone.\<close>

theorem answer_stream_complete:
  assumes "build_messages query cs ctx m = (msgs, cited)" and "m = effective_reply_budget max_tokens ctx"
    and "model msgs m = (map Piece ps, task)"
  shows "(\<exists>body. sk_deltas (answer (Inr ctx) model query cs thinking max_tokens \<lparr>sk_deltas = [], sk_room = None\<rparr>)
      = body @ (case task of Inl e \<Rightarrow> [ErrorDelta e] | Inr _ \<Rightarrow> map Citation cited @ [DoneDelta])
    \<and> list_all (body_delta thinking) body \<and> delta_text body = said (tag_chars False (concat (contents ps))))
    \<and> sk_deltas (answer (Inl e) model query cs thinking max_tokens \<lparr>sk_deltas = [], sk_room = None\<rparr>) = [ErrorDelta e]"
  using answer_stream_body [where model = model, OF assms] answer_start_failed by blast

theorem answer_stream_complete_witness:
  "\<exists>body. sk_deltas (answer (Inr 4096) (\<lambda>msgs m. (map Piece [ContentPiece (lit ''a<thi''), ContentPiece (lit ''nk>b</think>c''), DonePiece], Inr ()))
     (lit ''q'') [] False 100 \<lparr>sk_deltas = [], sk_room = None\<rparr>) = body @ [DoneDelta] \<and> delta_text body = lit ''ac''"
proof -
  let ?ps = "[ContentPiece (lit ''a<thi''), ContentPiece (lit ''nk>b</think>c''), DonePiece]"
  have t: "said (tag_chars False (concat (contents ?ps))) = lit ''ac''"
    by (simp add: tag_chars.simps(2) think_marker_def said_def)
  obtain msgs where c: "build_messages (lit ''q'') [] 4096 (effective_reply_budget 100 4096) = (msgs, [])"
    by (simp add: build_messages_def pack_context_def Let_def)
  from answer_stream_complete [where model = "\<lambda>msgs m. (map Piece ?ps, Inr ())", OF c refl refl, of False] t show ?thesis by auto
qed

end
