(* ===== verification/Reports.thy ===== *)
theory Reports
  imports Frames Answer Search Memory_Schedule
begin

text \<open>
  Recall reports (\<open>crates/kernel/src/reports.rs\<close>): choosing the evidence over a time range, a session or a prompt's
  hits, splitting it into pieces that fit the model's window, one summary per piece, combining summaries in bounded
  fan-in, and an honest account of what was read. The store's reads and the model's \<open>summarize\<close> are arguments; the
  call number tells apart the moments at which the model is called and the cancel flag is read. Progress callbacks,
  which only notify, are left out.
\<close>

section \<open>Limits and prompts\<close>

definition day_ms :: int where "day_ms = 86400000"
definition min_frames_per_period :: nat where "min_frames_per_period = 3"
definition reduce_fanout :: nat where "reduce_fanout = 6"
definition max_periods :: nat where "max_periods = 31"
definition max_report_passes :: nat where "max_report_passes = 64"
definition max_report_citations :: nat where "max_report_citations = 200"
definition report_ctx_tokens :: nat where "report_ctx_tokens = 8192"
definition report_template_overhead :: nat where "report_template_overhead = 96"
definition report_id_framing :: nat where "report_id_framing = 6"

definition map_system_prompt :: ustr where
  "map_system_prompt = lit ''You summarize one slice of the user's screen activity from the provided content snippets, each tagged with its source frame id. Write a short, factual paragraph of what the user worked on and saw in this slice. Use ONLY the snippets '' @ [8212] @ lit '' do not invent activity. Be terse; this will be combined with other slices.''"

definition reduce_system_prompt :: ustr where
  "reduce_system_prompt = lit ''You combine several section summaries of the user's screen activity into a single coherent, factual summary. Merge overlapping themes, keep the chronological order, and use ONLY the provided summaries '' @ [8212] @ lit '' do not invent activity.''"

definition final_system_prompt :: ustr where
  "final_system_prompt = lit ''You write the user's recall report from the provided material (content snippets and/or dated section summaries) about their screen activity over a time range. Produce clear, well-structured markdown: a short overview, then the key activities and topics grouped sensibly and in time order. Use ONLY the provided material and be specific. If it shows little or no evidence, say so plainly rather than inventing activity.''"

definition est_tokens :: "ustr \<Rightarrow> nat" where "est_tokens s = byte_len s div 2 + 1"

definition as_u32 :: "nat \<Rightarrow> nat" where "as_u32 n = n mod 2 ^ 32"

section \<open>Inputs and outputs\<close>

datatype report_range = Daily | MemoryDaily | Weekly | CustomRange
datatype report_mode = EmptyReport | SinglePass | MapReduce

record report_config =
  rg_daily_top_k :: nat
  rg_weekly_top_k :: nat
  rg_map_reduce_min_frames :: nat
  rg_reply_budget :: nat

record report_output =
  ro_markdown :: ustr
  ro_cited_frame_ids :: "int list"
  ro_frame_ids :: "int list"
  ro_mode :: report_mode
  ro_periods_total :: nat
  ro_periods_covered :: nat
  ro_frames_sampled :: nat
  ro_frames_summarized :: nat
  ro_passes :: nat
  ro_truncated :: bool

datatype report_error = ReportCancelled | SessionNotFound int | ReportFailed ustr | ZoneFailed schedule_error

record report_group =
  gp_label :: ustr
  gp_chunks :: "chunk list"

record evidence_frame =
  ev_frame_id :: int
  ev_captured_at :: int

text \<open>\<open>CoverageScope\<close>: a time range, or the frames of one session.\<close>

datatype coverage_scope = TimeScope | SessionScope "segmenter_frame list"

section \<open>Planning\<close>

definition plan_depth :: "nat list \<Rightarrow> nat \<Rightarrow> nat \<Rightarrow> nat list" where
  "plan_depth period_counts daily_top_k weekly_top_k =
     (let a = as_u32 (length period_counts)
      in if a = 0 then []
         else (let per_period = (if min (daily_top_k * a) (2 ^ 32 - 1) \<le> weekly_top_k then daily_top_k
                                 else max (weekly_top_k div a) min_frames_per_period);
                   target = max (max per_period min_frames_per_period) 1
               in map (\<lambda>c. min target c) period_counts))"

definition grid_size :: "int \<Rightarrow> int \<Rightarrow> nat \<Rightarrow> nat" where
  "grid_size s e mx =
     (if e \<le> s then 0
      else clamp (as_u32 (nat ((e - s + day_ms - 1) div day_ms))) 1 (max mx 1))"

definition session_buckets :: "segmenter_frame list \<Rightarrow> int \<Rightarrow> int \<Rightarrow> nat \<Rightarrow> timeline_bucket list" where
  "session_buckets frames s e n =
     (if frames = [] \<or> e \<le> s \<or> n = 0 \<or> \<not> in_i64 (e - s) then []
      else (let width = bucket_width (e - s) (int n);
                bs = map (\<lambda>f. clamp (sat_sub64 (sf_captured_at f) s div width) 0 (int n - 1)) frames
            in map (\<lambda>(b, c). let b_start = sat_add64 s (sat_mul64 b width)
                     in \<lparr>tb_start = b_start, tb_end = min (sat_add64 b_start width) e, tb_count = min c (2 ^ 32 - 1)\<rparr>)
                 (group_buckets bs)))"

definition evidence_of :: "segmenter_frame \<Rightarrow> evidence_frame" where
  "evidence_of f = \<lparr>ev_frame_id = sf_id f, ev_captured_at = sf_captured_at f\<rparr>"

definition sample_session_bucket :: "segmenter_frame list \<Rightarrow> int \<Rightarrow> int \<Rightarrow> nat \<Rightarrow> evidence_frame list" where
  "sample_session_bucket frames s e limit =
     (let in_bucket = filter (\<lambda>f. s \<le> sf_captured_at f \<and> sf_captured_at f < e) frames;
          wanted = min limit (length in_bucket)
      in if wanted = 0 then []
         else if wanted = 1 then [evidence_of (in_bucket ! 0)]
         else map (\<lambda>i. evidence_of (in_bucket ! (i * (length in_bucket - 1) div (wanted - 1)))) [0..<wanted])"

definition chunk_cost :: "chunk \<Rightarrow> nat" where
  "chunk_cost c = est_tokens (trim (rc_text c)) + report_id_framing"

definition map_reserve :: "nat \<Rightarrow> nat" where
  "map_reserve reply_budget = reply_budget + est_tokens map_system_prompt + report_template_overhead"

fun split_loop_chunks :: "nat \<Rightarrow> chunk list \<Rightarrow> chunk list \<Rightarrow> nat \<Rightarrow> chunk list list" where
  "split_loop_chunks per_batch [] cur spent = (if cur \<noteq> [] then [cur] else [])"
| "split_loop_chunks per_batch (c # cs) cur spent =
     (if trim (rc_text c) = [] then split_loop_chunks per_batch cs cur spent
      else if cur \<noteq> [] \<and> per_batch < spent + chunk_cost c then cur # split_loop_chunks per_batch cs [c] (chunk_cost c)
      else split_loop_chunks per_batch cs (cur @ [c]) (spent + chunk_cost c))"

definition split_chunks_into_batches :: "chunk list \<Rightarrow> nat \<Rightarrow> nat \<Rightarrow> chunk list list" where
  "split_chunks_into_batches chunks reply_budget ctx_tokens =
     split_loop_chunks (max (ctx_tokens - map_reserve reply_budget) 1) chunks [] 0"

definition split_group :: "nat \<Rightarrow> nat \<Rightarrow> report_group \<Rightarrow> report_group list" where
  "split_group reply_budget ctx_tokens g =
     (let batches = split_chunks_into_batches (gp_chunks g) reply_budget ctx_tokens;
          n = length batches
      in if n \<le> 1 then map (\<lambda>b. \<lparr>gp_label = gp_label g, gp_chunks = b\<rparr>) batches
         else map (\<lambda>(i, b). \<lparr>gp_label = gp_label g @ lit '' (part '' @ display_int (int i + 1) @ lit '' of '' @ display_int (int n) @ lit '')'',
                             gp_chunks = b\<rparr>) (enumerate 0 batches))"

definition split_groups_to_fit :: "report_group list \<Rightarrow> nat \<Rightarrow> nat \<Rightarrow> report_group list" where
  "split_groups_to_fit groups reply_budget ctx_tokens = concat (map (split_group reply_budget ctx_tokens) groups)"

definition chunks_fit_one_pass :: "report_group list \<Rightarrow> nat \<Rightarrow> nat \<Rightarrow> bool" where
  "chunks_fit_one_pass groups reply_budget ctx_tokens \<longleftrightarrow>
     sum_list (map chunk_cost (filter (\<lambda>c. trim (rc_text c) \<noteq> []) (concat (map gp_chunks groups)))) \<le> ctx_tokens - map_reserve reply_budget"

definition fits_single_pass :: "ustr list \<Rightarrow> nat \<Rightarrow> nat \<Rightarrow> bool" where
  "fits_single_pass nodes reply_budget ctx_tokens \<longleftrightarrow>
     (\<Sum>n\<leftarrow>nodes. est_tokens n + report_id_framing)
       \<le> ctx_tokens - (reply_budget + est_tokens final_system_prompt + report_template_overhead)"

definition nodes_as_chunks :: "ustr list \<Rightarrow> chunk list" where
  "nodes_as_chunks nodes = map (\<lambda>(i, t). \<lparr>rc_frame_id = int i, rc_text = t, rc_score = 0, rc_captured_at = int i\<rparr>) (enumerate 0 nodes)"

definition report_citations :: "int list \<Rightarrow> int list \<times> int list" where
  "report_citations ids = (let full = dedup_keep_order ids in (take max_report_citations full, full))"

definition hydrate_hits :: "(int \<rightharpoonup> ustr) \<Rightarrow> search_hit list \<Rightarrow> chunk list" where
  "hydrate_hits texts hits = List.map_filter (\<lambda>h.
     let t = (case texts (sh_frame_id h) of Some t \<Rightarrow> t | None \<Rightarrow> sh_snippet h)
     in if trim t = [] then None
        else Some \<lparr>rc_frame_id = sh_frame_id h, rc_text = t, rc_score = sh_score h, rc_captured_at = sh_captured_at h\<rparr>) hits"

text \<open>\<open>stamp\<close> is chrono's RFC 3339 form of a millisecond instant, where it has one.\<close>

definition final_instruction :: "(int \<Rightarrow> ustr option) \<Rightarrow> report_range \<Rightarrow> ustr option \<Rightarrow> int \<Rightarrow> int \<Rightarrow> ustr" where
  "final_instruction stamp rng prompt s e =
     (let ts = (\<lambda>v. case stamp v of Some t \<Rightarrow> t | None \<Rightarrow> display_int v);
          with_focus = (\<lambda>base. case prompt of Some p \<Rightarrow> base @ lit '' Focus on: '' @ p | None \<Rightarrow> base)
      in case rng of
           MemoryDaily \<Rightarrow> lit ''Write memory for the selected window ['' @ ts s @ lit '' inclusive, '' @ ts e @ lit '' exclusive]. Use the headings Activity, Explicitly evidenced decisions, Open questions, and Next steps. Include only supported facts; distinguish tentative screen text from commitments. If a section has no evidence, say so. Use the exact selected bounds rather than relative claims about today.''
         | Daily \<Rightarrow> with_focus (lit ''Write the recall report for today.'')
         | Weekly \<Rightarrow> with_focus (lit ''Write the recall report for the last 7 days.'')
         | CustomRange \<Rightarrow> with_focus (lit ''Write the recall report for the selected range.''))"

definition empty_output :: "nat \<Rightarrow> report_output" where
  "empty_output periods_total = \<lparr>
     ro_markdown = lit ''No screen activity was captured for this range '' @ [8212] @ lit '' there is nothing to summarize.'',
     ro_cited_frame_ids = [], ro_frame_ids = [], ro_mode = EmptyReport, ro_periods_total = periods_total, ro_periods_covered = 0,
     ro_frames_sampled = 0, ro_frames_summarized = 0, ro_passes = 0, ro_truncated = False\<rparr>"

section \<open>Choosing the evidence\<close>

text \<open>The reads of \<open>dyn Store\<close> that a report makes.\<close>

record report_store =
  rs_search :: "search_query \<Rightarrow> report_error + search_hit list"
  rs_texts :: "int list \<Rightarrow> (int \<rightharpoonup> ustr)"
  rs_buckets :: "int \<Rightarrow> int \<Rightarrow> nat \<Rightarrow> timeline_bucket list"
  rs_sample :: "int \<Rightarrow> int \<Rightarrow> nat \<Rightarrow> frame_meta list"
  rs_session :: "int \<Rightarrow> session option"
  rs_session_frames :: "int \<Rightarrow> segmenter_frame list"

definition relevance_groups ::
  "report_store \<Rightarrow> report_config \<Rightarrow> nat \<Rightarrow> ustr \<Rightarrow> int \<Rightarrow> int \<Rightarrow> report_error + report_group list \<times> nat \<times> nat" where
  "relevance_groups st cfg ctx_tokens p s e =
     bind_r (rs_search st \<lparr>sq_text = p, sq_limit = rg_weekly_top_k cfg, sq_time_range = Some (s, e), sq_include_chrome = False\<rparr>)
       (\<lambda>hits.
         let chunks = hydrate_hits (rs_texts st (map sh_frame_id hits)) hits;
             batches = split_chunks_into_batches chunks (rg_reply_budget cfg) ctx_tokens;
             groups = map (\<lambda>(i, cs). \<lparr>gp_label = lit ''part '' @ display_int (int i + 1), gp_chunks = cs\<rparr>) (enumerate 0 batches)
         in Inr (groups, as_u32 (length groups), length hits))"

definition count_period :: "report_store \<Rightarrow> int \<times> int \<Rightarrow> timeline_bucket" where
  "count_period st p = \<lparr>tb_start = fst p, tb_end = snd p,
     tb_count = (case rs_buckets st (fst p) (snd p) 1 of [] \<Rightarrow> 0 | b # _ \<Rightarrow> tb_count b)\<rparr>"

definition coverage_buckets ::
  "report_store \<Rightarrow> 'z chrono \<Rightarrow> report_range \<Rightarrow> ustr option \<Rightarrow> coverage_scope \<Rightarrow> int \<Rightarrow> int
     \<Rightarrow> report_error + timeline_bucket list \<times> nat \<times> bool" where
  "coverage_buckets st cal rng timezone scope s e =
     (case (rng, timezone, scope) of
        (MemoryDaily, Some zone, TimeScope) \<Rightarrow>
          (case local_day_grid cal zone s e (int max_periods) of
             Inl err \<Rightarrow> Inl (ZoneFailed err)
           | Inr periods \<Rightarrow>
               (let buckets = map (count_period st) periods in Inr (buckets, as_u32 (length buckets), True)))
      | _ \<Rightarrow>
          (let grid = grid_size s e max_periods;
               buckets = (case scope of TimeScope \<Rightarrow> rs_buckets st s e grid | SessionScope frames \<Rightarrow> session_buckets frames s e grid)
           in Inr (buckets, grid, False)))"

definition sample_period :: "report_store \<Rightarrow> coverage_scope \<Rightarrow> timeline_bucket \<times> nat \<Rightarrow> evidence_frame list" where
  "sample_period st scope bq = (case scope of
     TimeScope \<Rightarrow> map (\<lambda>f. \<lparr>ev_frame_id = fm_frame_id f, ev_captured_at = fm_captured_at f\<rparr>)
                    (rs_sample st (tb_start (fst bq)) (tb_end (fst bq)) (snd bq))
   | SessionScope frames \<Rightarrow> sample_session_bucket frames (tb_start (fst bq)) (tb_end (fst bq)) (snd bq))"

definition evidence_chunk :: "(int \<rightharpoonup> ustr) \<Rightarrow> evidence_frame \<Rightarrow> chunk option" where
  "evidence_chunk texts f = (case texts (ev_frame_id f) of
     None \<Rightarrow> None
   | Some t \<Rightarrow> if trim t = [] then None
       else Some \<lparr>rc_frame_id = ev_frame_id f, rc_text = t, rc_score = 0, rc_captured_at = ev_captured_at f\<rparr>)"

definition period_label :: "bool \<Rightarrow> int \<Rightarrow> nat \<Rightarrow> timeline_bucket \<Rightarrow> ustr" where
  "period_label local_days s i b =
     lit ''day '' @ display_int (if local_days then int i + 1 else max ((tb_start b - s) div day_ms + 1) 1)"

definition period_group :: "bool \<Rightarrow> int \<Rightarrow> (int \<rightharpoonup> ustr) \<Rightarrow> nat \<times> timeline_bucket \<times> evidence_frame list \<Rightarrow> report_group option" where
  "period_group local_days s texts p = (case p of (i, b, frames) \<Rightarrow>
     (let chunks = List.map_filter (evidence_chunk texts) frames
      in if chunks = [] then None else Some \<lparr>gp_label = period_label local_days s i b, gp_chunks = chunks\<rparr>))"

definition coverage_groups ::
  "report_store \<Rightarrow> 'z chrono \<Rightarrow> report_config \<Rightarrow> report_range \<Rightarrow> ustr option \<Rightarrow> coverage_scope \<Rightarrow> int \<Rightarrow> int
     \<Rightarrow> report_error + report_group list \<times> nat \<times> nat" where
  "coverage_groups st cal cfg rng timezone scope s e =
     bind_r (coverage_buckets st cal rng timezone scope s e) (\<lambda>(buckets, periods_total, local_days).
       let total_in_range = sum_list (map tb_count buckets);
           quotas = plan_depth (map tb_count buckets) (rg_daily_top_k cfg) (rg_weekly_top_k cfg);
           periods_frames = map (sample_period st scope) (zip buckets quotas);
           texts = rs_texts st (map ev_frame_id (concat periods_frames));
           groups = List.map_filter (period_group local_days s texts) (enumerate 0 (zip buckets periods_frames))
       in Inr (groups, periods_total, total_in_range))"

definition report_evidence ::
  "report_store \<Rightarrow> 'z chrono \<Rightarrow> report_config \<Rightarrow> nat \<Rightarrow> report_range \<Rightarrow> ustr option \<Rightarrow> ustr option \<Rightarrow> coverage_scope \<Rightarrow> int \<Rightarrow> int
     \<Rightarrow> report_error + report_group list \<times> nat \<times> nat" where
  "report_evidence st cal cfg ctx_tokens rng prompt timezone scope s e = (case prompt of
     Some p \<Rightarrow> relevance_groups st cfg ctx_tokens p s e
   | None \<Rightarrow> coverage_groups st cal cfg rng timezone scope s e)"

section \<open>Map and reduce\<close>

text \<open>\<open>call n sys instruction chunks\<close> is the \<open>n\<close>-th call of \<open>AnswerProvider::summarize\<close>, counted from 0, and
  \<open>stop n\<close> the cancel flag as read just before it.\<close>

type_synonym summarizer = "nat \<Rightarrow> ustr \<Rightarrow> ustr \<Rightarrow> chunk list \<Rightarrow> ustr + ustr \<times> int list"

definition pass :: "summarizer \<Rightarrow> (nat \<Rightarrow> bool) \<Rightarrow> nat \<Rightarrow> ustr \<Rightarrow> ustr \<Rightarrow> chunk list \<Rightarrow> report_error + ustr \<times> int list" where
  "pass call stop n sys_prompt instruction chunks =
     (if stop n then Inl ReportCancelled
      else (case call n sys_prompt instruction chunks of Inl e \<Rightarrow> Inl (ReportFailed e) | Inr r \<Rightarrow> Inr r))"

definition map_instruction :: "report_group \<Rightarrow> ustr" where
  "map_instruction g = lit ''Summarize '' @ gp_label g @ lit '' of this range.''"

fun map_groups ::
  "summarizer \<Rightarrow> (nat \<Rightarrow> bool) \<Rightarrow> report_group list \<Rightarrow> nat \<Rightarrow> int list \<Rightarrow> ustr list \<Rightarrow> bool
     \<Rightarrow> report_error + nat \<times> int list \<times> ustr list \<times> bool" where
  "map_groups call stop [] passes ids nodes truncated = Inr (passes, ids, nodes, truncated)"
| "map_groups call stop (g # gs) passes ids nodes truncated =
     bind_r (pass call stop passes map_system_prompt (map_instruction g) (gp_chunks g)) (\<lambda>(t, cited).
       let passes1 = passes + 1;
           ids1 = (if trim t \<noteq> [] then foldl include_id ids cited else ids);
           nodes1 = (if trim t \<noteq> [] then nodes @ [gp_label g @ lit '': '' @ trim t] else nodes)
       in if max_report_passes \<le> passes1 then Inr (passes1, ids1, nodes1, True)
          else map_groups call stop gs passes1 ids1 nodes1 truncated)"

text \<open>One level: at the cap the level stops, and what it did not reach is gone.\<close>

fun reduce_level :: "summarizer \<Rightarrow> (nat \<Rightarrow> bool) \<Rightarrow> ustr list list \<Rightarrow> nat \<Rightarrow> ustr list \<Rightarrow> report_error + nat \<times> ustr list \<times> bool" where
  "reduce_level call stop [] passes acc = Inr (passes, acc, False)"
| "reduce_level call stop (ns # rest) passes acc =
     (if length ns = 1 then reduce_level call stop rest passes (acc @ [ns ! 0])
      else bind_r (pass call stop passes reduce_system_prompt [] (nodes_as_chunks ns)) (\<lambda>(t, _).
        let passes1 = passes + 1; acc1 = acc @ [trim t]
        in if max_report_passes \<le> passes1 then Inr (passes1, acc1, True)
           else reduce_level call stop rest passes1 acc1))"

lemma length_chunks_of: "0 < n \<Longrightarrow> length (chunks_of n xs) * n < length xs + n"
proof (induction n xs rule: chunks_of.induct)
  case (2 n x xs)
  then have IH: "length (chunks_of n (drop (n - 1) xs)) * n < length (drop (n - 1) xs) + n" by blast
  show ?case
  proof (cases "n - 1 \<le> length xs")
    case True
    with IH 2(2) show ?thesis by simp
  next
    case False
    then show ?thesis by simp
  qed
qed simp

lemma reduce_level_length: "reduce_level call stop nss passes acc = Inr (p, nxt, capped) \<Longrightarrow> length nxt \<le> length acc + length nss"
proof (induction nss arbitrary: passes acc)
  case (Cons ns nss)
  then show ?case by (fastforce simp: bind_r_Inr Let_def split: if_splits)
qed simp

function reduce_nodes ::
  "summarizer \<Rightarrow> (nat \<Rightarrow> bool) \<Rightarrow> nat \<Rightarrow> nat \<Rightarrow> ustr list \<Rightarrow> nat \<Rightarrow> bool \<Rightarrow> report_error + nat \<times> ustr list \<times> bool" where
  "reduce_nodes call stop reply_budget ctx_tokens nodes passes truncated =
     (if length nodes \<le> 1 \<or> fits_single_pass nodes reply_budget ctx_tokens then Inr (passes, nodes, truncated)
      else if max_report_passes \<le> passes then Inr (passes, nodes, True)
      else (case reduce_level call stop (chunks_of reduce_fanout nodes) passes [] of
          Inl err \<Rightarrow> Inl err
        | Inr (passes1, nxt, capped) \<Rightarrow>
            if truncated \<or> capped then Inr (passes1, nxt, True)
            else reduce_nodes call stop reply_budget ctx_tokens nxt passes1 truncated))"
  by pat_completeness auto
termination
proof (relation "measure (\<lambda>(_, _, _, _, nodes, _, _). length nodes)")
  fix call stop reply_budget ctx_tokens and nodes :: "ustr list" and passes truncated v p1 y nxt capped
  assume "\<not> (length nodes \<le> 1 \<or> fits_single_pass nodes reply_budget ctx_tokens)"
    and "reduce_level call stop (chunks_of reduce_fanout nodes) passes [] = Inr v" "(p1, y) = v" "(nxt, capped) = y"
  then have "length nxt \<le> length (chunks_of reduce_fanout nodes)" "1 < length nodes"
    using reduce_level_length by fastforce+
  moreover have "length (chunks_of reduce_fanout nodes) * 6 < length nodes + 6"
    using length_chunks_of [of 6 nodes] by (simp add: reduce_fanout_def)
  ultimately show "((call, stop, reply_budget, ctx_tokens, nxt, p1, truncated), call, stop, reply_budget, ctx_tokens, nodes, passes, truncated)
    \<in> measure (\<lambda>(_, _, _, _, nodes, _, _). length nodes)" by simp
qed simp

declare reduce_nodes.simps [simp del]

section \<open>The report\<close>

definition group_ids :: "report_group \<Rightarrow> int set" where
  "group_ids g = set (map rc_frame_id (gp_chunks g))"

definition covered_periods :: "report_group list \<Rightarrow> int list \<Rightarrow> nat" where
  "covered_periods groups ids = as_u32 (length (filter (\<lambda>g. list_ex (\<lambda>i. i \<in> group_ids g) ids) groups))"

definition finish_report ::
  "report_mode \<Rightarrow> report_group list \<Rightarrow> nat \<Rightarrow> nat \<Rightarrow> bool \<Rightarrow> nat \<Rightarrow> ustr \<Rightarrow> int list \<Rightarrow> report_output" where
  "finish_report mode groups periods_total frames_sampled truncated passes markdown ids =
     (let (cited, frame_ids) = report_citations ids;
          summarized = as_u32 (length frame_ids)
      in \<lparr>ro_markdown = markdown, ro_cited_frame_ids = cited, ro_frame_ids = frame_ids, ro_mode = mode, ro_periods_total = periods_total,
          ro_periods_covered = covered_periods groups frame_ids, ro_frames_sampled = as_u32 frames_sampled,
          ro_frames_summarized = summarized, ro_passes = passes, ro_truncated = (truncated \<or> summarized < as_u32 frames_sampled)\<rparr>)"

definition single_pass_report ::
  "summarizer \<Rightarrow> (nat \<Rightarrow> bool) \<Rightarrow> ustr \<Rightarrow> bool \<Rightarrow> report_group list \<Rightarrow> report_group list \<Rightarrow> nat \<Rightarrow> nat \<Rightarrow> bool \<Rightarrow> report_error + report_output" where
  "single_pass_report call stop instruction by_relevance groups fitted periods_total frames_sampled truncated =
     (let chunks = concat (map gp_chunks fitted);
          chunks1 = (if by_relevance then chunks else sort_key rc_captured_at chunks)
      in bind_r (pass call stop 0 final_system_prompt instruction chunks1) (\<lambda>(markdown, cited).
           Inr (finish_report SinglePass groups periods_total frames_sampled truncated 1 markdown cited)))"

definition map_reduce_report ::
  "summarizer \<Rightarrow> (nat \<Rightarrow> bool) \<Rightarrow> ustr \<Rightarrow> nat \<Rightarrow> nat \<Rightarrow> report_group list \<Rightarrow> report_group list \<Rightarrow> nat \<Rightarrow> nat \<Rightarrow> bool \<Rightarrow> report_error + report_output" where
  "map_reduce_report call stop instruction reply_budget ctx_tokens groups fitted periods_total frames_sampled truncated =
     bind_r (map_groups call stop fitted 0 [] [] truncated) (\<lambda>(passes, ids, nodes, truncated1).
       if nodes = [] then Inr (empty_output periods_total)
       else bind_r (reduce_nodes call stop reply_budget ctx_tokens nodes passes truncated1) (\<lambda>(passes1, nodes1, truncated2).
         bind_r (pass call stop passes1 final_system_prompt instruction (nodes_as_chunks nodes1)) (\<lambda>(markdown, _).
           Inr (finish_report MapReduce groups periods_total frames_sampled truncated2 (passes1 + 1) markdown ids))))"

definition report_prompt :: "report_range \<Rightarrow> ustr option \<Rightarrow> ustr option" where
  "report_prompt rng prompt =
     (case (if rng = MemoryDaily then None else prompt) of
        None \<Rightarrow> None | Some p \<Rightarrow> if trim p = [] then None else Some (trim p))"

definition generate_report_scoped ::
  "report_store \<Rightarrow> 'z chrono \<Rightarrow> (int \<Rightarrow> ustr option) \<Rightarrow> nat option \<Rightarrow> summarizer \<Rightarrow> (nat \<Rightarrow> bool) \<Rightarrow> report_range \<Rightarrow> int \<Rightarrow> int
     \<Rightarrow> ustr option \<Rightarrow> ustr option \<Rightarrow> report_config \<Rightarrow> coverage_scope \<Rightarrow> report_error + report_output" where
  "generate_report_scoped st cal stamp answer_ctx call stop rng s e prompt0 timezone cfg scope =
     (let prompt = report_prompt rng prompt0;
          ctx_tokens = (case answer_ctx of Some c \<Rightarrow> c | None \<Rightarrow> report_ctx_tokens);
          instruction = final_instruction stamp rng prompt s e
      in bind_r (report_evidence st cal cfg ctx_tokens rng prompt timezone scope s e) (\<lambda>(groups, periods_total, total_in_range).
        let frames_sampled = sum_list (map (length \<circ> gp_chunks) groups)
        in if frames_sampled = 0 then Inr (empty_output periods_total)
           else (let truncated = (if prompt \<noteq> None then rg_weekly_top_k cfg \<le> total_in_range else frames_sampled < total_in_range);
                     fitted = split_groups_to_fit groups (rg_reply_budget cfg) ctx_tokens
                 in if length fitted = 1 \<or> frames_sampled \<le> rg_map_reduce_min_frames cfg
                        \<and> chunks_fit_one_pass fitted (rg_reply_budget cfg) ctx_tokens
                    then single_pass_report call stop instruction (prompt \<noteq> None) groups fitted periods_total frames_sampled truncated
                    else map_reduce_report call stop instruction (rg_reply_budget cfg) ctx_tokens groups fitted periods_total
                           frames_sampled truncated)))"

definition generate_report ::
  "report_store \<Rightarrow> 'z chrono \<Rightarrow> (int \<Rightarrow> ustr option) \<Rightarrow> nat option \<Rightarrow> summarizer \<Rightarrow> (nat \<Rightarrow> bool) \<Rightarrow> report_range \<Rightarrow> int \<Rightarrow> int
     \<Rightarrow> ustr option \<Rightarrow> ustr option \<Rightarrow> report_config \<Rightarrow> report_error + report_output" where
  "generate_report st cal stamp answer_ctx call stop rng s e prompt timezone cfg =
     generate_report_scoped st cal stamp answer_ctx call stop rng s e prompt timezone cfg TimeScope"

definition recap_window :: "session \<Rightarrow> segmenter_frame list \<Rightarrow> int \<times> int" where
  "recap_window se frames =
     (let s = (case first_opt frames of Some f \<Rightarrow> sf_captured_at f | None \<Rightarrow> ss_started_at se);
          e = (case last_opt frames of Some f \<Rightarrow> sat_add64 (sf_captured_at f) 1
               | None \<Rightarrow> (case ss_ended_at se of Some ended \<Rightarrow> sat_add64 ended 1 | None \<Rightarrow> sat_add64 (ss_started_at se) 1))
      in (s, max e (sat_add64 s 1)))"

definition generate_session_recap ::
  "report_store \<Rightarrow> 'z chrono \<Rightarrow> (int \<Rightarrow> ustr option) \<Rightarrow> nat option \<Rightarrow> summarizer \<Rightarrow> (nat \<Rightarrow> bool) \<Rightarrow> int \<Rightarrow> report_config
     \<Rightarrow> report_error + report_output" where
  "generate_session_recap st cal stamp answer_ctx call stop session_id cfg = (case rs_session st session_id of
     None \<Rightarrow> Inl (SessionNotFound session_id)
   | Some se \<Rightarrow>
       (let frames = rs_session_frames st session_id; (s, e) = recap_window se frames
        in generate_report_scoped st cal stamp answer_ctx call stop CustomRange s e None None cfg (SessionScope frames)))"

text \<open>The SQLite store as a report sees it, between two writes; the search is an argument because it embeds the query.\<close>

definition sqlite_reports :: "stored_frame list \<Rightarrow> (search_query \<Rightarrow> report_error + search_hit list) \<Rightarrow> session_db \<Rightarrow> report_store" where
  "sqlite_reports fs search db = \<lparr>rs_search = search, rs_texts = ocr_texts fs, rs_buckets = timeline_buckets fs,
     rs_sample = sample_frames_in_range fs, rs_session = (\<lambda>i. get_session i db), rs_session_frames = (\<lambda>i. session_frames_meta i db)\<rparr>"

section \<open>Batches\<close>

definition batch_cost :: "chunk list \<Rightarrow> nat" where "batch_cost cs = sum_list (map chunk_cost cs)"

lemma split_loop_chunks_spec:
  "spent = batch_cost cur \<Longrightarrow> batch_cost cur \<le> per_batch \<or> length cur = 1 \<or> cur = [] \<Longrightarrow>
     concat (split_loop_chunks per_batch cs cur spent) = cur @ filter (\<lambda>c. trim (rc_text c) \<noteq> []) cs
     \<and> (\<forall>b\<in>set (split_loop_chunks per_batch cs cur spent). b \<noteq> [] \<and> (batch_cost b \<le> per_batch \<or> length b = 1))"
proof (induction per_batch cs cur spent rule: split_loop_chunks.induct)
  case (2 per_batch c cs cur spent)
  note inv = 2(4,5)
  show ?case
  proof (cases "trim (rc_text c) = []")
    case True
    from 2(1) [OF True inv] True show ?thesis by (simp only: split_loop_chunks.simps if_True filter.simps simp_thms) simp
  next
    case nb: False
    show ?thesis
    proof (cases "cur \<noteq> [] \<and> per_batch < spent + chunk_cost c")
      case True
      have e: "split_loop_chunks per_batch (c # cs) cur spent = cur # split_loop_chunks per_batch cs [c] (chunk_cost c)"
        using True nb by simp
      have i: "chunk_cost c = batch_cost [c]" "batch_cost [c] \<le> per_batch \<or> length [c] = 1 \<or> [c] = []"
        by (simp_all add: batch_cost_def)
      from 2(2) [OF nb True i] True inv(2) nb show ?thesis unfolding e by simp
    next
      case False
      have e: "split_loop_chunks per_batch (c # cs) cur spent = split_loop_chunks per_batch cs (cur @ [c]) (spent + chunk_cost c)"
        unfolding split_loop_chunks.simps if_not_P [OF nb] if_not_P [OF False] ..
      have i: "spent + chunk_cost c = batch_cost (cur @ [c])" using inv(1) by (simp add: batch_cost_def)
      have j: "batch_cost (cur @ [c]) \<le> per_batch \<or> length (cur @ [c]) = 1 \<or> cur @ [c] = []"
        using False i by (cases "cur = []") simp_all
      from 2(3) [OF nb False i j] nb show ?thesis unfolding e by simp
    qed
  qed
qed (auto simp: batch_cost_def)

text \<open>Splitting a period loses nothing and overfills nothing: the batches in order are exactly the period's non-blank chunks,
  none is empty, and each fits one pass unless it is a single chunk that does not fit by itself.\<close>

theorem batches_complete:
  "concat (split_chunks_into_batches cs reply_budget ctx_tokens) = filter (\<lambda>c. trim (rc_text c) \<noteq> []) cs
   \<and> (\<forall>b\<in>set (split_chunks_into_batches cs reply_budget ctx_tokens).
        b \<noteq> [] \<and> (batch_cost b \<le> max (ctx_tokens - map_reserve reply_budget) 1 \<or> length b = 1))"
  using split_loop_chunks_spec [of 0 "[]" "max (ctx_tokens - map_reserve reply_budget) 1" cs]
  unfolding split_chunks_into_batches_def by (simp add: batch_cost_def)

theorem batches_complete_witness:
  "split_chunks_into_batches [\<lparr>rc_frame_id = 1, rc_text = [97], rc_score = 0, rc_captured_at = 0\<rparr>, \<lparr>rc_frame_id = 2, rc_text = [32], rc_score = 0, rc_captured_at = 5\<rparr>] 10 0
     = [[\<lparr>rc_frame_id = 1, rc_text = [97], rc_score = 0, rc_captured_at = 0\<rparr>]]"
proof -
  let ?c = "\<lparr>rc_frame_id = 1, rc_text = [97], rc_score = 0, rc_captured_at = 0\<rparr>"
  let ?cs = "[?c, \<lparr>rc_frame_id = 2, rc_text = [32], rc_score = 0, rc_captured_at = 5\<rparr>]"
  have f: "filter (\<lambda>c. trim (rc_text c) \<noteq> []) ?cs = [?c]" by (simp add: trim_def trim_start_def trim_end_def is_ws_def)
  let ?bs = "split_chunks_into_batches ?cs 10 0"
  from batches_complete [of ?cs 10 0] f have "concat ?bs = [?c]" "\<forall>b\<in>set ?bs. b \<noteq> []" by (simp_all only:) blast
  then show ?thesis by (cases ?bs) (auto simp: append_eq_Cons_conv Cons_eq_append_conv)
qed

section \<open>Quotas\<close>

text \<open>Every active period is represented and none is over-asked: each period gets one quota, at most its frames and at least the
  smaller of its frames and the floor of three, and all quotas together stay within the global cap or, when there are too
  many periods for it, within three frames per period.\<close>

theorem plan_depth_covers:
  assumes "length counts < 2 ^ 32" and cap: "weekly < 2 ^ 32 - 1"
  shows "length (plan_depth counts daily weekly) = length counts
    \<and> list_all2 (\<lambda>q c. q \<le> c \<and> min min_frames_per_period c \<le> q) (plan_depth counts daily weekly) counts
    \<and> sum_list (plan_depth counts daily weekly) \<le> max weekly (min_frames_per_period * length counts)"
proof (cases "counts = []")
  case False
  let ?a = "length counts"
  have a: "as_u32 ?a = ?a" "0 < ?a" using assms False by (simp_all add: as_u32_def)
  define per where "per = (if min (daily * ?a) (2 ^ 32 - 1) \<le> weekly then daily else max (weekly div ?a) min_frames_per_period)"
  define target where "target = max (max per min_frames_per_period) 1"
  have p: "plan_depth counts daily weekly = map (\<lambda>c. min target c) counts"
    using a by (simp add: plan_depth_def Let_def per_def target_def)
  have t: "min_frames_per_period \<le> target" by (simp add: target_def)
  have "sum_list (map (\<lambda>c. min target c) counts) \<le> sum_list (map (\<lambda>_. target) counts)" by (rule sum_list_mono) simp
  then have s: "sum_list (map (\<lambda>c. min target c) counts) \<le> ?a * target" by (simp add: sum_list_triv)
  have "?a * per \<le> max weekly (min_frames_per_period * ?a)"
  proof (cases "min (daily * ?a) (2 ^ 32 - 1) \<le> weekly")
    case True
    then have "daily * ?a \<le> weekly" using cap by linarith
    with True show ?thesis by (simp add: per_def mult.commute le_max_iff_disj)
  next
    case False
    have "?a * (weekly div ?a) \<le> weekly" by simp
    moreover have "?a * per = max (?a * (weekly div ?a)) (?a * min_frames_per_period)"
      using False unfolding per_def by (simp add: nat_mult_max_right)
    ultimately have "?a * per \<le> max weekly (?a * min_frames_per_period)" by (metis max.mono order_refl)
    then show ?thesis by (metis mult.commute)
  qed
  moreover have "target = per \<or> target = min_frames_per_period" by (auto simp: target_def min_frames_per_period_def max_def)
  ultimately have "?a * target \<le> max weekly (min_frames_per_period * ?a)" by (auto simp: mult.commute)
  with s have s: "sum_list (map (\<lambda>c. min target c) counts) \<le> max weekly (min_frames_per_period * ?a)" by linarith
  show ?thesis unfolding p using t s by (auto simp: list_all2_map1 list_all2_same)
qed (simp add: plan_depth_def as_u32_def Let_def)

theorem plan_depth_covers_witness: "plan_depth [1000, 2, 0, 40] 50 100 = [25, 2, 0, 25] \<and> sum_list (plan_depth [1000, 2, 0, 40] 50 100) \<le> 100"
  using plan_depth_covers [of "[1000, 2, 0, 40]" 100 50] by (simp add: plan_depth_def as_u32_def min_frames_per_period_def Let_def)

section \<open>What is cited was read\<close>

lemma fitted_chunks:
  "concat (map gp_chunks (split_groups_to_fit groups reply_budget ctx_tokens))
     = filter (\<lambda>c. trim (rc_text c) \<noteq> []) (concat (map gp_chunks groups))"
proof (induction groups)
  case (Cons g groups)
  have "map gp_chunks (split_group reply_budget ctx_tokens g) = split_chunks_into_batches (gp_chunks g) reply_budget ctx_tokens"
  proof -
    have "map (\<lambda>(i, b). b) (enumerate n bs) = bs" for n and bs :: "chunk list list"
      by (induction bs arbitrary: n) simp_all
    then show ?thesis by (simp add: split_group_def Let_def comp_def case_prod_unfold)
  qed
  moreover have "concat (split_chunks_into_batches (gp_chunks g) reply_budget ctx_tokens) = filter (\<lambda>c. trim (rc_text c) \<noteq> []) (gp_chunks g)"
    using split_loop_chunks_spec [of 0 "[]"] unfolding split_chunks_into_batches_def by (simp add: batch_cost_def)
  ultimately show ?case using Cons by (simp add: split_groups_to_fit_def)
qed (simp add: split_groups_to_fit_def)

definition evidence_ids :: "report_group list \<Rightarrow> int set" where
  "evidence_ids groups = rc_frame_id ` set (concat (map gp_chunks groups))"

lemma evidence_ids_fitted: "evidence_ids (split_groups_to_fit groups reply_budget ctx_tokens) \<subseteq> evidence_ids groups"
  unfolding evidence_ids_def fitted_chunks by auto

lemma evidence_ids_Cons: "evidence_ids (g # gs) = rc_frame_id ` set (gp_chunks g) \<union> evidence_ids gs"
  by (auto simp: evidence_ids_def)

lemma dedup_from_spec: "set (dedup_from S ids) = set ids - S \<and> distinct (dedup_from S ids)"
  by (induction S ids rule: dedup_from.induct) auto

lemma report_citations_spec:
  "set (snd (report_citations ids)) = set ids" "distinct (snd (report_citations ids))"
  "fst (report_citations ids) = take 200 (snd (report_citations ids))"
  using dedup_from_spec [of "{}" ids]
  by (simp_all add: report_citations_def dedup_keep_order_def max_report_citations_def Let_def)

text \<open>The promise of a model to its client: what it cites was in the context it was given.\<close>

locale citing_provider =
  fixes call :: "nat \<Rightarrow> ustr \<Rightarrow> ustr \<Rightarrow> chunk list \<Rightarrow> ustr + ustr \<times> int list"
  assumes cites_context: "call n sys_prompt instruction cs = Inr (t, cited) \<Longrightarrow> set cited \<subseteq> rc_frame_id ` set cs"
begin

lemma pass_cites: "pass call stop n sys_prompt instruction cs = Inr (t, cited) \<Longrightarrow> set cited \<subseteq> rc_frame_id ` set cs"
  by (auto simp: pass_def split: if_splits sum.splits dest!: cites_context)

lemma map_groups_cites:
  "map_groups call stop gs n ids nodes tr = Inr (n1, ids1, nodes1, tr1) \<Longrightarrow> set ids1 \<subseteq> set ids \<union> evidence_ids gs"
proof (induction gs arbitrary: n ids nodes tr)
  case (Cons g gs)
  from Cons.prems obtain t cited where p: "pass call stop n map_system_prompt (map_instruction g) (gp_chunks g) = Inr (t, cited)"
    by (auto simp: bind_r_Inr)
  have c: "set cited \<subseteq> rc_frame_id ` set (gp_chunks g)" by (rule pass_cites [OF p])
  let ?ids = "if trim t \<noteq> [] then foldl include_id ids cited else ids"
  have s: "set ?ids \<subseteq> set ids \<union> rc_frame_id ` set (gp_chunks g)" using c by (auto simp: set_include_ids)
  from Cons.prems p consider "ids1 = ?ids"
    | nodes2 where "map_groups call stop gs (n + 1) ?ids nodes2 tr = Inr (n1, ids1, nodes1, tr1)"
    by (auto simp: Let_def split: if_splits)
  then show ?case
  proof cases
    case 1
    with s show ?thesis by (auto simp: evidence_ids_Cons)
  next
    case 2
    from Cons.IH [OF this] s show ?thesis by (auto simp: evidence_ids_Cons)
  qed
qed simp

end

lemma finish_report_fields:
  "ro_frame_ids (finish_report mode groups pt k tr ps md ids) = snd (report_citations ids)"
  "ro_cited_frame_ids (finish_report mode groups pt k tr ps md ids) = fst (report_citations ids)"
  "ro_mode (finish_report mode groups pt k tr ps md ids) = mode" "ro_passes (finish_report mode groups pt k tr ps md ids) = ps"
  "ro_frames_summarized (finish_report mode groups pt k tr ps md ids) = as_u32 (length (snd (report_citations ids)))"
  "ro_frames_sampled (finish_report mode groups pt k tr ps md ids) = as_u32 k"
  "ro_truncated (finish_report mode groups pt k tr ps md ids) \<longleftrightarrow> tr \<or> as_u32 (length (snd (report_citations ids))) < as_u32 k"
  by (simp_all add: finish_report_def Let_def case_prod_unfold)

text \<open>The flag, once set, stays; a reduction that does not set it ends in something that fits the final pass.\<close>

lemma map_groups_flag: "map_groups call stop gs n ids nodes tr = Inr (n1, ids1, nodes1, tr1) \<Longrightarrow> tr \<Longrightarrow> tr1"
proof (induction gs arbitrary: n ids nodes)
  case (Cons g gs)
  then show ?case by (fastforce simp: bind_r_Inr Let_def split: if_splits)
qed simp

lemma reduce_nodes_spec:
  "reduce_nodes call stop rb ctx nodes n tr = Inr (n1, nodes1, tr1)
     \<Longrightarrow> (tr \<longrightarrow> tr1) \<and> (\<not> tr1 \<longrightarrow> length nodes1 \<le> 1 \<or> fits_single_pass nodes1 rb ctx)"
proof (induction call stop rb ctx nodes n tr rule: reduce_nodes.induct)
  case (1 call stop rb ctx nodes n tr)
  show ?case
  proof (cases "length nodes \<le> 1 \<or> fits_single_pass nodes rb ctx")
    case True
    with 1(2) show ?thesis unfolding reduce_nodes.simps [of call stop rb ctx nodes n tr] by auto
  next
    case f: False
    show ?thesis
    proof (cases "max_report_passes \<le> n")
      case True
      with f 1(2) show ?thesis unfolding reduce_nodes.simps [of call stop rb ctx nodes n tr] by auto
    next
      case m: False
      from f m 1(2) obtain n2 nxt capped where l: "reduce_level call stop (chunks_of reduce_fanout nodes) n [] = Inr (n2, nxt, capped)"
        unfolding reduce_nodes.simps [of call stop rb ctx nodes n tr] by (auto split: sum.splits)
      show ?thesis
      proof (cases "tr \<or> capped")
        case True
        with f m l 1(2) show ?thesis unfolding reduce_nodes.simps [of call stop rb ctx nodes n tr] by auto
      next
        case c: False
        with f m l 1(2) have "reduce_nodes call stop rb ctx nxt n2 tr = Inr (n1, nodes1, tr1)"
          unfolding reduce_nodes.simps [of call stop rb ctx nodes n tr] by auto
        from 1(1) [OF f m l refl refl c this] show ?thesis .
      qed
    qed
  qed
qed

context citing_provider
begin

lemma map_reduce_sound:
  assumes "map_reduce_report call stop ins rb ctx groups fitted pt k tr = Inr out"
  shows "out = empty_output pt \<or> (\<exists>ids tr2 n md. set ids \<subseteq> evidence_ids fitted \<and> (tr \<longrightarrow> tr2)
    \<and> out = finish_report MapReduce groups pt k tr2 n md ids)"
proof -
  from assms obtain n ids nodes tr1 where m: "map_groups call stop fitted 0 [] [] tr = Inr (n, ids, nodes, tr1)"
    and r: "(if nodes = [] then Inr (empty_output pt)
       else bind_r (reduce_nodes call stop rb ctx nodes n tr1) (\<lambda>(passes1, nodes1, truncated2).
         bind_r (pass call stop passes1 final_system_prompt ins (nodes_as_chunks nodes1)) (\<lambda>(markdown, _).
           Inr (finish_report MapReduce groups pt k truncated2 (passes1 + 1) markdown ids)))) = Inr out"
    by (auto simp: map_reduce_report_def bind_r_Inr)
  have ids: "set ids \<subseteq> evidence_ids fitted" using map_groups_cites [OF m] by simp
  show ?thesis
  proof (cases "nodes = []")
    case True
    with r show ?thesis by simp
  next
    case False
    with r obtain n1 nodes1 tr2 md where rd: "reduce_nodes call stop rb ctx nodes n tr1 = Inr (n1, nodes1, tr2)"
      and o: "out = finish_report MapReduce groups pt k tr2 (n1 + 1) md ids"
      by (auto simp: bind_r_Inr)
    have "tr \<longrightarrow> tr2" using map_groups_flag [OF m] reduce_nodes_spec [OF rd] by blast
    with ids o show ?thesis by blast
  qed
qed

lemma scoped_report_sound:
  assumes "generate_report_scoped st cal stamp actx call stop rng s e prompt tz cfg scope = Inr out"
  shows "\<exists>groups pt tot. report_evidence st cal cfg (case actx of Some c \<Rightarrow> c | None \<Rightarrow> report_ctx_tokens) rng (report_prompt rng prompt) tz scope s e
        = Inr (groups, pt, tot)
     \<and> set (ro_frame_ids out) \<subseteq> evidence_ids groups \<and> distinct (ro_frame_ids out)
     \<and> ro_cited_frame_ids out = take 200 (ro_frame_ids out) \<and> ro_frames_summarized out = as_u32 (length (ro_frame_ids out))
     \<and> (ro_mode out \<noteq> EmptyReport \<longrightarrow> \<not> ro_truncated out \<longrightarrow>
          as_u32 (sum_list (map (length \<circ> gp_chunks) groups)) \<le> ro_frames_summarized out
          \<and> (report_prompt rng prompt = None \<longrightarrow> tot \<le> sum_list (map (length \<circ> gp_chunks) groups)))"
proof -
  define ctx where "ctx = (case actx of Some c \<Rightarrow> c | None \<Rightarrow> report_ctx_tokens)"
  define p where "p = report_prompt rng prompt"
  from assms obtain groups pt tot where ev: "report_evidence st cal cfg ctx rng p tz scope s e = Inr (groups, pt, tot)"
    unfolding generate_report_scoped_def Let_def ctx_def p_def by (auto simp: bind_r_Inr)
  define k where "k = sum_list (map (length \<circ> gp_chunks) groups)"
  define tr where "tr = (if p \<noteq> None then rg_weekly_top_k cfg \<le> tot else k < tot)"
  define fitted where "fitted = split_groups_to_fit groups (rg_reply_budget cfg) ctx"
  define ins where "ins = final_instruction stamp rng p s e"
  have g: "(if k = 0 then Inr (empty_output pt)
       else if length fitted = 1 \<or> k \<le> rg_map_reduce_min_frames cfg \<and> chunks_fit_one_pass fitted (rg_reply_budget cfg) ctx
            then single_pass_report call stop ins (p \<noteq> None) groups fitted pt k tr
            else map_reduce_report call stop ins (rg_reply_budget cfg) ctx groups fitted pt k tr) = Inr out"
    using assms unfolding generate_report_scoped_def Let_def ctx_def [symmetric] p_def [symmetric] ev bind_r_simps prod.case
      k_def [symmetric] tr_def [symmetric] fitted_def [symmetric] ins_def [symmetric] .
  have fin: "\<exists>mode ids tr2 n md. set ids \<subseteq> evidence_ids fitted \<and> (tr \<longrightarrow> tr2) \<and> out = finish_report mode groups pt k tr2 n md ids"
    if "out \<noteq> empty_output pt"
  proof (cases "length fitted = 1 \<or> k \<le> rg_map_reduce_min_frames cfg \<and> chunks_fit_one_pass fitted (rg_reply_budget cfg) ctx")
    case True
    with g that obtain md ids where ps: "pass call stop 0 final_system_prompt ins
          (if p \<noteq> None then concat (map gp_chunks fitted) else sort_key rc_captured_at (concat (map gp_chunks fitted))) = Inr (md, ids)"
      and o: "out = finish_report SinglePass groups pt k tr 1 md ids"
      by (auto simp: single_pass_report_def Let_def bind_r_Inr split: if_splits)
    have "set ids \<subseteq> evidence_ids fitted" using pass_cites [OF ps] by (auto simp: evidence_ids_def split: if_splits)
    with o show ?thesis by blast
  next
    case False
    with g that have "map_reduce_report call stop ins (rg_reply_budget cfg) ctx groups fitted pt k tr = Inr out" by (auto split: if_splits)
    from map_reduce_sound [OF this] that show ?thesis by blast
  qed
  have sub: "evidence_ids fitted \<subseteq> evidence_ids groups" unfolding fitted_def by (rule evidence_ids_fitted)
  have main: "set (ro_frame_ids out) \<subseteq> evidence_ids groups \<and> distinct (ro_frame_ids out)
     \<and> ro_cited_frame_ids out = take 200 (ro_frame_ids out) \<and> ro_frames_summarized out = as_u32 (length (ro_frame_ids out))
     \<and> (ro_mode out \<noteq> EmptyReport \<longrightarrow> \<not> ro_truncated out \<longrightarrow>
          as_u32 k \<le> ro_frames_summarized out \<and> (p = None \<longrightarrow> tot \<le> k))"
  proof (cases "out = empty_output pt")
    case True
    then show ?thesis by (simp add: empty_output_def as_u32_def)
  next
    case False
    from fin [OF this] obtain mode ids tr2 n md where f: "set ids \<subseteq> evidence_ids fitted" "tr \<longrightarrow> tr2"
      and o: "out = finish_report mode groups pt k tr2 n md ids" by blast
    have "tot \<le> k" if "\<not> tr2" "p = None" using f(2) that by (simp add: tr_def)
    then show ?thesis using f(1) sub unfolding o finish_report_fields by (auto simp: report_citations_spec)
  qed
  then show ?thesis using ev unfolding ctx_def [symmetric] p_def [symmetric] k_def by blast
qed

end

interpretation answer_lane: citing_provider "\<lambda>n. summarize (setup_ctx n) (model n) reply" for setup_ctx model reply
  by unfold_locales (rule summarize_cites_input(2))

section \<open>Coverage on the store\<close>

lemma period_group_app:
  "period_group ld s texts (i, b, frames) = (if List.map_filter (evidence_chunk texts) frames = [] then None
     else Some \<lparr>gp_label = period_label ld s i b, gp_chunks = List.map_filter (evidence_chunk texts) frames\<rparr>)"
  by (simp add: period_group_def Let_def)

lemma set_period_groups:
  "g \<in> set (List.map_filter (period_group ld s texts) (enumerate n (zip bs pf)))
     \<Longrightarrow> \<exists>fr\<in>set pf. gp_chunks g = List.map_filter (evidence_chunk texts) fr"
proof (induction bs arbitrary: n pf)
  case (Cons b bs)
  then show ?case by (cases pf) (fastforce simp: List.map_filter_simps period_group_app split: if_splits option.splits)+
qed simp

lemma length_map_filter_le: "length (List.map_filter f xs) \<le> length xs"
  by (induction xs) (auto simp: List.map_filter_simps split: option.splits)

lemma sampled_le_periods:
  "sum_list (map (length \<circ> gp_chunks) (List.map_filter (period_group ld s texts) (enumerate n (zip bs pf)))) \<le> sum_list (map length pf)"
proof (induction bs arbitrary: n pf)
  case (Cons b bs)
  show ?case
  proof (cases pf)
    case (Cons fr pf')
    have "sum_list (map (length \<circ> gp_chunks) (List.map_filter (period_group ld s texts) (enumerate (Suc n) (zip bs pf')))) \<le> sum_list (map length pf')"
      by (rule Cons.IH)
    with length_map_filter_le [of "evidence_chunk texts" fr] show ?thesis
      by (simp add: Cons List.map_filter_simps period_group_app comp_def)
  qed simp
qed simp

lemma quotas_le: "sum_list (plan_depth counts d w) \<le> sum_list counts"
  by (auto simp: plan_depth_def Let_def intro: order_trans [OF sum_list_mono [of counts "min _" id]])

lemma periods_le_quotas:
  "sum_list (map length (map (sample_period (sqlite_reports fs search db) TimeScope) (zip bs qs))) \<le> sum_list qs"
proof (induction bs arbitrary: qs)
  case (Cons b bs)
  show ?case
  proof (cases qs)
    case (Cons q qs')
    with Cons.IH [of qs'] length_sample_frames_in_range [of fs "tb_start b" "tb_end b" q] show ?thesis
      by (simp add: sample_period_def sqlite_reports_def)
  qed simp
qed simp

lemma grid_size_pos: "s < e \<Longrightarrow> 0 < grid_size s e mx"
proof -
  assume "s < e"
  moreover have "1 \<le> clamp x 1 (max mx 1)" for x :: nat by (rule clamp_bounds) simp
  ultimately show ?thesis by (simp add: grid_size_def Suc_le_eq)
qed

definition readable_in :: "int \<Rightarrow> int \<Rightarrow> stored_frame \<Rightarrow> bool" where
  "readable_in s e f \<longleftrightarrow> captured_in s e f \<and> (\<exists>t. fr_content_text f = Some t \<and> trim t \<noteq> [])"

lemma coverage_groups_sound:
  assumes ev: "coverage_groups (sqlite_reports fs search db) cal cfg rng tz TimeScope s e = Inr (groups, pt, tot)"
    and legacy: "rng \<noteq> MemoryDaily \<or> tz = None"
    and window: "in_i64 s" "in_i64 e" "in_i64 (e - s)" "s < e" and few: "length fs < 2 ^ 32" and ids: "distinct (map fr_id fs)"
  shows "evidence_ids groups \<subseteq> fr_id ` {f \<in> set fs. readable_in s e f}"
    and "tot = length (filter (captured_in s e) fs)"
    and "sum_list (map (length \<circ> gp_chunks) groups) \<le> tot"
proof -
  let ?st = "sqlite_reports fs search db"
  define bks where "bks = timeline_buckets fs s e (grid_size s e max_periods)"
  have b: "coverage_buckets ?st cal rng tz TimeScope s e = Inr (bks, grid_size s e max_periods, False)"
    using legacy by (auto simp: coverage_buckets_def Let_def bks_def sqlite_reports_def split: report_range.splits option.splits)
  define qs where "qs = plan_depth (map tb_count bks) (rg_daily_top_k cfg) (rg_weekly_top_k cfg)"
  define pf where "pf = map (sample_period ?st TimeScope) (zip bks qs)"
  define texts where "texts = rs_texts ?st (map ev_frame_id (concat pf))"
  have g: "groups = List.map_filter (period_group False s texts) (enumerate 0 (zip bks pf))" "tot = sum_list (map tb_count bks)"
    using ev unfolding coverage_groups_def b bind_r_simps prod.case Let_def qs_def [symmetric] pf_def [symmetric] texts_def [symmetric] by simp_all
  note tl = timeline_buckets_exact [OF window grid_size_pos [OF window(4)] few, of max_periods, folded bks_def]
  show "tot = length (filter (captured_in s e) fs)" using tl g(2) by simp
  have "sum_list (map (length \<circ> gp_chunks) groups) \<le> sum_list (map length pf)" unfolding g(1) by (rule sampled_le_periods)
  also have "\<dots> \<le> sum_list qs" unfolding pf_def by (rule periods_le_quotas)
  also have "\<dots> \<le> tot" unfolding qs_def g(2) by (rule quotas_le)
  finally show "sum_list (map (length \<circ> gp_chunks) groups) \<le> tot" .
  show "evidence_ids groups \<subseteq> fr_id ` {f \<in> set fs. readable_in s e f}"
  proof
    fix i assume "i \<in> evidence_ids groups"
    then obtain gr c where c: "gr \<in> set groups" "c \<in> set (gp_chunks gr)" "i = rc_frame_id c" by (auto simp: evidence_ids_def)
    obtain fr where fr: "fr \<in> set pf" "gp_chunks gr = List.map_filter (evidence_chunk texts) fr"
      using set_period_groups c(1) unfolding g(1) by blast
    from c(2) fr(2) obtain x where x: "x \<in> set fr" "evidence_chunk texts x = Some c" by (auto simp: set_map_filter)
    then obtain t where t: "texts (ev_frame_id x) = Some t" "trim t \<noteq> []" "rc_frame_id c = ev_frame_id x"
      by (auto simp: evidence_chunk_def split: option.splits if_splits)
    from fr(1) obtain bk q where bq: "(bk, q) \<in> set (zip bks qs)" "fr = sample_period ?st TimeScope (bk, q)" by (auto simp: pf_def)
    then have bk: "bk \<in> set bks" by (auto dest: set_zip_leftD)
    from x(1) bq(2) obtain m where m: "m \<in> set (sample_frames_in_range fs (tb_start bk) (tb_end bk) q)" "ev_frame_id x = fm_frame_id m"
      by (auto simp: sample_period_def sqlite_reports_def)
    from sample_frames_in_range_sound [OF m(1)] obtain f where f: "f \<in> set fs" "captured_in (tb_start bk) (tb_end bk) f" "m = row_to_meta f"
      by blast
    have "s \<le> tb_start bk" "tb_end bk \<le> e" using tl bk by auto
    then have w: "captured_in s e f" using f(2) by (simp add: captured_in_def)
    obtain f' where f': "f' \<in> set fs" "fr_id f' = ev_frame_id x" "fr_content_text f' = Some t"
      using ocr_texts_sound t(1) unfolding texts_def sqlite_reports_def by fastforce
    have "fr_id f = ev_frame_id x" by (simp add: m(2) f(3) row_to_meta_def)
    then have "f' = f" using distinct_map_eq [OF ids f'(1) f(1)] f'(2) by simp
    with w f f' t c(3) m(2) show "i \<in> fr_id ` {f \<in> set fs. readable_in s e f}"
      by (auto simp: readable_in_def row_to_meta_def intro!: image_eqI [of _ _ f])
  qed
qed

lemma report_sound:
  assumes rep: "generate_report (sqlite_reports fs search db) cal stamp actx (\<lambda>n. summarize (setup_ctx n) (model n) reply) stop rng s e prompt tz cfg = Inr out"
    and coverage: "report_prompt rng prompt = None" "rng \<noteq> MemoryDaily \<or> tz = None"
    and window: "in_i64 s" "in_i64 e" "in_i64 (e - s)" "s < e" and few: "length fs < 2 ^ 32" and ids: "distinct (map fr_id fs)"
  shows "set (ro_frame_ids out) \<subseteq> fr_id ` {f \<in> set fs. readable_in s e f} \<and> distinct (ro_frame_ids out)
     \<and> ro_cited_frame_ids out = take 200 (ro_frame_ids out) \<and> ro_frames_summarized out = length (ro_frame_ids out)"
    and "ro_mode out \<noteq> EmptyReport \<Longrightarrow> \<not> ro_truncated out \<Longrightarrow> set (ro_frame_ids out) = fr_id ` {f \<in> set fs. captured_in s e f}"
proof -
  from answer_lane.scoped_report_sound [OF rep [unfolded generate_report_def]] coverage(1) obtain groups pt tot where
    ev: "coverage_groups (sqlite_reports fs search db) cal cfg rng tz TimeScope s e = Inr (groups, pt, tot)"
    and sub: "set (ro_frame_ids out) \<subseteq> evidence_ids groups" and d: "distinct (ro_frame_ids out)"
    and ct: "ro_cited_frame_ids out = take 200 (ro_frame_ids out)" and n: "ro_frames_summarized out = as_u32 (length (ro_frame_ids out))"
    and full: "ro_mode out \<noteq> EmptyReport \<Longrightarrow> \<not> ro_truncated out \<Longrightarrow> as_u32 (sum_list (map (length \<circ> gp_chunks) groups)) \<le> ro_frames_summarized out
          \<and> tot \<le> sum_list (map (length \<circ> gp_chunks) groups)"
    unfolding report_evidence_def by auto
  note c = coverage_groups_sound [OF ev coverage(2) window few ids]
  have sub2: "set (ro_frame_ids out) \<subseteq> fr_id ` {f \<in> set fs. readable_in s e f}" using sub c(1) by blast
  also have "\<dots> \<subseteq> fr_id ` {f \<in> set fs. captured_in s e f}" by (auto simp: readable_in_def)
  finally have sub3: "set (ro_frame_ids out) \<subseteq> fr_id ` {f \<in> set fs. captured_in s e f}" .
  let ?R = "fr_id ` set (filter (captured_in s e) fs)"
  have card: "card ?R = tot"
    using distinct_card [OF distinct_map_filter [OF ids, of "captured_in s e"]] by (simp add: c(2) image_image)
  have tot: "tot < 2 ^ 32" using few le_less_trans [OF length_filter_le] unfolding c(2) by blast
  have "length (ro_frame_ids out) = card (set (ro_frame_ids out))" using distinct_card [OF d] by simp
  also have "\<dots> \<le> card ?R" using sub3 by (intro card_mono) simp_all
  finally have l: "length (ro_frame_ids out) \<le> tot" using card by simp
  with tot n have n': "ro_frames_summarized out = length (ro_frame_ids out)" by (simp add: as_u32_def)
  with sub2 d ct show "set (ro_frame_ids out) \<subseteq> fr_id ` {f \<in> set fs. readable_in s e f} \<and> distinct (ro_frame_ids out)
     \<and> ro_cited_frame_ids out = take 200 (ro_frame_ids out) \<and> ro_frames_summarized out = length (ro_frame_ids out)" by blast
  assume t: "ro_mode out \<noteq> EmptyReport" "\<not> ro_truncated out"
  have "sum_list (map (length \<circ> gp_chunks) groups) = tot" using c(3) full [OF t] by simp
  then have "tot \<le> length (ro_frame_ids out)" using full [OF t] n' tot by (simp add: as_u32_def)
  then have "card ?R \<le> card (set (ro_frame_ids out))" using distinct_card [OF d] card by simp
  then have "set (ro_frame_ids out) = ?R" using sub3 by (intro card_seteq) simp_all
  then show "set (ro_frame_ids out) = fr_id ` {f \<in> set fs. captured_in s e f}" by simp
qed



section \<open>A report on two frames\<close>

lemma byte_len_le: "byte_len s \<le> 4 * length s"
proof (induction s)
  case (Cons c s)
  with char_len_pos(2) [of c] show ?case by simp
qed simp

lemma length_lit: "length (lit s) = length s"
  by (simp add: lit_def)

lemma est_tokens_le: "est_tokens s \<le> 2 * length s + 1"
  using byte_len_le [of s] by (simp add: est_tokens_def)

definition sample_frames2 :: "stored_frame list" where
  "sample_frames2 = [sample_stored_frame 1 100 None, sample_stored_frame 2 200 None]"

definition sample_report_config :: report_config where
  "sample_report_config = \<lparr>rg_daily_top_k = 30, rg_weekly_top_k = 150, rg_map_reduce_min_frames = 10, rg_reply_budget = 100\<rparr>"

definition sample_writer :: "nat \<Rightarrow> summary_model" where
  "sample_writer n msgs m = ([ContentPiece (lit ''done''), DonePiece], Inr ())"

abbreviation sample_call :: summarizer where
  "sample_call \<equiv> \<lambda>n. summarize (Inr 8192) (sample_writer n) 100"

definition sample_store :: report_store where
  "sample_store = sqlite_reports sample_frames2 (\<lambda>_. Inr []) \<lparr>db_frames = [], db_sessions = [], db_artifacts = []\<rparr>"

definition sample_chunk :: "int \<Rightarrow> int \<Rightarrow> chunk" where
  "sample_chunk i t = \<lparr>rc_frame_id = i, rc_text = lit ''text'', rc_score = 0, rc_captured_at = t\<rparr>"

lemma trim_text: "trim (lit ''text'') = lit ''text''"
  by (simp add: trim_def trim_start_def trim_end_def is_ws_def)

lemma sample_chunk_cost: "chunk_cost (sample_chunk i t) = 9"
  by (simp add: chunk_cost_def sample_chunk_def trim_text est_tokens_def report_id_framing_def del: lit_Cons)
    (simp add: char_len_def)

lemma map_reserve_sample: "map_reserve 100 \<le> 2000"
proof -
  have "length map_system_prompt \<le> 400" by (simp add: map_system_prompt_def length_lit del: lit_Cons)
  then show ?thesis using est_tokens_le [of map_system_prompt] by (simp add: map_reserve_def report_template_overhead_def)
qed

lemma sample_evidence:
  "coverage_groups sample_store utc_calendar sample_report_config CustomRange None TimeScope 0 1000
     = Inr ([\<lparr>gp_label = lit ''day 1'', gp_chunks = [sample_chunk 1 100, sample_chunk 2 200]\<rparr>], 1, 2)"
proof -
  have g: "grid_size 0 1000 max_periods = 1" by (simp add: grid_size_def day_ms_def as_u32_def clamp_def max_periods_def)
  have tb: "timeline_buckets sample_frames2 0 1000 (Suc 0) = [\<lparr>tb_start = 0, tb_end = 1000, tb_count = 2\<rparr>]"
    by (simp add: timeline_buckets_def bucket_width_def captured_in_def sample_frames2_def sample_stored_frame_def in_i64_def
        i64_min_def i64_max_def group_buckets_def)
  have q: "plan_depth [2] 30 150 = [2]" by (simp add: plan_depth_def as_u32_def min_frames_per_period_def)
  have r: "by_time (filter (captured_in 0 1000) sample_frames2) = sample_frames2" "length sample_frames2 = 2"
    by (simp_all add: by_time_def captured_in_def sample_frames2_def sample_stored_frame_def)
  then have sf: "sample_frames_in_range sample_frames2 0 1000 2 = map row_to_meta sample_frames2"
    using map_nth [of sample_frames2] by (simp add: sample_frames_in_range_def spread_rows_def sample_ranks_all Let_def)
  have tx: "ocr_texts sample_frames2 [1, 2] 1 = Some (lit ''text'')" "ocr_texts sample_frames2 [1, 2] 2 = Some (lit ''text'')"
    by (simp_all add: ocr_texts_def sample_frames2_def sample_stored_frame_def List.map_filter_simps)
  have m: "fm_frame_id (row_to_meta (sample_stored_frame i t x)) = i" "fm_captured_at (row_to_meta (sample_stored_frame i t x)) = t" for i t x
    by (simp_all add: sample_stored_frame_def row_to_meta_def)
  have fs: "map row_to_meta sample_frames2 = [row_to_meta (sample_stored_frame 1 100 None), row_to_meta (sample_stored_frame 2 200 None)]"
    by (simp add: sample_frames2_def)
  have l: "lit ''day '' @ display_int 1 = lit ''day 1''" by (simp add: display_int_def digits_of.simps)
  show ?thesis
    by (simp add: coverage_groups_def coverage_buckets_def sample_store_def sqlite_reports_def g tb q sample_report_config_def sample_period_def sf
        fs m tx List.map_filter_simps period_group_app evidence_chunk_def trim_text sample_chunk_def period_label_def day_ms_def l Let_def
        del: lit_Cons lit_Nil) (simp_all)
qed

abbreviation sample_group :: report_group where
  "sample_group \<equiv> \<lparr>gp_label = lit ''day 1'', gp_chunks = [sample_chunk 1 100, sample_chunk 2 200]\<rparr>"

lemma sample_chunk_text: "trim (rc_text (sample_chunk i t)) = lit ''text''" "lit ''text'' \<noteq> []"
  using trim_text by (simp_all add: sample_chunk_def)

lemma sample_fitted: "split_groups_to_fit [sample_group] 100 8192 = [sample_group]"
proof -
  have "\<not> max (8192 - map_reserve 100) 1 < 9 + 9" using map_reserve_sample by linarith
  then have "split_chunks_into_batches [sample_chunk 1 100, sample_chunk 2 200] 100 8192 = [[sample_chunk 1 100, sample_chunk 2 200]]"
    by (simp add: split_chunks_into_batches_def sample_chunk_cost sample_chunk_text del: lit_Cons)
  then show ?thesis by (simp add: split_groups_to_fit_def split_group_def)
qed

lemma sample_pack:
  assumes "18 \<le> b"
  shows "snd (pack_context intro [sample_chunk 1 100, sample_chunk 2 200] b) = [1, 2]"
proof -
  have "estimate_tokens (lit ''text'') = 3" by (simp add: estimate_tokens_def bytes_per_token_def char_len_def)
  moreover have "rc_frame_id (sample_chunk i t) = i" for i t by (simp add: sample_chunk_def)
  ultimately show ?thesis using assms
    by (simp add: pack_context_def sample_chunk_text include_id_def id_framing_tokens_def Let_def del: lit_Cons)
qed

lemma sample_summary:
  assumes "length instruction \<le> 100"
  shows "sample_call n final_system_prompt instruction [sample_chunk 1 100, sample_chunk 2 200] = Inr (lit ''done'', [1, 2])"
proof -
  have "length final_system_prompt \<le> 500" by (simp add: final_system_prompt_def length_lit del: lit_Cons)
  then have "estimate_tokens final_system_prompt \<le> 1001"
    using est_tokens_le [of final_system_prompt] by (simp add: estimate_tokens_def est_tokens_def bytes_per_token_def)
  moreover have "estimate_tokens instruction \<le> 201"
    using est_tokens_le [of instruction] assms by (simp add: estimate_tokens_def est_tokens_def bytes_per_token_def)
  ultimately have "18 \<le> 8192 - (100 + estimate_tokens final_system_prompt + estimate_tokens instruction + template_overhead_tokens)"
    by (simp add: template_overhead_tokens_def)
  then have c: "snd (build_summary_messages final_system_prompt instruction [sample_chunk 1 100, sample_chunk 2 200] 8192 100) = [1, 2]"
    unfolding build_summary_cited by (rule sample_pack)
  have t: "collect_stream [ContentPiece (lit ''done''), DonePiece] (Inr ()) = Inr (lit ''done'')"
    by (simp add: collect_stream_def think_start_def think_push_def split_loop.simps think_marker_def partial_marker_suffix_def answer_text_def think_flush_def)
  show ?thesis using c t
    by (simp add: summarize_def effective_reply_budget_def sample_writer_def case_prod_unfold Let_def del: lit_Cons)
qed

lemma sample_report:
  "generate_report sample_store utc_calendar (\<lambda>_. None) (Some 8192) sample_call (\<lambda>_. False) CustomRange 0 1000 None None sample_report_config
     = Inr (finish_report SinglePass [sample_group] 1 2 False 1 (lit ''done'') [1, 2])"
proof -
  let ?ins = "final_instruction (\<lambda>_. None) CustomRange None 0 1000"
  have "length ?ins \<le> 100" by (simp add: final_instruction_def length_lit Let_def del: lit_Cons)
  then have ps: "pass sample_call (\<lambda>_. False) 0 final_system_prompt ?ins [sample_chunk 1 100, sample_chunk 2 200] = Inr (lit ''done'', [1, 2])"
    unfolding pass_def using sample_summary by simp
  have srt: "sort_key rc_captured_at [sample_chunk 1 100, sample_chunk 2 200] = [sample_chunk 1 100, sample_chunk 2 200]"
    by (simp add: sample_chunk_def)
  have rb: "rg_reply_budget sample_report_config = 100" by (simp add: sample_report_config_def)
  show ?thesis
    by (simp add: generate_report_def generate_report_scoped_def report_prompt_def report_evidence_def sample_evidence rb sample_fitted
        single_pass_report_def srt ps Let_def numeral_2_eq_2 del: sort_key_simps lit_Cons)
qed

lemma sample_report_output:
  "ro_frame_ids (finish_report SinglePass [sample_group] 1 2 False 1 (lit ''done'') [1, 2]) = [1, 2]"
  "ro_mode (finish_report SinglePass [sample_group] 1 2 False 1 (lit ''done'') [1, 2]) = SinglePass"
  "\<not> ro_truncated (finish_report SinglePass [sample_group] 1 2 False 1 (lit ''done'') [1, 2])"
  by (simp_all add: finish_report_fields report_citations_def dedup_keep_order_def as_u32_def max_report_citations_def Let_def)



section \<open>Passes\<close>

lemma pass_runs: "pass call stop n sys_prompt instruction cs = Inr r \<Longrightarrow> \<not> stop n"
  by (simp add: pass_def split: if_splits)

definition ran :: "(nat \<Rightarrow> bool) \<Rightarrow> nat \<Rightarrow> nat \<Rightarrow> bool" where
  "ran stop n n1 \<longleftrightarrow> n \<le> n1 \<and> (\<forall>k. n \<le> k \<and> k < n1 \<longrightarrow> \<not> stop k)"

lemma ran_refl: "ran stop n n"
  by (auto simp: ran_def)

lemma ran_one: "\<not> stop n \<Longrightarrow> ran stop n (n + 1)"
  by (auto simp: ran_def less_Suc_eq_le)

lemma ran_trans: "ran stop n n1 \<Longrightarrow> ran stop n1 n2 \<Longrightarrow> ran stop n n2"
  unfolding ran_def by (metis le_trans not_le)

lemma ran_step: "\<not> stop n \<Longrightarrow> ran stop (n + 1) n1 \<Longrightarrow> ran stop n n1"
  by (rule ran_trans [OF ran_one])

lemma map_groups_ran:
  "map_groups call stop gs n ids nodes tr = Inr (n1, ids1, nodes1, tr1) \<Longrightarrow> n < max_report_passes \<Longrightarrow> ran stop n n1 \<and> n1 \<le> max_report_passes"
proof (induction gs arbitrary: n ids nodes)
  case Nil
  then show ?case by (simp add: ran_refl)
next
  case (Cons g gs)
  from Cons.prems(1) obtain t cited where p: "pass call stop n map_system_prompt (map_instruction g) (gp_chunks g) = Inr (t, cited)"
    by (auto simp: bind_r_Inr)
  have s: "\<not> stop n" by (rule pass_runs [OF p])
  show ?case
  proof (cases "max_report_passes \<le> n + 1")
    case True
    with Cons.prems p have "n1 = n + 1" by (simp add: Let_def)
    with True Cons.prems(2) ran_one [of stop, OF s] show ?thesis by simp
  next
    case False
    with Cons.prems p Cons.IH have "ran stop (n + 1) n1 \<and> n1 \<le> max_report_passes" by (simp add: Let_def)
    with ran_step [of stop, OF s] show ?thesis by blast
  qed
qed

lemma reduce_level_ran:
  "reduce_level call stop nss n acc = Inr (n1, nxt, capped) \<Longrightarrow> n < max_report_passes \<Longrightarrow> ran stop n n1 \<and> n1 \<le> max_report_passes"
proof (induction nss arbitrary: n acc)
  case Nil
  then show ?case by (simp add: ran_refl)
next
  case (Cons ns nss)
  show ?case
  proof (cases "length ns = 1")
    case True
    with Cons show ?thesis by simp
  next
    case l: False
    with Cons.prems(1) obtain t cited where p: "pass call stop n reduce_system_prompt [] (nodes_as_chunks ns) = Inr (t, cited)"
      by (auto simp: bind_r_Inr)
    have s: "\<not> stop n" by (rule pass_runs [OF p])
    show ?thesis
    proof (cases "max_report_passes \<le> n + 1")
      case True
      with Cons.prems p l have "n1 = n + 1" by (simp add: Let_def)
      with True Cons.prems(2) ran_one [of stop, OF s] show ?thesis by simp
    next
      case False
      with Cons.prems p l Cons.IH have "ran stop (n + 1) n1 \<and> n1 \<le> max_report_passes" by (simp add: Let_def)
      with ran_step [of stop, OF s] show ?thesis by blast
    qed
  qed
qed

lemma reduce_nodes_ran:
  "reduce_nodes call stop rb ctx nodes n tr = Inr (n1, nodes1, tr1) \<Longrightarrow> n \<le> max_report_passes \<Longrightarrow> ran stop n n1 \<and> n1 \<le> max_report_passes"
proof (induction call stop rb ctx nodes n tr rule: reduce_nodes.induct)
  case (1 call stop rb ctx nodes n tr)
  show ?case
  proof (cases "length nodes \<le> 1 \<or> fits_single_pass nodes rb ctx \<or> max_report_passes \<le> n")
    case True
    with 1(2,3) show ?thesis unfolding reduce_nodes.simps [of call stop rb ctx nodes n tr]
      by (auto simp: ran_refl split: if_splits)
  next
    case f: False
    with 1(2) obtain n2 nxt capped where l: "reduce_level call stop (chunks_of reduce_fanout nodes) n [] = Inr (n2, nxt, capped)"
      unfolding reduce_nodes.simps [of call stop rb ctx nodes n tr] by (auto split: sum.splits)
    have r: "ran stop n n2 \<and> n2 \<le> max_report_passes" by (rule reduce_level_ran [OF l]) (use f in simp)
    show ?thesis
    proof (cases "tr \<or> capped")
      case True
      with f l 1(2) r show ?thesis unfolding reduce_nodes.simps [of call stop rb ctx nodes n tr] by auto
    next
      case c: False
      with f l 1(2) have "reduce_nodes call stop rb ctx nxt n2 tr = Inr (n1, nodes1, tr1)"
        unfolding reduce_nodes.simps [of call stop rb ctx nodes n tr] by auto
      from 1(1) [OF _ _ l refl refl c this] f r have "ran stop n2 n1 \<and> n1 \<le> max_report_passes" by blast
      with r ran_trans [of stop n n2 n1] show ?thesis by blast
    qed
  qed
qed



section \<open>Where the account is wrong\<close>

text \<open>The cap on passes is documented to cover the final one too; the final one comes on top of it.\<close>

definition talker :: "ustr \<Rightarrow> summarizer" where
  "talker t n sys_prompt instruction cs = Inr (t, map rc_frame_id cs)"

lemma map_groups_talker:
  "trim t \<noteq> [] \<Longrightarrow> n < max_report_passes \<Longrightarrow> max_report_passes \<le> n + length gs \<Longrightarrow>
     \<exists>ids nodes1. map_groups (talker t) (\<lambda>_. False) gs n ids0 nodes tr = Inr (max_report_passes, ids, nodes1, True)
       \<and> length nodes1 = length nodes + (max_report_passes - n)"
proof (induction gs arbitrary: n ids0 nodes)
  case (Cons g gs)
  show ?case
  proof (cases "max_report_passes \<le> n + 1")
    case True
    with Cons.prems have "n + 1 = max_report_passes" by simp
    with Cons.prems(1) show ?thesis by (simp add: pass_def talker_def Let_def)
  next
    case False
    with Cons.prems Cons.IH [of "n + 1" "foldl include_id ids0 (map rc_frame_id (gp_chunks g))" "nodes @ [gp_label g @ lit '': '' @ trim t]"]
    obtain ids nodes1 where "map_groups (talker t) (\<lambda>_. False) gs (n + 1) (foldl include_id ids0 (map rc_frame_id (gp_chunks g)))
        (nodes @ [gp_label g @ lit '': '' @ trim t]) tr = Inr (max_report_passes, ids, nodes1, True)"
      "length nodes1 = length nodes + 1 + (max_report_passes - (n + 1))" by auto
    moreover have "pass (talker t) (\<lambda>_. False) n p i cs = Inr (t, map rc_frame_id cs)" for p i cs by (simp add: pass_def talker_def)
    ultimately show ?thesis using False Cons.prems(1,2) by (simp add: Let_def del: lit_Cons)
  qed
qed simp

lemma cap_exceeded_by_final_pass:
  assumes "trim t \<noteq> []" and "max_report_passes \<le> length fitted" and "ctx = 0"
  shows "\<exists>out. map_reduce_report (talker t) (\<lambda>_. False) ins rb ctx groups fitted pt k tr = Inr out \<and> ro_passes out = 65"
proof -
  obtain ids nodes where m: "map_groups (talker t) (\<lambda>_. False) fitted 0 [] [] tr = Inr (max_report_passes, ids, nodes, True)"
    and l: "length nodes = max_report_passes"
    using map_groups_talker [OF assms(1), of 0 fitted "[]" "[]" tr] assms(2) by (auto simp: max_report_passes_def)
  have "nodes \<noteq> []" using l by (auto simp: max_report_passes_def)
  moreover have "\<not> fits_single_pass nodes rb ctx"
    using \<open>nodes \<noteq> []\<close> by (cases nodes) (simp_all add: fits_single_pass_def assms(3) est_tokens_def)
  then have "reduce_nodes (talker t) (\<lambda>_. False) rb ctx nodes max_report_passes True = Inr (max_report_passes, nodes, True)"
    using l by (simp add: reduce_nodes.simps max_report_passes_def)
  ultimately show ?thesis using m
    by (simp add: map_reduce_report_def pass_def talker_def finish_report_fields) (simp add: max_report_passes_def)
qed

text \<open>A report whose frames were sampled is combined one level only, however many calls are left and however much is too much for
  the final one.\<close>

lemma sampled_report_combines_once:
  assumes "\<not> (length nodes \<le> 1 \<or> fits_single_pass nodes rb ctx)" "n < max_report_passes"
  shows "reduce_nodes call stop rb ctx nodes n True = (case reduce_level call stop (chunks_of reduce_fanout nodes) n [] of
     Inl err \<Rightarrow> Inl err | Inr (n1, nxt, _) \<Rightarrow> Inr (n1, nxt, True))"
  using assms by (auto simp: reduce_nodes.simps [of _ _ _ _ nodes] split: sum.splits)

lemma sampled_report_overflows_final_pass:
  "\<exists>nodes1 n1. reduce_nodes (talker [120]) (\<lambda>_. False) rb 0 (replicate 7 [120]) 7 True = Inr (n1, nodes1, True)
     \<and> n1 < max_report_passes \<and> 1 < length nodes1 \<and> \<not> fits_single_pass nodes1 rb 0"
proof -
  have n: "\<not> (length (replicate 7 [120 :: int]) \<le> 1 \<or> fits_single_pass (replicate 7 [120]) rb 0)"
    by (simp add: fits_single_pass_def est_tokens_def numeral_eq_Suc)
  have l: "reduce_level (talker [120]) (\<lambda>_. False) (chunks_of reduce_fanout (replicate 7 [120])) 7 [] = Inr (8, [[120], [120]], False)"
    by (simp add: reduce_fanout_def numeral_eq_Suc pass_def talker_def Let_def max_report_passes_def trim_def trim_start_def trim_end_def is_ws_def)
  show ?thesis unfolding sampled_report_combines_once [OF n, of 7, simplified max_report_passes_def, simplified] l
    by (simp add: max_report_passes_def fits_single_pass_def est_tokens_def)
qed

text \<open>The report without evidence says that no call was made, also when every call came back blank.\<close>

lemma blank_calls_uncounted:
  assumes "trim t = []" and "length fitted < max_report_passes"
  shows "map_reduce_report (talker t) (\<lambda>_. False) ins rb ctx groups fitted pt k tr = Inr (empty_output pt)"
proof -
  have "n + length gs < max_report_passes \<Longrightarrow> \<exists>n1. map_groups (talker t) (\<lambda>_. False) gs n [] [] tr = Inr (n1, [], [], tr)" for gs n
  proof (induction gs arbitrary: n)
    case (Cons g gs)
    with assms(1) show ?case by (simp add: pass_def talker_def Let_def)
  qed simp
  from this [of 0 fitted] assms(2) show ?thesis by (auto simp: map_reduce_report_def)
qed

text \<open>Batches are sized without the instruction that is added to the prompt: a full batch loses its last chunk when it is
  summarized.\<close>

definition wide_chunk :: "int \<Rightarrow> nat \<Rightarrow> chunk" where
  "wide_chunk i n = \<lparr>rc_frame_id = i, rc_text = replicate n 97, rc_score = 0, rc_captured_at = i\<rparr>"

lemma trim_replicate: "trim (replicate n 97) = replicate n 97"
proof -
  have "dropWhile is_ws (replicate n 97) = replicate n 97" by (cases n) (simp_all add: is_ws_def)
  then show ?thesis by (simp add: trim_def trim_start_def trim_end_def)
qed

lemma byte_len_replicate: "byte_len (replicate n 97) = n"
  by (induction n) (simp_all add: char_len_def)

lemma full_batch_loses_chunk:
  defines "ctx \<equiv> map_reserve 100 + 524" and "g \<equiv> \<lparr>gp_label = lit ''day 1'', gp_chunks = [wide_chunk 1 1000, wide_chunk 2 20]\<rparr>"
  shows "split_groups_to_fit [g] 100 ctx = [g]
    \<and> snd (build_summary_messages map_system_prompt (map_instruction g) (gp_chunks g) ctx 100) = [1]"
proof
  have nb: "trim (rc_text (wide_chunk i 1000)) = replicate 1000 97" "trim (rc_text (wide_chunk i 20)) = replicate 20 97" for i
    by (simp_all add: wide_chunk_def trim_replicate)
  have ne: "replicate 1000 (97 :: int) \<noteq> []" "replicate 20 (97 :: int) \<noteq> []" by simp_all
  have cost: "chunk_cost (wide_chunk i 1000) = 507" "chunk_cost (wide_chunk i 20) = 17" for i
    by (simp_all add: chunk_cost_def nb est_tokens_def byte_len_replicate report_id_framing_def)
  have per: "max (ctx - map_reserve 100) 1 = 524" by (simp add: ctx_def)
  have "split_chunks_into_batches [wide_chunk 1 1000, wide_chunk 2 20] 100 ctx = [[wide_chunk 1 1000, wide_chunk 2 20]]"
    unfolding split_chunks_into_batches_def per by (simp add: nb cost ne)
  then show "split_groups_to_fit [g] 100 ctx = [g]"
    by (simp add: split_groups_to_fit_def split_group_def g_def)
  have ins: "byte_len (map_instruction g) = 30"
    by (simp add: map_instruction_def g_def char_len_def)
  have est: "estimate_tokens (map_instruction g) = 16" "estimate_tokens map_system_prompt = est_tokens map_system_prompt"
    by (simp_all add: estimate_tokens_def bytes_per_token_def ins est_tokens_def)
  have b: "ctx - (100 + estimate_tokens map_system_prompt + estimate_tokens (map_instruction g) + template_overhead_tokens) = 508"
    unfolding est by (simp add: ctx_def map_reserve_def template_overhead_tokens_def report_template_overhead_def)
  have e: "estimate_tokens (replicate 1000 97) = 501" "estimate_tokens (replicate 20 97) = 11"
    by (simp_all add: estimate_tokens_def bytes_per_token_def byte_len_replicate)
  have ids: "rc_frame_id (wide_chunk i n) = i" for i n by (simp add: wide_chunk_def)
  show "snd (build_summary_messages map_system_prompt (map_instruction g) (gp_chunks g) ctx 100) = [1]"
    unfolding build_summary_cited b
    by (simp add: g_def pack_context_def nb e ids ne id_framing_tokens_def include_id_def Let_def del: lit_Cons)
qed

section \<open>Session recaps\<close>

lemma sample_session_bucket_sound: "x \<in> set (sample_session_bucket frames s e q) \<Longrightarrow> \<exists>f\<in>set frames. x = evidence_of f"
proof -
  let ?in = "filter (\<lambda>f. s \<le> sf_captured_at f \<and> sf_captured_at f < e) frames" and ?w = "min q (length (filter (\<lambda>f. s \<le> sf_captured_at f \<and> sf_captured_at f < e) frames))"
  assume x: "x \<in> set (sample_session_bucket frames s e q)"
  have "i * (length ?in - 1) div (?w - 1) < length ?in" if "i < ?w" "?w \<noteq> 1" for i
  proof -
    have "i \<le> ?w - 1" using that by linarith
    then have "i * (length ?in - 1) \<le> (?w - 1) * (length ?in - 1)" by (rule mult_le_mono1)
    then have "i * (length ?in - 1) div (?w - 1) \<le> (?w - 1) * (length ?in - 1) div (?w - 1)" by (rule div_le_mono)
    also have "\<dots> \<le> length ?in - 1" by simp
    finally show ?thesis using that by (cases "length ?in") auto
  qed
  then have "\<exists>f\<in>set ?in. x = evidence_of f"
    using x by (auto simp: sample_session_bucket_def Let_def split: if_splits simp del: set_filter)
  then show ?thesis by auto
qed

lemma recap_groups_sound:
  assumes "coverage_groups st cal cfg CustomRange None (SessionScope frames) s e = Inr (groups, pt, tot)"
  shows "evidence_ids groups \<subseteq> sf_id ` set frames"
proof
  fix i assume "i \<in> evidence_ids groups"
  then obtain gr c where c: "gr \<in> set groups" "c \<in> set (gp_chunks gr)" "i = rc_frame_id c" by (auto simp: evidence_ids_def)
  from assms obtain bks ld qs texts where g: "groups = List.map_filter (period_group ld s texts) (enumerate 0 (zip bks (map (sample_period st (SessionScope frames)) (zip bks qs))))"
    by (auto simp: coverage_groups_def bind_r_Inr Let_def)
  obtain fr where fr: "fr \<in> set (map (sample_period st (SessionScope frames)) (zip bks qs))" "gp_chunks gr = List.map_filter (evidence_chunk texts) fr"
    using set_period_groups c(1) unfolding g by blast
  from c(2) fr(2) obtain x where x: "x \<in> set fr" "evidence_chunk texts x = Some c" by (auto simp: set_map_filter)
  from fr(1) x(1) obtain bk :: timeline_bucket and q where "x \<in> set (sample_session_bucket frames (tb_start bk) (tb_end bk) q)" by (auto simp: sample_period_def)
  then obtain f where "f \<in> set frames" "x = evidence_of f" using sample_session_bucket_sound by blast
  moreover have "rc_frame_id c = ev_frame_id x" using x(2) by (auto simp: evidence_chunk_def split: option.splits if_splits)
  ultimately show "i \<in> sf_id ` set frames" using c(3) by (auto simp: evidence_of_def)
qed

text \<open>A session recap is about that session alone: whatever other session shares its time, the frames it claims to have read are
  frames the session owns, and a session that does not exist has no recap.\<close>

theorem recap_cites_own_frames:
  assumes "generate_session_recap (sqlite_reports fs search db) cal stamp actx (\<lambda>n. summarize (setup_ctx n) (model n) reply) stop i cfg = Inr out"
  shows "set (ro_frame_ids out) \<subseteq> sf_id ` set (session_frames_meta i db) \<and> get_session i db \<noteq> None"
proof -
  let ?st = "sqlite_reports fs search db" and ?frames = "session_frames_meta i db"
  obtain se where se: "get_session i db = Some se" using assms by (auto simp: generate_session_recap_def sqlite_reports_def split: option.splits)
  obtain s e where w: "recap_window se ?frames = (s, e)" by fastforce
  have "generate_report_scoped ?st cal stamp actx (\<lambda>n. summarize (setup_ctx n) (model n) reply) stop CustomRange s e None None cfg (SessionScope ?frames) = Inr out"
    using assms se w by (simp add: generate_session_recap_def sqlite_reports_def)
  from answer_lane.scoped_report_sound [OF this] obtain groups pt tot where
    "coverage_groups ?st cal cfg CustomRange None (SessionScope ?frames) s e = Inr (groups, pt, tot)" "set (ro_frame_ids out) \<subseteq> evidence_ids groups"
    by (auto simp: report_evidence_def report_prompt_def)
  with recap_groups_sound se show ?thesis by fastforce
qed

definition sample_recap_db :: session_db where
  "sample_recap_db = \<lparr>db_frames = [
       \<lparr>fr_id = 1, fr_captured_at = 100, fr_app_hint = None, fr_window_title = None, fr_browser_url = None, fr_session_id = Some 5, fr_content_text = Some (lit ''text'')\<rparr>,
       \<lparr>fr_id = 2, fr_captured_at = 200, fr_app_hint = None, fr_window_title = None, fr_browser_url = None, fr_session_id = Some 5, fr_content_text = Some (lit ''text'')\<rparr>,
       \<lparr>fr_id = 3, fr_captured_at = 150, fr_app_hint = None, fr_window_title = None, fr_browser_url = None, fr_session_id = Some 6, fr_content_text = Some (lit ''text'')\<rparr>],
     db_sessions = [session_row 0 5 \<lparr>ns_started_at = 100, ns_ended_at = Some 200, ns_kind = Focus, ns_tool = None, ns_host = None,
       ns_context_key = [], ns_confidence = 1, ns_frozen = False\<rparr>], db_artifacts = []\<rparr>"

lemma sample_recap_frames:
  "session_frames_meta 5 sample_recap_db = [\<lparr>sf_id = 1, sf_captured_at = 100, sf_app_hint = None, sf_window_title = None, sf_browser_url = None\<rparr>,
     \<lparr>sf_id = 2, sf_captured_at = 200, sf_app_hint = None, sf_window_title = None, sf_browser_url = None\<rparr>]"
  by (simp add: session_frames_meta_def frames_of_session_def frame_key_def sample_recap_db_def as_segmenter_frame_def)

lemma sample_recap:
  "generate_session_recap (sqlite_reports sample_frames2 (\<lambda>_. Inr []) sample_recap_db) utc_calendar (\<lambda>_. None) (Some 8192) sample_call
     (\<lambda>_. False) 5 sample_report_config = Inr (finish_report SinglePass [sample_group] 1 2 False 1 (lit ''done'') [1, 2])"
proof -
  let ?st = "sqlite_reports sample_frames2 (\<lambda>_. Inr []) sample_recap_db" and ?frames = "session_frames_meta 5 sample_recap_db"
  have "get_session 5 sample_recap_db \<noteq> None" by (simp add: get_session_def sample_recap_db_def session_row_def)
  then obtain se where se: "get_session 5 sample_recap_db = Some se" by blast
  have w: "recap_window se ?frames = (100, 201)"
    by (simp add: recap_window_def sample_recap_frames last_opt_def sat_add64_def sat_i64_def i64_min_def i64_max_def)
  have g: "grid_size 100 201 max_periods = Suc 0" by (simp add: grid_size_def day_ms_def as_u32_def clamp_def max_periods_def)
  have b: "session_buckets ?frames 100 201 (Suc 0) = [\<lparr>tb_start = 100, tb_end = 201, tb_count = 2\<rparr>]"
  proof -
    have s: "sat_sub64 100 100 = 0" "sat_sub64 200 100 = 100" "sat_mul64 0 101 = 0" "sat_add64 100 0 = 100" "sat_add64 100 101 = 201" "in_i64 101"
      by (simp_all add: sat_sub64_def sat_mul64_def sat_add64_def sat_i64_def i64_min_def i64_max_def in_i64_def)
    have w: "bucket_width 101 1 = 101" by (simp add: bucket_width_def)
    show ?thesis by (simp add: session_buckets_def sample_recap_frames s w clamp_def group_buckets_def)
  qed
  have q: "plan_depth [2] 30 150 = [2]" by (simp add: plan_depth_def as_u32_def min_frames_per_period_def)
  have sm: "sample_session_bucket ?frames 100 201 2 = [\<lparr>ev_frame_id = 1, ev_captured_at = 100\<rparr>, \<lparr>ev_frame_id = 2, ev_captured_at = 200\<rparr>]"
    by (simp add: sample_session_bucket_def sample_recap_frames evidence_of_def numeral_2_eq_2)
  have tx: "ocr_texts sample_frames2 [1, 2] 1 = Some (lit ''text'')" "ocr_texts sample_frames2 [1, 2] 2 = Some (lit ''text'')"
    by (simp_all add: ocr_texts_def sample_frames2_def sample_stored_frame_def List.map_filter_simps)
  have l: "lit ''day '' @ display_int 1 = lit ''day 1''" by (simp add: display_int_def digits_of.simps)
  have ev: "coverage_groups ?st utc_calendar sample_report_config CustomRange None (SessionScope ?frames) 100 201 = Inr ([sample_group], 1, 2)"
    by (simp add: coverage_groups_def coverage_buckets_def sqlite_reports_def g b q sample_report_config_def sample_period_def sm
        tx List.map_filter_simps period_group_app evidence_chunk_def trim_text sample_chunk_def period_label_def day_ms_def l Let_def
        del: lit_Cons lit_Nil) (simp_all)
  let ?ins = "final_instruction (\<lambda>_. None) CustomRange None 100 201"
  have "length ?ins \<le> 100" by (simp add: final_instruction_def length_lit Let_def del: lit_Cons)
  then have ps: "pass sample_call (\<lambda>_. False) 0 final_system_prompt ?ins [sample_chunk 1 100, sample_chunk 2 200] = Inr (lit ''done'', [1, 2])"
    unfolding pass_def using sample_summary by simp
  have srt: "sort_key rc_captured_at [sample_chunk 1 100, sample_chunk 2 200] = [sample_chunk 1 100, sample_chunk 2 200]"
    by (simp add: sample_chunk_def)
  have rb: "rg_reply_budget sample_report_config = 100" by (simp add: sample_report_config_def)
  have "rs_session ?st 5 = Some se" "rs_session_frames ?st 5 = ?frames" by (simp_all add: sqlite_reports_def se)
  then show ?thesis
    by (simp add: generate_session_recap_def w generate_report_scoped_def report_prompt_def report_evidence_def ev rb sample_fitted
        single_pass_report_def srt ps Let_def numeral_2_eq_2 del: sort_key_simps lit_Cons)
qed

theorem recap_cites_own_frames_witness:
  "\<exists>out. generate_session_recap (sqlite_reports sample_frames2 (\<lambda>_. Inr []) sample_recap_db) utc_calendar (\<lambda>_. None) (Some 8192) sample_call
     (\<lambda>_. False) 5 sample_report_config = Inr out \<and> set (ro_frame_ids out) = {1, 2}
     \<and> set (ro_frame_ids out) \<subseteq> sf_id ` set (session_frames_meta 5 sample_recap_db)"
  using recap_cites_own_frames [OF sample_recap] sample_recap sample_report_output(1) by auto

end
