(* ===== verification/Sse.thy ===== *)
theory Sse
  imports Streams
begin

text \<open>
  Server-sent events on both ends: the client of the model sidecar (\<open>SidecarClient::stream\<close> and
  \<open>handle_sse_line\<close>, \<open>crates/inference/src/client.rs\<close>), and the line buffer and answer aggregator of the MCP
  bridge (\<open>crates/mcp/src/sse.rs\<close>). JSON parsing (\<open>serde_json\<close>) is a parameter; the parsed value is a datatype with
  the constructors of \<open>serde_json::Value\<close>.
\<close>

section \<open>JSON values\<close>

datatype json = JNull | JBool bool | JInt int | JReal rat | JStr ustr | JArr "json list" | JObj "(ustr \<times> json) list"

definition json_get :: "ustr \<Rightarrow> json \<Rightarrow> json option" where
  "json_get k v = (case v of JObj kvs \<Rightarrow> map_of kvs k | _ \<Rightarrow> None)"

definition as_str :: "json \<Rightarrow> ustr option" where
  "as_str v = (case v of JStr s \<Rightarrow> Some s | _ \<Rightarrow> None)"

definition as_i64 :: "json \<Rightarrow> int option" where
  "as_i64 v = (case v of JInt i \<Rightarrow> if in_i64 i then Some i else None | _ \<Rightarrow> None)"

section \<open>Lines\<close>

text \<open>The scan of \<open>SseLineBuffer::push\<close>: \<open>cur\<close> is \<open>buf[start..pos]\<close>.\<close>

fun scan_lines :: "byte list \<Rightarrow> byte list \<Rightarrow> byte list list \<times> byte list" where
  "scan_lines cur [] = ([], cur)"
| "scan_lines cur (b # bs) =
     (if b = 10 then (let (ls, rest) = scan_lines [] bs in (strip_cr cur # ls, rest)) else scan_lines (cur @ [b]) bs)"

definition lines_push :: "byte list \<Rightarrow> byte list \<Rightarrow> ustr list \<times> byte list" where
  "lines_push buf piece = (let (ls, rest) = scan_lines [] (buf @ piece) in (map from_utf8_lossy ls, rest))"

definition lines_finish :: "byte list \<Rightarrow> ustr list" where
  "lines_finish buf = (if buf = [] then [] else [from_utf8_lossy (strip_cr buf)])"

lemma split_on_nonsep: "list_all (\<lambda>c. \<not> P c) a \<Longrightarrow> split_on P (a @ b) = (a @ hd (split_on P b)) # tl (split_on P b)"
  by (induction a) (auto split: list.splits)

lemma split_on_whole:
  "split_on P (a @ b) = butlast (split_on P a) @ split_on P (last (split_on P a) @ b)"
proof (induction a)
  case (Cons c a)
  show ?case
  proof (cases "P c")
    case True
    with Cons show ?thesis by simp
  next
    case False
    obtain w ws where w: "split_on P a = w # ws" by (cases "split_on P a") auto
    show ?thesis
    proof (cases "ws = []")
      case True
      obtain v vs where "split_on P (w @ b) = v # vs" by (cases "split_on P (w @ b)") auto
      with Cons w False True show ?thesis by simp
    next
      case ws: False
      with Cons w False show ?thesis by simp
    qed
  qed
qed simp

lemma scan_lines_split:
  "10 \<notin> set cur \<Longrightarrow> scan_lines cur bs
     = (map strip_cr (butlast (split_on (\<lambda>c. c = 10) (cur @ bs))), last (split_on (\<lambda>c. c = 10) (cur @ bs)))"
proof (induction cur bs rule: scan_lines.induct)
  case (1 cur)
  then have "split_on (\<lambda>c. c = 10) (cur @ []) = [cur]"
    by (subst split_on_nonsep) (auto simp: list_all_iff)
  then show ?case by simp
next
  case (2 cur b bs)
  show ?case
  proof (cases "b = 10")
    case True
    have "split_on (\<lambda>c. c = 10) (cur @ b # bs) = cur # split_on (\<lambda>c. c = 10) bs"
      using 2(3) True by (subst split_on_nonsep) (auto simp: list_all_iff)
    with 2(1) True show ?thesis by (auto split: prod.splits)
  next
    case False
    with 2 show ?thesis by auto
  qed
qed

lemma last_split_on: "c \<in> set (last (split_on P s)) \<Longrightarrow> \<not> P c"
  by (induction s arbitrary: c) (auto split: list.splits if_splits)

lemma split_on_last: "list_all (\<lambda>c. \<not> P c) s \<Longrightarrow> split_on P s = [s]"
  using split_on_nonsep [of P s "[]"] by simp

text \<open>The reference: the text of the lines of the whole byte stream, an unterminated rest included.\<close>

definition stream_lines :: "byte list \<Rightarrow> ustr list" where
  "stream_lines bs = (let ps = split_on (\<lambda>c. c = 10) bs
     in map (\<lambda>w. from_utf8_lossy (strip_cr w)) (butlast ps) @ lines_finish (last ps))"

lemma stream_lines_step:
  "stream_lines (a @ rest) = map (\<lambda>w. from_utf8_lossy (strip_cr w)) (butlast (split_on (\<lambda>c. c = 10) a))
     @ stream_lines (last (split_on (\<lambda>c. c = 10) a) @ rest)"
  by (simp add: stream_lines_def Let_def split_on_whole [of _ a rest] butlast_append)

interpretation sse_lines: stream_parser lines_push lines_finish "\<lambda>ls. ls" "\<lambda>buf. 10 \<notin> set buf" "\<lambda>buf bs. stream_lines (buf @ bs)"
proof
  fix s x out s' rest
  assume p: "lines_push s x = (out, s')"
  have sc: "scan_lines [] (s @ x) = (map strip_cr (butlast (split_on (\<lambda>c. c = 10) (s @ x))), last (split_on (\<lambda>c. c = 10) (s @ x)))"
    using scan_lines_split [of "[]"] by simp
  show "10 \<notin> set s'" using p last_split_on [of 10 "\<lambda>c. c = 10"] by (auto simp: lines_push_def sc)
  show "stream_lines (s @ x @ rest) = out @ stream_lines (s' @ rest)"
    using p stream_lines_step [of "s @ x" rest] by (simp add: lines_push_def sc comp_def)
next
  fix s :: "byte list"
  assume "10 \<notin> set s"
  then have "split_on (\<lambda>c. c = 10) s = [s]" by (intro split_on_last) (auto simp: list_all_iff)
  then show "lines_finish s = stream_lines (s @ [])" by (simp add: stream_lines_def)
qed simp

text \<open>However the bytes of an event stream are cut into pieces, inside a line or inside a character, the bridge reads the same
  lines: those of the whole stream, without their line ends, the unterminated last one included.\<close>

theorem sse_lines_cut_independent:
  assumes "feed_all lines_push [] pieces = (ls, rest)"
  shows "ls @ lines_finish rest = stream_lines (concat pieces)"
  using sse_lines.whole_stream [OF _ assms] by simp

theorem sse_lines_cut_independent_witness:
  "fst (feed_all lines_push [] [[104, 195], [169, 13], [10, 111]]) @ lines_finish (snd (feed_all lines_push [] [[104, 195], [169, 13], [10, 111]]))
     = [[104, 233], [111]]"
proof -
  obtain ls rest where f: "feed_all lines_push [] [[104, 195], [169, 13], [10, 111]] = (ls, rest)" by fastforce
  have "stream_lines (concat [[104, 195], [169, 13], [10, 111]]) = [[104, 233], [111]]"
    by (simp add: stream_lines_def strip_cr_def lines_finish_def decode_char_def cont_def)
  with sse_lines_cut_independent [OF f] show ?thesis by (simp only: f fst_conv snd_conv)
qed

section \<open>The answer aggregator\<close>

datatype flow = Continue | Done | Failed ustr

record ask_aggregator =
  ag_answer :: ustr
  ag_citations :: "int list"
  ag_tokens_seen :: bool

definition ask_start :: ask_aggregator where
  "ask_start = \<lparr>ag_answer = [], ag_citations = [], ag_tokens_seen = False\<rparr>"

definition feed_value :: "json \<Rightarrow> ask_aggregator \<Rightarrow> flow \<times> ask_aggregator" where
  "feed_value v agg =
     (let ty = Option.bind (json_get (lit ''type'') v) as_str
      in if ty = Some (lit ''token'') then
           (Continue, case Option.bind (json_get (lit ''text'') v) as_str of
              Some t \<Rightarrow> agg\<lparr>ag_answer := ag_answer agg @ t, ag_tokens_seen := True\<rparr> | None \<Rightarrow> agg)
         else if ty = Some (lit ''citation'') then
           (Continue, case Option.bind (json_get (lit ''frame_id'') v) as_i64 of
              Some i \<Rightarrow> if i \<in> set (ag_citations agg) then agg else agg\<lparr>ag_citations := ag_citations agg @ [i]\<rparr>
            | None \<Rightarrow> agg)
         else if ty = Some (lit ''thinking'') then (Continue, agg)
         else if ty = Some (lit ''done'') then (Done, agg)
         else if ty = Some (lit ''error'') then
           (Failed (case Option.bind (json_get (lit ''message'') v) as_str of
              Some m \<Rightarrow> m | None \<Rightarrow> lit ''the answer stream reported an error''), agg)
         else (Continue, agg))"

definition feed :: "(ustr \<Rightarrow> json option) \<Rightarrow> ustr \<Rightarrow> ask_aggregator \<Rightarrow> flow \<times> ask_aggregator" where
  "feed parse raw agg =
     (let line = trim_end raw
      in if line = [] \<or> starts_with line (lit '':'') then (Continue, agg)
         else (case strip_prefix line (lit ''data:'') of
             None \<Rightarrow> (Continue, agg)
           | Some rest \<Rightarrow> (case parse (trim_start rest) of
                 None \<Rightarrow> (Continue, agg)
               | Some v \<Rightarrow> feed_value v agg)))"

end
