(* ===== verification/Sidecar_Client.thy ===== *)
theory Sidecar_Client
  imports Answer Sse
begin

text \<open>
  The streaming client of the model sidecar (\<open>SidecarClient::stream\<close>, \<open>handle_sse_line\<close> of
  \<open>crates/inference/src/client.rs\<close>), as the model of the answer lane.
\<close>

section \<open>Reading the sidecar's stream\<close>

text \<open>A parsed chunk is the deltas of its choices: reasoning and content. \<open>parse\<close> is \<open>serde_json::from_str\<close>.\<close>

type_synonym chunk_parser = "ustr \<Rightarrow> (ustr option \<times> ustr option) list option"

definition some_text :: "(ustr \<Rightarrow> stream_piece) \<Rightarrow> ustr option \<Rightarrow> stream_piece list" where
  "some_text f v = (case v of None \<Rightarrow> [] | Some s \<Rightarrow> if s = [] then [] else [f s])"

definition handle_sse_line :: "chunk_parser \<Rightarrow> ustr \<Rightarrow> stream_piece list \<times> bool" where
  "handle_sse_line parse line = (case strip_prefix line (lit ''data:'') of
     None \<Rightarrow> ([], False)
   | Some rest \<Rightarrow>
       (let data = trim rest
        in if data = [] then ([], False)
           else if data = lit ''[DONE]'' then ([DonePiece], True)
           else (case parse data of
               None \<Rightarrow> ([], False)
             | Some choices \<Rightarrow> (case first_opt choices of
                   None \<Rightarrow> ([], False)
                 | Some (r, c) \<Rightarrow> (some_text Reasoning r @ some_text ContentPiece c, False)))))"

function client_lines :: "chunk_parser \<Rightarrow> byte list \<Rightarrow> stream_piece list \<times> bool \<times> byte list" where
  "client_lines parse buf = (case split_once buf [10] of
     None \<Rightarrow> ([], False, buf)
   | Some (line, rest) \<Rightarrow>
       (case handle_sse_line parse (trim_end (from_utf8_lossy (line @ [10]))) of
          (ps, is_done) \<Rightarrow> if is_done then (ps, True, rest)
            else (case client_lines parse rest of (qs, st) \<Rightarrow> (ps @ qs, st))))"
  by pat_completeness auto
termination
  by (relation "measure (\<lambda>(_, buf). length buf)") (auto dest: split_once_parts)

declare client_lines.simps [simp del]

text \<open>The state is whether \<open>[DONE]\<close> was read, after which the function has returned, and the bytes of the open line.\<close>

definition client_push :: "chunk_parser \<Rightarrow> bool \<times> byte list \<Rightarrow> byte list \<Rightarrow> stream_piece list \<times> bool \<times> byte list" where
  "client_push parse st piece = (if fst st then ([], st) else client_lines parse (snd st @ piece))"

definition client_finish :: "bool \<times> byte list \<Rightarrow> stream_piece list" where
  "client_finish st = (if fst st then [] else [DonePiece])"

text \<open>The whole function, on what the body yields: \<open>Inl\<close> a chunk that failed or timed out.\<close>

fun client_stream :: "chunk_parser \<Rightarrow> bool \<times> byte list \<Rightarrow> (ustr + byte list) list \<Rightarrow> stream_piece list \<times> (ustr + unit)" where
  "client_stream parse st [] = (client_finish st, Inr ())"
| "client_stream parse st (Inl e # evs) = (if fst st then ([], Inr ()) else ([], Inl e))"
| "client_stream parse st (Inr piece # evs) =
     (if fst st then ([], Inr ())
      else (case client_push parse st piece of (ps, st1) \<Rightarrow>
              (case client_stream parse st1 evs of (qs, r) \<Rightarrow> (ps @ qs, r))))"

text \<open>The model that the answer lane talks to: what a server streams for a request, as the pump sees it.\<close>

definition served_model :: "chunk_parser \<Rightarrow> (chat_message list \<Rightarrow> nat \<Rightarrow> (ustr + byte list) list) \<Rightarrow> answer_model" where
  "served_model parse server msgs m =
     (case client_stream parse (False, []) (server msgs m) of (ps, task) \<Rightarrow> (map Piece ps, task))"

section \<open>The sidecar's stream is read as a whole\<close>

text \<open>The reference: the complete lines in order, up to the terminator, and one done.\<close>

fun line_pieces :: "chunk_parser \<Rightarrow> byte list list \<Rightarrow> stream_piece list" where
  "line_pieces parse [] = [DonePiece]"
| "line_pieces parse (l # ls) =
     (case handle_sse_line parse (trim_end (from_utf8_lossy (l @ [10]))) of
        (ps, is_done) \<Rightarrow> if is_done then ps else ps @ line_pieces parse ls)"

definition complete_lines :: "byte list \<Rightarrow> byte list list" where
  "complete_lines bs = butlast (split_on (\<lambda>c. c = 10) bs)"

lemma split_once_newline:
  "split_once s [10] = None \<longleftrightarrow> split_on (\<lambda>c. c = 10) s = [s]"
  "split_once s [10] = Some (a, b) \<Longrightarrow> split_on (\<lambda>c. c = 10) s = a # split_on (\<lambda>c. c = 10) b"
proof -
  have "split_once s [10] = None \<longleftrightarrow> 10 \<notin> set s"
    by (induction s) (auto simp: prefix_def)
  moreover have "split_on (\<lambda>c. c = 10) s = [s] \<longleftrightarrow> 10 \<notin> set s"
  proof
    show "10 \<notin> set s" if "split_on (\<lambda>c. c = 10) s = [s]"
      using last_split_on [of 10 "\<lambda>c. c = 10" s] that by auto
    show "split_on (\<lambda>c. c = 10) s = [s]" if "10 \<notin> set s" using that by (intro split_on_last) (auto simp: list_all_iff)
  qed
  ultimately show "split_once s [10] = None \<longleftrightarrow> split_on (\<lambda>c. c = 10) s = [s]" by simp
  show "split_on (\<lambda>c. c = 10) s = a # split_on (\<lambda>c. c = 10) b" if "split_once s [10] = Some (a, b)"
    using that by (induction s arbitrary: a) (auto simp: prefix_def split: if_splits)
qed

lemma client_lines_meaning:
  "client_lines parse buf = (ps, st) \<Longrightarrow> line_pieces parse (complete_lines (buf @ rest))
     = ps @ (if fst st then [] else line_pieces parse (complete_lines (snd st @ rest)))"
proof (induction parse buf arbitrary: ps st rule: client_lines.induct)
  case (1 parse buf)
  show ?case
  proof (cases "split_once buf [10]")
    case None
    with 1(2) show ?thesis by (auto simp: client_lines.simps)
  next
    case (Some p)
    obtain line more where p: "p = (line, more)" by fastforce
    obtain qs is_done where h: "handle_sse_line parse (trim_end (from_utf8_lossy (line @ [10]))) = (qs, is_done)" by fastforce
    obtain ps2 st2 where r: "client_lines parse more = (ps2, st2)" by (cases "client_lines parse more")
    have "buf @ rest = line @ 10 # (more @ rest)" using split_once_parts Some p by fastforce
    moreover have "list_all (\<lambda>c. c \<noteq> 10) line"
      using split_once_first [OF Some [unfolded p]] by (force simp: list_all_iff in_set_conv_nth prefix_def Cons_nth_drop_Suc [symmetric] split_once_parts [OF Some [unfolded p]])
    ultimately have c: "complete_lines (buf @ rest) = line # complete_lines (more @ rest)"
      by (simp add: complete_lines_def split_on_nonsep)
    show ?thesis
    proof (cases is_done)
      case True
      with 1(2) Some p h show ?thesis by (auto simp: client_lines.simps [of parse buf] c)
    next
      case False
      with 1(2) Some p h r have "ps = qs @ ps2" "st = st2" by (auto simp: client_lines.simps [of parse buf])
      with 1(1) [OF Some [unfolded p] refl h [symmetric] False r] show ?thesis by (simp add: c h False)
    qed
  qed
qed

lemma client_lines_rest:
  "client_lines parse buf = (ps, st) \<Longrightarrow> fst st \<or> 10 \<notin> set (snd st)"
proof (induction parse buf arbitrary: ps st rule: client_lines.induct)
  case (1 parse buf)
  show ?case
  proof (cases "split_once buf [10]")
    case None
    then have "10 \<notin> set buf" using last_split_on [of 10 "\<lambda>c. c = 10" buf] by (auto simp: split_once_newline(1))
    with 1(2) None show ?thesis by (auto simp: client_lines.simps)
  next
    case (Some p)
    obtain line more where p: "p = (line, more)" by fastforce
    obtain qs is_done where h: "handle_sse_line parse (trim_end (from_utf8_lossy (line @ [10]))) = (qs, is_done)" by fastforce
    obtain ps2 st2 where r: "client_lines parse more = (ps2, st2)" by (cases "client_lines parse more")
    show ?thesis
    proof (cases is_done)
      case True
      with 1(2) Some p h show ?thesis by (auto simp: client_lines.simps [of parse buf])
    next
      case False
      with 1(2) Some p h r have "st = st2" by (auto simp: client_lines.simps [of parse buf])
      with 1(1) [OF Some [unfolded p] refl h [symmetric] False r] show ?thesis by simp
    qed
  qed
qed

interpretation sidecar: stream_parser "client_push parse" client_finish "\<lambda>ps. ps" "\<lambda>st. fst st \<or> 10 \<notin> set (snd st)"
    "\<lambda>st bs. if fst st then [] else line_pieces parse (complete_lines (snd st @ bs))" for parse
proof
  fix s x out s' rest
  assume p: "client_push parse s x = (out, s')"
  then show "fst s' \<or> 10 \<notin> set (snd s')"
    using client_lines_rest [of parse "snd s @ x" out s'] by (cases "fst s") (auto simp: client_push_def)
  show "(if fst s then [] else line_pieces parse (complete_lines (snd s @ x @ rest)))
      = out @ (if fst s' then [] else line_pieces parse (complete_lines (snd s' @ rest)))"
    using p client_lines_meaning [of parse "snd s @ x" out s' rest] by (cases "fst s") (auto simp: client_push_def)
next
  fix s :: "bool \<times> byte list"
  assume "fst s \<or> 10 \<notin> set (snd s)"
  moreover have "split_on (\<lambda>c. c = 10) (snd s) = [snd s]" if "10 \<notin> set (snd s)"
    using that by (intro split_on_last) (auto simp: list_all_iff)
  ultimately show "client_finish s = (if fst s then [] else line_pieces parse (complete_lines (snd s @ [])))"
    by (auto simp: client_finish_def complete_lines_def)
qed simp

lemma client_stream_feed:
  "client_stream parse st (map Inr pieces)
     = (fst (feed_all (client_push parse) st pieces) @ client_finish (snd (feed_all (client_push parse) st pieces)), Inr ())"
proof (induction pieces arbitrary: st)
  case (Cons piece pieces)
  have d: "feed_all (client_push parse) st ps = ([], st)" if "fst st" for ps
    using that by (induction ps) (simp_all add: client_push_def)
  show ?case
  proof (cases "fst st")
    case True
    then show ?thesis using d [OF True, of "piece # pieces"] by (simp add: client_finish_def)
  next
    case False
    then show ?thesis using Cons by (auto split: prod.splits)
  qed
qed simp

lemma client_stream_lines:
  "client_stream parse (False, []) (map Inr pieces) = (line_pieces parse (complete_lines (concat pieces)), Inr ())"
proof -
  obtain outs st where f: "feed_all (client_push parse) (False, []) pieces = (outs, st)" by (cases "feed_all (client_push parse) (False, []) pieces")
  from sidecar.whole_stream [OF _ f] show ?thesis by (simp add: client_stream_feed f)
qed

text \<open>The rest after the last line feed is not read, whatever it says.\<close>

lemma unterminated_line_dropped: "10 \<notin> set bs \<Longrightarrow> client_stream parse (False, []) [Inr bs] = ([DonePiece], Inr ())"
  using client_stream_lines [of parse "[bs]"] split_on_last [of "\<lambda>c. c = 10" bs]
  by (simp add: complete_lines_def list_all_iff) fastforce

text \<open>The answer does not depend on how the network cut the model's reply: two replies with the same bytes give the consumer the
  same answer text, the same citations and the same end, from the byte stream through the lines, the deltas and the
  thinking tags.\<close>

theorem answer_network_independent:
  assumes b: "build_messages query cs ctx m = (msgs, cited)" and m: "m = effective_reply_budget max_tokens ctx"
    and s1: "server1 msgs m = map Inr pieces1" and s2: "server2 msgs m = map Inr pieces2" and same: "concat pieces1 = concat pieces2"
  shows "\<exists>body1 body2. list_all (body_delta thinking) (body1 @ body2) \<and> delta_text body1 = delta_text body2
    \<and> sk_deltas (answer (Inr ctx) (served_model parse server1) query cs thinking max_tokens \<lparr>sk_deltas = [], sk_room = None\<rparr>)
        = body1 @ map Citation cited @ [DoneDelta]
    \<and> sk_deltas (answer (Inr ctx) (served_model parse server2) query cs thinking max_tokens \<lparr>sk_deltas = [], sk_room = None\<rparr>)
        = body2 @ map Citation cited @ [DoneDelta]"
proof -
  have g: "\<exists>body. sk_deltas (answer (Inr ctx) (served_model parse server) query cs thinking max_tokens \<lparr>sk_deltas = [], sk_room = None\<rparr>)
        = body @ map Citation cited @ [DoneDelta] \<and> list_all (body_delta thinking) body
      \<and> delta_text body = said (tag_chars False (concat (contents (line_pieces parse (complete_lines (concat pieces))))))"
    if "server msgs m = map Inr pieces" for server pieces
  proof -
    have "served_model parse server msgs m = (map Piece (line_pieces parse (complete_lines (concat pieces))), Inr ())"
      by (simp add: served_model_def that client_stream_lines)
    from answer_stream_body [where model = "served_model parse server", OF b m this, of thinking] show ?thesis by simp
  qed
  from g [where server = server1, OF s1] g [where server = server2, OF s2] show ?thesis unfolding same by auto
qed

theorem answer_network_independent_witness:
  "\<exists>body1 body2. delta_text body1 = delta_text body2
    \<and> sk_deltas (answer (Inr 512) (served_model (\<lambda>d. Some [(None, Some d)]) (\<lambda>_ _. [Inr [100, 97, 116, 97, 58, 104], Inr [105, 10]]))
         (lit ''q'') [] True 64 \<lparr>sk_deltas = [], sk_room = None\<rparr>) = body1 @ [DoneDelta]
    \<and> sk_deltas (answer (Inr 512) (served_model (\<lambda>d. Some [(None, Some d)]) (\<lambda>_ _. [Inr [100, 97, 116, 97, 58, 104, 105, 10]]))
         (lit ''q'') [] True 64 \<lparr>sk_deltas = [], sk_room = None\<rparr>) = body2 @ [DoneDelta]"
proof -
  obtain msgs where c: "build_messages (lit ''q'') [] 512 (effective_reply_budget 64 512) = (msgs, [])"
    by (simp add: build_messages_def pack_context_def Let_def)
  from answer_network_independent [OF c refl, of "\<lambda>_ _. [Inr [100, 97, 116, 97, 58, 104], Inr [105, 10]]"
      "[[100, 97, 116, 97, 58, 104], [105, 10]]" "\<lambda>_ _. [Inr [100, 97, 116, 97, 58, 104, 105, 10]]"
      "[[100, 97, 116, 97, 58, 104, 105, 10]]" True "\<lambda>d. Some [(None, Some d)]"] show ?thesis by auto
qed

end
