(* ===== verification/Ask_Bridge.thy ===== *)
theory Ask_Bridge
  imports Answer Sse
begin

text \<open>
  The bridge of an answer to an MCP client: the wire form of \<open>AnswerDelta\<close> (\<open>crates/traits/src/ipc.rs\<close>), the event
  stream of \<open>POST /v1/ask\<close>, and the loop that folds it back (\<open>ApiClient::ask\<close>, \<open>crates/mcp/src/client.rs\<close>).
  \<open>render\<close> and \<open>parse\<close> are \<open>serde_json\<close>'s compact writer and reader.
\<close>

section \<open>The wire form of an answer\<close>

text \<open>\<open>serde(tag = "type", rename_all = "snake_case")\<close>.\<close>

definition delta_json :: "answer_delta \<Rightarrow> json" where
  "delta_json d = JObj (case d of
     Thinking s \<Rightarrow> [(lit ''type'', JStr (lit ''thinking'')), (lit ''text'', JStr s)]
   | Token s \<Rightarrow> [(lit ''type'', JStr (lit ''token'')), (lit ''text'', JStr s)]
   | Citation i \<Rightarrow> [(lit ''type'', JStr (lit ''citation'')), (lit ''frame_id'', JInt i)]
   | DoneDelta \<Rightarrow> [(lit ''type'', JStr (lit ''done''))]
   | ErrorDelta m \<Rightarrow> [(lit ''type'', JStr (lit ''error'')), (lit ''message'', JStr m)])"

text \<open>The body of \<open>/v1/ask\<close>: each delta the provider sent is one event, its payload in a \<open>data:\<close> line and a blank
  line; in between the server may send comments to keep the connection alive (\<open>None\<close>).\<close>

definition event_line :: "(json \<Rightarrow> ustr) \<Rightarrow> answer_delta option \<Rightarrow> ustr" where
  "event_line render ev = (case ev of None \<Rightarrow> lit '':'' | Some d \<Rightarrow> lit ''data: '' @ render (delta_json d))"

definition ask_body :: "(json \<Rightarrow> ustr) \<Rightarrow> answer_delta option list \<Rightarrow> byte list" where
  "ask_body render evs = utf8_encode (concat (map (\<lambda>ev. event_line render ev @ [10, 10]) evs))"

section \<open>The bridge's loop\<close>

record ask_outcome =
  ao_answer :: ustr
  ao_citations :: "int list"
  ao_done :: bool
  ao_tokens_seen :: bool

fun feed_until :: "(ustr \<Rightarrow> json option) \<Rightarrow> ustr list \<Rightarrow> ask_aggregator \<Rightarrow> flow \<times> ask_aggregator" where
  "feed_until parse [] agg = (Continue, agg)"
| "feed_until parse (l # ls) agg = (case feed parse l agg of
     (Continue, agg1) \<Rightarrow> feed_until parse ls agg1
   | stop \<Rightarrow> stop)"

definition ask_end :: "flow \<times> ask_aggregator \<Rightarrow> ustr + ask_outcome" where
  "ask_end r = (case r of
     (Failed m, agg) \<Rightarrow> Inl m
   | (f, agg) \<Rightarrow> Inr \<lparr>ao_answer = ag_answer agg, ao_citations = ag_citations agg, ao_done = (f = Done), ao_tokens_seen = ag_tokens_seen agg\<rparr>)"

fun ask_loop :: "(ustr \<Rightarrow> json option) \<Rightarrow> (ustr + byte list) list \<Rightarrow> byte list \<Rightarrow> ask_aggregator \<Rightarrow> ustr + ask_outcome" where
  "ask_loop parse [] buf agg = ask_end (feed_until parse (lines_finish buf) agg)"
| "ask_loop parse (Inl e # evs) buf agg = Inl e"
| "ask_loop parse (Inr piece # evs) buf agg =
     (case lines_push buf piece of (ls, buf1) \<Rightarrow>
        (case feed_until parse ls agg of
           (Continue, agg1) \<Rightarrow> ask_loop parse evs buf1 agg1
         | stop \<Rightarrow> ask_end stop))"

section \<open>The bridge reads what the answer lane wrote\<close>

lemma feed_until_append:
  "feed_until parse (a @ b) agg = (case feed_until parse a agg of (Continue, agg1) \<Rightarrow> feed_until parse b agg1 | stop \<Rightarrow> stop)"
  by (induction a arbitrary: agg) (auto split: prod.splits flow.splits)

lemma ask_loop_whole:
  "ask_loop parse (map Inr pieces) buf agg
     = ask_end (feed_until parse (fst (feed_all lines_push buf pieces) @ lines_finish (snd (feed_all lines_push buf pieces))) agg)"
proof (induction pieces arbitrary: buf agg)
  case (Cons piece pieces)
  then show ?case by (auto simp: feed_until_append split: prod.splits flow.splits)
qed (simp add: feed_until_append)

lemma ask_loop_lines:
  "ask_loop parse (map Inr pieces) [] agg = ask_end (feed_until parse (stream_lines (concat pieces)) agg)"
proof -
  obtain ls rest where f: "feed_all lines_push [] pieces = (ls, rest)" by fastforce
  from sse_lines.whole_stream [OF _ f] show ?thesis by (simp add: ask_loop_whole f)
qed

text \<open>What \<open>serde_json\<close> documents of its compact form: it can be read back, and an object is written on one line between
  braces, in Unicode scalar values.\<close>

definition compact_json :: "(json \<Rightarrow> ustr) \<Rightarrow> (ustr \<Rightarrow> json option) \<Rightarrow> json \<Rightarrow> bool" where
  "compact_json render parse v \<longleftrightarrow> parse (render v) = Some v \<and> 10 \<notin> set (render v) \<and> list_all scalar (render v)
     \<and> (\<exists>m. render v = [123] @ m @ [125])"

lemma utf8_encode_append [simp]: "utf8_encode (s @ t) = utf8_encode s @ utf8_encode t"
  by (simp add: utf8_encode_def)

lemma utf8_encode_no_newline: "10 \<notin> set s \<Longrightarrow> list_all scalar s \<Longrightarrow> 10 \<notin> set (utf8_encode s)"
proof (induction s)
  case (Cons c s)
  have "0 \<le> c" using Cons.prems(2) by (auto simp: scalar_def)
  then have "0 \<le> c div 64" "0 \<le> c div 4096" "0 \<le> c div 262144" "0 \<le> c mod 64" "0 \<le> c div 64 mod 64" "0 \<le> c div 4096 mod 64"
    by (simp_all add: pos_imp_zdiv_nonneg_iff)
  then have "10 \<notin> set (utf8_char c)" using Cons.prems(1) by (auto simp: utf8_char_def)
  with Cons show ?case by (simp add: utf8_encode_def)
qed (simp add: utf8_encode_def)

lemma stream_lines_line:
  assumes "10 \<notin> set s" "list_all scalar s" "s = [] \<or> last s \<noteq> 13"
  shows "stream_lines (utf8_encode (s @ [10]) @ rest) = s # stream_lines rest"
proof -
  have n: "list_all (\<lambda>c. c \<noteq> 10) (utf8_encode s)" using utf8_encode_no_newline [OF assms(1,2)] by (auto simp: list_all_iff)
  have cr: "strip_cr (utf8_encode s) = utf8_encode s"
  proof (cases s rule: rev_cases)
    case (snoc t c)
    have "128 + c mod 64 \<noteq> 13" using pos_mod_sign [of 64 c] by linarith
    moreover have "c \<noteq> 13" using assms(3) by (simp add: snoc)
    ultimately have "last (utf8_char c) \<noteq> 13" "utf8_char c \<noteq> []" unfolding utf8_char_def by simp_all
    then show ?thesis by (simp add: snoc utf8_encode_def strip_cr_def)
  qed (simp add: utf8_encode_def strip_cr_def)
  have "split_on (\<lambda>c. c = 10) (utf8_encode s @ 10 # rest) = utf8_encode s # split_on (\<lambda>c. c = 10) rest"
    using n by (subst split_on_nonsep) simp_all
  moreover have "utf8_encode [10] = [10]" by (simp add: utf8_encode_def utf8_char_def)
  ultimately show ?thesis using assms(2) by (simp add: stream_lines_def Let_def cr from_utf8_lossy_encode)
qed

definition ends_answer :: "answer_delta \<Rightarrow> bool" where
  "ends_answer d = (case d of DoneDelta \<Rightarrow> True | ErrorDelta _ \<Rightarrow> True | _ \<Rightarrow> False)"

definition feed_delta :: "answer_delta \<Rightarrow> ask_aggregator \<Rightarrow> flow \<times> ask_aggregator" where
  "feed_delta d agg = (case d of
     Token t \<Rightarrow> (Continue, agg\<lparr>ag_answer := ag_answer agg @ t, ag_tokens_seen := True\<rparr>)
   | Citation i \<Rightarrow> (Continue, agg\<lparr>ag_citations := include_id (ag_citations agg) i\<rparr>)
   | Thinking _ \<Rightarrow> (Continue, agg)
   | DoneDelta \<Rightarrow> (Done, agg)
   | ErrorDelta m \<Rightarrow> (Failed m, agg))"

lemma lit_inject: "lit s = lit t \<longleftrightarrow> s = t"
  unfolding lit_def by (rule inj_map_eq_map) (simp add: inj_def)

lemma feed_value_delta:
  assumes "\<And>i. d = Citation i \<Longrightarrow> in_i64 i"
  shows "feed_value (delta_json d) agg = feed_delta d agg"
  using assms by (cases d)
    (simp_all add: feed_value_def feed_delta_def delta_json_def json_get_def as_str_def as_i64_def include_id_def Let_def lit_inject
      del: lit_Cons lit_Nil)

lemma feed_event_line:
  assumes "compact_json render parse (delta_json d)" and "\<And>i. d = Citation i \<Longrightarrow> in_i64 i"
  shows "feed parse (lit ''data: '' @ render (delta_json d)) agg = feed_delta d agg"
proof -
  obtain m where m: "render (delta_json d) = [123] @ m @ [125]" and p: "parse (render (delta_json d)) = Some (delta_json d)"
    using assms(1) unfolding compact_json_def by blast
  have t: "trim_end (lit ''data: '' @ render (delta_json d)) = lit ''data: '' @ render (delta_json d)"
    by (simp add: m trim_end_def is_ws_def)
  have s: "trim_start (32 # render (delta_json d)) = render (delta_json d)" by (simp add: m trim_start_def is_ws_def)
  have c: "strip_prefix (lit ''data: '' @ render (delta_json d)) (lit ''data:'') = Some (32 # render (delta_json d))"
    by (simp add: strip_prefix_def)
  have n: "lit ''data: '' @ render (delta_json d) \<noteq> []" "\<not> starts_with (lit ''data: '' @ render (delta_json d)) (lit '':'')"
    by (simp_all add: starts_with_def)
  show ?thesis unfolding feed_def Let_def t c if_not_P [OF n(1)] using n by (simp only: s p option.case feed_value_delta [OF assms(2)] if_False simp_thms)
qed

lemma event_lines:
  assumes "\<And>d. Some d \<in> set evs \<Longrightarrow> compact_json render parse (delta_json d)"
  shows "stream_lines (ask_body render evs) = concat (map (\<lambda>ev. [event_line render ev, []]) evs)"
  using assms
proof (induction evs)
  case Nil
  show ?case by (simp add: ask_body_def utf8_encode_def stream_lines_def lines_finish_def)
next
  case (Cons ev evs)
  let ?l = "event_line render ev" and ?r = "ask_body render evs"
  have l: "10 \<notin> set ?l" "list_all scalar ?l" "last ?l \<noteq> 13"
  proof -
    have "10 \<notin> set ?l \<and> list_all scalar ?l \<and> last ?l \<noteq> 13"
    proof (cases ev)
      case (Some d)
      then obtain m where m: "render (delta_json d) = [123] @ m @ [125]" and r: "10 \<notin> set (render (delta_json d))" "list_all scalar (render (delta_json d))"
        using Cons.prems [of d] unfolding compact_json_def by auto
      with Some show ?thesis by (simp add: event_line_def scalar_def)
    qed (simp add: event_line_def scalar_def)
    then show "10 \<notin> set ?l" "list_all scalar ?l" "last ?l \<noteq> 13" by simp_all
  qed
  have "ask_body render (ev # evs) = utf8_encode (?l @ [10]) @ utf8_encode ([] @ [10]) @ ?r"
    by (simp add: ask_body_def utf8_encode_def)
  then have "stream_lines (ask_body render (ev # evs)) = ?l # [] # stream_lines ?r"
    using l stream_lines_line [of "[]" ?r] stream_lines_line [of ?l "utf8_encode ([] @ [10]) @ ?r"] by (simp del: utf8_encode_append)
  with Cons show ?case by simp
qed

lemma feed_blank: "feed parse [] agg = (Continue, agg)"
  by (simp add: feed_def trim_end_def)

lemma feed_comment: "feed parse (event_line render None) agg = (Continue, agg)"
  by (simp add: feed_def event_line_def trim_end_def is_ws_def starts_with_def)

definition deltas_of :: "answer_delta option list \<Rightarrow> answer_delta list" where
  "deltas_of evs = List.map_filter (\<lambda>ev. ev) evs"

lemma deltas_of_simps [simp]: "deltas_of [] = []" "deltas_of (None # evs) = deltas_of evs" "deltas_of (Some d # evs) = d # deltas_of evs"
  by (simp_all add: deltas_of_def List.map_filter_simps)

fun after_deltas :: "answer_delta list \<Rightarrow> ask_aggregator \<Rightarrow> flow \<times> ask_aggregator" where
  "after_deltas [] agg = (Continue, agg)"
| "after_deltas (d # ds) agg = (case feed_delta d agg of (Continue, agg1) \<Rightarrow> after_deltas ds agg1 | stop \<Rightarrow> stop)"

lemma feed_events:
  "(\<And>d. Some d \<in> set evs \<Longrightarrow> compact_json render parse (delta_json d)) \<Longrightarrow> (\<And>i. Some (Citation i) \<in> set evs \<Longrightarrow> in_i64 i)
     \<Longrightarrow> feed_until parse (concat (map (\<lambda>ev. [event_line render ev, []]) evs)) agg = after_deltas (deltas_of evs) agg"
proof (induction evs arbitrary: agg)
  case (Cons ev evs)
  have IH: "feed_until parse (concat (map (\<lambda>ev. [event_line render ev, []]) evs)) agg = after_deltas (deltas_of evs) agg" for agg
    using Cons.IH Cons.prems by simp
  show ?case
  proof (cases ev)
    case None
    then show ?thesis using IH by (simp add: feed_comment feed_blank)
  next
    case (Some d)
    have "feed parse (event_line render ev) agg = feed_delta d agg"
      unfolding Some event_line_def option.case by (rule feed_event_line) (use Cons.prems Some in auto)
    then show ?thesis using IH by (auto simp: Some feed_blank split: prod.splits flow.splits)
  qed
qed simp

lemma after_body:
  "list_all (body_delta th) ds \<Longrightarrow> after_deltas (ds @ es) agg
     = after_deltas es \<lparr>ag_answer = ag_answer agg @ delta_text ds, ag_citations = ag_citations agg,
         ag_tokens_seen = (ag_tokens_seen agg \<or> (\<exists>t. Token t \<in> set ds))\<rparr>"
proof (induction ds arbitrary: agg)
  case Nil
  show ?case by (cases agg) (simp add: delta_text_def)
next
  case (Cons d ds)
  then show ?case by (cases d) (auto simp: feed_delta_def body_delta_def delta_text_def ex_disj_distrib)
qed

lemma after_citations:
  "distinct (ag_citations agg @ is) \<Longrightarrow> after_deltas (map Citation is @ es) agg
     = after_deltas es (agg\<lparr>ag_citations := ag_citations agg @ is\<rparr>)"
  by (induction "is" arbitrary: agg) (simp_all add: feed_delta_def include_id_def)

text \<open>C14: From the model to the agent that asked through the bridge: whatever way the network cut the event stream, keep-alive
  comments included, the agent gets exactly the model's text without its reasoning, cites exactly the frames the prompt
  showed, in order, and knows that the answer ended; when the model failed it gets the model's error.\<close>

theorem ask_end_to_end:
  assumes b: "build_messages query cs ctx m = (msgs, cited)" and m: "m = effective_reply_budget max_tokens ctx"
    and model: "model msgs m = (map Piece ps, task)"
    and ds: "deltas_of evs = sk_deltas (answer (Inr ctx) model query cs thinking max_tokens \<lparr>sk_deltas = [], sk_room = None\<rparr>)"
    and json: "\<And>d. Some d \<in> set evs \<Longrightarrow> compact_json render parse (delta_json d)" and ids: "\<And>i. i \<in> set cited \<Longrightarrow> in_i64 i"
    and cut: "concat pieces = ask_body render evs"
  shows "case ask_loop parse (map Inr pieces) [] ask_start of
      Inl e \<Rightarrow> task = Inl e
    | Inr out \<Rightarrow> task = Inr () \<and> ao_answer out = said (tag_chars False (concat (contents ps)))
        \<and> ao_citations out = cited \<and> ao_done out"
proof -
  from answer_stream_body [where model = model, OF b m model] obtain body where body:
    "deltas_of evs = body @ (case task of Inl e \<Rightarrow> [ErrorDelta e] | Inr _ \<Rightarrow> map Citation cited @ [DoneDelta])"
    "list_all (body_delta thinking) body" "delta_text body = said (tag_chars False (concat (contents ps)))"
    unfolding ds by blast
  have d: "distinct cited"
    using pack_context_distinct [of _ cs] b unfolding build_messages_def by (auto simp: Let_def split: prod.splits) (metis snd_conv)
  have mem: "Some d \<in> set evs \<longleftrightarrow> d \<in> set (deltas_of evs)" for d by (simp add: deltas_of_def set_map_filter)
  have i64: "in_i64 i" if "Some (Citation i) \<in> set evs" for i
    using that body(1,2) ids unfolding mem by (auto simp: body_delta_def list_all_iff split: sum.splits)
  have "ask_loop parse (map Inr pieces) [] ask_start = ask_end (after_deltas (deltas_of evs) ask_start)"
    using feed_events [OF json i64] by (simp add: ask_loop_lines cut event_lines [OF json])
  then show ?thesis unfolding body(1) after_body [OF body(2)]
    by (cases task) (simp_all add: after_citations d ask_start_def feed_delta_def ask_end_def body(3))
qed

definition sample_render :: "json \<Rightarrow> ustr" where
  "sample_render v = (if v = delta_json DoneDelta then [123, 125] else [123, 120, 125])"

definition sample_parse :: "ustr \<Rightarrow> json option" where
  "sample_parse s = (if s = [123, 125] then Some (delta_json DoneDelta) else if s = [123, 120, 125] then Some (delta_json (Token (lit ''hi''))) else None)"

lemma sample_compact: "d = DoneDelta \<or> d = Token (lit ''hi'') \<Longrightarrow> compact_json sample_render sample_parse (delta_json d)"
  by (auto simp: compact_json_def sample_render_def sample_parse_def delta_json_def scalar_def)

theorem ask_end_to_end_witness:
  "\<exists>out. ask_loop sample_parse [Inr (ask_body sample_render [Some (Token (lit ''hi'')), None, Some DoneDelta])] [] ask_start = Inr out
     \<and> ao_answer out = lit ''hi'' \<and> ao_citations out = [] \<and> ao_done out"
proof -
  let ?evs = "[Some (Token (lit ''hi'')), None, Some DoneDelta]" and ?ps = "[ContentPiece (lit ''hi''), DonePiece]"
  let ?model = "\<lambda>msgs m. (map Piece ?ps, Inr ())"
  obtain msgs where c: "build_messages (lit ''q'') [] 4096 (effective_reply_budget 100 4096) = (msgs, [])"
    by (simp add: build_messages_def pack_context_def Let_def)
  have p: "think_push think_start (lit ''hi'') = ([(False, lit ''hi'')], think_start)"
    by (simp add: think_push_def think_start_def split_loop.simps think_marker_def partial_marker_suffix_def)
  have ds: "deltas_of ?evs = sk_deltas (answer (Inr 4096) ?model (lit ''q'') [] False 100 \<lparr>sk_deltas = [], sk_room = None\<rparr>)"
    using c p by (simp add: answer_def answer_run_def pump_deltas_def emit_segment_def send_delta_def think_flush_def think_start_def)
  have t: "said (tag_chars False (concat (contents ?ps))) = lit ''hi''"
    by (simp add: tag_chars.simps(2) think_marker_def said_def)
  have out: "case ask_loop sample_parse (map Inr [ask_body sample_render ?evs]) [] ask_start of
      Inl e \<Rightarrow> Inr () = Inl e
    | Inr out \<Rightarrow> Inr () = (Inr () :: ustr + unit) \<and> ao_answer out = said (tag_chars False (concat (contents ?ps))) \<and> ao_citations out = [] \<and> ao_done out"
    by (rule ask_end_to_end [where model = ?model, OF c refl refl ds sample_compact]) auto
  show ?thesis using out t by (cases "ask_loop sample_parse (map Inr [ask_body sample_render ?evs]) [] ask_start") auto
qed

end
