(* ===== verification/Report_Store.thy ===== *)
theory Report_Store
  imports Session_Store
begin

text \<open>
  Durable reports and their deliveries (\<open>crates/store/src/memory.rs\<close>, with the contracts of
  \<open>crates/traits/src/memory.rs\<close> and the tables of \<open>crates/store/src/schema.rs\<close>). A row carries its
  record as a JSON payload beside columns that every statement writes from the same record, so a
  row is its record here; a payload that does not parse, which no statement writes, is left out.
  Each method is one function: its result, and the tables after it (unchanged when the
  transaction is rolled back).
\<close>

section \<open>Contracts\<close>

datatype run_phase = RunQueued | RunRunning | RunBlocked | RunFinished
datatype run_outcome_kind = OutOk | OutPartial | OutNoData | OutBlocked | OutFailed
datatype destination = Vault | Index | Telegram
datatype delivery_state = DPending | DSending | DSucceeded | DConflict | DFailed | DSkipped
  | DUnknown | DReviewed

record run_error =
  re_code :: ustr
  re_message :: ustr

record saved_report =
  sv_markdown :: ustr
  sv_model :: "ustr option"
  sv_frame_ids :: "int list"
  sv_session_ids :: "int list"
  sv_cited_frame_ids :: "int list"
  sv_frames_sampled :: nat
  sv_frames_summarized :: nat
  sv_periods_total :: nat
  sv_periods_covered :: nat
  sv_passes :: nat
  sv_truncated :: bool

record requested_range =
  rq_start_date :: ustr
  rq_end_date :: ustr

record report_run =
  rn_requested_range :: "requested_range option"
  rn_run_id :: ustr
  rn_source_id :: ustr
  rn_schedule_id :: "ustr option"
  rn_revision_of :: "ustr option"
  rn_window_start :: int
  rn_window_end :: int
  rn_timezone :: ustr
  rn_local_date :: ustr
  rn_phase :: run_phase
  rn_outcome :: "run_outcome_kind option"
  rn_error :: "run_error option"
  rn_result :: "saved_report option"
  rn_config_snapshot :: ustr
  rn_created_at :: int
  rn_updated_at :: int

record report_delivery =
  dv_id :: ustr
  dv_run_id :: ustr
  dv_destination :: destination
  dv_state :: delivery_state
  dv_revision_of :: "ustr option"
  dv_destination_snapshot :: ustr
  dv_path :: "ustr option"
  dv_hash :: "ustr option"
  dv_recovery_path :: "ustr option"
  dv_chunk_index :: "nat option"
  dv_chunk_count :: "nat option"
  dv_message_id :: "int option"
  dv_error :: "run_error option"
  dv_next_attempt_at :: "int option"
  dv_attempt :: nat
  dv_created_at :: int
  dv_updated_at :: int

record report_file =
  fo_path :: ustr
  fo_source_id :: ustr
  fo_run_id :: ustr
  fo_hash :: ustr
  fo_updated_at :: int

text \<open>The three tables, and the one row of \<open>settings\<close> under the key \<open>memory.source_id\<close>.\<close>

record report_db =
  rd_runs :: "report_run list"
  rd_deliveries :: "report_delivery list"
  rd_files :: "report_file list"
  rd_source :: "ustr option"

datatype store_fault = Ensure ustr | RunMissing | PrimaryKey | NoSuchRun

section \<open>Rows\<close>

definition run_at :: "ustr \<Rightarrow> report_db \<Rightarrow> report_run option" where
  "run_at i db = List.find (\<lambda>r. rn_run_id r = i) (rd_runs db)"

definition delivery_at :: "ustr \<Rightarrow> report_db \<Rightarrow> report_delivery option" where
  "delivery_at i db = List.find (\<lambda>d. dv_id d = i) (rd_deliveries db)"

definition validate_run :: "report_run \<Rightarrow> store_fault + unit" where
  "validate_run r =
     (if rn_run_id r = [] \<or> rn_source_id r = [] then Inl (Ensure (lit ''missing report identity''))
      else if \<not> rn_window_start r < rn_window_end r then Inl (Ensure (lit ''invalid report window''))
      else if rn_schedule_id r \<noteq> None \<and> rn_requested_range r \<noteq> None
        then Inl (Ensure (lit ''scheduled reports cannot carry a manual requested range''))
      else (case rn_result r of None \<Rightarrow> Inr ()
        | Some v \<Rightarrow>
            if card (set (sv_frame_ids v)) = length (sv_frame_ids v)
               \<and> card (set (sv_frame_ids v)) = sv_frames_summarized v then Inr ()
            else Inl (Ensure (lit ''report provenance count mismatch''))))"

definition put_run :: "report_run \<Rightarrow> report_db \<Rightarrow> report_db" where
  "put_run r db = db\<lparr>rd_runs := map (\<lambda>x. if rn_run_id x = rn_run_id r then r else x) (rd_runs db)\<rparr>"

definition write_run :: "report_run \<Rightarrow> report_db \<Rightarrow> (store_fault + unit) \<times> report_db" where
  "write_run r db = (case validate_run r of Inl e \<Rightarrow> (Inl e, db) | Inr _ \<Rightarrow> (Inr (), put_run r db))"

definition insert_delivery :: "report_delivery \<Rightarrow> report_db \<Rightarrow> (store_fault + unit) \<times> report_db" where
  "insert_delivery d db =
     (if dv_id d = [] then (Inl (Ensure (lit ''missing delivery identity'')), db)
      else if delivery_at (dv_id d) db \<noteq> None then (Inl PrimaryKey, db)
      else if run_at (dv_run_id d) db = None then (Inl NoSuchRun, db)
      else (Inr (), db\<lparr>rd_deliveries := rd_deliveries db @ [d]\<rparr>))"

definition same_delivery :: "report_delivery \<Rightarrow> report_delivery \<Rightarrow> bool" where
  "same_delivery old new \<longleftrightarrow>
     dv_id old = dv_id new \<and> dv_run_id old = dv_run_id new
     \<and> dv_destination old = dv_destination new
     \<and> dv_destination_snapshot old = dv_destination_snapshot new
     \<and> dv_revision_of old = dv_revision_of new \<and> dv_created_at old = dv_created_at new
     \<and> dv_chunk_index old = dv_chunk_index new \<and> dv_chunk_count old = dv_chunk_count new"

definition check_delivery_identity :: "report_delivery \<Rightarrow> report_delivery \<Rightarrow> store_fault + unit" where
  "check_delivery_identity old new =
     (if same_delivery old new then Inr () else Inl (Ensure (lit ''delivery identity is immutable'')))"

definition write_delivery :: "report_delivery \<Rightarrow> report_db \<Rightarrow> report_db" where
  "write_delivery d db =
     db\<lparr>rd_deliveries := map (\<lambda>x. if dv_id x = dv_id d then d else x) (rd_deliveries db)\<rparr>"

section \<open>Runs\<close>

text \<open>
  \<open>create_report_run\<close>: an existing id, or a base run for the same window, is returned instead of
  inserting. The statement for manual runs orders by \<open>created_at DESC\<close>.
\<close>

definition same_scheduled :: "report_run \<Rightarrow> report_run \<Rightarrow> bool" where
  "same_scheduled r x \<longleftrightarrow>
     rn_schedule_id x = rn_schedule_id r \<and> rn_window_start x = rn_window_start r
     \<and> rn_window_end x = rn_window_end r \<and> rn_revision_of x = None"

definition same_manual :: "report_run \<Rightarrow> report_run \<Rightarrow> bool" where
  "same_manual r x \<longleftrightarrow>
     rn_schedule_id x = None \<and> rn_revision_of x = None
     \<and> rn_window_start x = rn_window_start r \<and> rn_window_end x = rn_window_end r
     \<and> rn_phase x \<in> {RunQueued, RunRunning} \<and> rn_source_id x = rn_source_id r
     \<and> rn_requested_range x = None"

definition existing_base :: "report_run \<Rightarrow> report_db \<Rightarrow> report_run option" where
  "existing_base r db =
     (if rn_revision_of r \<noteq> None then None
      else if rn_schedule_id r \<noteq> None then List.find (same_scheduled r) (rd_runs db)
      else if rn_requested_range r = None
        then (case sort_key (\<lambda>x. - rn_created_at x) (filter (same_manual r) (rd_runs db)) of
                [] \<Rightarrow> None | x # _ \<Rightarrow> Some x)
      else None)"

definition create_report_run :: "report_run \<Rightarrow> report_db \<Rightarrow> (store_fault + report_run) \<times> report_db" where
  "create_report_run r db =
     (case validate_run r of Inl e \<Rightarrow> (Inl e, db)
      | Inr _ \<Rightarrow>
          (case run_at (rn_run_id r) db of Some old \<Rightarrow> (Inr old, db)
           | None \<Rightarrow>
               (case existing_base r db of Some old \<Rightarrow> (Inr old, db)
                | None \<Rightarrow> (Inr r, db\<lparr>rd_runs := rd_runs db @ [r]\<rparr>))))"

definition list_report_runs :: "nat \<Rightarrow> report_db \<Rightarrow> report_run list" where
  "list_report_runs limit db =
     take (clamp limit 1 1000)
       (rev (sort_key (\<lambda>r. (rn_created_at r, rn_run_id r)) (rd_runs db)))"

definition same_run :: "report_run \<Rightarrow> report_run \<Rightarrow> bool" where
  "same_run old r \<longleftrightarrow>
     rn_source_id old = rn_source_id r \<and> rn_schedule_id old = rn_schedule_id r
     \<and> rn_revision_of old = rn_revision_of r \<and> rn_requested_range old = rn_requested_range r
     \<and> rn_window_start old = rn_window_start r \<and> rn_window_end old = rn_window_end r
     \<and> rn_timezone old = rn_timezone r \<and> rn_local_date old = rn_local_date r
     \<and> rn_config_snapshot old = rn_config_snapshot r \<and> rn_created_at old = rn_created_at r"

definition update_report_run :: "report_run \<Rightarrow> report_db \<Rightarrow> (store_fault + unit) \<times> report_db" where
  "update_report_run r db =
     (case run_at (rn_run_id r) db of None \<Rightarrow> (Inl RunMissing, db)
      | Some old \<Rightarrow>
          if \<not> same_run old r
            then (Inl (Ensure (lit ''report identity and configuration are immutable'')), db)
          else if rn_result old \<noteq> None \<and> rn_result old \<noteq> rn_result r
            then (Inl (Ensure (lit ''saved report is immutable'')), db)
          else write_run r db)"

definition claim_report_run :: "ustr \<Rightarrow> int \<Rightarrow> report_db \<Rightarrow> bool \<times> report_db" where
  "claim_report_run i now db =
     (case run_at i db of None \<Rightarrow> (False, db)
      | Some r \<Rightarrow>
          if rn_phase r \<noteq> RunQueued then (False, db)
          else (True, put_run (r\<lparr>rn_phase := RunRunning, rn_updated_at := now\<rparr>) db))"

section \<open>Deliveries\<close>

text \<open>\<open>create_report_deliveries\<close>: one transaction, so an error leaves no row of the batch.\<close>

fun create_deliveries_loop ::
  "report_delivery list \<Rightarrow> report_db \<Rightarrow> (store_fault + report_delivery list) \<times> report_db" where
  "create_deliveries_loop [] db = (Inr [], db)"
| "create_deliveries_loop (d # ds) db =
     (case (case delivery_at (dv_id d) db of
              Some old \<Rightarrow> (case check_delivery_identity old d of
                  Inl e \<Rightarrow> (Inl e, db) | Inr _ \<Rightarrow> (Inr old, db))
            | None \<Rightarrow> (case insert_delivery d db of
                  (Inl e, db') \<Rightarrow> (Inl e, db') | (Inr _, db') \<Rightarrow> (Inr d, db'))) of
        (Inl e, db') \<Rightarrow> (Inl e, db')
      | (Inr x, db') \<Rightarrow>
          (case create_deliveries_loop ds db' of
             (Inl e, db'') \<Rightarrow> (Inl e, db'') | (Inr xs, db'') \<Rightarrow> (Inr (x # xs), db'')))"

definition create_report_deliveries ::
  "report_delivery list \<Rightarrow> report_db \<Rightarrow> (store_fault + report_delivery list) \<times> report_db" where
  "create_report_deliveries ds db =
     (case create_deliveries_loop ds db of (Inl e, _) \<Rightarrow> (Inl e, db) | (Inr xs, db') \<Rightarrow> (Inr xs, db'))"

definition create_report_delivery ::
  "report_delivery \<Rightarrow> report_db \<Rightarrow> (store_fault + report_delivery) \<times> report_db" where
  "create_report_delivery d db =
     (case delivery_at (dv_id d) db of
        Some old \<Rightarrow> (case check_delivery_identity old d of Inl e \<Rightarrow> (Inl e, db) | Inr _ \<Rightarrow> (Inr old, db))
      | None \<Rightarrow> (case insert_delivery d db of
            (Inl e, _) \<Rightarrow> (Inl e, db) | (Inr _, db') \<Rightarrow> (Inr d, db')))"

definition update_report_delivery ::
  "report_delivery \<Rightarrow> delivery_state \<Rightarrow> report_db \<Rightarrow> (store_fault + bool) \<times> report_db" where
  "update_report_delivery d expected db =
     (case delivery_at (dv_id d) db of None \<Rightarrow> (Inr False, db)
      | Some old \<Rightarrow>
          (case check_delivery_identity old d of Inl e \<Rightarrow> (Inl e, db)
           | Inr _ \<Rightarrow>
               if dv_state old \<noteq> expected then (Inr False, db)
               else if dv_state old \<in> {DSucceeded, DSkipped, DReviewed}
                 then (Inl (Ensure (lit ''terminal delivery is immutable'')), db)
               else if dv_state old = DUnknown
                 then (Inl (Ensure (lit ''unknown delivery requires explicit resolution'')), db)
               else (Inr True, write_delivery d db)))"

text \<open>\<open>resolve_report_delivery\<close>: the only statement that leaves the state of unknown acceptance.\<close>

definition resolve_report_delivery ::
  "report_delivery \<Rightarrow> report_delivery option \<Rightarrow> report_db \<Rightarrow> (store_fault + bool) \<times> report_db" where
  "resolve_report_delivery previous replacement db =
     (case delivery_at (dv_id previous) db of None \<Rightarrow> (Inr False, db)
      | Some old \<Rightarrow>
          if dv_state old \<noteq> DUnknown then (Inr False, db)
          else (case check_delivery_identity old previous of Inl e \<Rightarrow> (Inl e, db)
           | Inr _ \<Rightarrow>
               if \<not> (dv_state previous = DReviewed \<and> dv_message_id previous = dv_message_id old
                      \<and> dv_error previous = dv_error old)
                 then (Inl (Ensure (lit ''resolution must preserve uncertainty and receipts'')), db)
               else (case replacement of
                   None \<Rightarrow> (Inr True, write_delivery previous db)
                 | Some new \<Rightarrow>
                     if \<not> (dv_revision_of new = Some (dv_id old) \<and> dv_run_id new = dv_run_id old
                            \<and> dv_state new = DPending)
                       then (Inl (Ensure (lit ''invalid linked resend'')), db)
                     else (case insert_delivery new db of
                         (Inl e, _) \<Rightarrow> (Inl e, db)
                       | (Inr _, db') \<Rightarrow> (Inr True, write_delivery previous db')))))"

definition list_report_deliveries :: "ustr \<Rightarrow> report_db \<Rightarrow> report_delivery list" where
  "list_report_deliveries i db = sort_key dv_id (filter (\<lambda>d. dv_run_id d = i) (rd_deliveries db))"

section \<open>Recovery after a crash\<close>

definition interrupted_error :: run_error where
  "interrupted_error = \<lparr>re_code = lit ''DELIVERY_FAILED'',
     re_message = lit ''Delivery was interrupted; service acceptance is unknown. Review before resending.''\<rparr>"

definition recovered_run :: "int \<Rightarrow> report_run \<Rightarrow> report_run" where
  "recovered_run now r = r\<lparr>rn_phase := RunQueued, rn_updated_at := now\<rparr>"

definition recovered_delivery :: "int \<Rightarrow> report_delivery \<Rightarrow> report_delivery" where
  "recovered_delivery now d =
     (if dv_destination d = Telegram
      then d\<lparr>dv_state := DUnknown, dv_next_attempt_at := None, dv_error := Some interrupted_error,
             dv_updated_at := now\<rparr>
      else d\<lparr>dv_state := DPending, dv_updated_at := now\<rparr>)"

fun requeue_runs :: "int \<Rightarrow> ustr list \<Rightarrow> report_db \<Rightarrow> store_fault + report_db" where
  "requeue_runs now [] db = Inr db"
| "requeue_runs now (i # ids) db =
     (case run_at i db of None \<Rightarrow> Inl RunMissing
      | Some r \<Rightarrow> (case write_run (recovered_run now r) db of
            (Inl e, _) \<Rightarrow> Inl e | (Inr _, db') \<Rightarrow> requeue_runs now ids db'))"

definition recover_report_work :: "int \<Rightarrow> report_db \<Rightarrow> (store_fault + unit) \<times> report_db" where
  "recover_report_work now db =
     (case requeue_runs now (map rn_run_id (filter (\<lambda>r. rn_phase r = RunRunning) (rd_runs db))) db of
        Inl e \<Rightarrow> (Inl e, db)
      | Inr db' \<Rightarrow> (Inr (),
          db'\<lparr>rd_deliveries := map (\<lambda>d. if dv_state d = DSending then recovered_delivery now d else d)
                                 (rd_deliveries db')\<rparr>))"

section \<open>Revision families\<close>

text \<open>\<open>list_report_family_deliveries\<close>: up to the first ancestor, then everything below it.\<close>

function family_root :: "report_db \<Rightarrow> ustr set \<Rightarrow> report_run \<Rightarrow> store_fault + report_run" where
  "family_root db visited apex =
     (case rn_revision_of apex of None \<Rightarrow> Inr apex
      | Some parent \<Rightarrow>
          if parent \<in> visited then Inl (Ensure (lit ''report revision cycle''))
          else (case run_at parent db of
              None \<Rightarrow> Inl (Ensure (lit ''report ancestor unavailable; delivery history cannot be verified''))
            | Some r \<Rightarrow> family_root db (insert parent visited) r))"
  by pat_completeness auto
termination
proof (relation "measure (\<lambda>(db, visited, _). card (set (map rn_run_id (rd_runs db)) - visited))")
  fix db :: report_db and visited apex parent r
  assume "parent \<notin> visited" and "run_at parent db = Some r"
  then have "parent \<in> set (map rn_run_id (rd_runs db)) - visited"
    by (auto simp: run_at_def find_Some_iff)
  then show "((db, insert parent visited, r), db, visited, apex) \<in>
      measure (\<lambda>(db, visited, _). card (set (map rn_run_id (rd_runs db)) - visited))"
    by (simp del: card_Diff_insert) (rule psubset_card_mono; auto)
qed simp

declare family_root.simps [simp del]

definition family_step :: "report_run list \<Rightarrow> ustr list \<Rightarrow> ustr list" where
  "family_step runs ids =
     remdups (ids @ map rn_run_id (filter (\<lambda>r. case rn_revision_of r of None \<Rightarrow> False | Some p \<Rightarrow> p \<in> set ids) runs))"

definition family_ids :: "report_run list \<Rightarrow> ustr \<Rightarrow> ustr list" where
  "family_ids runs apex = (family_step runs ^^ length runs) [apex]"

definition list_report_family_deliveries :: "ustr \<Rightarrow> report_db \<Rightarrow> store_fault + report_delivery list" where
  "list_report_family_deliveries i db =
     (case run_at i db of None \<Rightarrow> Inl RunMissing
      | Some r \<Rightarrow> (case family_root db {} r of Inl e \<Rightarrow> Inl e
          | Inr apex \<Rightarrow> Inr (sort_key dv_id
              (filter (\<lambda>d. dv_run_id d \<in> set (family_ids (rd_runs db) (rn_run_id apex))) (rd_deliveries db)))))"

section \<open>Pending work and retention\<close>

definition live_delivery :: "report_delivery \<Rightarrow> bool" where
  "live_delivery d \<longleftrightarrow> dv_state d \<in> {DPending, DSending, DUnknown, DConflict}
     \<or> (dv_state d = DFailed \<and> dv_next_attempt_at d \<noteq> None)"

definition receipt_for :: "report_db \<Rightarrow> ustr \<Rightarrow> destination \<Rightarrow> bool" where
  "receipt_for db i dest \<longleftrightarrow> list_ex (\<lambda>d. dv_run_id d = i \<and> dv_destination d = dest) (rd_deliveries db)"

definition pending_run :: "report_db \<Rightarrow> report_run \<Rightarrow> bool" where
  "pending_run db r \<longleftrightarrow>
     rn_phase r \<in> {RunQueued, RunRunning, RunBlocked}
     \<or> list_ex (\<lambda>d. dv_run_id d = rn_run_id r \<and> live_delivery d) (rd_deliveries db)
     \<or> (rn_phase r = RunFinished \<and> rn_result r \<noteq> None
        \<and> (\<not> receipt_for db (rn_run_id r) Vault \<or> \<not> receipt_for db (rn_run_id r) Index
           \<or> \<not> receipt_for db (rn_run_id r) Telegram))"

definition list_pending_report_runs :: "report_db \<Rightarrow> report_run list" where
  "list_pending_report_runs db =
     sort_key (\<lambda>r. (rn_created_at r, rn_run_id r)) (filter (pending_run db) (rd_runs db))"

definition prunable :: "int \<Rightarrow> report_db \<Rightarrow> report_run \<Rightarrow> bool" where
  "prunable before db r \<longleftrightarrow>
     rn_phase r = RunFinished \<and> rn_updated_at r < before
     \<and> \<not> list_ex (\<lambda>child. rn_revision_of child = Some (rn_run_id r)) (rd_runs db)
     \<and> (rn_result r = None
        \<or> (receipt_for db (rn_run_id r) Vault \<and> receipt_for db (rn_run_id r) Index
           \<and> receipt_for db (rn_run_id r) Telegram))
     \<and> \<not> list_ex (\<lambda>d. dv_run_id d = rn_run_id r \<and> live_delivery d) (rd_deliveries db)"

text \<open>The deliveries of a deleted run go with it (\<open>ON DELETE CASCADE\<close>).\<close>

definition prune_report_runs :: "int \<Rightarrow> report_db \<Rightarrow> nat \<times> report_db" where
  "prune_report_runs before db =
     (let gone = filter (prunable before db) (rd_runs db)
      in (length gone, db\<lparr>
            rd_runs := filter (\<lambda>r. \<not> prunable before db r) (rd_runs db),
            rd_deliveries := filter (\<lambda>d. dv_run_id d \<notin> set (map rn_run_id gone)) (rd_deliveries db)\<rparr>))"

section \<open>File ownership, identity, evidence\<close>

definition norm_path :: "ustr \<Rightarrow> ustr" where
  "norm_path p = map (\<lambda>c. if c = 92 then 47 else c) p"

definition normalized_file :: "report_file \<Rightarrow> report_file" where
  "normalized_file f = f\<lparr>fo_path := norm_path (fo_path f)\<rparr>"

definition list_report_files :: "report_db \<Rightarrow> report_file list" where
  "list_report_files db = map normalized_file (sort_key fo_path (rd_files db))"

definition get_report_file :: "ustr \<Rightarrow> report_db \<Rightarrow> report_file option" where
  "get_report_file p db =
     (let q = norm_path p
      in case List.find (\<lambda>f. fo_path f = q) (rd_files db) of
           Some f \<Rightarrow> Some (normalized_file f)
         | None \<Rightarrow> map_option normalized_file (List.find (\<lambda>f. norm_path (fo_path f) = q) (rd_files db)))"

definition save_report_file :: "report_file \<Rightarrow> report_db \<Rightarrow> report_db" where
  "save_report_file f db =
     (let n = normalized_file f;
          kept = filter (\<lambda>x. \<not> (fo_path x \<noteq> fo_path n \<and> norm_path (fo_path x) = fo_path n)) (rd_files db)
      in db\<lparr>rd_files :=
           if fo_path n \<in> set (map fo_path kept)
           then map (\<lambda>x. if fo_path x = fo_path n then n else x) kept else kept @ [n]\<rparr>)"

definition ensure_report_source_id :: "ustr \<Rightarrow> report_db \<Rightarrow> (store_fault + ustr) \<times> report_db" where
  "ensure_report_source_id candidate db =
     (if candidate = [] then (Inl (Ensure (lit ''empty source identity'')), db)
      else (case rd_source db of Some s \<Rightarrow> (Inr s, db)
            | None \<Rightarrow> (Inr candidate, db\<lparr>rd_source := Some candidate\<rparr>)))"

definition reset_report_source_id :: "ustr \<Rightarrow> report_db \<Rightarrow> (store_fault + unit) \<times> report_db" where
  "reset_report_source_id new_id db =
     (if new_id = [] then (Inl (Ensure (lit ''empty source identity'')), db)
      else (Inr (), db\<lparr>rd_source := Some new_id\<rparr>))"

definition report_has_usable_content :: "int \<Rightarrow> int \<Rightarrow> session_db \<Rightarrow> store_fault + bool" where
  "report_has_usable_content s e db =
     (if \<not> s < e then Inl (Ensure (lit ''invalid report window''))
      else Inr (list_ex (\<lambda>f. s \<le> fr_captured_at f \<and> fr_captured_at f < e
        \<and> (case fr_content_text f of None \<Rightarrow> False | Some body \<Rightarrow> trim body \<noteq> [])) (db_frames db)))"

record provenance =
  pr_session_ids :: "int list"
  pr_missing_frame_ids :: "int list"

definition report_provenance :: "int list \<Rightarrow> session_db \<Rightarrow> provenance" where
  "report_provenance ids db =
     (let rows = map (\<lambda>i. (i, List.find (\<lambda>f. fr_id f = i) (db_frames db))) ids
      in \<lparr>pr_session_ids = sorted_list_of_set
             (set (List.map_filter (\<lambda>(_, f). Option.bind f fr_session_id) rows)),
          pr_missing_frame_ids = map fst (filter (\<lambda>(_, f). f = None) rows)\<rparr>)"

section \<open>Histories of the store\<close>

datatype report_op =
    CreateRun report_run
  | UpdateRun report_run
  | ClaimRun ustr int
  | Recover int
  | CreateDelivery report_delivery
  | CreateDeliveries "report_delivery list"
  | UpdateDelivery report_delivery delivery_state
  | ResolveDelivery report_delivery "report_delivery option"
  | SaveFile report_file
  | EnsureSource ustr
  | ResetSource ustr
  | Prune int

primrec report_step :: "report_op \<Rightarrow> report_db \<Rightarrow> report_db" where
  "report_step (CreateRun r) db = snd (create_report_run r db)"
| "report_step (UpdateRun r) db = snd (update_report_run r db)"
| "report_step (ClaimRun i now) db = snd (claim_report_run i now db)"
| "report_step (Recover now) db = snd (recover_report_work now db)"
| "report_step (CreateDelivery d) db = snd (create_report_delivery d db)"
| "report_step (CreateDeliveries ds) db = snd (create_report_deliveries ds db)"
| "report_step (UpdateDelivery d s) db = snd (update_report_delivery d s db)"
| "report_step (ResolveDelivery d r) db = snd (resolve_report_delivery d r db)"
| "report_step (SaveFile f) db = save_report_file f db"
| "report_step (EnsureSource s) db = snd (ensure_report_source_id s db)"
| "report_step (ResetSource s) db = snd (reset_report_source_id s db)"
| "report_step (Prune before) db = snd (prune_report_runs before db)"

abbreviation report_steps :: "report_op list \<Rightarrow> report_db \<Rightarrow> report_db" where
  "report_steps ops db \<equiv> fold report_step ops db"

definition report_ok :: "report_db \<Rightarrow> bool" where
  "report_ok db \<longleftrightarrow>
     distinct (map rn_run_id (rd_runs db)) \<and> distinct (map dv_id (rd_deliveries db))
     \<and> (\<forall>r\<in>set (rd_runs db). validate_run r = Inr ())
     \<and> (\<forall>d\<in>set (rd_deliveries db). dv_id d \<noteq> [] \<and> dv_run_id d \<in> rn_run_id ` set (rd_runs db))"

lemma run_at_Some: "run_at i db = Some r \<Longrightarrow> r \<in> set (rd_runs db) \<and> rn_run_id r = i"
  by (auto simp: run_at_def find_Some_iff)

lemma run_at_None: "run_at i db = None \<longleftrightarrow> i \<notin> rn_run_id ` set (rd_runs db)"
  by (auto simp: run_at_def find_None_iff)

lemma delivery_at_Some: "delivery_at i db = Some d \<Longrightarrow> d \<in> set (rd_deliveries db) \<and> dv_id d = i"
  by (auto simp: delivery_at_def find_Some_iff)

lemma delivery_at_None: "delivery_at i db = None \<longleftrightarrow> i \<notin> dv_id ` set (rd_deliveries db)"
  by (auto simp: delivery_at_def find_None_iff)

lemma find_distinct:
  assumes "distinct (map f xs)" and "x \<in> set xs"
  shows "List.find (\<lambda>y. f y = f x) xs = Some x"
  using assms by (induction xs) auto

lemma delivery_at_unique: "report_ok db \<Longrightarrow> d \<in> set (rd_deliveries db) \<Longrightarrow> delivery_at (dv_id d) db = Some d"
  by (simp add: report_ok_def delivery_at_def find_distinct)

lemma run_at_unique: "report_ok db \<Longrightarrow> r \<in> set (rd_runs db) \<Longrightarrow> run_at (rn_run_id r) db = Some r"
  by (simp add: report_ok_def run_at_def find_distinct)

lemma map_put_same: "map f (map (\<lambda>x. if f x = f r then r else x) xs) = map f xs"
  by (induction xs) auto

lemma map_if_same: "(\<And>x. f (g x) = f x) \<Longrightarrow> map f (map (\<lambda>x. if P x then g x else x) xs) = map f xs"
  by (induction xs) auto

lemma put_run_ids [simp]: "map rn_run_id (rd_runs (put_run r db)) = map rn_run_id (rd_runs db)"
  by (simp add: put_run_def map_put_same del: map_map)

lemma write_delivery_ids [simp]:
  "map dv_id (rd_deliveries (write_delivery d db)) = map dv_id (rd_deliveries db)"
  by (simp add: write_delivery_def map_put_same del: map_map)

lemma put_run_other [simp]:
  "rd_deliveries (put_run r db) = rd_deliveries db" "rd_files (put_run r db) = rd_files db"
  by (simp_all add: put_run_def)

lemma write_delivery_other [simp]: "rd_runs (write_delivery d db) = rd_runs db"
  by (simp add: write_delivery_def)

lemma put_run_set: "x \<in> set (rd_runs (put_run r db)) \<Longrightarrow> x = r \<or> x \<in> set (rd_runs db)"
  by (auto simp: put_run_def)

lemma write_delivery_set:
  "x \<in> set (rd_deliveries (write_delivery d db)) \<Longrightarrow> x = d \<or> x \<in> set (rd_deliveries db)"
  by (auto simp: write_delivery_def)

lemma run_ids_image: "rn_run_id ` set (rd_runs (put_run r db)) = rn_run_id ` set (rd_runs db)"
  using arg_cong [where f = set, OF put_run_ids [of r db]] by (simp only: set_map)

lemma put_run_ok: "report_ok db \<Longrightarrow> validate_run r = Inr () \<Longrightarrow> report_ok (put_run r db)"
  unfolding report_ok_def put_run_ids run_ids_image put_run_other by (auto dest: put_run_set)

lemma write_delivery_ok:
  assumes "report_ok db" and "delivery_at (dv_id d) db = Some old" and "dv_run_id d = dv_run_id old"
  shows "report_ok (write_delivery d db)"
  using assms(1) delivery_at_Some [OF assms(2)] assms(3)
  unfolding report_ok_def write_delivery_ids write_delivery_other
  by (auto dest: write_delivery_set)

lemma write_run_ok: "report_ok db \<Longrightarrow> report_ok (snd (write_run r db))"
  by (auto simp: write_run_def put_run_ok split: sum.splits)

lemma insert_delivery_ok: "report_ok db \<Longrightarrow> report_ok (snd (insert_delivery d db))"
  using run_at_None [of "dv_run_id d" db]
  by (auto simp: insert_delivery_def delivery_at_None report_ok_def)

lemma create_delivery_ok: "report_ok db \<Longrightarrow> report_ok (snd (create_report_delivery d db))"
  using insert_delivery_ok [of db d]
  by (auto simp: create_report_delivery_def split: option.splits sum.splits prod.splits)

lemma create_deliveries_loop_ok: "report_ok db \<Longrightarrow> report_ok (snd (create_deliveries_loop ds db))"
proof (induction ds arbitrary: db)
  case (Cons d ds)
  show ?case
  proof (cases "delivery_at (dv_id d) db")
    case None
    obtain x db' where x: "insert_delivery d db = (x, db')" by fastforce
    have ok: "report_ok db'" using insert_delivery_ok [OF Cons.prems, of d] by (simp add: x)
    show ?thesis using Cons.IH [OF ok] ok
      by (auto simp: None x split: sum.splits prod.splits)
  next
    case (Some old)
    then show ?thesis using Cons.IH [OF Cons.prems] Cons.prems
      by (auto split: sum.splits prod.splits)
  qed
qed simp

lemma validate_phase: "validate_run (r\<lparr>rn_phase := p, rn_updated_at := t\<rparr>) = validate_run r"
  by (simp add: validate_run_def)

lemma requeue_runs_ok:
  assumes "report_ok db" and "set ids \<subseteq> rn_run_id ` set (rd_runs db)"
  shows "\<exists>db'. requeue_runs now ids db = Inr db' \<and> report_ok db' \<and> rd_deliveries db' = rd_deliveries db"
  using assms
proof (induction ids arbitrary: db)
  case (Cons i ids)
  obtain r where r: "run_at i db = Some r" using Cons.prems(2) run_at_None [of i db] by auto
  have "validate_run r = Inr ()" using Cons.prems(1) run_at_Some [OF r] by (auto simp: report_ok_def)
  then have v: "validate_run (recovered_run now r) = Inr ()" by (simp add: recovered_run_def validate_phase)
  have "\<exists>db'. requeue_runs now ids (put_run (recovered_run now r) db) = Inr db' \<and> report_ok db'
      \<and> rd_deliveries db' = rd_deliveries (put_run (recovered_run now r) db)"
    by (rule Cons.IH) (use Cons.prems v in \<open>auto simp: put_run_ok run_ids_image\<close>)
  then show ?case by (simp add: r write_run_def v)
qed simp

lemma recover_ok:
  assumes "report_ok db"
  shows "fst (recover_report_work now db) = Inr ()" and "report_ok (snd (recover_report_work now db))"
proof -
  obtain db' where db': "requeue_runs now (map rn_run_id (filter (\<lambda>r. rn_phase r = RunRunning) (rd_runs db))) db = Inr db'"
      "report_ok db'" "rd_deliveries db' = rd_deliveries db"
    using requeue_runs_ok [OF assms, of "map rn_run_id (filter (\<lambda>r. rn_phase r = RunRunning) (rd_runs db))" now]
    by auto
  have same: "dv_id (recovered_delivery now d) = dv_id d" "dv_run_id (recovered_delivery now d) = dv_run_id d" for d
    by (auto simp: recovered_delivery_def)
  show "fst (recover_report_work now db) = Inr ()" by (simp add: recover_report_work_def db'(1))
  show "report_ok (snd (recover_report_work now db))"
    using db'(2) map_if_same [of dv_id, OF same(1)] unfolding recover_report_work_def db'(1)
    by (auto simp: report_ok_def same simp del: map_map)
qed

lemma update_delivery_cases:
  obtains "snd (update_report_delivery d s db) = db"
  | old where "delivery_at (dv_id d) db = Some old" "same_delivery old d" "dv_state old = s"
      "s \<notin> {DSucceeded, DSkipped, DReviewed, DUnknown}"
      "update_report_delivery d s db = (Inr True, write_delivery d db)"
proof (cases "snd (update_report_delivery d s db) = db")
  case False
  then obtain old where "delivery_at (dv_id d) db = Some old" "same_delivery old d" "dv_state old = s"
      "s \<notin> {DSucceeded, DSkipped, DReviewed, DUnknown}"
    by (auto simp: update_report_delivery_def check_delivery_identity_def split: option.splits if_splits)
  then show ?thesis
    by (intro that(2)) (auto simp: update_report_delivery_def check_delivery_identity_def)
qed

lemma resolve_delivery_cases:
  obtains "snd (resolve_report_delivery d rep db) = db"
  | old db' where "delivery_at (dv_id d) db = Some old" "dv_state old = DUnknown" "same_delivery old d"
      "dv_state d = DReviewed" "dv_message_id d = dv_message_id old" "dv_error d = dv_error old"
      "resolve_report_delivery d rep db = (Inr True, write_delivery d db')"
      "db' = db \<or> (\<exists>new. rep = Some new \<and> insert_delivery new db = (Inr (), db'))"
proof (cases "snd (resolve_report_delivery d rep db) = db")
  case False
  then obtain old where old: "delivery_at (dv_id d) db = Some old" "dv_state old = DUnknown"
      "same_delivery old d"
      "dv_state d = DReviewed \<and> dv_message_id d = dv_message_id old \<and> dv_error d = dv_error old"
    by (auto simp: resolve_report_delivery_def check_delivery_identity_def split: option.splits if_splits)
  show ?thesis
  proof (cases rep)
    case None
    then show ?thesis
      by (intro that(2) [OF old(1,2,3), where db' = db])
        (use old in \<open>auto simp: resolve_report_delivery_def check_delivery_identity_def\<close>)
  next
    case (Some new)
    obtain x db' where x: "insert_delivery new db = (x, db')" by fastforce
    have "x = Inr ()" using False old Some x
      by (cases x) (auto simp: resolve_report_delivery_def check_delivery_identity_def split: if_splits)
    then show ?thesis
      by (intro that(2) [OF old(1,2,3), where db' = db'])
        (use old Some x False in \<open>auto simp: resolve_report_delivery_def check_delivery_identity_def split: if_splits\<close>)
  qed
qed

lemma report_step_ok:
  assumes ok: "report_ok db"
  shows "report_ok (report_step a db)"
proof (cases a)
  case (CreateRun r)
  then show ?thesis using ok
    by (auto simp: create_report_run_def report_ok_def run_at_None split: sum.splits option.splits)
next
  case (UpdateRun r)
  then show ?thesis using ok write_run_ok [OF ok, of r]
    by (auto simp: update_report_run_def split: option.splits)
next
  case (ClaimRun i now)
  show ?thesis
  proof (cases "run_at i db")
    case (Some r)
    then have "validate_run r = Inr ()" using ok run_at_Some [OF Some] by (auto simp: report_ok_def)
    then show ?thesis using ok by (auto simp: ClaimRun claim_report_run_def Some put_run_ok validate_phase)
  qed (use ok ClaimRun in \<open>simp add: claim_report_run_def\<close>)
next
  case (CreateDeliveries ds)
  then show ?thesis using ok create_deliveries_loop_ok [OF ok, of ds]
    by (auto simp: create_report_deliveries_def split: prod.splits sum.splits)
next
  case (UpdateDelivery d s)
  show ?thesis
    by (rule update_delivery_cases [of d s db])
      (use ok in \<open>auto simp: UpdateDelivery same_delivery_def intro: write_delivery_ok\<close>)
next
  case (ResolveDelivery d rep)
  show ?thesis
  proof (rule resolve_delivery_cases [of d rep db])
    fix old db'
    assume old: "delivery_at (dv_id d) db = Some old" "same_delivery old d"
      and r: "resolve_report_delivery d rep db = (Inr True, write_delivery d db')"
      and db': "db' = db \<or> (\<exists>new. rep = Some new \<and> insert_delivery new db = (Inr (), db'))"
    have ok': "report_ok db'" using db' ok insert_delivery_ok [OF ok] by (metis snd_conv)
    have "delivery_at (dv_id d) db' = Some old"
      using db' old(1) by (auto simp: insert_delivery_def delivery_at_def find_append split: if_splits)
    then show ?thesis using old(2) ok'
      by (auto simp: ResolveDelivery r same_delivery_def intro: write_delivery_ok)
  qed (use ok ResolveDelivery in simp)
next
  case (SaveFile f)
  then show ?thesis using ok by (simp add: save_report_file_def report_ok_def Let_def)
next
  case (EnsureSource s)
  then show ?thesis using ok by (simp add: ensure_report_source_id_def report_ok_def split: option.splits)
next
  case (ResetSource s)
  then show ?thesis using ok by (simp add: reset_report_source_id_def report_ok_def)
next
  case (Prune before)
  then show ?thesis using ok
    by (force simp: prune_report_runs_def report_ok_def Let_def distinct_map_filter)
qed (simp_all add: create_delivery_ok [OF ok] recover_ok [OF ok])

lemma report_steps_ok: "report_ok db \<Longrightarrow> report_ok (report_steps ops db)"
  by (induction ops arbitrary: db) (simp_all add: report_step_ok)

text \<open>What may become of a delivery row: its identity stays, a settled row stays as it is, and a
  row of unknown acceptance can only be reviewed, its receipt and error kept.\<close>

definition may_become :: "report_delivery \<Rightarrow> report_delivery \<Rightarrow> bool" where
  "may_become d d' \<longleftrightarrow> same_delivery d d'
     \<and> (dv_state d \<in> {DSucceeded, DSkipped, DReviewed} \<longrightarrow> d' = d)
     \<and> (dv_state d = DUnknown \<longrightarrow> d' = d \<or> (dv_state d' = DReviewed
          \<and> dv_message_id d' = dv_message_id d \<and> dv_error d' = dv_error d))"

lemma may_become_refl [simp]: "may_become d d"
  by (simp add: may_become_def same_delivery_def)

lemma may_become_trans: "may_become a b \<Longrightarrow> may_become b c \<Longrightarrow> may_become a c"
  unfolding may_become_def same_delivery_def
  by (cases "dv_state a") auto

lemma recovered_may_become: "dv_state d = DSending \<Longrightarrow> may_become d (recovered_delivery now d)"
  by (simp add: may_become_def same_delivery_def recovered_delivery_def)

definition keeps_deliveries :: "report_db \<Rightarrow> report_db \<Rightarrow> bool" where
  "keeps_deliveries db db' \<longleftrightarrow>
     (\<forall>d\<in>set (rd_deliveries db). \<exists>d'\<in>set (rd_deliveries db'). may_become d d')"

lemma keeps_refl [simp]: "keeps_deliveries db db"
  by (auto simp: keeps_deliveries_def intro: may_become_refl)

lemma keeps_trans: "keeps_deliveries a b \<Longrightarrow> keeps_deliveries b c \<Longrightarrow> keeps_deliveries a c"
  unfolding keeps_deliveries_def by (meson may_become_trans)

lemma keeps_superset: "set (rd_deliveries db) \<subseteq> set (rd_deliveries db') \<Longrightarrow> keeps_deliveries db db'"
  unfolding keeps_deliveries_def by (meson may_become_refl subsetD)

lemma keeps_write:
  assumes "report_ok db" and "delivery_at (dv_id d) db = Some old" and "may_become old d"
  shows "keeps_deliveries db (write_delivery d db)"
proof -
  have "\<exists>d'\<in>set (rd_deliveries (write_delivery d db)). may_become x d'" if x: "x \<in> set (rd_deliveries db)" for x
  proof (cases "dv_id x = dv_id d")
    case True
    then have "x = old" using delivery_at_unique [OF assms(1) x] assms(2) by simp
    with True x assms(3) show ?thesis by (force simp: write_delivery_def)
  qed (use x in \<open>force simp: write_delivery_def\<close>)
  then show ?thesis by (simp add: keeps_deliveries_def)
qed

lemma insert_delivery_keeps: "set (rd_deliveries db) \<subseteq> set (rd_deliveries (snd (insert_delivery d db)))"
  by (auto simp: insert_delivery_def)

lemma create_deliveries_loop_keeps:
  "set (rd_deliveries db) \<subseteq> set (rd_deliveries (snd (create_deliveries_loop ds db)))"
proof (induction ds arbitrary: db)
  case (Cons d ds)
  obtain x db' where x: "insert_delivery d db = (x, db')" by fastforce
  have "set (rd_deliveries db) \<subseteq> set (rd_deliveries db')" using insert_delivery_keeps [of db d] by (simp add: x)
  with Cons.IH [of db'] Cons.IH [of db] show ?case
    by (auto simp: x split: option.splits sum.splits prod.splits)
qed simp

lemma report_step_keeps:
  assumes ok: "report_ok db" and no_prune: "\<nexists>before. a = Prune before"
  shows "keeps_deliveries db (report_step a db)"
proof (cases a)
  case (CreateRun r)
  then show ?thesis
    by (auto simp: create_report_run_def intro!: keeps_superset split: sum.splits option.splits)
next
  case (UpdateRun r)
  then show ?thesis
    by (auto simp: update_report_run_def write_run_def intro!: keeps_superset split: sum.splits option.splits)
next
  case (ClaimRun i now)
  then show ?thesis by (auto simp: claim_report_run_def intro!: keeps_superset split: option.splits)
next
  case (Recover now)
  obtain db' where "requeue_runs now (map rn_run_id (filter (\<lambda>r. rn_phase r = RunRunning) (rd_runs db))) db = Inr db'"
      "rd_deliveries db' = rd_deliveries db"
    using requeue_runs_ok [OF ok, of "map rn_run_id (filter (\<lambda>r. rn_phase r = RunRunning) (rd_runs db))" now] by auto
  then show ?thesis
    by (auto simp: Recover recover_report_work_def keeps_deliveries_def intro: recovered_may_become may_become_refl)
next
  case (CreateDelivery d)
  then show ?thesis using insert_delivery_keeps [of db d]
    by (auto simp: create_report_delivery_def intro!: keeps_superset split: option.splits sum.splits prod.splits)
next
  case (CreateDeliveries ds)
  then show ?thesis using create_deliveries_loop_keeps [of db ds]
    by (auto simp: create_report_deliveries_def intro!: keeps_superset split: sum.splits prod.splits)
next
  case (UpdateDelivery d s)
  show ?thesis
  proof (rule update_delivery_cases [of d s db])
    fix old assume "delivery_at (dv_id d) db = Some old" "same_delivery old d" "dv_state old = s"
      "s \<notin> {DSucceeded, DSkipped, DReviewed, DUnknown}"
      "update_report_delivery d s db = (Inr True, write_delivery d db)"
    then show ?thesis by (auto simp: UpdateDelivery may_become_def intro!: keeps_write [OF ok])
  qed (simp add: UpdateDelivery)
next
  case (ResolveDelivery d rep)
  show ?thesis
  proof (rule resolve_delivery_cases [of d rep db])
    fix old db'
    assume old: "delivery_at (dv_id d) db = Some old" "dv_state old = DUnknown" "same_delivery old d"
      "dv_state d = DReviewed" "dv_message_id d = dv_message_id old" "dv_error d = dv_error old"
      and r: "resolve_report_delivery d rep db = (Inr True, write_delivery d db')"
      and db': "db' = db \<or> (\<exists>new. rep = Some new \<and> insert_delivery new db = (Inr (), db'))"
    have ok': "report_ok db'" using db' ok insert_delivery_ok [OF ok] by (metis snd_conv)
    have at: "delivery_at (dv_id d) db' = Some old"
      using db' old(1) by (auto simp: insert_delivery_def delivery_at_def find_append split: if_splits)
    have "keeps_deliveries db db'"
      using db' insert_delivery_keeps [of db] by (metis keeps_refl keeps_superset snd_conv)
    moreover have "keeps_deliveries db' (write_delivery d db')"
      by (rule keeps_write [OF ok' at]) (use old in \<open>simp add: may_become_def\<close>)
    ultimately show ?thesis unfolding ResolveDelivery by (simp add: r) (rule keeps_trans)
  qed (simp add: ResolveDelivery)
next
  case (Prune before)
  then show ?thesis using no_prune by blast
qed (auto simp: save_report_file_def ensure_report_source_id_def reset_report_source_id_def Let_def
      intro!: keeps_superset split: option.splits)

lemma report_steps_keep:
  "report_ok db \<Longrightarrow> \<forall>a\<in>set ops. \<nexists>before. a = Prune before \<Longrightarrow> keeps_deliveries db (report_steps ops db)"
proof (induction ops arbitrary: db)
  case (Cons a ops)
  have "keeps_deliveries db (report_step a db)" by (rule report_step_keeps) (use Cons.prems in auto)
  moreover have "keeps_deliveries (report_step a db) (report_steps ops (report_step a db))"
    by (rule Cons.IH) (use Cons.prems report_step_ok in auto)
  ultimately show ?case by (auto intro: keeps_trans)
qed simp

section \<open>Properties\<close>


lemma find_filter_same: "(\<And>x. P x \<Longrightarrow> Q x) \<Longrightarrow> List.find P (filter Q xs) = List.find P xs"
  by (induction xs) auto

lemma removed_delivery:
  assumes "report_ok db" and "d \<in> set (rd_deliveries db)"
    and "d \<notin> set (rd_deliveries (snd (prune_report_runs before db)))"
  shows "\<not> live_delivery d"
  using assms by (auto simp: prune_report_runs_def Let_def prunable_def list_ex_iff)

lemma pruned_not_pending: "prunable before db r \<Longrightarrow> \<not> pending_run db r"
  by (auto simp: prunable_def pending_run_def)

lemma kept_receipts:
  assumes "report_ok db" and "r \<in> set (rd_runs db)" and "\<not> prunable before db r"
  shows "d \<in> set (rd_deliveries (snd (prune_report_runs before db))) \<and> dv_run_id d = rn_run_id r
     \<longleftrightarrow> d \<in> set (rd_deliveries db) \<and> dv_run_id d = rn_run_id r"
proof -
  have "rn_run_id x \<noteq> rn_run_id r" if "x \<in> set (rd_runs db)" "prunable before db x" for x
    using that assms by (auto simp: report_ok_def distinct_map dest: inj_onD)
  then show ?thesis by (force simp: prune_report_runs_def Let_def)
qed

lemma kept_pending:
  assumes "report_ok db" and "r \<in> set (rd_runs db)" and "\<not> prunable before db r"
  shows "pending_run (snd (prune_report_runs before db)) r = pending_run db r"
proof -
  have ex: "(\<exists>d\<in>set (rd_deliveries (snd (prune_report_runs before db))). dv_run_id d = rn_run_id r \<and> P d)
      \<longleftrightarrow> (\<exists>d\<in>set (rd_deliveries db). dv_run_id d = rn_run_id r \<and> P d)" for P
    using kept_receipts [OF assms] by blast
  show ?thesis unfolding pending_run_def receipt_for_def list_ex_iff by (simp only: ex)
qed

lemma prune_keeps_pending:
  assumes "report_ok db"
  shows "list_pending_report_runs (snd (prune_report_runs before db)) = list_pending_report_runs db"
proof -
  have "filter (pending_run (snd (prune_report_runs before db))) (filter (\<lambda>r. \<not> prunable before db r) (rd_runs db))
      = filter (pending_run db) (rd_runs db)"
    unfolding filter_filter using kept_pending [OF assms, of _ before] pruned_not_pending [of before db]
    by (intro filter_cong) auto
  then show ?thesis by (simp add: list_pending_report_runs_def prune_report_runs_def Let_def)
qed

text \<open>C24: retention never touches unfinished work: the list of pending runs is the same after it, a
  delivery that goes was settled, and a revision that stays keeps the run it revises.\<close>

theorem pruning_safe:
  assumes "report_ok db"
  shows "list_pending_report_runs (snd (prune_report_runs before db)) = list_pending_report_runs db
     \<and> (\<forall>d\<in>set (rd_deliveries db) - set (rd_deliveries (snd (prune_report_runs before db))). \<not> live_delivery d)
     \<and> (\<forall>r\<in>set (rd_runs (snd (prune_report_runs before db))). \<forall>p. rn_revision_of r = Some p
          \<longrightarrow> run_at p (snd (prune_report_runs before db)) = run_at p db)"
proof (intro conjI)
  show "list_pending_report_runs (snd (prune_report_runs before db)) = list_pending_report_runs db"
    by (rule prune_keeps_pending [OF assms])
  show "\<forall>d\<in>set (rd_deliveries db) - set (rd_deliveries (snd (prune_report_runs before db))). \<not> live_delivery d"
    using removed_delivery [OF assms] by blast
  show "\<forall>r\<in>set (rd_runs (snd (prune_report_runs before db))). \<forall>p. rn_revision_of r = Some p
         \<longrightarrow> run_at p (snd (prune_report_runs before db)) = run_at p db"
  proof safe
    fix r p assume r: "r \<in> set (rd_runs (snd (prune_report_runs before db)))" and p: "rn_revision_of r = Some p"
    then have "r \<in> set (rd_runs db)" by (auto simp: prune_report_runs_def Let_def)
    with p have "\<not> prunable before db x" if "rn_run_id x = p" for x
      using that by (auto simp: prunable_def list_ex_iff)
    then show "run_at p (snd (prune_report_runs before db)) = run_at p db"
      by (simp add: run_at_def prune_report_runs_def Let_def find_filter_same)
  qed
qed

text \<open>\<open>(c, p)\<close>: the run \<open>c\<close> revises the run \<open>p\<close>.\<close>

definition revises :: "report_db \<Rightarrow> (ustr \<times> ustr) set" where
  "revises db = {(c, p). \<exists>r\<in>set (rd_runs db). rn_run_id r = c \<and> rn_revision_of r = Some p}"

lemma set_family_step:
  "set (family_step (rd_runs db) ids) = set ids \<union> {c. \<exists>p\<in>set ids. (c, p) \<in> revises db}"
proof -
  have "(case rn_revision_of r of None \<Rightarrow> False | Some p \<Rightarrow> p \<in> A) \<longleftrightarrow> (\<exists>p\<in>A. rn_revision_of r = Some p)"
    for r :: report_run and A by (cases "rn_revision_of r") auto
  then show ?thesis by (auto simp: family_step_def revises_def)
qed

lemma relpow_upto_Suc:
  "(\<exists>k\<le>Suc n. (x, a) \<in> R ^^ k) \<longleftrightarrow> (\<exists>k\<le>n. (x, a) \<in> R ^^ k) \<or> (\<exists>p. (x, p) \<in> R \<and> (\<exists>k\<le>n. (p, a) \<in> R ^^ k))"
proof
  assume "\<exists>k\<le>Suc n. (x, a) \<in> R ^^ k"
  then obtain k where k: "k \<le> Suc n" "(x, a) \<in> R ^^ k" by blast
  show "(\<exists>k\<le>n. (x, a) \<in> R ^^ k) \<or> (\<exists>p. (x, p) \<in> R \<and> (\<exists>k\<le>n. (p, a) \<in> R ^^ k))"
  proof (cases k)
    case 0
    with k(2) have "(x, a) \<in> R ^^ 0" by simp
    then show ?thesis by blast
  next
    case (Suc j)
    with k show ?thesis using relpow_Suc_D2 [of x a j R] by auto
  qed
next
  assume "(\<exists>k\<le>n. (x, a) \<in> R ^^ k) \<or> (\<exists>p. (x, p) \<in> R \<and> (\<exists>k\<le>n. (p, a) \<in> R ^^ k))"
  then show "\<exists>k\<le>Suc n. (x, a) \<in> R ^^ k"
    using relpow_Suc_I2 [of x _ R a] by (meson Suc_le_mono le_SucI)
qed

lemma set_family_iter:
  "set ((family_step (rd_runs db) ^^ n) [a]) = {x. \<exists>k\<le>n. (x, a) \<in> revises db ^^ k}"
proof (induction n)
  case (Suc n)
  have "set ((family_step (rd_runs db) ^^ Suc n) [a])
      = {x. \<exists>k\<le>n. (x, a) \<in> revises db ^^ k} \<union> {c. \<exists>p. (c, p) \<in> revises db \<and> (\<exists>k\<le>n. (p, a) \<in> revises db ^^ k)}"
    by (auto simp: set_family_step Suc simp del: relpow.simps)
  also have "\<dots> = {x. \<exists>k\<le>Suc n. (x, a) \<in> revises db ^^ k}"
    unfolding relpow_upto_Suc by (rule Collect_disj_eq [symmetric])
  finally show ?case .
qed auto

lemma finite_revises: "finite (revises db)" and card_revises: "card (revises db) \<le> length (rd_runs db)"
proof -
  let ?f = "\<lambda>r. (rn_run_id r, case rn_revision_of r of None \<Rightarrow> [] | Some p \<Rightarrow> p)"
  have sub: "revises db \<subseteq> ?f ` set (rd_runs db)"
    by (force simp: revises_def)
  then show "finite (revises db)" by (rule finite_subset) simp
  have "card (revises db) \<le> card (?f ` set (rd_runs db))" by (rule card_mono [OF _ sub]) simp
  also have "\<dots> \<le> card (set (rd_runs db))" by (rule card_image_le) simp
  also have "\<dots> \<le> length (rd_runs db)" by (rule card_length)
  finally show "card (revises db) \<le> length (rd_runs db)" .
qed

lemma set_family_ids: "set (family_ids (rd_runs db) a) = {x. (x, a) \<in> (revises db)\<^sup>*}"
proof -
  have "(x, a) \<in> (revises db)\<^sup>* \<longleftrightarrow> (\<exists>k\<le>length (rd_runs db). (x, a) \<in> revises db ^^ k)" for x
    using card_revises [of db] rtrancl_finite_eq_relpow [OF finite_revises [of db]]
    by (auto dest: relpow_imp_rtrancl intro: order_trans)
  then show ?thesis by (simp add: family_ids_def set_family_iter)
qed

lemma family_root_apex:
  assumes "family_root db visited r = Inr apex" and "r \<in> set (rd_runs db)"
  shows "apex \<in> set (rd_runs db) \<and> rn_revision_of apex = None
     \<and> (rn_run_id r, rn_run_id apex) \<in> (revises db)\<^sup>*"
  using assms
proof (induction db visited r rule: family_root.induct)
  case (1 db visited r)
  show ?case
  proof (cases "rn_revision_of r")
    case None
    with 1(2,3) show ?thesis by (simp add: family_root.simps [of db visited r])
  next
    case (Some p)
    with 1(2) obtain x where x: "p \<notin> visited" "run_at p db = Some x" "family_root db (insert p visited) x = Inr apex"
      by (simp add: family_root.simps [of db visited r] split: if_splits option.splits)
    have "(rn_run_id r, p) \<in> revises db" using Some 1(3) by (auto simp: revises_def)
    with 1(1) [OF Some x(1,2,3)] run_at_Some [OF x(2)] show ?thesis
      by (auto intro: converse_rtrancl_into_rtrancl)
  qed
qed

lemma list_family_correct:
  assumes "list_report_family_deliveries i db = Inr ds"
  shows "\<exists>apex\<in>set (rd_runs db). rn_revision_of apex = None \<and> (i, rn_run_id apex) \<in> (revises db)\<^sup>*
     \<and> set ds = {d \<in> set (rd_deliveries db). (dv_run_id d, rn_run_id apex) \<in> (revises db)\<^sup>*}"
proof -
  obtain r apex where r: "run_at i db = Some r" "family_root db {} r = Inr apex"
    and ds: "ds = sort_key dv_id (filter (\<lambda>d. dv_run_id d \<in> set (family_ids (rd_runs db) (rn_run_id apex))) (rd_deliveries db))"
    using assms by (auto simp: list_report_family_deliveries_def split: option.splits sum.splits)
  from family_root_apex [OF r(2)] run_at_Some [OF r(1)] show ?thesis
    by (auto simp: ds set_family_ids)
qed

text \<open>the family history shown for a report, when it is shown at all, is complete: it lists
  exactly the deliveries of every run below the first ancestor of the report, whatever revision
  of the family it is asked for.\<close>

theorem family_history_complete:
  assumes "list_report_family_deliveries i db = Inr ds"
  shows "\<exists>apex\<in>set (rd_runs db). rn_revision_of apex = None \<and> (i, rn_run_id apex) \<in> (revises db)\<^sup>*
     \<and> set ds = {d \<in> set (rd_deliveries db). (dv_run_id d, rn_run_id apex) \<in> (revises db)\<^sup>*}"
  by (rule list_family_correct [OF assms])

lemma norm_path_idem [simp]: "norm_path (norm_path p) = norm_path p"
  by (simp add: norm_path_def)

text \<open>A saved ownership is found under every spelling of its path, and no second row remains.\<close>

lemma file_ownership_roundtrip:
  assumes "norm_path p = norm_path (fo_path f)"
  shows "get_report_file p (save_report_file f db) = Some (normalized_file f)"
proof -
  let ?n = "normalized_file f"
  define kept where "kept = filter (\<lambda>x. \<not> (fo_path x \<noteq> fo_path ?n \<and> norm_path (fo_path x) = fo_path ?n)) (rd_files db)"
  have "List.find (\<lambda>x. fo_path x = fo_path ?n) (rd_files (save_report_file f db)) = Some ?n"
  proof (cases "fo_path ?n \<in> set (map fo_path kept)")
    case True
    then have "List.find (\<lambda>x. fo_path x = fo_path ?n) (map (\<lambda>x. if fo_path x = fo_path ?n then ?n else x) kept) = Some ?n"
      by (induction kept) auto
    with True show ?thesis by (simp add: save_report_file_def Let_def kept_def)
  next
    case False
    then have "\<forall>x\<in>set kept. fo_path x \<noteq> fo_path ?n" by (metis image_eqI set_map)
    then have "List.find (\<lambda>x. fo_path x = fo_path ?n) kept = None" by (simp add: find_None_iff)
    with False show ?thesis by (simp add: save_report_file_def Let_def kept_def find_append)
  qed
  moreover have "fo_path ?n = norm_path p" by (simp add: normalized_file_def assms)
  ultimately show ?thesis by (simp add: get_report_file_def normalized_file_def)
qed

lemma find_put:
  "List.find (\<lambda>x. f x = i) xs = Some r \<Longrightarrow> f r' = i \<Longrightarrow>
     List.find (\<lambda>x. f x = i) (map (\<lambda>x. if f x = i then r' else x) xs) = Some r'"
  by (induction xs) (auto split: if_splits)

lemma run_at_put:
  assumes "run_at i db = Some r" and "rn_run_id r' = i"
  shows "run_at i (put_run r' db) = Some r'"
  using find_put [of rn_run_id i "rd_runs db" r r'] assms by (simp add: run_at_def put_run_def)

lemma delivery_at_write:
  assumes "delivery_at i db = Some d" and "dv_id d' = i"
  shows "delivery_at i (write_delivery d' db) = Some d'"
  using find_put [of dv_id i "rd_deliveries db" d d'] assms by (simp add: delivery_at_def write_delivery_def)

lemma claim_exclusive: "fst (claim_report_run i t db) \<Longrightarrow> \<not> fst (claim_report_run i t' (snd (claim_report_run i t db)))"
proof -
  assume "fst (claim_report_run i t db)"
  then obtain r where r: "run_at i db = Some r" "rn_phase r = RunQueued"
    by (auto simp: claim_report_run_def split: option.splits if_splits)
  have "run_at i (put_run (r\<lparr>rn_phase := RunRunning, rn_updated_at := t\<rparr>) db)
      = Some (r\<lparr>rn_phase := RunRunning, rn_updated_at := t\<rparr>)"
    by (rule run_at_put [OF r(1)]) (use run_at_Some [OF r(1)] in simp)
  then show ?thesis by (simp add: claim_report_run_def r)
qed

section \<open>A concrete store\<close>

definition sample_run :: "ustr \<Rightarrow> ustr option \<Rightarrow> run_phase \<Rightarrow> report_run" where
  "sample_run i parent p = \<lparr>rn_requested_range = None, rn_run_id = i, rn_source_id = lit ''s'',
     rn_schedule_id = None, rn_revision_of = parent, rn_window_start = 0, rn_window_end = 10,
     rn_timezone = lit ''UTC'', rn_local_date = lit ''1970-01-01'', rn_phase = p, rn_outcome = None,
     rn_error = None, rn_result = None, rn_config_snapshot = [], rn_created_at = 0, rn_updated_at = 0\<rparr>"

definition sample_delivery :: "ustr \<Rightarrow> ustr \<Rightarrow> delivery_state \<Rightarrow> report_delivery" where
  "sample_delivery i run st = \<lparr>dv_id = i, dv_run_id = run, dv_destination = Telegram, dv_state = st,
     dv_revision_of = None, dv_destination_snapshot = [], dv_path = None, dv_hash = None,
     dv_recovery_path = None, dv_chunk_index = Some 0, dv_chunk_count = Some 1, dv_message_id = None,
     dv_error = None, dv_next_attempt_at = None, dv_attempt = 1, dv_created_at = 0, dv_updated_at = 0\<rparr>"

definition sample_reports_db :: report_db where
  "sample_reports_db = \<lparr>
     rd_runs = [sample_run (lit ''a'') None RunFinished, sample_run (lit ''b'') (Some (lit ''a'')) RunQueued,
                sample_run (lit ''c'') None RunFinished],
     rd_deliveries = [sample_delivery (lit ''d'') (lit ''a'') DSending, sample_delivery (lit ''e'') (lit ''b'') DPending,
                      sample_delivery (lit ''f'') (lit ''c'') DSucceeded],
     rd_files = [], rd_source = None\<rparr>"

lemma sample_reports_ok: "report_ok sample_reports_db"
  by (simp add: report_ok_def sample_reports_db_def sample_run_def sample_delivery_def validate_run_def)


lemma pruning_safe_witness:
  "list_pending_report_runs (snd (prune_report_runs 5 sample_reports_db)) = list_pending_report_runs sample_reports_db
     \<and> fst (prune_report_runs 5 sample_reports_db) = 1"
  using pruning_safe [OF sample_reports_ok, of 5]
  by (simp add: prune_report_runs_def prunable_def live_delivery_def sample_reports_db_def sample_run_def
      sample_delivery_def Let_def)

lemma family_history_complete_witness:
  "\<exists>apex\<in>set (rd_runs sample_reports_db). rn_revision_of apex = None
     \<and> (lit ''b'', rn_run_id apex) \<in> (revises sample_reports_db)\<^sup>*
     \<and> set [sample_delivery (lit ''d'') (lit ''a'') DSending, sample_delivery (lit ''e'') (lit ''b'') DPending]
       = {d \<in> set (rd_deliveries sample_reports_db). (dv_run_id d, rn_run_id apex) \<in> (revises sample_reports_db)\<^sup>*}"
proof (rule family_history_complete)
  show "list_report_family_deliveries (lit ''b'') sample_reports_db
      = Inr [sample_delivery (lit ''d'') (lit ''a'') DSending, sample_delivery (lit ''e'') (lit ''b'') DPending]"
    by (simp add: list_report_family_deliveries_def family_root.simps family_ids_def family_step_def run_at_def
        sample_reports_db_def sample_run_def sample_delivery_def eval_nat_numeral)
qed

end
