(* ===== verification/Telegram.thy ===== *)
theory Telegram
  imports Report_Store Sse
begin

text \<open>
  The Telegram digest of a report (\<open>src-tauri/src/memory_telegram.rs\<close>, and the retry rule of
  \<open>src-tauri/src/memory.rs\<close>): its text, its chunks, the check before a send and the reading of the
  service's answer. The credential store, the HTTP call and the regular expression that masks
  credentials are outside: the mask is the argument \<open>redact\<close>, the service's answer too.
\<close>

section \<open>Digest\<close>

definition len_utf16 :: "uchar \<Rightarrow> nat" where
  "len_utf16 c = (if c < 65536 then 1 else 2)"

definition utf16_len :: "ustr \<Rightarrow> nat" where
  "utf16_len s = sum_list (map len_utf16 s)"

fun bounded_from :: "nat \<Rightarrow> nat \<Rightarrow> ustr \<Rightarrow> ustr" where
  "bounded_from units limit [] = []"
| "bounded_from units limit (c # s) =
     (let u = units + len_utf16 c in if u \<le> limit then c # bounded_from u limit s else [])"

definition bounded :: "ustr \<Rightarrow> nat \<Rightarrow> ustr" where
  "bounded s limit = bounded_from 0 limit s"

definition report_label :: "report_run \<Rightarrow> ustr" where
  "report_label r = (case rn_requested_range r of
     Some q \<Rightarrow> if rq_start_date q \<noteq> rq_end_date q
       then rq_start_date q @ lit '' to '' @ rq_end_date q else rq_start_date q
   | None \<Rightarrow> rn_local_date r)"

text \<open>The loop that cuts the text: a chunk is pushed when the next character would exceed it.\<close>

definition chunk_units :: nat where "chunk_units = 3500"

fun cut_chunks :: "ustr \<Rightarrow> nat \<Rightarrow> ustr \<Rightarrow> ustr list" where
  "cut_chunks current units [] = (if current = [] then [] else [current])"
| "cut_chunks current units (c # s) =
     (if chunk_units < units + len_utf16 c then current # cut_chunks [c] (len_utf16 c) s
      else cut_chunks (current @ [c]) (units + len_utf16 c) s)"

definition number_chunk :: "nat \<Rightarrow> nat \<Rightarrow> ustr \<Rightarrow> ustr" where
  "number_chunk i n c = lit ''['' @ display_int (int i + 1) @ lit ''/'' @ display_int (int n) @ lit '']'' @ [10] @ c"

definition digest_status :: "run_outcome_kind \<Rightarrow> ustr" where
  "digest_status oc =
     (if oc = OutPartial then lit ''PARTIAL '' @ [8212] @ lit '' incomplete coverage''
      else lit ''OK '' @ [8212] @ lit '' sampled coverage'')"

definition digest_text :: "(ustr \<Rightarrow> ustr) \<Rightarrow> report_run \<Rightarrow> run_outcome_kind \<Rightarrow> saved_report \<Rightarrow> ustr" where
  "digest_text redact run oc r =
     (let body = redact (sv_markdown r); shortened = bounded body 10000
      in lit ''ScreenSearch '' @ report_label run @ [10] @ digest_status oc @ [10]
         @ display_int (int (sv_frames_summarized r)) @ lit '' frames summarized; ''
         @ display_int (int (sv_periods_covered r)) @ lit '' periods covered'' @ [10, 10] @ shortened
         @ (if byte_len shortened < byte_len body
            then [10] @ lit ''[Digest shortened; full report saved locally]'' else []))"

definition digest_chunks :: "(ustr \<Rightarrow> ustr) \<Rightarrow> report_run \<Rightarrow> ustr + ustr list" where
  "digest_chunks redact run =
     (case rn_outcome run of None \<Rightarrow> Inl (lit ''report has no outcome'')
      | Some oc \<Rightarrow>
          if oc \<noteq> OutOk \<and> oc \<noteq> OutPartial then Inr []
          else (case rn_result run of None \<Rightarrow> Inl (lit ''report has no saved output'')
            | Some r \<Rightarrow>
                (let chunks = cut_chunks [] 0 (digest_text redact run oc r)
                 in Inr (map (\<lambda>(i, c). number_chunk i (length chunks) c) (enumerate 0 chunks)))))"

section \<open>Sending\<close>

definition valid_token :: "ustr \<Rightarrow> bool" where
  "valid_token token = (case split_once token (lit '':'') of None \<Rightarrow> False
     | Some (i, key) \<Rightarrow>
         i \<noteq> [] \<and> list_all (\<lambda>c. 48 \<le> c \<and> c \<le> 57) i
         \<and> 20 \<le> byte_len key \<and> byte_len key < 256
         \<and> list_all (\<lambda>c. (48 \<le> c \<and> c \<le> 57) \<or> (65 \<le> c \<and> c \<le> 90) \<or> (97 \<le> c \<and> c \<le> 122) \<or> c = 95 \<or> c = 45) key)"

datatype send_outcome = Confirmed int | Retryable int | SendUnknown | Permanent ustr

text \<open>Indexing a JSON value that is no object, or has no such key, gives null.\<close>

definition json_at :: "json \<Rightarrow> ustr \<Rightarrow> json" where
  "json_at v k = (case json_get k v of None \<Rightarrow> JNull | Some x \<Rightarrow> x)"

definition as_u64 :: "json \<Rightarrow> int option" where
  "as_u64 v = (case v of JInt i \<Rightarrow> if 0 \<le> i \<and> i \<le> u64_max then Some i else None | _ \<Rightarrow> None)"

definition classify_response :: "nat \<Rightarrow> json \<Rightarrow> send_outcome" where
  "classify_response status body =
     (if 200 \<le> status \<and> status < 300 \<and> json_at body (lit ''ok'') = JBool True
      then (case as_i64 (json_at (json_at body (lit ''result'')) (lit ''message_id'')) of
              Some i \<Rightarrow> if 0 < i then Confirmed i else SendUnknown | None \<Rightarrow> SendUnknown)
      else if json_at body (lit ''ok'') = JBool False \<and> json_at body (lit ''error_code'') = JInt 429 \<and> status = 429
      then Retryable (case as_u64 (json_at (json_at body (lit ''parameters'')) (lit ''retry_after'')) of
              Some s \<Rightarrow> s | None \<Rightarrow> 30)
      else if json_at body (lit ''ok'') = JBool False \<and> status \<in> {400, 401, 403, 404}
      then Permanent (lit ''Telegram rejected the request'')
      else SendUnknown)"

text \<open>
  \<open>send_chunk\<close>: the request is refused before it is made, or its answer is read. A response that
  never arrives or whose body is not JSON is of unknown acceptance; building the HTTP client is
  assumed to succeed.
\<close>

definition send_chunk :: "ustr \<Rightarrow> ustr \<Rightarrow> ustr \<Rightarrow> (nat \<times> json) option \<Rightarrow> send_outcome" where
  "send_chunk token chat body answer =
     (if \<not> valid_token token \<or> trim chat = [] \<or> 4096 < utf16_len body
      then Permanent (lit ''invalid credential, destination or message length'')
      else (case answer of None \<Rightarrow> SendUnknown | Some (status, v) \<Rightarrow> classify_response status v))"

text \<open>\<open>retry_delay\<close>, in seconds: three automatic attempts, never earlier than the service asked.\<close>

definition retry_delay :: "nat \<Rightarrow> int \<Rightarrow> int option" where
  "retry_delay attempt server_secs =
     (let bases = [30, 120, 600]; k = attempt - 1
      in if k < length bases then Some (max (bases ! k) server_secs) else None)"

section \<open>Every chunk fits one message\<close>

lemma utf16_len_simps [simp]:
  "utf16_len [] = 0" "utf16_len (c # s) = len_utf16 c + utf16_len s" "utf16_len (s @ t) = utf16_len s + utf16_len t"
  by (simp_all add: utf16_len_def)

lemma len_utf16_bounds: "1 \<le> len_utf16 c" "len_utf16 c \<le> 2"
  by (simp_all add: len_utf16_def)

lemma length_le_utf16: "length s \<le> utf16_len s"
proof (induction s)
  case (Cons c s)
  then show ?case using len_utf16_bounds(1) [of c] by simp
qed simp

lemma concat_cut_chunks: "concat (cut_chunks current units s) = current @ s"
  by (induction current units s rule: cut_chunks.induct) auto

lemma cut_chunks_fit:
  assumes "utf16_len current = units" and "units \<le> chunk_units"
  shows "\<forall>c\<in>set (cut_chunks current units s). utf16_len c \<le> chunk_units"
  using assms
proof (induction current units s rule: cut_chunks.induct)
  case (2 current units c s)
  then show ?case using len_utf16_bounds(2) [of c] by (auto simp: chunk_units_def)
qed auto

lemma cut_chunks_nonempty:
  assumes "utf16_len current = units"
  shows "[] \<notin> set (cut_chunks current units s)"
  using assms
proof (induction current units s rule: cut_chunks.induct)
  case (2 current units c s)
  have "current \<noteq> []" if "chunk_units < units + len_utf16 c"
    using that 2(3) len_utf16_bounds(2) [of c] by (auto simp: chunk_units_def)
  with 2 show ?case by auto
qed auto
lemma length_cut_chunks: "length (cut_chunks current units s) \<le> length s + 1"
  by (induction current units s rule: cut_chunks.induct) auto

text \<open>Each chunk but the last is nearly full, so a text of a few thousand units has few chunks.\<close>

lemma cut_chunks_count:
  assumes "utf16_len current = units" and "current \<noteq> [] \<or> units = 0"
  shows "3499 * length (cut_chunks current units s) \<le> units + utf16_len s + 3499"
  using assms
proof (induction current units s rule: cut_chunks.induct)
  case (1 current units)
  then show ?case by auto
next
  case (2 current units c s)
  show ?case
  proof (cases "chunk_units < units + len_utf16 c")
    case True
    then have "3499 \<le> units" using len_utf16_bounds(2) [of c] by (simp add: chunk_units_def)
    then show ?thesis using 2(1) True by simp
  next
    case False
    then show ?thesis using 2(2) 2(3) len_utf16_bounds(1) [of c] by simp
  qed
qed

lemma bounded_from_fits: "units \<le> limit \<Longrightarrow> units + utf16_len (bounded_from units limit s) \<le> limit"
proof (induction units limit s rule: bounded_from.induct)
  case (2 units limit c s)
  then show ?case by (auto simp: Let_def algebra_simps)
qed simp

lemma bounded_fits: "utf16_len (bounded s n) \<le> n"
  using bounded_from_fits [of 0 n s] by (simp add: bounded_def)

lemma utf16_len_ascii: "list_all (\<lambda>c. c < 65536) s \<Longrightarrow> utf16_len s = length s"
  by (induction s) (auto simp: len_utf16_def)

lemma digits_of_small: "list_all (\<lambda>c. c < 65536) (digits_of n)" if "0 \<le> n"
  using that by (induction n rule: digits_of.induct) (subst digits_of.simps, auto)

lemma length_digits: "0 \<le> n \<Longrightarrow> n < 10 ^ k \<Longrightarrow> 0 < k \<Longrightarrow> length (digits_of n) \<le> k"
proof (induction k arbitrary: n)
  case (Suc k)
  show ?case
  proof (cases "n < 10")
    case True
    then show ?thesis by (simp add: digits_of.simps)
  next
    case False
    then have "0 < k" using Suc.prems by (cases k) auto
    moreover have "n div 10 < 10 ^ k" using Suc.prems by (simp add: div_less_iff_less_mult)
    ultimately have "length (digits_of (n div 10)) \<le> k" using Suc False by simp
    then show ?thesis using False Suc.prems by (subst digits_of.simps) simp
  qed
qed simp

lemma display_nat_fits: "n < 10 ^ k \<Longrightarrow> 0 < k \<Longrightarrow> utf16_len (display_int (int n)) \<le> k"
proof -
  assume k: "n < 10 ^ k" "0 < k"
  have "int n < int (10 ^ k)" using k(1) by (simp only: of_nat_less_iff)
  then have "int n < 10 ^ k" by simp
  then show ?thesis
    using length_digits [of "int n" k] utf16_len_ascii [OF digits_of_small [of "int n"]] k(2)
    by (simp add: display_int_def)
qed

lemma utf16_len_lit: "utf16_len (lit s) = length s"
proof -
  have "of_char c < (65536 :: int)" for c :: char
    using of_nat_less_iff [of "of_char c" 65536, where 'a = int] by (cases c) auto
  then show ?thesis by (simp add: lit_def utf16_len_ascii list_all_iff)
qed

lemma digest_text_fits:
  assumes "utf16_len (report_label run) \<le> 1000"
    and "sv_frames_summarized r < 10 ^ 10" and "sv_periods_covered r < 10 ^ 10"
  shows "utf16_len (digest_text redact run oc r) \<le> 11300"
proof -
  have "utf16_len (digest_status oc) \<le> 40"
    by (simp add: digest_status_def utf16_len_lit len_utf16_def del: lit_Cons lit_Nil)
  moreover note assms(1) display_nat_fits [OF assms(2)] display_nat_fits [OF assms(3)]
    bounded_fits [of "redact (sv_markdown r)" 10000]
  ultimately show ?thesis
    by (simp add: digest_text_def Let_def utf16_len_lit len_utf16_def del: lit_Cons lit_Nil)
qed

text \<open>C19: the digest of a report is its text cut into at most four numbered messages, none lost,
  and each short enough that the service accepts its length.\<close>

theorem digest_chunks_fit:
  assumes "digest_chunks redact run = Inr cs" and "rn_outcome run = Some oc" and "rn_result run = Some r"
    and "oc = OutOk \<or> oc = OutPartial" and "utf16_len (report_label run) \<le> 1000"
    and "sv_frames_summarized r < 10 ^ 10" and "sv_periods_covered r < 10 ^ 10"
  shows "\<exists>chunks. cs = map (\<lambda>(i, c). number_chunk i (length chunks) c) (enumerate 0 chunks)
     \<and> concat chunks = digest_text redact run oc r \<and> [] \<notin> set chunks \<and> length chunks \<le> 4
     \<and> (\<forall>c\<in>set cs. utf16_len c \<le> 4096)"
proof (intro exI conjI)
  let ?chunks = "cut_chunks [] 0 (digest_text redact run oc r)"
  show cs: "cs = map (\<lambda>(i, c). number_chunk i (length ?chunks) c) (enumerate 0 ?chunks)"
    using assms(1-4) by (auto simp: digest_chunks_def Let_def)
  show "concat ?chunks = digest_text redact run oc r" by (simp add: concat_cut_chunks)
  show "[] \<notin> set ?chunks" by (rule cut_chunks_nonempty) simp
  show len: "length ?chunks \<le> 4"
    using cut_chunks_count [of "[]" 0 "digest_text redact run oc r"] digest_text_fits [OF assms(5-7), of redact oc]
    by simp
  show "\<forall>c\<in>set cs. utf16_len c \<le> 4096"
  proof
    fix c assume "c \<in> set cs"
    then obtain i b where i: "i < length ?chunks" "b = ?chunks ! i" "c = number_chunk i (length ?chunks) b"
      unfolding cs by (auto simp: in_set_enumerate_eq)
    have "utf16_len b \<le> 3500"
      using cut_chunks_fit [of "[]" 0 "digest_text redact run oc r"] i by (simp add: chunk_units_def)
    moreover have "utf16_len (display_int (int (length ?chunks))) \<le> 1" "utf16_len (display_int (1 + int i)) \<le> 1"
      using display_nat_fits [of "length ?chunks" 1] display_nat_fits [of "Suc i" 1] len i(1) by simp_all
    ultimately show "utf16_len c \<le> 4096"
      by (simp add: i(3) number_chunk_def utf16_len_lit len_utf16_def add.commute del: lit_Cons lit_Nil)
  qed
qed

definition sample_saved :: saved_report where
  "sample_saved = \<lparr>sv_markdown = lit ''x'', sv_model = None, sv_frame_ids = [1], sv_session_ids = [],
     sv_cited_frame_ids = [], sv_frames_sampled = 1, sv_frames_summarized = 1, sv_periods_total = 1,
     sv_periods_covered = 1, sv_passes = 1, sv_truncated = False\<rparr>"

definition sample_saved_run :: report_run where
  "sample_saved_run = (sample_run (lit ''a'') None RunFinished)\<lparr>rn_outcome := Some OutOk, rn_result := Some sample_saved\<rparr>"

lemma digest_chunks_fit_witness:
  "\<exists>cs chunks. digest_chunks (\<lambda>s. s) sample_saved_run = Inr cs
     \<and> cs = map (\<lambda>(i, c). number_chunk i (length chunks) c) (enumerate 0 chunks)
     \<and> concat chunks = digest_text (\<lambda>s. s) sample_saved_run OutOk sample_saved \<and> [] \<notin> set chunks
     \<and> length chunks \<le> 4 \<and> (\<forall>c\<in>set cs. utf16_len c \<le> 4096)"
proof -
  have f: "rn_outcome sample_saved_run = Some OutOk" "rn_result sample_saved_run = Some sample_saved"
      "utf16_len (report_label sample_saved_run) \<le> 1000"
    by (simp_all add: sample_saved_run_def sample_run_def report_label_def utf16_len_lit del: lit_Cons lit_Nil)
  obtain cs where cs: "digest_chunks (\<lambda>s. s) sample_saved_run = Inr cs"
    by (simp add: digest_chunks_def f Let_def)
  show ?thesis
    using cs digest_chunks_fit [OF cs f(1,2) _ f(3)] by (simp add: sample_saved_def)
qed

end
