(* ===== verification/Report_Delivery.thy ===== *)
theory Report_Delivery
  imports Telegram
begin

text \<open>
  Delivery of a finished report to Telegram (\<open>src-tauri/src/memory.rs\<close>): \<open>deliver_telegram\<close> with the
  check of the revision family, the user's retry and resolution of an attempt, and the redirection
  of attempts whose chat is no longer the selected one. The store is the one of
  \<open>Report_Store\<close>; the clock, the settings read at each point, the credential, the service's answer
  and the point where the process ends are arguments. A log of the calls of \<open>send_chunk\<close> is kept
  beside the store, and the life of the whole worker, crashes and recoveries included, is a step
  relation.
\<close>

section \<open>Settings and snapshots\<close>

record memory_settings =
  mt_enabled :: bool
  mt_local_time :: "ustr option"
  mt_timezone :: "ustr option"
  mt_output_folder :: "ustr option"
  mt_telegram_enabled :: bool
  mt_telegram_chat_id :: "ustr option"

record telegram_snapshot =
  tn_chat_id :: ustr
  tn_text :: ustr

text \<open>The JSON of snapshots, and the random ids, the clock and the mask as the worker finds them.\<close>

record delivery_env =
  de_show :: "telegram_snapshot \<Rightarrow> ustr"
  de_read :: "ustr \<Rightarrow> telegram_snapshot option"
  de_show_chat :: "ustr option \<Rightarrow> ustr"
  de_redact :: "ustr \<Rightarrow> ustr"
  de_uuid :: "nat \<Rightarrow> ustr"
  de_now :: int

section \<open>Deliveries\<close>

definition new_delivery :: "delivery_env \<Rightarrow> nat \<Rightarrow> report_run \<Rightarrow> destination \<Rightarrow> ustr \<Rightarrow> report_delivery" where
  "new_delivery env k run dest snapshot = \<lparr>dv_id = de_uuid env k, dv_run_id = rn_run_id run,
     dv_destination = dest, dv_state = DPending, dv_revision_of = None,
     dv_destination_snapshot = snapshot, dv_path = None, dv_hash = None, dv_recovery_path = None,
     dv_chunk_index = None, dv_chunk_count = None, dv_message_id = None, dv_error = None,
     dv_next_attempt_at = None, dv_attempt = 0, dv_created_at = de_now env, dv_updated_at = de_now env\<rparr>"

definition path_string :: "ustr \<Rightarrow> ustr" where
  "path_string p = map (\<lambda>c. if c = 92 then 47 else c) p"

definition normalize_delivery_paths :: "report_delivery \<Rightarrow> report_delivery" where
  "normalize_delivery_paths d = d\<lparr>dv_path := map_option path_string (dv_path d),
     dv_recovery_path := map_option path_string (dv_recovery_path d)\<rparr>"

text \<open>\<open>update_delivery\<close>: the compare-and-set of the store; its code when it is refused.\<close>

definition update_delivery ::
  "int \<Rightarrow> report_delivery \<Rightarrow> delivery_state \<Rightarrow> report_db \<Rightarrow> (ustr + report_delivery) \<times> report_db" where
  "update_delivery now d expected db =
     (let item = (normalize_delivery_paths d)\<lparr>dv_updated_at := now\<rparr>
      in case update_report_delivery item expected db of
           (Inl _, db') \<Rightarrow> (Inl (lit ''STORE_ERROR''), db')
         | (Inr False, db') \<Rightarrow> (Inl (lit ''BUSY''), db')
         | (Inr True, db') \<Rightarrow> (Inr item, db'))"

section \<open>What blocks a digest\<close>

definition telegram_in :: "delivery_state set \<Rightarrow> report_delivery \<Rightarrow> bool" where
  "telegram_in S d \<longleftrightarrow> dv_destination d = Telegram \<and> dv_state d \<in> S"

definition family_delivery_block :: "report_delivery list \<Rightarrow> ustr \<Rightarrow> ustr option" where
  "family_delivery_block receipts i =
     (if list_ex (\<lambda>d. dv_run_id d \<noteq> i \<and> telegram_in {DSucceeded} d) receipts
      then Some (lit ''A related report revision already has confirmed Telegram delivery.'')
      else if list_ex (\<lambda>d. dv_run_id d \<noteq> i \<and> telegram_in {DUnknown} d) receipts
      then Some (lit ''A related report revision has unknown Telegram delivery; review it first.'')
      else None)"

function ancestor_block :: "report_db \<Rightarrow> ustr set \<Rightarrow> ustr option \<Rightarrow> ustr option" where
  "ancestor_block db visited None = None"
| "ancestor_block db visited (Some i) =
     (if i \<in> visited
      then Some (lit ''Revision history is inconsistent; inspect earlier delivery before sending.'')
      else (case run_at i db of
          None \<Rightarrow> Some (lit ''Earlier revision history is unavailable; delivery cannot be safely repeated.'')
        | Some previous \<Rightarrow>
            (let receipts = list_report_deliveries i db
             in if list_ex (telegram_in {DSucceeded}) receipts
                then Some (lit ''An earlier revision already has confirmed Telegram delivery.'')
                else if list_ex (telegram_in {DUnknown}) receipts
                then Some (lit ''An earlier revision has unknown delivery; review that attempt first.'')
                else if list_ex (telegram_in {DPending, DSending}) receipts
                then Some (lit ''An earlier revision still has pending delivery; resolve it before sending a new revision.'')
                else ancestor_block db (insert i visited) (rn_revision_of previous))))"
  by pat_completeness auto
termination
proof (relation "measure (\<lambda>(db, visited, _). card (set (map rn_run_id (rd_runs db)) - visited))")
  fix db :: report_db and visited i previous receipts
  assume "i \<notin> visited" and "run_at i db = Some previous"
  then have "i \<in> set (map rn_run_id (rd_runs db)) - visited"
    by (auto simp: run_at_def find_Some_iff)
  then show "((db, insert i visited, rn_revision_of previous), db, visited, Some i) \<in>
      measure (\<lambda>(db, visited, _). card (set (map rn_run_id (rd_runs db)) - visited))"
    by (simp del: card_Diff_insert) (rule psubset_card_mono; auto)
qed simp

declare ancestor_block.simps [simp del]

definition ancestor_delivery_block :: "report_db \<Rightarrow> report_run \<Rightarrow> ustr + ustr option" where
  "ancestor_delivery_block db run =
     (case list_report_family_deliveries (rn_run_id run) db of
        Inl _ \<Rightarrow> Inl (lit ''STORE_ERROR'')
      | Inr family \<Rightarrow>
          (case family_delivery_block family (rn_run_id run) of
             Some reason \<Rightarrow> Inr (Some reason)
           | None \<Rightarrow> Inr (ancestor_block db {} (rn_revision_of run))))"

section \<open>One dispatch\<close>

text \<open>
  What one turn of the dispatch loop meets: the clock and the settings at each read, whether the
  application is stopping, the stored credential, the service's answer, and how the turn ends: the
  receipt is saved, saving it fails, or the process ends while the attempt is marked as sending.
\<close>

datatype receipt_fate = Saved | SaveFailed | ProcessEnds

record dispatch_env =
  ds_due :: int
  ds_settings :: memory_settings
  ds_stopping :: bool
  ds_token :: "ustr option"
  ds_latest :: memory_settings
  ds_stopping_latest :: bool
  ds_begin :: int
  ds_answer :: "(nat \<times> json) option"
  ds_fate :: receipt_fate
  ds_end :: int

datatype dispatch_end = Finished | Stopped ustr | Killed

text \<open>The log of sends: the row, and the answer of the service.\<close>

type_synonym sent_log = "(ustr \<times> send_outcome) list"

definition targets :: "memory_settings \<Rightarrow> telegram_snapshot \<Rightarrow> bool" where
  "targets s payload \<longleftrightarrow> mt_telegram_enabled s \<and> mt_telegram_chat_id s = Some (tn_chat_id payload)"

definition after_send :: "int \<Rightarrow> send_outcome \<Rightarrow> report_delivery \<Rightarrow> report_delivery" where
  "after_send now outcome d = (case outcome of
     Confirmed i \<Rightarrow> d\<lparr>dv_state := DSucceeded, dv_message_id := Some i\<rparr>
   | SendUnknown \<Rightarrow> d\<lparr>dv_state := DUnknown, dv_error := Some \<lparr>re_code = lit ''DELIVERY_FAILED'',
       re_message = lit ''Telegram acceptance is unknown. Inspect the conversation before deciding whether to resend.''\<rparr>\<rparr>
   | Permanent m \<Rightarrow> d\<lparr>dv_state := DFailed, dv_error := Some \<lparr>re_code = lit ''DELIVERY_FAILED'', re_message = m\<rparr>\<rparr>
   | Retryable s \<Rightarrow> d\<lparr>dv_state := DFailed, dv_error := Some \<lparr>re_code = lit ''DELIVERY_FAILED'',
       re_message = lit ''Telegram explicitly rejected the request temporarily.''\<rparr>,
       dv_next_attempt_at := map_option (\<lambda>secs. sat_add64 now (min (secs * 1000) i64_max)) (retry_delay (dv_attempt d) s)\<rparr>)"

definition mark_sending :: "report_delivery \<Rightarrow> report_delivery" where
  "mark_sending d = d\<lparr>dv_state := DSending, dv_attempt := dv_attempt d + 1, dv_next_attempt_at := None, dv_error := None\<rparr>"

definition no_credential :: "report_delivery \<Rightarrow> report_delivery" where
  "no_credential d = d\<lparr>dv_state := DFailed, dv_next_attempt_at := None,
     dv_error := Some \<lparr>re_code = lit ''CREDENTIAL_UNAVAILABLE'',
       re_message = lit ''Configure an available Telegram credential, then retry.''\<rparr>\<rparr>"

text \<open>The loop over the chunks of the digest, in order; \<open>None\<close> of a turn is a \<open>break\<close>.\<close>

fun dispatch_loop ::
  "delivery_env \<Rightarrow> report_run \<Rightarrow> (nat \<Rightarrow> dispatch_env) \<Rightarrow> nat \<Rightarrow> report_delivery list
    \<Rightarrow> report_db \<Rightarrow> sent_log \<Rightarrow> dispatch_end \<times> report_db \<times> sent_log" where
  "dispatch_loop env run turn k [] db sent = (Finished, db, sent)"
| "dispatch_loop env run turn k (item # items) db sent =
     (let t = turn k in
      if dv_state item \<in> {DSucceeded, DSkipped, DReviewed} then dispatch_loop env run turn (Suc k) items db sent
      else if dv_state item = DFailed \<and> dv_next_attempt_at item = None then (Finished, db, sent)
      else if (case dv_next_attempt_at item of Some due \<Rightarrow> ds_due t < due | None \<Rightarrow> False) then (Finished, db, sent)
      else case de_read env (dv_destination_snapshot item) of
        None \<Rightarrow> (Stopped (lit ''STORE_ERROR''), db, sent)
      | Some payload \<Rightarrow>
        if \<not> targets (ds_settings t) payload \<or> ds_stopping t then (Finished, db, sent)
        else case (if dv_revision_of item = None then ancestor_delivery_block db run else Inr None) of
          Inl e \<Rightarrow> (Stopped e, db, sent)
        | Inr (Some _) \<Rightarrow> (Finished, db, sent)
        | Inr None \<Rightarrow>
          (case ds_token t of
             None \<Rightarrow> (case update_delivery (ds_begin t) (no_credential item) (dv_state item) db of
                 (Inl e, db') \<Rightarrow> (Stopped e, db', sent) | (Inr _, db') \<Rightarrow> (Finished, db', sent))
           | Some token \<Rightarrow>
             if \<not> targets (ds_latest t) payload \<or> ds_stopping_latest t then (Finished, db, sent)
             else case update_delivery (ds_begin t) (mark_sending item) (dv_state item) db of
               (Inl e, db') \<Rightarrow> (Stopped e, db', sent)
             | (Inr sending, db') \<Rightarrow>
               (let outcome = send_chunk token (tn_chat_id payload) (tn_text payload) (ds_answer t);
                    sent' = sent @ [(dv_id item, outcome)];
                    after = after_send (ds_end t) outcome sending
                in case ds_fate t of
                     ProcessEnds \<Rightarrow> (Killed, db', sent')
                   | SaveFailed \<Rightarrow> (Stopped (lit ''STORE_ERROR''), db', sent')
                   | Saved \<Rightarrow>
                     (case update_delivery (ds_end t) after DSending db' of
                        (Inl e, db'') \<Rightarrow> (Stopped e, db'', sent')
                      | (Inr _, db'') \<Rightarrow>
                          if dv_state after = DSucceeded then dispatch_loop env run turn (Suc k) items db'' sent'
                          else (Finished, db'', sent')))))"

section \<open>One pass over a run\<close>

definition digest_eligible :: "memory_settings \<Rightarrow> report_run \<Rightarrow> bool" where
  "digest_eligible config run \<longleftrightarrow> mt_telegram_enabled config
     \<and> (rn_outcome run = Some OutOk \<or> rn_outcome run = Some OutPartial)"

definition skip_reason :: "memory_settings \<Rightarrow> report_run \<Rightarrow> report_db \<Rightarrow> ustr + ustr option" where
  "skip_reason config run db =
     (if \<not> mt_telegram_enabled config then Inr (Some (lit ''Telegram was disabled for this report.''))
      else if \<not> (rn_outcome run = Some OutOk \<or> rn_outcome run = Some OutPartial)
        then Inr (Some (lit ''No digest is sent for a no-data, blocked or failed report.''))
      else ancestor_delivery_block db run)"

definition skipped_delivery :: "delivery_env \<Rightarrow> memory_settings \<Rightarrow> report_run \<Rightarrow> ustr \<Rightarrow> report_delivery" where
  "skipped_delivery env config run reason =
     (new_delivery env 0 run Telegram (de_show_chat env (mt_telegram_chat_id config)))
       \<lparr>dv_state := DSkipped, dv_error := Some \<lparr>re_code = lit ''DELIVERY_FAILED'', re_message = reason\<rparr>\<rparr>"

definition chunk_intents :: "delivery_env \<Rightarrow> report_run \<Rightarrow> ustr \<Rightarrow> ustr list \<Rightarrow> report_delivery list" where
  "chunk_intents env run chat chunks =
     map (\<lambda>(i, body). (new_delivery env i run Telegram (de_show env \<lparr>tn_chat_id = chat, tn_text = body\<rparr>))
            \<lparr>dv_chunk_index := Some i, dv_chunk_count := Some (length chunks)\<rparr>) (enumerate 0 chunks)"

text \<open>The first part of \<open>deliver_telegram\<close>: the digest is persisted, or its being skipped is;
  \<open>Some\<close> ends the pass.\<close>

definition prepare_digest ::
  "delivery_env \<Rightarrow> memory_settings \<Rightarrow> report_run \<Rightarrow> report_db \<Rightarrow> dispatch_end option \<times> report_db" where
  "prepare_digest env config run db =
     (let receipts = list_report_deliveries (rn_run_id run) db;
          has_chunks = list_ex (\<lambda>d. dv_destination d = Telegram \<and> dv_chunk_index d \<noteq> None) receipts
      in if \<not> has_chunks \<and> (digest_eligible config run \<or> \<not> list_ex (\<lambda>d. dv_destination d = Telegram) receipts)
         then (case skip_reason config run db of
             Inl e \<Rightarrow> (Some (Stopped e), db)
           | Inr (Some reason) \<Rightarrow>
               (case create_report_delivery (skipped_delivery env config run reason) db of
                  (Inl _, db') \<Rightarrow> (Some (Stopped (lit ''STORE_ERROR'')), db')
                | (Inr _, db') \<Rightarrow> (Some Finished, db'))
           | Inr None \<Rightarrow>
               (case mt_telegram_chat_id config of
                  None \<Rightarrow> (Some (Stopped (lit ''INVALID_CONFIG'')), db)
                | Some chat \<Rightarrow>
                    (case digest_chunks (de_redact env) run of
                       Inl _ \<Rightarrow> (Some (Stopped (lit ''DELIVERY_FAILED'')), db)
                     | Inr chunks \<Rightarrow>
                         (case create_report_deliveries (chunk_intents env run chat chunks) db of
                            (Inl _, db') \<Rightarrow> (Some (Stopped (lit ''STORE_ERROR'')), db')
                          | (Inr _, db') \<Rightarrow> (None, db')))))
         else (None, db))"

definition digest_order :: "report_delivery \<Rightarrow> nat option \<times> int" where
  "digest_order d = (dv_chunk_index d, dv_created_at d)"

definition deliver_telegram ::
  "delivery_env \<Rightarrow> memory_settings \<Rightarrow> report_run \<Rightarrow> memory_settings \<Rightarrow> bool \<Rightarrow> (nat \<Rightarrow> dispatch_env)
    \<Rightarrow> report_db \<Rightarrow> sent_log \<Rightarrow> dispatch_end \<times> report_db \<times> sent_log" where
  "deliver_telegram env config run current stopping turn db sent =
     (case prepare_digest env config run db of
        (Some e, db') \<Rightarrow> (e, db', sent)
      | (None, db') \<Rightarrow>
          if \<not> mt_telegram_enabled current \<or> stopping then (Finished, db', sent)
          else (let telegram = sort_key digest_order
                      (filter (\<lambda>d. dv_destination d = Telegram) (list_report_deliveries (rn_run_id run) db'))
                in if list_ex (\<lambda>d. dv_state d = DUnknown) telegram then (Finished, db', sent)
                   else dispatch_loop env run turn 0 telegram db' sent))"

section \<open>What the user can do\<close>

definition redirectable :: "report_delivery \<Rightarrow> bool" where
  "redirectable d \<longleftrightarrow> telegram_in {DPending, DFailed, DSucceeded} d"

definition chunk_confirmed_at ::
  "delivery_env \<Rightarrow> report_delivery list \<Rightarrow> ustr \<Rightarrow> report_delivery \<Rightarrow> bool" where
  "chunk_confirmed_at env receipts target item \<longleftrightarrow>
     dv_chunk_index item \<noteq> None
     \<and> list_ex (\<lambda>d. telegram_in {DSucceeded} d \<and> dv_chunk_index d = dv_chunk_index item
          \<and> (case de_read env (dv_destination_snapshot d) of None \<Rightarrow> False | Some other \<Rightarrow> tn_chat_id other = target)) receipts"

definition replacement_live :: "report_delivery list \<Rightarrow> report_delivery \<Rightarrow> bool" where
  "replacement_live receipts item \<longleftrightarrow>
     list_ex (\<lambda>d. dv_revision_of d = Some (dv_id item) \<and> dv_destination d = Telegram
       \<and> dv_state d \<notin> {DReviewed, DSkipped}) receipts"

definition redirected :: "delivery_env \<Rightarrow> nat \<Rightarrow> ustr \<Rightarrow> ustr \<Rightarrow> report_delivery \<Rightarrow> report_delivery" where
  "redirected env k target body item = item\<lparr>dv_id := de_uuid env k, dv_revision_of := Some (dv_id item),
     dv_state := DPending, dv_destination_snapshot := de_show env \<lparr>tn_chat_id = target, tn_text = body\<rparr>,
     dv_message_id := None, dv_error := None, dv_next_attempt_at := None, dv_attempt := 0,
     dv_created_at := de_now env, dv_updated_at := de_now env\<rparr>"

fun redirect_loop ::
  "delivery_env \<Rightarrow> ustr \<Rightarrow> report_delivery list \<Rightarrow> nat \<Rightarrow> report_delivery list \<Rightarrow> report_db
    \<Rightarrow> (ustr + unit) \<times> report_db" where
  "redirect_loop env target receipts k [] db = (Inr (), db)"
| "redirect_loop env target receipts k (item # items) db =
     (case de_read env (dv_destination_snapshot item) of
        None \<Rightarrow> redirect_loop env target receipts (Suc k) items db
      | Some snapshot \<Rightarrow>
          if tn_chat_id snapshot = target then redirect_loop env target receipts (Suc k) items db
          else
            (case (if \<not> replacement_live receipts item \<and> \<not> chunk_confirmed_at env receipts target item
                   then create_report_delivery (redirected env k target (tn_text snapshot) item) db
                   else (Inr item, db)) of
               (Inl _, db') \<Rightarrow> (Inl (lit ''STORE_ERROR''), db')
             | (Inr _, db') \<Rightarrow>
                 if dv_state item = DSucceeded then redirect_loop env target receipts (Suc k) items db'
                 else (case update_delivery (de_now env) (item\<lparr>dv_state := DReviewed\<rparr>) (dv_state item) db' of
                     (Inl e, db'') \<Rightarrow> (Inl e, db'')
                   | (Inr _, db'') \<Rightarrow> redirect_loop env target receipts (Suc k) items db'')))"

definition redirect_stale_telegram_deliveries ::
  "delivery_env \<Rightarrow> ustr \<Rightarrow> ustr option \<Rightarrow> report_db \<Rightarrow> (ustr + unit) \<times> report_db" where
  "redirect_stale_telegram_deliveries env run_id chat db =
     (case map_option trim chat of
        None \<Rightarrow> (Inr (), db)
      | Some target \<Rightarrow>
          if target = [] then (Inr (), db)
          else (let receipts = list_report_deliveries run_id db
                in redirect_loop env target receipts 0 (filter redirectable receipts) db))"

fun retry_loop :: "int \<Rightarrow> report_delivery list \<Rightarrow> report_db \<Rightarrow> (ustr + unit) \<times> report_db" where
  "retry_loop now [] db = (Inr (), db)"
| "retry_loop now (item # items) db =
     (if dv_destination item \<noteq> Telegram \<and> dv_state item = DConflict
      then (case update_delivery now (item\<lparr>dv_state := DReviewed\<rparr>) DConflict db of
              (Inl e, db') \<Rightarrow> (Inl e, db') | (Inr _, db') \<Rightarrow> retry_loop now items db')
      else if dv_destination item = Telegram \<and> dv_state item = DFailed
      then (case update_delivery now (item\<lparr>dv_state := DPending, dv_next_attempt_at := None, dv_error := None\<rparr>) DFailed db of
              (Inl e, db') \<Rightarrow> (Inl e, db') | (Inr _, db') \<Rightarrow> retry_loop now items db')
      else retry_loop now items db)"

text \<open>\<open>retry_memory_report\<close>, under the control lock, when no worker is active.\<close>

definition retry_memory_report ::
  "delivery_env \<Rightarrow> bool \<Rightarrow> ustr \<Rightarrow> memory_settings \<Rightarrow> report_db \<Rightarrow> (ustr + report_run) \<times> report_db" where
  "retry_memory_report env active run_id current db =
     (if active then (Inl (lit ''BUSY''), db)
      else case run_at run_id db of
        None \<Rightarrow> (Inl (lit ''NOT_FOUND''), db)
      | Some run \<Rightarrow>
          if rn_phase run \<in> {RunQueued, RunRunning} then (Inl (lit ''BUSY''), db)
          else (case redirect_stale_telegram_deliveries env run_id (mt_telegram_chat_id current) db of
              (Inl e, db1) \<Rightarrow> (Inl e, db1)
            | (Inr _, db1) \<Rightarrow>
                (case retry_loop (de_now env) (list_report_deliveries run_id db1) db1 of
                   (Inl e, db2) \<Rightarrow> (Inl e, db2)
                 | (Inr _, db2) \<Rightarrow>
                     (let run' = run\<lparr>rn_phase := RunQueued, rn_error := None,
                           rn_outcome := (if rn_result run = None then None else rn_outcome run),
                           rn_updated_at := de_now env\<rparr>
                      in case update_report_run run' db2 of
                           (Inl _, db3) \<Rightarrow> (Inl (lit ''STORE_ERROR''), db3)
                         | (Inr _, db3) \<Rightarrow> (Inr run', db3)))))"

definition resend_of :: "delivery_env \<Rightarrow> report_delivery \<Rightarrow> report_delivery" where
  "resend_of env old = old\<lparr>dv_id := de_uuid env 0, dv_revision_of := Some (dv_id old), dv_state := DPending,
     dv_message_id := None, dv_error := None, dv_attempt := 0, dv_next_attempt_at := None,
     dv_created_at := de_now env, dv_updated_at := de_now env\<rparr>"

definition resolve_telegram_delivery ::
  "delivery_env \<Rightarrow> ustr \<Rightarrow> bool \<Rightarrow> report_db \<Rightarrow> (ustr + report_run) \<times> report_db" where
  "resolve_telegram_delivery env attempt_id resend db =
     (case delivery_at attempt_id db of
        None \<Rightarrow> (Inl (lit ''NOT_FOUND''), db)
      | Some old \<Rightarrow>
          (case run_at (dv_run_id old) db of
             None \<Rightarrow> (Inl (lit ''NOT_FOUND''), db)
           | Some run \<Rightarrow>
               if dv_destination old \<noteq> Telegram \<or> dv_state old \<noteq> DUnknown then (Inl (lit ''BUSY''), db)
               else (case resolve_report_delivery (old\<lparr>dv_state := DReviewed, dv_updated_at := de_now env\<rparr>)
                            (if resend then Some (resend_of env old) else None) db of
                   (Inl _, db') \<Rightarrow> (Inl (lit ''STORE_ERROR''), db')
                 | (Inr False, db') \<Rightarrow> (Inl (lit ''BUSY''), db')
                 | (Inr True, db') \<Rightarrow> (Inr run, db'))))"

section \<open>The life of the worker\<close>

text \<open>An answer after which the message may have been accepted; the log in which no row is sent
  again after such an answer; and the rows of which that holds.\<close>

definition accepted :: "send_outcome \<Rightarrow> bool" where
  "accepted outcome \<longleftrightarrow> (case outcome of Confirmed _ \<Rightarrow> True | SendUnknown \<Rightarrow> True | _ \<Rightarrow> False)"

fun sent_once :: "sent_log \<Rightarrow> bool" where
  "sent_once [] = True"
| "sent_once ((i, oc) # l) \<longleftrightarrow> (accepted oc \<longrightarrow> i \<notin> fst ` set l) \<and> sent_once l"

definition accepted_ids :: "sent_log \<Rightarrow> ustr set" where
  "accepted_ids l = {i. \<exists>oc. (i, oc) \<in> set l \<and> accepted oc}"

lemma sent_once_snoc: "sent_once (l @ [(i, oc)]) \<longleftrightarrow> sent_once l \<and> i \<notin> accepted_ids l"
  by (induction l rule: sent_once.induct) (auto simp: accepted_ids_def)

lemma accepted_ids_snoc: "accepted_ids (l @ [(i, oc)]) = (if accepted oc then insert i (accepted_ids l) else accepted_ids l)"
  by (auto simp: accepted_ids_def)

record worker_state =
  wk_db :: report_db
  wk_sent :: sent_log
  wk_dead :: bool

text \<open>Random ids are new: no row and no log entry has them, and no two are equal.\<close>

definition fresh_env :: "delivery_env \<Rightarrow> worker_state \<Rightarrow> bool" where
  "fresh_env env s \<longleftrightarrow> inj (de_uuid env)
     \<and> (\<forall>k. de_uuid env k \<notin> dv_id ` set (rd_deliveries (wk_db s)) \<union> fst ` set (wk_sent s))"

text \<open>
  The steps: a pass over a run, in which no receipt fails to be saved unless the process ends; the
  process ends; the application starts again and recovers; the user retries a report or resolves an
  attempt; the remaining statements of the store, the deliveries to files among them. A pass and a
  command of the user exclude each other in the source (the flag \<open>active\<close> and the control lock).
\<close>

definition file_op :: "worker_state \<Rightarrow> report_op \<Rightarrow> bool" where
  "file_op s a \<longleftrightarrow> (case a of
     CreateDelivery d \<Rightarrow> dv_destination d \<noteq> Telegram \<and> dv_id d \<notin> fst ` set (wk_sent s)
   | UpdateDelivery d _ \<Rightarrow> dv_destination d \<noteq> Telegram
   | CreateDeliveries _ \<Rightarrow> False | ResolveDelivery _ _ \<Rightarrow> False | Recover _ \<Rightarrow> False | _ \<Rightarrow> True)"

inductive worker_step :: "worker_state \<Rightarrow> worker_state \<Rightarrow> bool" where
  Deliver: "\<lbrakk>\<not> wk_dead s; fresh_env env s; \<forall>k. ds_fate (turn k) \<noteq> SaveFailed;
     deliver_telegram env config run current stopping turn (wk_db s) (wk_sent s) = (e, db', sent')\<rbrakk>
     \<Longrightarrow> worker_step s \<lparr>wk_db = db', wk_sent = sent', wk_dead = (e = Killed)\<rparr>"
| End: "worker_step s (s\<lparr>wk_dead := True\<rparr>)"
| Restart: "\<lbrakk>wk_dead s; recover_report_work now (wk_db s) = (Inr (), db')\<rbrakk>
     \<Longrightarrow> worker_step s \<lparr>wk_db = db', wk_sent = wk_sent s, wk_dead = False\<rparr>"
| Retry: "\<lbrakk>\<not> wk_dead s; fresh_env env s\<rbrakk>
     \<Longrightarrow> worker_step s (s\<lparr>wk_db := snd (retry_memory_report env False run_id current (wk_db s))\<rparr>)"
| Resolve: "\<lbrakk>\<not> wk_dead s; fresh_env env s\<rbrakk>
     \<Longrightarrow> worker_step s (s\<lparr>wk_db := snd (resolve_telegram_delivery env i resend (wk_db s))\<rparr>)"
| Other: "\<lbrakk>\<not> wk_dead s; file_op s a\<rbrakk> \<Longrightarrow> worker_step s (s\<lparr>wk_db := report_step a (wk_db s)\<rparr>)"

inductive_cases worker_stepE: "worker_step s t"

definition worker_init :: "worker_state \<Rightarrow> bool" where
  "worker_init s \<longleftrightarrow> report_ok (wk_db s) \<and> wk_sent s = [] \<and> wk_dead s"

inductive worker_reachable :: "worker_state \<Rightarrow> bool" where
  Init: "worker_init s \<Longrightarrow> worker_reachable s"
| Step: "worker_reachable s \<Longrightarrow> worker_step s t \<Longrightarrow> worker_reachable t"

section \<open>The invariant\<close>

definition worker_inv :: "bool \<Rightarrow> report_db \<Rightarrow> sent_log \<Rightarrow> bool" where
  "worker_inv dead db sent \<longleftrightarrow> report_ok db \<and> sent_once sent
     \<and> (\<forall>d\<in>set (rd_deliveries db). dv_id d \<in> accepted_ids sent \<longrightarrow>
          dv_state d \<in> {DSucceeded, DUnknown, DReviewed} \<or> dead \<and> telegram_in {DSending} d)
     \<and> (dead \<or> (\<forall>d\<in>set (rd_deliveries db). \<not> telegram_in {DSending} d))"

text \<open>How the rows may change without a send: old rows only as far as the store lets them, new rows
  with fresh ids, and none begins to be sent.\<close>

definition quiet :: "report_delivery \<Rightarrow> report_delivery \<Rightarrow> bool" where
  "quiet d d' \<longleftrightarrow> may_become d d' \<and> (telegram_in {DSending} d' \<longrightarrow> telegram_in {DSending} d)"

definition evolves :: "ustr set \<Rightarrow> report_db \<Rightarrow> report_db \<Rightarrow> bool" where
  "evolves F db db' \<longleftrightarrow> report_ok db'
     \<and> (\<forall>d'\<in>set (rd_deliveries db'). (\<exists>d\<in>set (rd_deliveries db). quiet d d')
          \<or> (dv_id d' \<in> F \<and> \<not> telegram_in {DSending} d'))"

lemma may_become_id: "may_become d d' \<Longrightarrow> dv_id d' = dv_id d" "may_become d d' \<Longrightarrow> dv_destination d' = dv_destination d"
  by (simp_all add: may_become_def same_delivery_def)

lemma quiet_refl [simp]: "quiet d d"
  by (simp add: quiet_def)

lemma quiet_trans: "quiet a b \<Longrightarrow> quiet b c \<Longrightarrow> quiet a c"
  unfolding quiet_def by (blast intro: may_become_trans)

lemma evolves_refl: "report_ok db \<Longrightarrow> evolves F db db"
  by (auto simp: evolves_def intro: quiet_refl)

lemma evolves_trans: "evolves F a b \<Longrightarrow> evolves F b c \<Longrightarrow> evolves F a c"
proof -
  assume ab: "evolves F a b" and bc: "evolves F b c"
  have "(\<exists>d\<in>set (rd_deliveries a). quiet d d') \<or> (dv_id d' \<in> F \<and> \<not> telegram_in {DSending} d')"
    if "d' \<in> set (rd_deliveries c)" for d'
  proof -
    from bc that consider e where "e \<in> set (rd_deliveries b)" "quiet e d'"
      | "dv_id d' \<in> F \<and> \<not> telegram_in {DSending} d'" by (auto simp: evolves_def)
    then show ?thesis
    proof cases
      case 1
      with ab have "(\<exists>d\<in>set (rd_deliveries a). quiet d e) \<or> (dv_id e \<in> F \<and> \<not> telegram_in {DSending} e)"
        by (auto simp: evolves_def)
      with 1(2) show ?thesis by (metis quiet_trans quiet_def may_become_id(1))
    qed simp
  qed
  with bc show ?thesis by (auto simp: evolves_def)
qed

lemma evolves_subset: "report_ok db' \<Longrightarrow> set (rd_deliveries db') \<subseteq> set (rd_deliveries db) \<Longrightarrow> evolves F db db'"
  unfolding evolves_def by (meson quiet_refl subsetD)

lemma evolves_write:
  assumes "report_ok db" and "delivery_at (dv_id d) db = Some old" and "quiet old d"
  shows "evolves F db (write_delivery d db)"
proof -
  have "report_ok (write_delivery d db)"
    by (rule write_delivery_ok [OF assms(1,2)]) (use assms(3) in \<open>simp add: quiet_def may_become_def same_delivery_def\<close>)
  moreover have "\<exists>x\<in>set (rd_deliveries db). quiet x d'" if "d' \<in> set (rd_deliveries (write_delivery d db))" for d'
    using write_delivery_set [OF that] delivery_at_Some [OF assms(2)] assms(3) quiet_refl by blast
  ultimately show ?thesis by (simp add: evolves_def)
qed

lemma evolves_insert:
  assumes "report_ok db" and "dv_id d \<in> F" and "\<not> telegram_in {DSending} d"
  shows "evolves F db (snd (insert_delivery d db))"
proof -
  have "x = d \<or> x \<in> set (rd_deliveries db)" if "x \<in> set (rd_deliveries (snd (insert_delivery d db)))" for x
    using that by (auto simp: insert_delivery_def split: if_splits)
  with assms insert_delivery_ok [OF assms(1), of d] show ?thesis
    unfolding evolves_def by (metis quiet_refl)
qed

lemma evolves_create:
  assumes "report_ok db" and "dv_id d \<in> F" and "\<not> telegram_in {DSending} d"
  shows "evolves F db (snd (create_report_delivery d db))"
  using evolves_insert [OF assms] evolves_refl [OF assms(1), of F]
  by (auto simp: create_report_delivery_def split: option.splits sum.splits prod.splits)

lemma evolves_create_loop:
  assumes "report_ok db" and "\<forall>d\<in>set ds. dv_id d \<in> F \<and> \<not> telegram_in {DSending} d"
  shows "evolves F db (snd (create_deliveries_loop ds db))"
  using assms
proof (induction ds arbitrary: db)
  case (Cons d ds)
  obtain x db' where x: "insert_delivery d db = (x, db')" by fastforce
  have ins: "evolves F db db'" using evolves_insert [of db d F] Cons.prems by (simp add: x)
  then have "evolves F db' (snd (create_deliveries_loop ds db'))" using Cons by (simp add: evolves_def)
  then show ?case using Cons.IH [of db] Cons.prems ins evolves_trans [OF ins] evolves_refl [of db F]
    by (auto simp: x split: option.splits sum.splits prod.splits)
qed (simp add: evolves_refl)

lemma evolves_create_all:
  assumes "report_ok db" and "\<forall>d\<in>set ds. dv_id d \<in> F \<and> \<not> telegram_in {DSending} d"
  shows "evolves F db (snd (create_report_deliveries ds db))"
  using evolves_create_loop [OF assms] evolves_refl [OF assms(1), of F]
  by (auto simp: create_report_deliveries_def split: sum.splits prod.splits)

lemma evolves_update:
  assumes "report_ok db" and "\<not> telegram_in {DSending} d"
  shows "evolves F db (snd (update_report_delivery d s db))"
proof (rule update_delivery_cases [of d s db])
  fix old assume "delivery_at (dv_id d) db = Some old" "same_delivery old d" "dv_state old = s"
    "s \<notin> {DSucceeded, DSkipped, DReviewed, DUnknown}"
    "update_report_delivery d s db = (Inr True, write_delivery d db)"
  then show ?thesis using assms(2) by (auto simp: quiet_def may_become_def intro!: evolves_write [OF assms(1)])
qed (simp add: evolves_refl [OF assms(1)])

lemma snd_update_delivery:
  "snd (update_delivery now d s db)
     = snd (update_report_delivery ((normalize_delivery_paths d)\<lparr>dv_updated_at := now\<rparr>) s db)"
  by (simp add: update_delivery_def Let_def split: prod.splits sum.splits bool.splits)

lemma normalize_simps [simp]:
  "dv_id (normalize_delivery_paths d) = dv_id d" "dv_run_id (normalize_delivery_paths d) = dv_run_id d"
  "dv_destination (normalize_delivery_paths d) = dv_destination d" "dv_state (normalize_delivery_paths d) = dv_state d"
  "dv_destination_snapshot (normalize_delivery_paths d) = dv_destination_snapshot d"
  "dv_revision_of (normalize_delivery_paths d) = dv_revision_of d"
  "dv_created_at (normalize_delivery_paths d) = dv_created_at d"
  "dv_chunk_index (normalize_delivery_paths d) = dv_chunk_index d"
  "dv_chunk_count (normalize_delivery_paths d) = dv_chunk_count d"
  by (simp_all add: normalize_delivery_paths_def)

lemma evolves_update_delivery:
  assumes "report_ok db" and "dv_state d \<noteq> DSending"
  shows "evolves F db (snd (update_delivery now d s db))"
  unfolding snd_update_delivery
  by (rule evolves_update [OF assms(1)]) (use assms(2) in \<open>simp add: telegram_in_def\<close>)

lemma evolves_ok: "evolves F db db' \<Longrightarrow> report_ok db'"
  by (simp add: evolves_def)

lemma redirect_loop_evolves:
  assumes "report_ok db" and "\<forall>j. de_uuid env j \<in> F" and "\<forall>d\<in>set items. redirectable d"
  shows "evolves F db (snd (redirect_loop env target receipts k items db))"
  using assms
proof (induction items arbitrary: k db)
  case (Cons item items)
  have rest: "evolves F b (snd (redirect_loop env target receipts j items b))" if "report_ok b" for j b
    using Cons.IH [OF that] Cons.prems by simp
  show ?case
  proof (cases "de_read env (dv_destination_snapshot item)")
    case None
    then show ?thesis using rest Cons.prems by simp
  next
    case (Some snapshot)
    show ?thesis
    proof (cases "tn_chat_id snapshot = target")
      case True
      then show ?thesis using rest Cons.prems Some by simp
    next
      case False
      let ?make = "if \<not> replacement_live receipts item \<and> \<not> chunk_confirmed_at env receipts target item
        then create_report_delivery (redirected env k target (tn_text snapshot) item) db else (Inr item, db)"
      obtain x db' where x: "?make = (x, db')" by (cases ?make)
      have "\<not> telegram_in {DSending} (redirected env k target (tn_text snapshot) item)"
        by (simp add: redirected_def telegram_in_def)
      then have make: "evolves F db db'"
        using x evolves_create [OF Cons.prems(1), of "redirected env k target (tn_text snapshot) item" F] Cons.prems(2)
          evolves_refl [OF Cons.prems(1), of F]
        by (auto simp: redirected_def split: if_splits)
      show ?thesis
      proof (cases x)
        case (Inl e)
        then show ?thesis using Some False make by (simp add: x)
      next
        case (Inr y)
        note steps = Some False x Inr
        show ?thesis
        proof (cases "dv_state item = DSucceeded")
          case True
          have "evolves F db' (snd (redirect_loop env target receipts (Suc k) items db'))"
            by (rule rest [OF evolves_ok [OF make]])
          then show ?thesis using steps True evolves_trans [OF make] by simp
        next
          case False
          obtain z db'' where z: "update_delivery (de_now env) (item\<lparr>dv_state := DReviewed\<rparr>) (dv_state item) db' = (z, db'')"
            by fastforce
          have up: "evolves F db db''"
            using evolves_trans [OF make evolves_update_delivery [OF evolves_ok [OF make],
              of "item\<lparr>dv_state := DReviewed\<rparr>" F "de_now env" "dv_state item"]] z by simp
          show ?thesis
          proof (cases z)
            case (Inr w)
            have "evolves F db'' (snd (redirect_loop env target receipts (Suc k) items db''))"
              by (rule rest [OF evolves_ok [OF up]])
            then show ?thesis using steps False z Inr evolves_trans [OF up] by simp
          qed (use steps False z up in simp)
        qed
      qed
    qed
  qed
qed (simp add: evolves_refl)

lemma redirect_evolves:
  assumes "report_ok db" and "\<forall>j. de_uuid env j \<in> F"
  shows "evolves F db (snd (redirect_stale_telegram_deliveries env i chat db))"
  using redirect_loop_evolves [OF assms] evolves_refl [OF assms(1), of F]
  by (auto simp: redirect_stale_telegram_deliveries_def Let_def split: option.splits)

lemma retry_loop_evolves:
  assumes "report_ok db"
  shows "evolves F db (snd (retry_loop now items db))"
  using assms
proof (induction items arbitrary: db)
  case (Cons item items)
  have step: "evolves F db (snd (case update_delivery now d st db of
        (Inl e, db') \<Rightarrow> (Inl e, db') | (Inr _, db') \<Rightarrow> retry_loop now items db'))" if "dv_state d \<noteq> DSending" for d st
  proof -
    obtain x db' where x: "update_delivery now d st db = (x, db')" by fastforce
    have up: "evolves F db db'" using evolves_update_delivery [OF Cons.prems that, of F now st] by (simp add: x)
    show ?thesis using up evolves_trans [OF up Cons.IH [OF evolves_ok [OF up]]] by (cases x) (simp_all add: x)
  qed
  show ?case using Cons.IH [OF Cons.prems] step by simp
qed (simp add: evolves_refl)

lemma update_run_evolves: "report_ok db \<Longrightarrow> evolves F db (snd (update_report_run r db))"
  using report_step_ok [of db "UpdateRun r"]
  by (intro evolves_subset) (auto simp: update_report_run_def write_run_def split: option.splits sum.splits)

lemma retry_evolves:
  assumes "report_ok db" and "\<forall>j. de_uuid env j \<in> F"
  shows "evolves F db (snd (retry_memory_report env active i current db))"
proof -
  obtain x db1 where x: "redirect_stale_telegram_deliveries env i (mt_telegram_chat_id current) db = (x, db1)" by fastforce
  have e1: "evolves F db db1" using redirect_evolves [OF assms, of i "mt_telegram_chat_id current"] by (simp add: x)
  obtain y db2 where y: "retry_loop (de_now env) (list_report_deliveries i db1) db1 = (y, db2)" by fastforce
  have e2: "evolves F db db2"
    using evolves_trans [OF e1 retry_loop_evolves [OF evolves_ok [OF e1], of F "de_now env" "list_report_deliveries i db1"]]
    by (simp add: y)
  have e3: "evolves F db (snd (update_report_run r db2))" for r
    by (rule evolves_trans [OF e2 update_run_evolves [OF evolves_ok [OF e2]]])
  show ?thesis
    using e1 e2 e3 evolves_refl [OF assms(1), of F]
    by (auto simp: retry_memory_report_def x y Let_def split: option.splits sum.splits prod.splits) (metis snd_conv)+
qed

lemma resolve_evolves:
  assumes ok: "report_ok db" and "\<forall>j. de_uuid env j \<in> F"
  shows "evolves F db (snd (resolve_telegram_delivery env i resend db))"
proof -
  have res: "evolves F db (snd (resolve_report_delivery d rep db))"
    if "dv_state d = DReviewed" "\<forall>new. rep = Some new \<longrightarrow> dv_id new \<in> F \<and> dv_state new = DPending" for d rep
  proof (rule resolve_delivery_cases [of d rep db])
    fix old db'
    assume old: "delivery_at (dv_id d) db = Some old" "dv_state old = DUnknown" "same_delivery old d"
      "dv_state d = DReviewed" "dv_message_id d = dv_message_id old" "dv_error d = dv_error old"
      and r: "resolve_report_delivery d rep db = (Inr True, write_delivery d db')"
      and db': "db' = db \<or> (\<exists>new. rep = Some new \<and> insert_delivery new db = (Inr (), db'))"
    have ins: "evolves F db db'"
      using db' that(2) evolves_insert [OF ok, of _ F] evolves_refl [OF ok, of F]
      by (metis delivery_state.distinct(1) insertE snd_conv singletonD telegram_in_def)
    have at: "delivery_at (dv_id d) db' = Some old"
      using db' old(1) by (auto simp: insert_delivery_def delivery_at_def find_append split: if_splits)
    have "evolves F db' (write_delivery d db')"
      by (rule evolves_write [OF evolves_ok [OF ins] at])
        (use old in \<open>simp add: quiet_def may_become_def telegram_in_def\<close>)
    then show ?thesis using evolves_trans [OF ins] by (simp add: r)
  qed (simp add: evolves_refl [OF ok])
  have "evolves F db (snd (resolve_report_delivery (old\<lparr>dv_state := DReviewed, dv_updated_at := t\<rparr>)
      (if resend then Some (resend_of env old) else None) db))" for old t
    by (rule res) (use assms(2) in \<open>simp_all add: resend_of_def\<close>)
  then show ?thesis using evolves_refl [OF ok, of F]
    by (auto simp: resolve_telegram_delivery_def split: option.splits prod.splits sum.splits bool.splits) (metis snd_conv)+
qed

lemma prepare_evolves:
  assumes ok: "report_ok db" and F: "\<forall>j. de_uuid env j \<in> F"
  shows "evolves F db (snd (prepare_digest env config run db))"
proof -
  have skip: "evolves F db (snd (create_report_delivery (skipped_delivery env config run reason) db))" for reason
    by (rule evolves_create [OF ok]) (use F in \<open>simp_all add: skipped_delivery_def new_delivery_def telegram_in_def\<close>)
  have intents: "evolves F db (snd (create_report_deliveries (chunk_intents env run chat cs) db))" for chat cs
    by (rule evolves_create_all [OF ok])
      (use F in \<open>auto simp: chunk_intents_def new_delivery_def telegram_in_def\<close>)
  show ?thesis using skip intents evolves_refl [OF ok, of F]
    by (auto simp: prepare_digest_def Let_def split: option.splits prod.splits sum.splits) (metis snd_conv)+
qed

lemma evolves_step:
  assumes ok: "report_ok (wk_db s)" and op: "file_op s a"
  shows "evolves (- (fst ` set (wk_sent s))) (wk_db s) (report_step a (wk_db s))"
proof -
  note sub = evolves_subset [OF report_step_ok [OF ok]]
  show ?thesis
  proof (cases a)
    case (CreateRun r)
    then show ?thesis
      by (intro sub) (simp add: create_report_run_def split: sum.splits option.splits)
  next
    case (UpdateRun r)
    then show ?thesis by (simp add: update_run_evolves ok)
  next
    case (ClaimRun i now)
    then show ?thesis by (intro sub) (simp add: claim_report_run_def split: option.splits)
  next
    case (CreateDelivery d)
    then show ?thesis using op evolves_create [OF ok, of d] by (simp add: file_op_def telegram_in_def)
  next
    case (UpdateDelivery d st)
    then show ?thesis using op evolves_update [OF ok, of d] by (simp add: file_op_def telegram_in_def)
  next
    case (Prune before)
    then show ?thesis by (intro sub) (auto simp: prune_report_runs_def Let_def)
  next
    case (SaveFile f)
    then show ?thesis by (intro sub) (simp add: save_report_file_def Let_def)
  next
    case (EnsureSource i)
    then show ?thesis by (intro sub) (simp add: ensure_report_source_id_def split: option.splits)
  next
    case (ResetSource i)
    then show ?thesis by (intro sub) (simp add: reset_report_source_id_def)
  qed (use op in \<open>simp_all add: file_op_def\<close>)
qed

section \<open>Sends\<close>

lemma worker_inv_evolves:
  assumes "worker_inv False db sent" and "evolves F db db'" and "F \<inter> accepted_ids sent = {}"
  shows "worker_inv False db' sent"
proof -
  have "dv_state d' \<in> {DSucceeded, DUnknown, DReviewed}"
    if d': "d' \<in> set (rd_deliveries db')" "dv_id d' \<in> accepted_ids sent" for d'
  proof -
    from assms(2,3) d' obtain d where d: "d \<in> set (rd_deliveries db)" "quiet d d'" by (auto simp: evolves_def)
    with assms(1) d'(2) may_become_id(1) [of d d'] have "dv_state d \<in> {DSucceeded, DUnknown, DReviewed}"
      by (auto simp: worker_inv_def quiet_def)
    with d(2) show ?thesis by (auto simp: quiet_def may_become_def)
  qed
  moreover have "\<not> telegram_in {DSending} d'" if "d' \<in> set (rd_deliveries db')" for d'
    using assms(1,2) that by (auto simp: evolves_def worker_inv_def quiet_def)
  ultimately show ?thesis using assms(1,2) by (simp add: worker_inv_def evolves_def)
qed

lemma worker_inv_dead: "worker_inv False db sent \<Longrightarrow> worker_inv True db sent"
  by (auto simp: worker_inv_def)

lemma worker_inv_write:
  assumes inv: "worker_inv False db sent" and at: "delivery_at (dv_id d) db = Some old" "dv_run_id d = dv_run_id old"
    and log: "sent_once sent'" "accepted_ids sent' \<subseteq> insert (dv_id d) (accepted_ids sent)"
    and st: "dv_id d \<in> accepted_ids sent' \<longrightarrow>
       dv_state d \<in> {DSucceeded, DUnknown, DReviewed} \<or> dead \<and> telegram_in {DSending} d"
    and quiet: "dead \<or> \<not> telegram_in {DSending} d"
  shows "worker_inv dead (write_delivery d db) sent'"
proof -
  have ok: "report_ok db" using inv by (simp add: worker_inv_def)
  have rows: "x = d \<or> (x \<in> set (rd_deliveries db) \<and> dv_id x \<noteq> dv_id d)"
    if "x \<in> set (rd_deliveries (write_delivery d db))" for x
    using that by (auto simp: write_delivery_def)
  have "dv_state x \<in> {DSucceeded, DUnknown, DReviewed} \<or> dead \<and> telegram_in {DSending} x"
    if "x \<in> set (rd_deliveries (write_delivery d db))" "dv_id x \<in> accepted_ids sent'" for x
    using rows [OF that(1)] that(2) st log(2) inv by (auto simp: worker_inv_def)
  moreover have "dead \<or> \<not> telegram_in {DSending} x" if "x \<in> set (rd_deliveries (write_delivery d db))" for x
    using rows [OF that] quiet inv by (auto simp: worker_inv_def)
  ultimately show ?thesis
    using write_delivery_ok [OF ok at] log(1) unfolding worker_inv_def by blast
qed

lemma update_delivery_writes:
  assumes "delivery_at (dv_id d) db = Some old" and "same_delivery old d" and "dv_state old = st"
    and "st \<notin> {DSucceeded, DSkipped, DReviewed, DUnknown}"
  shows "update_delivery now d st db
     = (Inr ((normalize_delivery_paths d)\<lparr>dv_updated_at := now\<rparr>),
        write_delivery ((normalize_delivery_paths d)\<lparr>dv_updated_at := now\<rparr>) db)"
  using assms
  by (simp add: update_delivery_def update_report_delivery_def check_delivery_identity_def same_delivery_def Let_def)

lemma write_write: "dv_id a = dv_id b \<Longrightarrow> write_delivery a (write_delivery b db) = write_delivery a db"
  by (simp add: write_delivery_def)

lemma find_put_other:
  "j \<noteq> i \<Longrightarrow> f y = i \<Longrightarrow> List.find (\<lambda>x. f x = j) (map (\<lambda>x. if f x = i then y else x) xs) = List.find (\<lambda>x. f x = j) xs"
  by (induction xs) auto

lemma delivery_at_write_other: "dv_id d \<noteq> dv_id x \<Longrightarrow> delivery_at (dv_id d) (write_delivery x db) = delivery_at (dv_id d) db"
  by (simp add: delivery_at_def write_delivery_def find_put_other)

definition turn_ok :: "dispatch_end \<times> report_db \<times> sent_log \<Rightarrow> bool" where
  "turn_ok r \<longleftrightarrow> (case r of (e, db, sent) \<Rightarrow> worker_inv (e = Killed) db sent)"

lemma dispatch_loop_safe:
  assumes "worker_inv False db sent" and "\<forall>d\<in>set items. delivery_at (dv_id d) db = Some d
       \<and> dv_destination d = Telegram \<and> dv_state d \<noteq> DUnknown"
    and "distinct (map dv_id items)" and fate: "\<forall>k. ds_fate (turn k) \<noteq> SaveFailed"
  shows "turn_ok (dispatch_loop env run turn k items db sent)"
  using assms(1-3)
proof (induction items arbitrary: k db sent)
  case Nil
  then show ?case by (simp add: turn_ok_def)
next
  case (Cons item items)
  let ?t = "turn k"
  have at: "delivery_at (dv_id item) db = Some item" and tel: "dv_destination item = Telegram"
    and not_unknown: "dv_state item \<noteq> DUnknown" using Cons.prems(2) by auto
  have mem: "item \<in> set (rd_deliveries db)" using delivery_at_Some [OF at] by simp
  have not_sending: "dv_state item \<noteq> DSending"
    using Cons.prems(1) mem tel by (auto simp: worker_inv_def telegram_in_def)
  have halt: "turn_ok (e, db, sent)" if "e \<noteq> Killed" for e
    using that Cons.prems(1) by (simp add: turn_ok_def)
  have rest: "turn_ok (dispatch_loop env run turn (Suc k) items b l)"
    if "worker_inv False b l" "\<And>d. d \<in> set items \<Longrightarrow> delivery_at (dv_id d) b = delivery_at (dv_id d) db" for b l
    by (rule Cons.IH) (use that Cons.prems in auto)
  have other: "delivery_at (dv_id d) (write_delivery x db) = delivery_at (dv_id d) db"
    if "d \<in> set items" "dv_id x = dv_id item" for d x
  proof -
    have "dv_id d \<noteq> dv_id item" using that(1) Cons.prems(3) by (auto simp: image_iff)
    then show ?thesis using delivery_at_write_other [of d x db] that(2) by simp
  qed
  show ?case
  proof (cases "dv_state item \<in> {DSucceeded, DSkipped, DReviewed}")
    case True
    then show ?thesis using rest [OF Cons.prems(1)] by (auto simp: Let_def)
  next
    case open_: False
    then have st: "dv_state item \<notin> {DSucceeded, DSkipped, DReviewed, DUnknown}" using not_unknown by simp
    have unsent: "dv_id item \<notin> accepted_ids sent"
      using Cons.prems(1) mem st not_sending by (auto simp: worker_inv_def telegram_in_def)
    have cred: "turn_ok (case update_delivery now (no_credential item) (dv_state item) db of
        (Inl e, db') \<Rightarrow> (Stopped e, db', sent) | (Inr _, db') \<Rightarrow> (Finished, db', sent))" for now
    proof -
      have "worker_inv False (write_delivery ((normalize_delivery_paths (no_credential item))\<lparr>dv_updated_at := now\<rparr>) db) sent"
        by (rule worker_inv_write [OF Cons.prems(1), where old = item])
          (use at unsent Cons.prems(1) in \<open>auto simp: no_credential_def telegram_in_def worker_inv_def\<close>)
      then show ?thesis
        using update_delivery_writes [OF _ _ refl st, of "no_credential item" db now] at
        by (simp add: no_credential_def same_delivery_def turn_ok_def)
    qed
    have send: "turn_ok (case update_delivery (ds_begin ?t) (mark_sending item) (dv_state item) db of
        (Inl e, db') \<Rightarrow> (Stopped e, db', sent)
      | (Inr sending, db') \<Rightarrow>
          (let outcome = send_chunk token chat body (ds_answer ?t); sent' = sent @ [(dv_id item, outcome)];
               after = after_send (ds_end ?t) outcome sending
           in case ds_fate ?t of ProcessEnds \<Rightarrow> (Killed, db', sent') | SaveFailed \<Rightarrow> (Stopped (lit ''STORE_ERROR''), db', sent')
              | Saved \<Rightarrow> (case update_delivery (ds_end ?t) after DSending db' of
                   (Inl e, db'') \<Rightarrow> (Stopped e, db'', sent')
                 | (Inr _, db'') \<Rightarrow> if dv_state after = DSucceeded then dispatch_loop env run turn (Suc k) items db'' sent'
                                   else (Finished, db'', sent'))))" for token chat body
    proof -
      define sending where "sending = (normalize_delivery_paths (mark_sending item))\<lparr>dv_updated_at := ds_begin ?t\<rparr>"
      define outcome where "outcome = send_chunk token chat body (ds_answer ?t)"
      define after where "after = after_send (ds_end ?t) outcome sending"
      define final where "final = (normalize_delivery_paths after)\<lparr>dv_updated_at := ds_end ?t\<rparr>"
      have mark: "update_delivery (ds_begin ?t) (mark_sending item) (dv_state item) db = (Inr sending, write_delivery sending db)"
        using update_delivery_writes [OF _ _ refl st, of "mark_sending item" db "ds_begin ?t"] at
        by (simp add: mark_sending_def same_delivery_def sending_def)
      have sd: "same_delivery item sending" "dv_state sending = DSending" "dv_destination sending = Telegram"
        using tel by (simp_all add: sending_def mark_sending_def same_delivery_def)
      have af: "same_delivery sending after" "dv_state after \<in> {DSucceeded, DUnknown, DFailed}"
          "accepted outcome \<longrightarrow> dv_state after \<in> {DSucceeded, DUnknown}"
        by (cases outcome; simp add: after_def after_send_def same_delivery_def accepted_def)+
      have at': "delivery_at (dv_id after) (write_delivery sending db) = Some sending"
        by (rule delivery_at_write) (use at sd(1) af(1) in \<open>auto simp: same_delivery_def\<close>)
      have save: "update_delivery (ds_end ?t) after DSending (write_delivery sending db) = (Inr final, write_delivery final db)"
        using update_delivery_writes [OF at' af(1) sd(2), of "ds_end ?t"] sd(1) af(1)
        by (simp add: final_def write_write same_delivery_def)
      have log: "sent_once (sent @ [(dv_id item, outcome)])"
          "accepted_ids (sent @ [(dv_id item, outcome)]) \<subseteq> insert (dv_id item) (accepted_ids sent)"
        using Cons.prems(1) unsent by (simp_all add: sent_once_snoc accepted_ids_snoc worker_inv_def subset_insertI)
      have killed: "worker_inv True (write_delivery sending db) (sent @ [(dv_id item, outcome)])"
        by (rule worker_inv_write [OF Cons.prems(1), where old = item])
          (use at sd log in \<open>auto simp: same_delivery_def telegram_in_def\<close>)
      have fin: "dv_id final = dv_id item" "dv_run_id final = dv_run_id item" "dv_state final = dv_state after"
        using af(1) sd(1) by (simp_all add: final_def same_delivery_def)
      have saved: "worker_inv False (write_delivery final db) (sent @ [(dv_id item, outcome)])"
      proof (rule worker_inv_write [OF Cons.prems(1), where old = item])
        show "dv_id final \<in> accepted_ids (sent @ [(dv_id item, outcome)]) \<longrightarrow>
            dv_state final \<in> {DSucceeded, DUnknown, DReviewed} \<or> False \<and> telegram_in {DSending} final"
          using unsent af(3) by (auto simp: fin accepted_ids_snoc)
        show "False \<or> \<not> telegram_in {DSending} final" using af(2) by (auto simp: fin telegram_in_def)
      qed (use at fin log in auto)
      have go: "turn_ok (dispatch_loop env run turn (Suc k) items (write_delivery final db) (sent @ [(dv_id item, outcome)]))"
        by (rule rest [OF saved other]) (simp_all add: fin)
      show ?thesis
        using killed saved go fate
        by (cases "ds_fate ?t") (simp_all add: mark Let_def outcome_def [symmetric] after_def [symmetric] save turn_ok_def)
    qed
    show ?thesis using halt cred send open_
      by (simp add: Let_def split: option.split sum.split)
  qed
qed

lemma deliver_safe:
  assumes inv: "worker_inv False db sent" and F: "\<forall>j. de_uuid env j \<notin> accepted_ids sent"
    and fate: "\<forall>k. ds_fate (turn k) \<noteq> SaveFailed"
  shows "turn_ok (deliver_telegram env config run current stopping turn db sent)"
proof -
  obtain x db' where x: "prepare_digest env config run db = (x, db')" by fastforce
  have "evolves (range (de_uuid env)) db db'"
    using prepare_evolves [of db env "range (de_uuid env)" config run] inv by (simp add: x worker_inv_def)
  then have inv': "worker_inv False db' sent"
    by (rule worker_inv_evolves [OF inv]) (use F in auto)
  have killed: "x \<noteq> Some Killed"
    using x by (auto simp: prepare_digest_def Let_def split: if_splits option.splits prod.splits sum.splits)
  let ?rows = "sort_key digest_order (filter (\<lambda>d. dv_destination d = Telegram) (list_report_deliveries (rn_run_id run) db'))"
  have ok: "report_ok db'" using inv' by (simp add: worker_inv_def)
  have rows: "distinct (map dv_id ?rows)" "\<forall>d\<in>set ?rows. delivery_at (dv_id d) db' = Some d \<and> dv_destination d = Telegram"
    using ok delivery_at_unique [OF ok]
    by (auto simp: list_report_deliveries_def report_ok_def distinct_map inj_on_def)
  have loop: "turn_ok (dispatch_loop env run turn 0 ?rows db' sent)" if "\<not> list_ex (\<lambda>d. dv_state d = DUnknown) ?rows"
    by (rule dispatch_loop_safe [OF inv' _ rows(1) fate]) (use rows(2) that in \<open>auto simp: list_ex_iff\<close>)
  show ?thesis
  proof (cases x)
    case None
    have "turn_ok (Finished, db', sent)" using inv' by (simp add: turn_ok_def)
    then show ?thesis using loop by (simp add: deliver_telegram_def x None Let_def)
  next
    case (Some e)
    then show ?thesis using killed inv' by (simp add: deliver_telegram_def x turn_ok_def)
  qed
qed

lemma recover_inv:
  assumes inv: "worker_inv dead db sent" and r: "recover_report_work now db = (Inr (), db')"
  shows "worker_inv False db' sent"
proof -
  have ok: "report_ok db" using inv by (simp add: worker_inv_def)
  obtain db1 where db1: "requeue_runs now (map rn_run_id (filter (\<lambda>r. rn_phase r = RunRunning) (rd_runs db))) db = Inr db1"
      "rd_deliveries db1 = rd_deliveries db"
    using requeue_runs_ok [OF ok, of "map rn_run_id (filter (\<lambda>r. rn_phase r = RunRunning) (rd_runs db))" now] by auto
  have rows: "rd_deliveries db' = map (\<lambda>d. if dv_state d = DSending then recovered_delivery now d else d) (rd_deliveries db)"
    using r db1 by (auto simp: recover_report_work_def)
  have "report_ok db'" using recover_ok(2) [OF ok, of now] r by simp
  moreover have "dv_state d' \<in> {DSucceeded, DUnknown, DReviewed}"
    if "d' \<in> set (rd_deliveries db')" "dv_id d' \<in> accepted_ids sent" for d'
    using that inv by (auto simp: rows worker_inv_def recovered_delivery_def telegram_in_def split: if_splits)
  moreover have "\<not> telegram_in {DSending} d'" if "d' \<in> set (rd_deliveries db')" for d'
    using that by (auto simp: rows recovered_delivery_def telegram_in_def split: if_splits)
  ultimately show ?thesis using inv by (simp add: worker_inv_def)
qed

lemma accepted_ids_sent: "accepted_ids l \<subseteq> fst ` set l"
  by (force simp: accepted_ids_def)

lemma fresh_unsent: "fresh_env env s \<Longrightarrow> de_uuid env k \<notin> accepted_ids (wk_sent s)"
  using accepted_ids_sent [of "wk_sent s"] by (auto simp: fresh_env_def)

lemma worker_step_inv:
  assumes "worker_step s t" and "worker_inv (wk_dead s) (wk_db s) (wk_sent s)"
  shows "worker_inv (wk_dead t) (wk_db t) (wk_sent t)"
  using assms(1)
proof (cases rule: worker_step.cases)
  case (Deliver env turn config run current stopping e db' sent')
  have "turn_ok (deliver_telegram env config run current stopping turn (wk_db s) (wk_sent s))"
    by (rule deliver_safe) (use Deliver assms(2) in \<open>auto simp: fresh_unsent\<close>)
  then show ?thesis using Deliver by (simp add: turn_ok_def)
next
  case End
  then show ?thesis using assms(2) by (auto simp: worker_inv_def)
next
  case (Restart now db')
  then show ?thesis using recover_inv [OF assms(2)] by simp
next
  case (Retry env run_id current)
  have ok: "report_ok (wk_db s)" using assms(2) by (simp add: worker_inv_def)
  have "worker_inv False (snd (retry_memory_report env False run_id current (wk_db s))) (wk_sent s)"
    by (rule worker_inv_evolves [OF _ retry_evolves [OF ok, of env "range (de_uuid env)"]])
      (use Retry assms(2) in \<open>auto simp: fresh_unsent\<close>)
  then show ?thesis using Retry by simp
next
  case (Resolve env i resend)
  have ok: "report_ok (wk_db s)" using assms(2) by (simp add: worker_inv_def)
  have "worker_inv False (snd (resolve_telegram_delivery env i resend (wk_db s))) (wk_sent s)"
    by (rule worker_inv_evolves [OF _ resolve_evolves [OF ok, of env "range (de_uuid env)"]])
      (use Resolve assms(2) in \<open>auto simp: fresh_unsent\<close>)
  then show ?thesis using Resolve by simp
next
  case (Other a)
  have ok: "report_ok (wk_db s)" using assms(2) by (simp add: worker_inv_def)
  have "worker_inv False (report_step a (wk_db s)) (wk_sent s)"
    by (rule worker_inv_evolves [OF _ evolves_step [OF ok Other(3)]])
      (use Other assms(2) accepted_ids_sent [of "wk_sent s"] in auto)
  then show ?thesis using Other by simp
qed

lemma worker_reachable_inv: "worker_reachable s \<Longrightarrow> worker_inv (wk_dead s) (wk_db s) (wk_sent s)"
proof (induction rule: worker_reachable.induct)
  case (Init s)
  then show ?case by (simp add: worker_init_def worker_inv_def accepted_ids_def)
qed (rule worker_step_inv)

lemma sent_once_split:
  "sent_once (before @ (i, oc) # later) \<Longrightarrow> accepted oc \<Longrightarrow> i \<notin> fst ` set later"
  by (induction before rule: sent_once.induct) auto

section \<open>Properties\<close>


definition sample_settings :: memory_settings where
  "sample_settings = \<lparr>mt_enabled = True, mt_local_time = None, mt_timezone = None, mt_output_folder = None,
     mt_telegram_enabled = True, mt_telegram_chat_id = Some (lit ''c'')\<rparr>"

definition sample_env :: delivery_env where
  "sample_env = \<lparr>de_show = (\<lambda>_. []), de_read = (\<lambda>_. Some \<lparr>tn_chat_id = lit ''c'', tn_text = lit ''x''\<rparr>),
     de_show_chat = (\<lambda>_. []), de_redact = (\<lambda>s. s), de_uuid = (\<lambda>k. replicate (Suc k) 0), de_now = 0\<rparr>"

definition sample_turn :: "receipt_fate \<Rightarrow> nat \<Rightarrow> dispatch_env" where
  "sample_turn fate k = \<lparr>ds_due = 0, ds_settings = sample_settings, ds_stopping = False,
     ds_token = Some (lit ''1:aaaaaaaaaaaaaaaaaaaa''), ds_latest = sample_settings, ds_stopping_latest = False,
     ds_begin = 0, ds_answer = Some (200, JObj [(lit ''ok'', JBool True), (lit ''result'', JObj [(lit ''message_id'', JInt 5)])]),
     ds_fate = fate, ds_end = 0\<rparr>"

definition sample_row :: "delivery_state \<Rightarrow> report_delivery" where
  "sample_row st = sample_delivery (lit ''d'') (lit ''a'') st"

definition sample_out_db :: "report_delivery \<Rightarrow> report_db" where
  "sample_out_db d = \<lparr>rd_runs = [sample_saved_run], rd_deliveries = [d], rd_files = [], rd_source = None\<rparr>"

lemma sample_send: "send_chunk (lit ''1:aaaaaaaaaaaaaaaaaaaa'') (lit ''c'') (lit ''x'') (ds_answer (sample_turn fate k)) = Confirmed 5"
  by (simp add: send_chunk_def valid_token_def sample_turn_def classify_response_def json_at_def json_get_def as_i64_def
      in_i64_def i64_min_def i64_max_def byte_len_def char_len_def trim_def trim_end_def trim_start_def is_ws_def
      len_utf16_def prefix_def)

lemma sample_block:
  assumes "dv_id d = lit ''d''" and "dv_run_id d = lit ''a''"
  shows "ancestor_delivery_block (sample_out_db d) sample_saved_run = Inr None"
  using assms
  by (simp add: ancestor_delivery_block_def list_report_family_deliveries_def family_root.simps family_ids_def
      family_step_def run_at_def sample_out_db_def sample_saved_run_def sample_run_def family_delivery_block_def
      ancestor_block.simps)

lemma sample_dispatch:
  assumes st: "dv_state d \<in> {DPending, DSending}" and d: "d = (sample_row DPending)\<lparr>dv_state := dv_state d, dv_attempt := n\<rparr>"
  shows "\<exists>d'. dispatch_loop sample_env sample_saved_run (sample_turn fate) 0 [d] (sample_out_db d) sent
       = (case fate of SaveFailed \<Rightarrow> Stopped (lit ''STORE_ERROR'') | ProcessEnds \<Rightarrow> Killed | Saved \<Rightarrow> Finished,
          sample_out_db d', sent @ [(lit ''d'', Confirmed 5)])
     \<and> dv_state d' = (if fate = Saved then DSucceeded else DSending)
     \<and> d' = (sample_row DPending)\<lparr>dv_state := dv_state d', dv_attempt := Suc n, dv_message_id := (if fate = Saved then Some 5 else None)\<rparr>"
proof -
  have f: "dv_id d = lit ''d''" "dv_run_id d = lit ''a''" "dv_revision_of d = None" "dv_next_attempt_at d = None"
      "dv_path d = None" "dv_recovery_path d = None" "dv_error d = None" "dv_updated_at d = 0" "dv_attempt d = n" "dv_message_id d = None"
    by (subst d, simp add: sample_row_def sample_delivery_def del: lit_Cons lit_Nil)+
  have env: "de_read sample_env x = Some \<lparr>tn_chat_id = lit ''c'', tn_text = lit ''x''\<rparr>" for x
    by (simp add: sample_env_def)
  have turn: "targets (ds_settings (sample_turn fate 0)) \<lparr>tn_chat_id = lit ''c'', tn_text = lit ''x''\<rparr>"
      "targets (ds_latest (sample_turn fate 0)) \<lparr>tn_chat_id = lit ''c'', tn_text = lit ''x''\<rparr>"
      "ds_token (sample_turn fate 0) = Some (lit ''1:aaaaaaaaaaaaaaaaaaaa'')" "\<not> ds_stopping (sample_turn fate 0)"
      "\<not> ds_stopping_latest (sample_turn fate 0)" "ds_fate (sample_turn fate 0) = fate"
      "ds_begin (sample_turn fate 0) = 0" "ds_end (sample_turn fate 0) = 0" for fate
    by (simp_all add: sample_turn_def sample_settings_def targets_def)
  define sending where "sending = d\<lparr>dv_state := DSending, dv_attempt := Suc n\<rparr>"
  have mark: "update_delivery 0 (mark_sending d) (dv_state d) (sample_out_db d) = (Inr sending, sample_out_db sending)"
    using st f by (auto simp: update_delivery_def update_report_delivery_def check_delivery_identity_def mark_sending_def
        same_delivery_def normalize_delivery_paths_def delivery_at_def write_delivery_def sample_out_db_def sending_def Let_def simp del: lit_Cons lit_Nil)
  define final where "final = sending\<lparr>dv_state := DSucceeded, dv_message_id := Some 5\<rparr>"
  have save: "update_delivery 0 (after_send 0 (Confirmed 5) sending) DSending (sample_out_db sending) = (Inr final, sample_out_db final)"
    using f by (simp add: update_delivery_def update_report_delivery_def check_delivery_identity_def after_send_def
        same_delivery_def normalize_delivery_paths_def delivery_at_def write_delivery_def sample_out_db_def sending_def final_def Let_def)
  have after: "dv_state (after_send 0 (Confirmed 5) sending) = DSucceeded" by (simp add: after_send_def)
  show ?thesis
  proof (cases "fate = Saved")
    case True
    have "final = (sample_row DPending)\<lparr>dv_state := dv_state final, dv_attempt := Suc n, dv_message_id := Some 5\<rparr>"
      unfolding final_def sending_def by (subst d) (simp add: sample_row_def sample_delivery_def del: lit_Cons lit_Nil)
    then show ?thesis
      using st f by (intro exI [of _ final])
        (auto simp: Let_def env turn sample_block sample_send mark save after True final_def simp del: lit_Cons lit_Nil)
  next
    case False
    have "sending = (sample_row DPending)\<lparr>dv_state := dv_state sending, dv_attempt := Suc n, dv_message_id := None\<rparr>"
      unfolding sending_def by (subst d) (simp add: sample_row_def sample_delivery_def)
    then show ?thesis
      using st f False by (intro exI [of _ sending], cases fate)
        (auto simp: Let_def env turn sample_block sample_send mark sending_def simp del: lit_Cons lit_Nil)
  qed
qed

lemma sample_prepared:
  assumes "dv_id d = lit ''d''" and "dv_run_id d = lit ''a''" and "dv_destination d = Telegram" and "dv_chunk_index d \<noteq> None"
    and "dv_state d \<noteq> DUnknown"
  shows "deliver_telegram sample_env sample_settings sample_saved_run sample_settings False turn (sample_out_db d) sent
     = dispatch_loop sample_env sample_saved_run turn 0 [d] (sample_out_db d) sent"
proof -
  have rows: "list_report_deliveries (lit ''a'') (sample_out_db d) = [d]"
    using assms by (simp add: list_report_deliveries_def sample_out_db_def del: lit_Cons lit_Nil)
  have run: "rn_run_id sample_saved_run = lit ''a''"
    by (simp add: sample_saved_run_def sample_run_def)
  show ?thesis
    using assms(3-5) by (simp add: deliver_telegram_def prepare_digest_def rows run Let_def sample_settings_def del: lit_Cons lit_Nil)
qed

lemma sample_out_ok: "report_ok (sample_out_db (sample_row st))"
  by (simp add: report_ok_def sample_out_db_def sample_saved_run_def sample_run_def sample_row_def sample_delivery_def
      validate_run_def sample_saved_def)

text \<open>A receipt that fails to be saved while the process goes on leaves the row marked as sending, and the
  next pass sends it again.\<close>

lemma sample_pass:
  assumes "dv_state d \<in> {DPending, DSending}" and "d = (sample_row DPending)\<lparr>dv_state := dv_state d, dv_attempt := n\<rparr>"
  shows "\<exists>d'. deliver_telegram sample_env sample_settings sample_saved_run sample_settings False (sample_turn fate) (sample_out_db d) sent
       = (case fate of SaveFailed \<Rightarrow> Stopped (lit ''STORE_ERROR'') | ProcessEnds \<Rightarrow> Killed | Saved \<Rightarrow> Finished,
          sample_out_db d', sent @ [(lit ''d'', Confirmed 5)])
     \<and> dv_state d' = (if fate = Saved then DSucceeded else DSending)
     \<and> d' = (sample_row DPending)\<lparr>dv_state := dv_state d', dv_attempt := Suc n, dv_message_id := (if fate = Saved then Some 5 else None)\<rparr>"
proof -
  have "dv_id d = lit ''d''" "dv_run_id d = lit ''a''" "dv_destination d = Telegram" "dv_chunk_index d \<noteq> None"
    by (subst assms(2), simp add: sample_row_def sample_delivery_def del: lit_Cons lit_Nil)+
  then have "deliver_telegram sample_env sample_settings sample_saved_run sample_settings False (sample_turn fate) (sample_out_db d) sent
      = dispatch_loop sample_env sample_saved_run (sample_turn fate) 0 [d] (sample_out_db d) sent"
    by (rule sample_prepared) (use assms(1) in auto)
  with sample_dispatch [OF assms] show ?thesis by simp
qed

lemma unsaved_receipt_sent_twice:
  "\<exists>e1 db1 e2 db2. deliver_telegram sample_env sample_settings sample_saved_run sample_settings False
        (sample_turn SaveFailed) (sample_out_db (sample_row DPending)) [] = (e1, db1, [(lit ''d'', Confirmed 5)])
     \<and> e1 \<noteq> Killed
     \<and> deliver_telegram sample_env sample_settings sample_saved_run sample_settings False
        (sample_turn Saved) db1 [(lit ''d'', Confirmed 5)] = (e2, db2, [(lit ''d'', Confirmed 5), (lit ''d'', Confirmed 5)])"
proof -
  have row: "dv_state (sample_row DPending) \<in> {DPending, DSending}"
      "sample_row DPending = (sample_row DPending)\<lparr>dv_state := dv_state (sample_row DPending), dv_attempt := 1\<rparr>"
    by (simp_all add: sample_row_def sample_delivery_def)
  define sending where "sending = (sample_row DPending)\<lparr>dv_state := DSending, dv_attempt := 2\<rparr>"
  have one: "deliver_telegram sample_env sample_settings sample_saved_run sample_settings False (sample_turn SaveFailed)
      (sample_out_db (sample_row DPending)) [] = (Stopped (lit ''STORE_ERROR''), sample_out_db sending, [(lit ''d'', Confirmed 5)])"
    using sample_pass [OF row, of SaveFailed "[]"]
    by (auto simp: sending_def eval_nat_numeral sample_row_def sample_delivery_def simp del: lit_Cons lit_Nil)
  have two: "dv_state sending \<in> {DPending, DSending}" "sending = (sample_row DPending)\<lparr>dv_state := dv_state sending, dv_attempt := 2\<rparr>"
    by (simp_all add: sending_def)
  show ?thesis
    using one sample_pass [OF two, of Saved "[(lit ''d'', Confirmed 5)]"] by (auto simp del: lit_Cons lit_Nil)
qed

definition sample_start :: worker_state where
  "sample_start = \<lparr>wk_db = sample_out_db (sample_row DPending), wk_sent = [], wk_dead = True\<rparr>"


end
