(* ===== verification/Sidecar_Launch.thy ===== *)
theory Sidecar_Launch
  imports Prelude
begin

text \<open>
  How the sidecar is launched (\<open>crates/inference/src/flags.rs\<close>, \<open>crates/inference/src/models.rs\<close> and the
  pure functions of \<open>crates/inference/src/supervisor.rs\<close>): what the binary accepts, which files of a
  model are used, the arguments, and the predicates that decide about restart, eviction and
  recycling. A directory is the list of its file names; \<open>--help\<close> is its text.
\<close>

section \<open>Models\<close>

datatype model_lane = VisionLane | AnswerLane
datatype model_tier = DefaultTier | QualityTier
datatype kv_cache_type = F16 | Q8_0 | Q4_0
datatype flash_attn_setting = FlashAuto | FlashOn | FlashOff

definition kv_as_arg :: "kv_cache_type \<Rightarrow> ustr" where
  "kv_as_arg k = (case k of F16 \<Rightarrow> lit ''f16'' | Q8_0 \<Rightarrow> lit ''q8_0'' | Q4_0 \<Rightarrow> lit ''q4_0'')"

definition is_quantized :: "kv_cache_type \<Rightarrow> bool" where
  "is_quantized k \<longleftrightarrow> k \<noteq> F16"

record model_spec =
  ml_lane :: model_lane
  ml_tier :: model_tier
  ml_gguf_path :: ustr
  ml_mmproj_path :: "ustr option"
  ml_ngl :: nat
  ml_device :: "ustr option"
  ml_ctx_size :: nat
  ml_kv_cache_type :: kv_cache_type
  ml_flash_attn :: flash_attn_setting

record sidecar_params =
  sp_ngl :: nat
  sp_device :: "ustr option"
  sp_ctx_size :: nat
  sp_kv_cache_type :: kv_cache_type
  sp_flash_attn :: flash_attn_setting

definition default_ctx_for :: "model_lane \<Rightarrow> nat" where
  "default_ctx_for lane = (case lane of VisionLane \<Rightarrow> 4096 | AnswerLane \<Rightarrow> 8192)"

definition needs_mmproj :: "model_lane \<Rightarrow> model_tier \<Rightarrow> bool" where
  "needs_mmproj lane tier = (case lane of VisionLane \<Rightarrow> True | AnswerLane \<Rightarrow> False)"

definition is_gguf :: "ustr \<Rightarrow> bool" where
  "is_gguf name \<longleftrightarrow> 5 < length name \<and> to_ascii_lowercase (drop (length name - 5) name) = lit ''.gguf''"

text \<open>The weights: a \<open>.gguf\<close> file that is no projector, preferably quantized as \<open>Q4_K_M\<close>.\<close>

definition find_gguf :: "ustr list \<Rightarrow> ustr option" where
  "find_gguf dir =
     (let candidates = sort (filter (\<lambda>p. is_gguf p \<and> \<not> starts_with (to_ascii_lowercase p) (lit ''mmproj'')) dir)
      in case List.find (\<lambda>p. contains (to_ascii_lowercase p) (lit ''q4_k_m'')) candidates of
           Some p \<Rightarrow> Some p
         | None \<Rightarrow> (case candidates of [] \<Rightarrow> None | p # _ \<Rightarrow> Some p))"

definition find_mmproj :: "ustr list \<Rightarrow> ustr option" where
  "find_mmproj dir =
     (case sort (filter (\<lambda>p. is_gguf p \<and> starts_with (to_ascii_lowercase p) (lit ''mmproj'')) dir) of
        [] \<Rightarrow> None | p # _ \<Rightarrow> Some p)"

definition model_files_present :: "ustr list \<Rightarrow> model_lane \<Rightarrow> model_tier \<Rightarrow> bool" where
  "model_files_present dir lane tier \<longleftrightarrow>
     find_gguf dir \<noteq> None \<and> (\<not> needs_mmproj lane tier \<or> find_mmproj dir \<noteq> None)"

definition resolve_spec :: "ustr list \<Rightarrow> model_lane \<Rightarrow> model_tier \<Rightarrow> sidecar_params \<Rightarrow> model_spec option" where
  "resolve_spec dir lane tier p =
     Option.bind (find_gguf dir) (\<lambda>gguf.
     Option.bind (if needs_mmproj lane tier then map_option Some (find_mmproj dir) else Some None) (\<lambda>mmproj.
       Some \<lparr>ml_lane = lane, ml_tier = tier, ml_gguf_path = gguf, ml_mmproj_path = mmproj, ml_ngl = sp_ngl p,
         ml_device = sp_device p,
         ml_ctx_size = (if sp_ctx_size p = 0 then default_ctx_for lane else sp_ctx_size p),
         ml_kv_cache_type = sp_kv_cache_type p, ml_flash_attn = sp_flash_attn p\<rparr>))"

section \<open>What the binary accepts\<close>

datatype flash_attn_kind = FlashUnsupported | FlashBoolFlag | FlashEnum

record sidecar_caps =
  cp_ctx_size :: bool
  cp_cache_type_k :: bool
  cp_cache_type_v :: bool
  cp_flash_attn_kind :: flash_attn_kind

definition conservative :: sidecar_caps where
  "conservative = \<lparr>cp_ctx_size = True, cp_cache_type_k = False, cp_cache_type_v = False,
     cp_flash_attn_kind = FlashUnsupported\<rparr>"

definition flash_line_takes_value :: "ustr \<Rightarrow> bool" where
  "flash_line_takes_value l \<longleftrightarrow>
     list_ex (contains l) [lit ''{on'', lit ''[on'', lit ''<on'', lit ''(on'', lit ''on,off'', lit ''on|off'', lit ''on/off'']"

definition parse_caps :: "ustr \<Rightarrow> sidecar_caps" where
  "parse_caps help = \<lparr>
     cp_ctx_size = contains help (lit ''--ctx-size''),
     cp_cache_type_k = contains help (lit ''--cache-type-k''),
     cp_cache_type_v = contains help (lit ''--cache-type-v''),
     cp_flash_attn_kind =
       (if \<not> contains help (lit ''--flash-attn'') then FlashUnsupported
        else if list_ex flash_line_takes_value (filter (\<lambda>l. contains l (lit ''--flash-attn'')) (str_lines help))
          then FlashEnum else FlashBoolFlag)\<rparr>"

text \<open>\<open>probe_caps\<close>: the output of \<open>--help\<close>, if the binary ran and printed something.\<close>

definition probe_caps :: "ustr option \<Rightarrow> sidecar_caps" where
  "probe_caps output = (case output of None \<Rightarrow> conservative
     | Some out \<Rightarrow> if trim out = [] then conservative else parse_caps out)"

section \<open>Arguments\<close>

datatype flash_state = FlashActive | FlashBinaryUnsupported | FlashUserDisabled

fun push_flash_attn :: "ustr list \<Rightarrow> flash_attn_kind \<Rightarrow> flash_attn_setting \<Rightarrow> ustr list \<times> flash_state" where
  "push_flash_attn args FlashUnsupported _ = (args, FlashBinaryUnsupported)"
| "push_flash_attn args FlashBoolFlag FlashOff = (args, FlashUserDisabled)"
| "push_flash_attn args FlashBoolFlag _ = (args @ [lit ''--flash-attn''], FlashActive)"
| "push_flash_attn args FlashEnum FlashOff = (args @ [lit ''--flash-attn'', lit ''off''], FlashUserDisabled)"
| "push_flash_attn args FlashEnum FlashAuto = (args @ [lit ''--flash-attn'', lit ''auto''], FlashActive)"
| "push_flash_attn args FlashEnum FlashOn = (args @ [lit ''--flash-attn'', lit ''on''], FlashActive)"

definition push_kv_cache :: "ustr list \<Rightarrow> sidecar_caps \<Rightarrow> kv_cache_type \<Rightarrow> flash_state \<Rightarrow> ustr list" where
  "push_kv_cache args caps kv flash =
     (if \<not> is_quantized kv \<or> flash \<noteq> FlashActive then args
      else args @ (if cp_cache_type_k caps then [lit ''--cache-type-k'', kv_as_arg kv] else [])
                @ (if cp_cache_type_v caps then [lit ''--cache-type-v'', kv_as_arg kv] else []))"

definition build_args :: "model_spec \<Rightarrow> nat \<Rightarrow> sidecar_caps \<Rightarrow> ustr list" where
  "build_args spec port caps =
     (let args = [lit ''--model'', ml_gguf_path spec, lit ''--host'', lit ''127.0.0.1'', lit ''--port'',
                  display_int (int port), lit ''-ngl'', display_int (int (ml_ngl spec))]
            @ (case ml_mmproj_path spec of None \<Rightarrow> [] | Some m \<Rightarrow> [lit ''--mmproj'', m])
            @ (case ml_device spec of None \<Rightarrow> [] | Some d \<Rightarrow> [lit ''--device'', d])
            @ (if cp_ctx_size caps then [lit ''--ctx-size'', display_int (int (ml_ctx_size spec))] else []);
          (args', flash) = push_flash_attn args (cp_flash_attn_kind caps) (ml_flash_attn spec)
      in push_kv_cache args' caps (ml_kv_cache_type spec) flash)"

section \<open>Decisions\<close>

definition needs_restart :: "model_spec \<Rightarrow> model_spec \<Rightarrow> bool" where
  "needs_restart running requested \<longleftrightarrow>
     ml_gguf_path running \<noteq> ml_gguf_path requested \<or> ml_mmproj_path running \<noteq> ml_mmproj_path requested
     \<or> ml_ngl running \<noteq> ml_ngl requested \<or> ml_device running \<noteq> ml_device requested
     \<or> ml_ctx_size running \<noteq> ml_ctx_size requested
     \<or> ml_kv_cache_type running \<noteq> ml_kv_cache_type requested \<or> ml_flash_attn running \<noteq> ml_flash_attn requested"

definition idle_expired :: "int \<Rightarrow> int \<Rightarrow> bool" where "idle_expired elapsed ttl \<longleftrightarrow> ttl \<le> elapsed"

definition should_evict :: "nat \<Rightarrow> int \<Rightarrow> int \<Rightarrow> bool \<Rightarrow> bool" where
  "should_evict in_flight elapsed ttl backfill \<longleftrightarrow> in_flight = 0 \<and> \<not> backfill \<and> idle_expired elapsed ttl"

definition should_recycle :: "nat \<Rightarrow> nat \<Rightarrow> bool" where
  "should_recycle rss limit \<longleftrightarrow> limit \<noteq> 0 \<and> limit \<le> rss"

definition gib :: nat where "gib = 1073741824"

definition auto_recycle_ceiling :: "nat \<Rightarrow> nat" where
  "auto_recycle_ceiling total_ram =
     (let lo = 8 * gib; hi = max (total_ram - 6 * gib) lo in clamp (total_ram div 2) lo hi)"

definition resolve_recycle_ceiling :: "nat \<Rightarrow> bool \<Rightarrow> nat \<Rightarrow> nat" where
  "resolve_recycle_ceiling total_ram enabled rss_mb =
     (if \<not> enabled then 0 else if 0 < rss_mb then rss_mb * 1024 * 1024 else auto_recycle_ceiling total_ram)"

definition can_reuse_running_sidecar :: "bool \<Rightarrow> bool \<Rightarrow> bool" where
  "can_reuse_running_sidecar process_alive health_ok \<longleftrightarrow> process_alive \<and> health_ok"

text \<open>
  The startup reap: the content of the pid file if there is one, whether a process with a given id
  is alive, its image path, and the paths the application owns. The result: whether a process is
  terminated (its id), and whether the pid file is removed.
\<close>

definition reap_stray_any ::
  "(ustr \<Rightarrow> ustr) \<Rightarrow> (ustr \<Rightarrow> nat option) \<Rightarrow> (nat \<Rightarrow> bool) \<Rightarrow> (nat \<Rightarrow> ustr option)
    \<Rightarrow> ustr option \<Rightarrow> ustr list \<Rightarrow> nat option \<times> bool" where
  "reap_stray_any lower parse_u32 alive image_path content expected =
     (case content of None \<Rightarrow> (None, False)
      | Some txt \<Rightarrow>
          (case parse_u32 (trim txt) of None \<Rightarrow> (None, True)
           | Some pid \<Rightarrow>
               if \<not> alive pid then (None, True)
               else if (case image_path pid of None \<Rightarrow> False | Some p \<Rightarrow> list_ex (\<lambda>e. lower p = lower e) expected)
                 then (Some pid, True)
               else (None, False)))"

section \<open>Properties\<close>

text \<open>a running sidecar is reused only for requests it would have been launched the same way for:
  when no restart is needed the arguments agree, for every port and every binary.\<close>

theorem reuse_means_same_launch:
  assumes "\<not> needs_restart running requested"
  shows "build_args running port caps = build_args requested port caps"
  using assms by (simp add: needs_restart_def build_args_def Let_def)

lemma auto_ceiling_bounds: "8 * gib \<le> auto_recycle_ceiling ram" "auto_recycle_ceiling ram \<le> max (ram - 6 * gib) (8 * gib)"
  by (simp_all add: auto_recycle_ceiling_def Let_def)

lemma resolved_model_present: "(\<exists>spec. resolve_spec dir lane tier p = Some spec) \<longleftrightarrow> model_files_present dir lane tier"
  by (auto simp: resolve_spec_def model_files_present_def bind_eq_Some_conv)

lemma reuse_means_same_launch_witness:
  "\<exists>running requested. running \<noteq> requested \<and> build_args running 1 conservative = build_args requested 1 conservative"
proof -
  define a where "a = \<lparr>ml_lane = AnswerLane, ml_tier = DefaultTier, ml_gguf_path = lit ''m.gguf'', ml_mmproj_path = None,
     ml_ngl = 1, ml_device = None, ml_ctx_size = 8192, ml_kv_cache_type = F16, ml_flash_attn = FlashAuto\<rparr>"
  have "build_args a 1 conservative = build_args (a\<lparr>ml_tier := QualityTier\<rparr>) 1 conservative"
    by (rule reuse_means_same_launch) (simp add: needs_restart_def a_def)
  moreover have "a \<noteq> a\<lparr>ml_tier := QualityTier\<rparr>" by (simp add: a_def)
  ultimately show ?thesis by blast
qed

end
