(* ===== verification/Supervisor.thy ===== *)
theory Supervisor
  imports Sidecar_Launch
begin

text \<open>
  The supervisor of the inference sidecar (\<open>crates/inference/src/supervisor.rs\<close>) as a concurrent
  machine. Requests, the unload command and the evictor are tasks; a step is what one task does
  between two points where it gives up the processor, and a section under the state lock is one
  step, since the lock is held over it. The semaphore counts its free permits: a request holds one,
  a task that may stop the process holds all. What the operating system and the sidecar answer
  (health, committed memory, the fate of a spawn or a kill) comes with the step.
\<close>

section \<open>State\<close>

record sidecar_process =
  pc_pid :: nat
  pc_spec :: model_spec

datatype sidecar_state = Stopped | Starting | Ready | Evicted | Crashed | Recycled

record supervisor_config =
  cf_idle_ttl :: int
  cf_ceiling :: nat
  cf_capacity :: nat

datatype teardown = Recycling | Switching | Recovering model_spec

text \<open>Where a task is: at the top of the loop of \<open>acquire\<close>, before the second probe, waiting for or
  holding permits, holding a lease on a process, giving it back, done or failed. \<open>unload\<close> waits for
  and holds all permits.\<close>

datatype phase =
    Top model_spec
  | Probed model_spec
  | WantOne model_spec
  | HoldOne model_spec
  | WantAll teardown model_spec
  | HoldAll teardown model_spec
  | WantUnload
  | HoldUnload
  | Leased model_spec nat
  | Returning
  | Done
  | Failed

record supervisor =
  su_state :: "sidecar_process option"
  su_in_flight :: nat
  su_last_activity :: int
  su_shutdown :: bool
  su_backfill_active :: bool
  su_pinned :: bool
  su_permits :: nat
  su_evicting :: bool
  su_pidfile :: "nat option"
  su_events :: "(sidecar_state \<times> model_spec option) list"
  su_tasks :: "phase list"

section \<open>The process\<close>

text \<open>The fate of one attempt to spawn, with the process id where there is a process.\<close>

datatype spawn_fate = NoPort | NoSpawn | NotAssigned nat | NotResumed nat | Exited nat | NotHealthy nat | Healthy nat

definition emit :: "sidecar_state \<Rightarrow> model_spec option \<Rightarrow> supervisor \<Rightarrow> supervisor" where
  "emit st spec s = s\<lparr>su_events := su_events s @ [(st, spec)]\<rparr>"

definition spawn_for :: "model_spec \<Rightarrow> spawn_fate \<Rightarrow> supervisor \<Rightarrow> sidecar_process option \<times> supervisor" where
  "spawn_for spec fate s =
     (case fate of NoPort \<Rightarrow> (None, s)
      | _ \<Rightarrow>
        (let s1 = emit Starting (Some spec) s
         in case fate of
              NoPort \<Rightarrow> (None, s1)
            | NoSpawn \<Rightarrow> (None, s1)
            | NotAssigned _ \<Rightarrow> (None, s1)
            | NotResumed _ \<Rightarrow> (None, s1)
            | Exited pid \<Rightarrow> (None, emit Crashed (Some spec) (s1\<lparr>su_pidfile := Some pid\<rparr>))
            | NotHealthy pid \<Rightarrow> (None, emit Crashed (Some spec) (s1\<lparr>su_pidfile := Some pid\<rparr>))
            | Healthy pid \<Rightarrow> (Some \<lparr>pc_pid = pid, pc_spec = spec\<rparr>, emit Ready (Some spec) (s1\<lparr>su_pidfile := Some pid\<rparr>))))"

definition spawn_attempts :: nat where "spawn_attempts = 3"

fun spawn_retry :: "nat \<Rightarrow> model_spec \<Rightarrow> (nat \<Rightarrow> spawn_fate) \<Rightarrow> supervisor \<Rightarrow> sidecar_process option \<times> supervisor" where
  "spawn_retry 0 spec fate s = (None, s)"
| "spawn_retry (Suc n) spec fate s =
     (case spawn_for spec (fate n) s of
        (Some p, s') \<Rightarrow> (Some p, s') | (None, s') \<Rightarrow> spawn_retry n spec fate s')"

definition spawn_with_retries :: "model_spec \<Rightarrow> (nat \<Rightarrow> spawn_fate) \<Rightarrow> supervisor \<Rightarrow> sidecar_process option \<times> supervisor" where
  "spawn_with_retries spec fate s = spawn_retry spawn_attempts spec fate s"

text \<open>\<open>kill_and_confirm\<close>: the pid file goes only if the process is seen to be gone.\<close>

definition kill_and_confirm :: "bool \<Rightarrow> supervisor \<Rightarrow> supervisor" where
  "kill_and_confirm gone s = (if gone then s\<lparr>su_pidfile := None\<rparr> else s)"

section \<open>Steps of a request\<close>

text \<open>What a step is told: the committed memory of the sidecar, whether it answers, whether a kill is
  seen to succeed, how the attempts to spawn end, and the clock.\<close>

record step_env =
  en_rss :: "nat option"
  en_alive :: bool
  en_health :: bool
  en_gone :: bool
  en_spawn :: "nat \<Rightarrow> spawn_fate"
  en_now :: int

definition process_over_ceiling :: "supervisor_config \<Rightarrow> step_env \<Rightarrow> bool" where
  "process_over_ceiling cfg e = (case en_rss e of None \<Rightarrow> False | Some rss \<Rightarrow> should_recycle rss (cf_ceiling cfg))"

definition over_recycle_ceiling :: "supervisor_config \<Rightarrow> step_env \<Rightarrow> model_spec \<Rightarrow> supervisor \<Rightarrow> bool" where
  "over_recycle_ceiling cfg e spec s \<longleftrightarrow> cf_ceiling cfg \<noteq> 0
     \<and> (case su_state s of None \<Rightarrow> False
        | Some p \<Rightarrow> \<not> needs_restart (pc_spec p) spec \<and> process_over_ceiling cfg e)"

definition needs_exclusive_switch :: "model_spec \<Rightarrow> supervisor \<Rightarrow> bool" where
  "needs_exclusive_switch spec s = (case su_state s of None \<Rightarrow> False | Some p \<Rightarrow> needs_restart (pc_spec p) spec)"

definition running_sidecar_healthy :: "step_env \<Rightarrow> bool" where
  "running_sidecar_healthy e = can_reuse_running_sidecar (en_alive e) (if en_alive e then en_health e else False)"

definition set_phase :: "nat \<Rightarrow> phase \<Rightarrow> supervisor \<Rightarrow> supervisor" where
  "set_phase t ph s = s\<lparr>su_tasks := (su_tasks s)[t := ph]\<rparr>"

text \<open>\<open>lease_from_state\<close>; of the permits held, one stays with the lease (\<open>into_single\<close>).\<close>

definition lease_from_state :: "nat \<Rightarrow> nat \<Rightarrow> step_env \<Rightarrow> model_spec \<Rightarrow> sidecar_process \<Rightarrow> supervisor \<Rightarrow> supervisor" where
  "lease_from_state t held e spec p s =
     set_phase t (Leased spec (pc_pid p))
       (s\<lparr>su_in_flight := su_in_flight s + 1, su_last_activity := en_now e, su_permits := su_permits s + (held - 1)\<rparr>)"

definition release :: "nat \<Rightarrow> nat \<Rightarrow> phase \<Rightarrow> supervisor \<Rightarrow> supervisor" where
  "release t held ph s = set_phase t ph (s\<lparr>su_permits := su_permits s + held\<rparr>)"

text \<open>A process is spawned and leased, or the request fails and its permits go back.\<close>

definition spawn_and_lease :: "nat \<Rightarrow> nat \<Rightarrow> step_env \<Rightarrow> model_spec \<Rightarrow> supervisor \<Rightarrow> supervisor" where
  "spawn_and_lease t held e spec s =
     (case spawn_with_retries spec (en_spawn e) s of
        (Some p, s') \<Rightarrow> lease_from_state t held e spec p (s'\<lparr>su_state := Some p\<rparr>)
      | (None, s') \<Rightarrow> release t held Failed s')"

definition stop_child :: "step_env \<Rightarrow> supervisor \<Rightarrow> supervisor" where
  "stop_child e s = kill_and_confirm (en_gone e) (s\<lparr>su_state := None\<rparr>)"

definition locked_one :: "nat \<Rightarrow> step_env \<Rightarrow> model_spec \<Rightarrow> supervisor \<Rightarrow> supervisor" where
  "locked_one t e spec s =
     (case su_state s of
        Some p \<Rightarrow>
          if needs_restart (pc_spec p) spec then release t 1 (Top spec) s
          else if running_sidecar_healthy e then lease_from_state t 1 e spec p s
          else release t 1 (WantAll (Recovering (pc_spec p)) spec) s
      | None \<Rightarrow> spawn_and_lease t 1 e spec s)"

fun locked_all :: "supervisor_config \<Rightarrow> nat \<Rightarrow> step_env \<Rightarrow> teardown \<Rightarrow> model_spec \<Rightarrow> supervisor \<Rightarrow> supervisor" where
  "locked_all cfg t e Recycling spec s =
     (case su_state s of
        Some old \<Rightarrow>
          if \<not> needs_restart (pc_spec old) spec \<and> process_over_ceiling cfg e
          then spawn_and_lease t (cf_capacity cfg) e spec (stop_child e (emit Recycled (Some (pc_spec old)) s))
          else release t (cf_capacity cfg) (Top spec) s
      | None \<Rightarrow> release t (cf_capacity cfg) (Top spec) s)"
| "locked_all cfg t e Switching spec s =
     (case su_state s of
        Some old \<Rightarrow>
          if needs_restart (pc_spec old) spec
          then spawn_and_lease t (cf_capacity cfg) e spec (stop_child e (s\<lparr>su_pinned := False\<rparr>))
          else release t (cf_capacity cfg) (Top spec) s
      | None \<Rightarrow> release t (cf_capacity cfg) (Top spec) s)"
| "locked_all cfg t e (Recovering crashed) spec s =
     (case su_state s of
        Some p \<Rightarrow>
          if \<not> needs_restart (pc_spec p) spec \<and> running_sidecar_healthy e
          then release t (cf_capacity cfg) (Top spec) s
          else spawn_and_lease t (cf_capacity cfg) e spec (stop_child e (emit Crashed (Some crashed) s))
      | None \<Rightarrow> release t (cf_capacity cfg) (Top spec) s)"

definition locked_unload :: "supervisor_config \<Rightarrow> nat \<Rightarrow> step_env \<Rightarrow> supervisor \<Rightarrow> supervisor" where
  "locked_unload cfg t e s =
     (case su_state s of
        Some p \<Rightarrow> release t (cf_capacity cfg) Done (emit Evicted (Some (pc_spec p)) (stop_child e s))
      | None \<Rightarrow> release t (cf_capacity cfg) Done s)"

text \<open>One step of task \<open>t\<close>; \<open>None\<close> when it waits for permits or has ended.\<close>

definition task_step :: "supervisor_config \<Rightarrow> nat \<Rightarrow> step_env \<Rightarrow> supervisor \<Rightarrow> supervisor option" where
  "task_step cfg t e s =
     (if length (su_tasks s) \<le> t then None
      else case su_tasks s ! t of
        Top spec \<Rightarrow> Some (set_phase t (if over_recycle_ceiling cfg e spec s then WantAll Recycling spec else Probed spec) s)
      | Probed spec \<Rightarrow> Some (set_phase t (if needs_exclusive_switch spec s then WantAll Switching spec else WantOne spec) s)
      | WantOne spec \<Rightarrow>
          if 1 \<le> su_permits s then Some (set_phase t (HoldOne spec) (s\<lparr>su_permits := su_permits s - 1\<rparr>)) else None
      | HoldOne spec \<Rightarrow> Some (locked_one t e spec s)
      | WantAll why spec \<Rightarrow>
          if cf_capacity cfg \<le> su_permits s
          then Some (set_phase t (HoldAll why spec) (s\<lparr>su_permits := su_permits s - cf_capacity cfg\<rparr>)) else None
      | HoldAll why spec \<Rightarrow> Some (locked_all cfg t e why spec s)
      | WantUnload \<Rightarrow>
          if cf_capacity cfg \<le> su_permits s
          then Some (set_phase t HoldUnload (s\<lparr>su_permits := su_permits s - cf_capacity cfg\<rparr>)) else None
      | HoldUnload \<Rightarrow> Some (locked_unload cfg t e s)
      | Leased spec pid \<Rightarrow>
          Some (set_phase t Returning (s\<lparr>su_in_flight := su_in_flight s - 1, su_last_activity := en_now e\<rparr>))
      | Returning \<Rightarrow> Some (release t 1 Done s)
      | Done \<Rightarrow> None
      | Failed \<Rightarrow> None)"

section \<open>Evictor, commands, shutdown\<close>

definition maybe_evict_check :: "supervisor_config \<Rightarrow> int \<Rightarrow> supervisor \<Rightarrow> supervisor" where
  "maybe_evict_check cfg now s =
     (if should_evict (su_in_flight s) (now - su_last_activity s) (cf_idle_ttl cfg) (su_backfill_active s \<or> su_pinned s)
      then s\<lparr>su_evicting := True\<rparr> else s)"

definition maybe_evict_locked :: "bool \<Rightarrow> supervisor \<Rightarrow> supervisor" where
  "maybe_evict_locked gone s =
     (let s1 = s\<lparr>su_evicting := False\<rparr>
      in if 0 < su_in_flight s \<or> su_backfill_active s \<or> su_pinned s then s1
         else (case su_state s of
             Some p \<Rightarrow> emit Evicted (Some (pc_spec p)) (kill_and_confirm gone (s1\<lparr>su_state := None\<rparr>))
           | None \<Rightarrow> s1))"

definition shutdown :: "bool \<Rightarrow> supervisor \<Rightarrow> supervisor" where
  "shutdown gone s =
     emit Stopped None
       (case su_state s of
          Some p \<Rightarrow> kill_and_confirm gone (s\<lparr>su_shutdown := True, su_state := None\<rparr>)
        | None \<Rightarrow> s\<lparr>su_shutdown := True\<rparr>)"

inductive sup_step :: "supervisor_config \<Rightarrow> supervisor \<Rightarrow> supervisor \<Rightarrow> bool" for cfg where
  Request: "sup_step cfg s (s\<lparr>su_tasks := su_tasks s @ [Top spec]\<rparr>)"
| Unload: "sup_step cfg s (s\<lparr>su_pinned := False, su_tasks := su_tasks s @ [WantUnload]\<rparr>)"
| Task: "task_step cfg t e s = Some s' \<Longrightarrow> sup_step cfg s s'"
| Preloaded: "\<lbrakk>t < length (su_tasks s); su_tasks s ! t = Leased spec pid\<rbrakk> \<Longrightarrow> sup_step cfg s (s\<lparr>su_pinned := True\<rparr>)"
| Backfill: "sup_step cfg s (s\<lparr>su_backfill_active := active\<rparr>)"
| Check: "\<lbrakk>\<not> su_shutdown s; \<not> su_evicting s\<rbrakk> \<Longrightarrow> sup_step cfg s (maybe_evict_check cfg now s)"
| Evict: "su_evicting s \<Longrightarrow> sup_step cfg s (maybe_evict_locked gone s)"
| Shutdown: "sup_step cfg s (shutdown gone s)"

inductive_cases sup_stepE: "sup_step cfg s t"

definition new_supervisor :: "supervisor_config \<Rightarrow> supervisor" where
  "new_supervisor cfg = \<lparr>su_state = None, su_in_flight = 0, su_last_activity = 0, su_shutdown = False,
     su_backfill_active = False, su_pinned = False, su_permits = cf_capacity cfg, su_evicting = False,
     su_pidfile = None, su_events = [], su_tasks = []\<rparr>"

inductive sup_reachable :: "supervisor_config \<Rightarrow> supervisor \<Rightarrow> bool" for cfg where
  New: "0 < cf_capacity cfg \<Longrightarrow> sup_reachable cfg (new_supervisor cfg)"
| Next: "sup_reachable cfg s \<Longrightarrow> sup_step cfg s t \<Longrightarrow> sup_reachable cfg t"

section \<open>The invariant\<close>

definition held :: "supervisor_config \<Rightarrow> phase \<Rightarrow> nat" where
  "held cfg ph = (case ph of HoldOne _ \<Rightarrow> 1 | HoldAll _ _ \<Rightarrow> cf_capacity cfg | HoldUnload \<Rightarrow> cf_capacity cfg
     | Leased _ _ \<Rightarrow> 1 | Returning \<Rightarrow> 1 | _ \<Rightarrow> 0)"

definition leased :: "phase \<Rightarrow> nat" where
  "leased ph = (case ph of Leased _ _ \<Rightarrow> 1 | _ \<Rightarrow> 0)"

definition backs :: "sidecar_process option \<Rightarrow> model_spec \<Rightarrow> nat \<Rightarrow> bool" where
  "backs st spec pid \<longleftrightarrow> (\<exists>p. st = Some p \<and> pc_pid p = pid \<and> \<not> needs_restart (pc_spec p) spec)"

definition sup_inv :: "supervisor_config \<Rightarrow> supervisor \<Rightarrow> bool" where
  "sup_inv cfg s \<longleftrightarrow> 0 < cf_capacity cfg
     \<and> su_permits s + sum_list (map (held cfg) (su_tasks s)) = cf_capacity cfg
     \<and> su_in_flight s = sum_list (map leased (su_tasks s))
     \<and> (\<not> su_shutdown s \<longrightarrow> (\<forall>spec pid. Leased spec pid \<in> set (su_tasks s) \<longrightarrow> backs (su_state s) spec pid))"

lemma sum_list_put: "t < length xs \<Longrightarrow> sum_list (map f (xs[t := x])) + f (xs ! t) = sum_list (map f xs) + (f x :: nat)"
  by (induction xs arbitrary: t) (auto split: nat.splits)

lemma sum_list_member: "t < length xs \<Longrightarrow> f (xs ! t) \<le> sum_list (map f xs :: nat list)"
  by (induction xs arbitrary: t) (auto split: nat.splits simp: nth_Cons trans_le_add2)

lemma leased_le_held: "0 < cf_capacity cfg \<Longrightarrow> leased ph \<le> held cfg ph"
  by (auto simp: leased_def held_def split: phase.splits)

lemma leased_sum_le: "0 < cf_capacity cfg \<Longrightarrow> sum_list (map leased tasks) \<le> sum_list (map (held cfg) tasks)"
  by (induction tasks) (auto intro: add_mono leased_le_held)

lemma no_leases: "sum_list (map leased tasks) = 0 \<Longrightarrow> Leased spec pid \<notin> set tasks"
  by (auto simp: leased_def split: phase.splits)

text \<open>A task that holds all permits is alone: nobody has a lease.\<close>

lemma exclusive_no_leases:
  assumes inv: "sup_inv cfg s" and t: "t < length (su_tasks s)" and all: "held cfg (su_tasks s ! t) = cf_capacity cfg"
    and none: "leased (su_tasks s ! t) = 0"
  shows "su_in_flight s = 0"
proof -
  let ?others = "(su_tasks s)[t := Done]"
  have "sum_list (map (held cfg) ?others) = 0"
    using sum_list_put [OF t, of "held cfg" Done] inv all held_def [of cfg Done]
    unfolding sup_inv_def phase.case by linarith
  then have "sum_list (map leased ?others) = 0"
    using leased_sum_le [of cfg ?others] inv unfolding sup_inv_def by linarith
  then show ?thesis
    using sum_list_put [OF t, of leased Done] inv none leased_def [of Done]
    unfolding sup_inv_def phase.case by linarith
qed

lemma sup_inv_put:
  assumes inv: "sup_inv cfg s" and t: "t < length (su_tasks s)"
    and tasks: "su_tasks s' = (su_tasks s)[t := ph]"
    and permits: "su_permits s' + held cfg ph = su_permits s + held cfg (su_tasks s ! t)"
    and flight: "su_in_flight s' + leased (su_tasks s ! t) = su_in_flight s + leased ph"
    and down: "su_shutdown s' = su_shutdown s"
    and st: "su_state s' = su_state s \<or> su_in_flight s = 0 \<or> su_shutdown s"
    and lease: "\<And>spec pid. ph = Leased spec pid \<Longrightarrow> \<not> su_shutdown s \<Longrightarrow> backs (su_state s') spec pid"
  shows "sup_inv cfg s'"
proof -
  have "backs (su_state s') spec pid" if l: "Leased spec pid \<in> set (su_tasks s')" and up: "\<not> su_shutdown s" for spec pid
  proof -
    consider "ph = Leased spec pid" | "Leased spec pid \<in> set (su_tasks s)"
      using l set_update_subset_insert [of "su_tasks s" t ph] by (auto simp: tasks)
    then show ?thesis
    proof cases
      case 1
      with lease up show ?thesis by simp
    next
      case 2
      with inv st no_leases [of "su_tasks s" spec pid] up show ?thesis by (auto simp: sup_inv_def)
    qed
  qed
  moreover have "su_permits s' + sum_list (map (held cfg) (su_tasks s')) = cf_capacity cfg"
    using sum_list_put [OF t, of "held cfg" ph] permits inv by (simp add: tasks sup_inv_def)
  moreover have "su_in_flight s' = sum_list (map leased (su_tasks s'))"
    using sum_list_put [OF t, of leased ph] flight inv by (simp add: tasks sup_inv_def)
  ultimately show ?thesis using inv down by (simp add: sup_inv_def)
qed

definition same_control :: "supervisor \<Rightarrow> supervisor \<Rightarrow> bool" where
  "same_control s s' \<longleftrightarrow> su_in_flight s' = su_in_flight s \<and> su_shutdown s' = su_shutdown s
     \<and> su_permits s' = su_permits s \<and> su_tasks s' = su_tasks s"

lemma spawn_for_control:
  assumes "spawn_for spec fate s = (q, s')"
  shows "same_control s s' \<and> su_state s' = su_state s \<and> (\<forall>p. q = Some p \<longrightarrow> pc_spec p = spec)"
  using assms by (cases fate) (auto simp: spawn_for_def emit_def same_control_def Let_def)

lemma spawn_retry_control:
  "spawn_retry n spec fate s = (q, s') \<Longrightarrow>
     same_control s s' \<and> su_state s' = su_state s \<and> (\<forall>p. q = Some p \<longrightarrow> pc_spec p = spec)"
proof (induction n arbitrary: s)
  case (Suc n)
  obtain r s1 where r: "spawn_for spec (fate n) s = (r, s1)" by fastforce
  show ?case
    using spawn_for_control [OF r] Suc.IH [of s1] Suc.prems
    by (cases r) (auto simp: r same_control_def)
qed (simp add: same_control_def)

lemma not_needs_restart_refl [simp]: "\<not> needs_restart spec spec"
  by (simp add: needs_restart_def)

text \<open>After the old process is gone, or there was none, and while no lease is out, a spawn keeps the
  invariant.\<close>

lemma spawn_and_lease_inv:
  assumes inv: "sup_inv cfg s" and t: "t < length (su_tasks s)" and k: "held cfg (su_tasks s ! t) = k" "0 < k"
    and none: "leased (su_tasks s ! t) = 0" and alone: "su_in_flight s = 0 \<or> su_shutdown s" and sc: "same_control s s1"
  shows "sup_inv cfg (spawn_and_lease t k e spec s1)"
proof -
  obtain q s2 where q: "spawn_with_retries spec (en_spawn e) s1 = (q, s2)" by fastforce
  have c: "same_control s1 s2" "\<forall>p. q = Some p \<longrightarrow> pc_spec p = spec"
    using spawn_retry_control [of spawn_attempts spec "en_spawn e" s1 q s2] q by (auto simp: spawn_with_retries_def)
  show ?thesis
  proof (cases q)
    case None
    show ?thesis
      by (rule sup_inv_put [OF inv t, where ph = Failed])
        (use c sc k none alone in \<open>auto simp: spawn_and_lease_def q None release_def set_phase_def same_control_def
          held_def [of _ Failed] leased_def [of Failed]\<close>)
  next
    case (Some p)
    show ?thesis
      by (rule sup_inv_put [OF inv t, where ph = "Leased spec (pc_pid p)"])
        (use c sc k none alone Some in \<open>auto simp: spawn_and_lease_def q lease_from_state_def set_phase_def same_control_def
          held_def [of _ "Leased _ _"] leased_def [of "Leased _ _"] backs_def\<close>)
  qed
qed

lemma release_inv:
  assumes "sup_inv cfg s" and "t < length (su_tasks s)" and "held cfg (su_tasks s ! t) = k"
    and "leased (su_tasks s ! t) = 0" and "held cfg ph = 0" and "leased ph = 0"
    and "same_control s s1" and "su_state s1 = su_state s \<or> su_in_flight s = 0"
  shows "sup_inv cfg (release t k ph s1)"
  by (rule sup_inv_put [OF assms(1,2), where ph = ph])
    (use assms(3-) in \<open>auto simp: release_def set_phase_def same_control_def leased_def\<close>)

lemma stop_child_control: "same_control s (stop_child e s)"
  by (simp add: stop_child_def kill_and_confirm_def same_control_def)

lemma same_control_simps [simp]: "same_control s s" "same_control s (emit st x s)"
    "same_control s (s\<lparr>su_pinned := b\<rparr>)" "same_control s (stop_child e (emit st x s))"
    "same_control s (stop_child e (s\<lparr>su_pinned := b\<rparr>))" "same_control s (emit st x (stop_child e s))"
  by (simp_all add: same_control_def emit_def stop_child_def kill_and_confirm_def)

lemma locked_one_inv:
  assumes inv: "sup_inv cfg s" and t: "t < length (su_tasks s)" and ph: "su_tasks s ! t = HoldOne spec"
  shows "sup_inv cfg (locked_one t e spec s)"
proof -
  have h: "held cfg (su_tasks s ! t) = 1" "leased (su_tasks s ! t) = 0" by (simp_all add: ph held_def leased_def)
  have freed: "sup_inv cfg (release t 1 ph' s)" if "held cfg ph' = 0" "leased ph' = 0" for ph'
    by (rule release_inv [OF inv t h that]) simp_all
  show ?thesis
  proof (cases "su_state s")
    case None
    have idle: "su_in_flight s = 0" if up: "\<not> su_shutdown s"
      using inv None up no_leases [of "su_tasks s"] by (cases "su_in_flight s = 0")
        (auto simp: sup_inv_def backs_def leased_def split: phase.splits)
    then show ?thesis unfolding locked_one_def None option.case
      by (intro spawn_and_lease_inv [OF inv t h(1) _ h(2)]) auto
  next
    case (Some p)
    have lease: "sup_inv cfg (lease_from_state t 1 e spec p s)" if "\<not> needs_restart (pc_spec p) spec"
      by (rule sup_inv_put [OF inv t, where ph = "Leased spec (pc_pid p)"])
        (use h Some that in \<open>auto simp: lease_from_state_def set_phase_def held_def [of _ "Leased _ _"]
           leased_def [of "Leased _ _"] backs_def\<close>)
    show ?thesis
      using lease freed [of "Top spec"] freed [of "WantAll (Recovering (pc_spec p)) spec"]
      by (simp add: locked_one_def Some held_def leased_def)
  qed
qed

lemma locked_all_inv:
  assumes inv: "sup_inv cfg s" and t: "t < length (su_tasks s)" and ph: "su_tasks s ! t = HoldAll why spec"
  shows "sup_inv cfg (locked_all cfg t e why spec s)"
proof -
  have h: "held cfg (su_tasks s ! t) = cf_capacity cfg" "leased (su_tasks s ! t) = 0"
    by (simp_all add: ph held_def leased_def)
  have cap: "0 < cf_capacity cfg" using inv by (simp add: sup_inv_def)
  have alone: "su_in_flight s = 0" by (rule exclusive_no_leases [OF inv t h])
  have freed: "sup_inv cfg (release t (cf_capacity cfg) (Top spec) s)"
    by (rule release_inv [OF inv t h]) (simp_all add: held_def leased_def)
  have spawn: "sup_inv cfg (spawn_and_lease t (cf_capacity cfg) e spec s1)" if "same_control s s1" for s1
    by (rule spawn_and_lease_inv [OF inv t h(1) cap h(2) _ that]) (simp add: alone)
  show ?thesis
    by (cases why) (auto simp: freed intro!: spawn split: option.split)
qed

lemma locked_unload_inv:
  assumes inv: "sup_inv cfg s" and t: "t < length (su_tasks s)" and ph: "su_tasks s ! t = HoldUnload"
  shows "sup_inv cfg (locked_unload cfg t e s)"
proof -
  have h: "held cfg (su_tasks s ! t) = cf_capacity cfg" "leased (su_tasks s ! t) = 0"
    by (simp_all add: ph held_def leased_def)
  have alone: "su_in_flight s = 0" by (rule exclusive_no_leases [OF inv t h])
  show ?thesis unfolding locked_unload_def
    by (auto simp: alone held_def leased_def split: option.split intro!: release_inv [OF inv t h])
qed

lemma task_step_inv:
  assumes inv: "sup_inv cfg s" and step: "task_step cfg t e s = Some s'"
  shows "sup_inv cfg s'"
proof -
  have t: "t < length (su_tasks s)" using step by (auto simp: task_step_def split: if_splits)
  have cap: "0 < cf_capacity cfg" using inv by (simp add: sup_inv_def)
  have lc: "1 \<le> su_in_flight s" if "su_tasks s ! t = Leased sp pid" for sp pid
    using inv sum_list_member [OF t, of leased] that by (simp add: sup_inv_def leased_def)
  note put = sup_inv_put [OF inv t]
  show ?thesis
  proof (cases "su_tasks s ! t")
    case (HoldOne spec)
    then show ?thesis using step t locked_one_inv [OF inv t HoldOne] by (auto simp: task_step_def)
  next
    case (HoldAll why spec)
    then show ?thesis using step t locked_all_inv [OF inv t HoldAll] by (auto simp: task_step_def)
  next
    case HoldUnload
    then show ?thesis using step t locked_unload_inv [OF inv t HoldUnload] by (auto simp: task_step_def)
  next
    case (Leased sp pid)
    then show ?thesis using step t lc [OF Leased]
      by (intro put [where ph = Returning]) (auto simp: task_step_def set_phase_def held_def leased_def)
  next
    case Returning
    then show ?thesis using step t
      by (intro put [where ph = Done]) (auto simp: task_step_def release_def set_phase_def held_def leased_def)
  next
    case (Top spec)
    then show ?thesis using step t
      by (intro put [where ph = "if over_recycle_ceiling cfg e spec s then WantAll Recycling spec else Probed spec"])
        (auto simp: task_step_def set_phase_def held_def leased_def split: if_splits)
  next
    case (Probed spec)
    then show ?thesis using step t
      by (intro put [where ph = "if needs_exclusive_switch spec s then WantAll Switching spec else WantOne spec"])
        (auto simp: task_step_def set_phase_def held_def leased_def split: if_splits)
  next
    case (WantOne spec)
    then show ?thesis using step t
      by (intro put [where ph = "HoldOne spec"])
        (auto simp: task_step_def set_phase_def held_def leased_def split: if_splits)
  next
    case (WantAll why spec)
    then show ?thesis using step t
      by (intro put [where ph = "HoldAll why spec"])
        (auto simp: task_step_def set_phase_def held_def leased_def split: if_splits)
  next
    case WantUnload
    then show ?thesis using step t
      by (intro put [where ph = HoldUnload])
        (auto simp: task_step_def set_phase_def held_def leased_def split: if_splits)
  qed (use step t in \<open>simp_all add: task_step_def\<close>)
qed

lemma sup_inv_append:
  assumes "sup_inv cfg s" and "held cfg ph = 0" and "leased ph = 0"
  shows "sup_inv cfg (s\<lparr>su_tasks := su_tasks s @ [ph]\<rparr>)"
proof -
  have "ph \<noteq> Leased spec pid" for spec pid using assms(3) by (auto simp: leased_def)
  with assms show ?thesis by (auto simp: sup_inv_def)
qed

lemma sup_inv_flags:
  "sup_inv cfg (s\<lparr>su_pinned := b\<rparr>) = sup_inv cfg s" "sup_inv cfg (s\<lparr>su_backfill_active := b\<rparr>) = sup_inv cfg s"
  "sup_inv cfg (s\<lparr>su_evicting := b\<rparr>) = sup_inv cfg s" "sup_inv cfg (emit st x s) = sup_inv cfg s"
  "sup_inv cfg (kill_and_confirm gone s) = sup_inv cfg s"
  by (simp_all add: sup_inv_def emit_def kill_and_confirm_def)

lemma sup_inv_dropped:
  assumes "sup_inv cfg s" and "su_in_flight s = 0 \<or> b"
  shows "sup_inv cfg (s\<lparr>su_shutdown := su_shutdown s \<or> b, su_state := None\<rparr>)"
  using assms no_leases [of "su_tasks s"] unfolding sup_inv_def by auto

lemma sup_step_inv:
  assumes "sup_step cfg s s'" and inv: "sup_inv cfg s"
  shows "sup_inv cfg s'"
  using assms(1)
proof (cases rule: sup_step.cases)
  case (Request spec)
  then show ?thesis using sup_inv_append [OF inv, of "Top spec"] by (simp add: held_def leased_def)
next
  case Unload
  have "sup_inv cfg ((s\<lparr>su_pinned := False\<rparr>)\<lparr>su_tasks := su_tasks (s\<lparr>su_pinned := False\<rparr>) @ [WantUnload]\<rparr>)"
    by (rule sup_inv_append) (simp_all add: inv sup_inv_flags held_def leased_def)
  then show ?thesis using Unload by simp
next
  case (Task t e)
  then show ?thesis using task_step_inv [OF inv] by blast
next
  case (Check now)
  then show ?thesis by (simp add: maybe_evict_check_def sup_inv_flags inv)
next
  case (Evict gone)
  have "sup_inv cfg (s\<lparr>su_evicting := False, su_state := None\<rparr>)" if "su_in_flight s = 0"
    using sup_inv_dropped [of cfg "s\<lparr>su_evicting := False\<rparr>" False] that by (simp add: sup_inv_flags inv)
  then show ?thesis
    by (auto simp: Evict maybe_evict_locked_def Let_def sup_inv_flags inv split: option.split)
next
  case (Shutdown gone)
  have "sup_inv cfg (s\<lparr>su_shutdown := True, su_state := None\<rparr>)"
    using sup_inv_dropped [of cfg s True] by (simp add: inv)
  moreover have "sup_inv cfg (s\<lparr>su_shutdown := True\<rparr>)" using inv by (simp add: sup_inv_def)
  ultimately show ?thesis
    by (auto simp: Shutdown shutdown_def sup_inv_flags split: option.split)
qed (simp_all add: sup_inv_flags inv)

lemma sup_reachable_inv: "sup_reachable cfg s \<Longrightarrow> sup_inv cfg s"
proof (induction rule: sup_reachable.induct)
  case New
  then show ?case by (simp add: sup_inv_def new_supervisor_def)
qed (rule sup_step_inv)

section \<open>Properties\<close>

text \<open>C20: in every interleaving of requests, unloads, evictions and recoveries a live lease is on the
  process that is running, and that process runs the model the request asked for: nothing stops
  or replaces it under the request (only the shutdown of the application does).\<close>

theorem lease_keeps_its_model:
  assumes "sup_reachable cfg s" and "\<not> su_shutdown s" and "Leased spec pid \<in> set (su_tasks s)"
  shows "\<exists>p. su_state s = Some p \<and> pc_pid p = pid \<and> \<not> needs_restart (pc_spec p) spec"
  using sup_reachable_inv [OF assms(1)] assms(2,3) by (auto simp: sup_inv_def backs_def)

definition waiting :: "phase \<Rightarrow> bool" where
  "waiting ph \<longleftrightarrow> (case ph of WantOne _ \<Rightarrow> True | WantAll _ _ \<Rightarrow> True | WantUnload \<Rightarrow> True | _ \<Rightarrow> False)"

definition ended :: "phase \<Rightarrow> bool" where
  "ended ph \<longleftrightarrow> ph = Done \<or> ph = Failed"

lemma runs_unless_waiting:
  assumes "t < length (su_tasks s)" and "\<not> waiting (su_tasks s ! t)" and "\<not> ended (su_tasks s ! t)"
  shows "task_step cfg t e s \<noteq> None"
  using assms by (cases "su_tasks s ! t") (auto simp: task_step_def waiting_def ended_def)

lemma waiting_runs:
  assumes "t < length (su_tasks s)" and "waiting (su_tasks s ! t)" and "su_permits s = cf_capacity cfg" and "0 < cf_capacity cfg"
  shows "task_step cfg t e s \<noteq> None"
  using assms by (cases "su_tasks s ! t") (auto simp: task_step_def waiting_def)

text \<open>C21: the request gate never deadlocks: in every reachable state with an unfinished request or
  unload, some task can take a step.\<close>

theorem supervisor_never_stuck:
  assumes "sup_reachable cfg s" and "t < length (su_tasks s)" and "\<not> ended (su_tasks s ! t)"
  shows "\<exists>u<length (su_tasks s). \<forall>e. task_step cfg u e s \<noteq> None"
proof (cases "\<exists>u<length (su_tasks s). \<not> waiting (su_tasks s ! u) \<and> \<not> ended (su_tasks s ! u)")
  case True
  then show ?thesis using runs_unless_waiting by blast
next
  case False
  have inv: "sup_inv cfg s" by (rule sup_reachable_inv [OF assms(1)])
  have "held cfg ph = 0" if "waiting ph \<or> ended ph" for ph
    using that by (cases ph) (auto simp: waiting_def ended_def held_def)
  then have "\<forall>ph\<in>set (su_tasks s). held cfg ph = 0" using False by (auto simp: in_set_conv_nth)
  then have "sum_list (map (held cfg) (su_tasks s)) = 0" by simp
  then have "su_permits s = cf_capacity cfg" "0 < cf_capacity cfg" using inv unfolding sup_inv_def by linarith+
  moreover have "waiting (su_tasks s ! t)" using False assms(2,3) by blast
  ultimately show ?thesis using waiting_runs [OF assms(2)] assms(2) by blast
qed

section \<open>A request on its own\<close>

definition answered :: "phase \<Rightarrow> bool" where
  "answered ph \<longleftrightarrow> (case ph of Leased _ _ \<Rightarrow> True | Failed \<Rightarrow> True | _ \<Rightarrow> False)"

fun answers_within :: "supervisor_config \<Rightarrow> nat \<Rightarrow> step_env \<Rightarrow> nat \<Rightarrow> supervisor \<Rightarrow> bool" where
  "answers_within cfg t e 0 s = answered (su_tasks s ! t)"
| "answers_within cfg t e (Suc n) s \<longleftrightarrow> answered (su_tasks s ! t)
     \<or> (case task_step cfg t e s of None \<Rightarrow> False | Some s' \<Rightarrow> answers_within cfg t e n s')"

lemma answers_more: "answers_within cfg t e n s \<Longrightarrow> answers_within cfg t e (n + k) s"
proof (induction n arbitrary: s)
  case 0
  then show ?case by (cases k) simp_all
next
  case (Suc n)
  then show ?case by (auto split: option.splits)
qed

lemma spawn_answers:
  assumes "t < length (su_tasks s)"
  shows "answered (su_tasks (spawn_and_lease t k e spec s) ! t)"
proof -
  obtain q s2 where q: "spawn_with_retries spec (en_spawn e) s = (q, s2)" by fastforce
  have "same_control s s2"
    using spawn_retry_control [of spawn_attempts spec "en_spawn e" s q s2] q by (simp add: spawn_with_retries_def)
  then show ?thesis using assms
    by (cases q) (auto simp: spawn_and_lease_def q release_def lease_from_state_def set_phase_def answered_def same_control_def)
qed

lemma wants_all_answers:
  assumes t: "t < length (su_tasks s)" and ph: "su_tasks s ! t = WantAll why spec" and free: "su_permits s = cf_capacity cfg"
    and st: "su_state s = Some p"
    and why: "case why of Recycling \<Rightarrow> \<not> needs_restart (pc_spec p) spec \<and> process_over_ceiling cfg e
       | Switching \<Rightarrow> needs_restart (pc_spec p) spec
       | Recovering _ \<Rightarrow> needs_restart (pc_spec p) spec \<or> \<not> running_sidecar_healthy e"
  shows "answers_within cfg t e 2 s"
proof -
  let ?s1 = "set_phase t (HoldAll why spec) (s\<lparr>su_permits := su_permits s - cf_capacity cfg\<rparr>)"
  have 1: "task_step cfg t e s = Some ?s1" using t ph free by (simp add: task_step_def)
  have 2: "task_step cfg t e ?s1 = Some (locked_all cfg t e why spec ?s1)"
    using t by (simp add: task_step_def set_phase_def)
  have tasks: "su_tasks (stop_child e x) = su_tasks x" "su_tasks (emit a b x) = su_tasks x" for x a b
    by (simp_all add: stop_child_def kill_and_confirm_def emit_def)
  have "answered (su_tasks (locked_all cfg t e why spec ?s1) ! t)"
    using why t st by (cases why) (auto simp: set_phase_def tasks intro!: spawn_answers)
  then show ?thesis using 1 2 by (simp add: eval_nat_numeral)
qed


section \<open>Concrete runs\<close>

definition sample_model :: "nat \<Rightarrow> model_spec" where
  "sample_model n = \<lparr>ml_lane = AnswerLane, ml_tier = DefaultTier, ml_gguf_path = lit ''m.gguf'', ml_mmproj_path = None,
     ml_ngl = n, ml_device = None, ml_ctx_size = 8192, ml_kv_cache_type = F16, ml_flash_attn = FlashAuto\<rparr>"

definition sample_config :: supervisor_config where
  "sample_config = \<lparr>cf_idle_ttl = 10, cf_ceiling = 0, cf_capacity = 2\<rparr>"

definition sample_step :: "int \<Rightarrow> step_env" where
  "sample_step now = \<lparr>en_rss = None, en_alive = True, en_health = True, en_gone = True, en_spawn = (\<lambda>_. Healthy 7), en_now = now\<rparr>"

fun task_seq :: "supervisor_config \<Rightarrow> nat \<Rightarrow> step_env \<Rightarrow> nat \<Rightarrow> supervisor \<Rightarrow> supervisor option" where
  "task_seq cfg t e 0 s = Some s"
| "task_seq cfg t e (Suc n) s = Option.bind (task_step cfg t e s) (task_seq cfg t e n)"

lemma task_seq_reachable: "sup_reachable cfg s \<Longrightarrow> task_seq cfg t e n s = Some s' \<Longrightarrow> sup_reachable cfg s'"
proof (induction n arbitrary: s)
  case (Suc n)
  then obtain y where y: "task_step cfg t e s = Some y" "task_seq cfg t e n y = Some s'"
    by (auto simp: bind_eq_Some_conv)
  show ?case by (rule Suc.IH [OF Next [OF Suc.prems(1) Task [OF y(1)]] y(2)])
qed simp

definition sample_up :: "phase list \<Rightarrow> int \<Rightarrow> nat \<Rightarrow> nat \<Rightarrow> supervisor" where
  "sample_up tasks now flight permits = \<lparr>su_state = Some \<lparr>pc_pid = 7, pc_spec = sample_model 1\<rparr>, su_in_flight = flight,
     su_last_activity = now, su_shutdown = False, su_backfill_active = False, su_pinned = False, su_permits = permits,
     su_evicting = False, su_pidfile = Some 7, su_events = [(Starting, Some (sample_model 1)), (Ready, Some (sample_model 1))],
     su_tasks = tasks\<rparr>"

lemmas step_eval = task_step_def set_phase_def over_recycle_ceiling_def needs_exclusive_switch_def locked_one_def
  spawn_and_lease_def spawn_with_retries_def spawn_attempts_def spawn_for_def emit_def lease_from_state_def release_def
  running_sidecar_healthy_def can_reuse_running_sidecar_def eval_nat_numeral

lemma sample_leased: "sup_reachable sample_config (sample_up [Leased (sample_model 1) 7] 0 1 1)"
proof (rule task_seq_reachable)
  show "sup_reachable sample_config ((new_supervisor sample_config)\<lparr>su_tasks := su_tasks (new_supervisor sample_config) @ [Top (sample_model 1)]\<rparr>)"
    by (rule Next [OF New Request]) (simp add: sample_config_def)
  show "task_seq sample_config 0 (sample_step 0) 4
      ((new_supervisor sample_config)\<lparr>su_tasks := su_tasks (new_supervisor sample_config) @ [Top (sample_model 1)]\<rparr>)
      = Some (sample_up [Leased (sample_model 1) 7] 0 1 1)"
    by (simp add: step_eval new_supervisor_def sample_config_def sample_step_def sample_up_def)
qed

lemma lease_keeps_its_model_witness:
  "\<exists>p. su_state (sample_up [Leased (sample_model 1) 7] 0 1 1) = Some p \<and> pc_pid p = 7
     \<and> \<not> needs_restart (pc_spec p) (sample_model 1)"
  by (rule lease_keeps_its_model [OF sample_leased]) (simp_all add: sample_up_def)

lemma supervisor_never_stuck_witness:
  "\<exists>u<length (su_tasks (sample_up [Leased (sample_model 1) 7] 0 1 1)).
     \<forall>e. task_step sample_config u e (sample_up [Leased (sample_model 1) 7] 0 1 1) \<noteq> None"
  by (rule supervisor_never_stuck [OF sample_leased, of 0]) (simp_all add: sample_up_def ended_def)


text \<open>The recheck of the evictor reads the flags and the lease count, not the clock: a sidecar whose last
  request has just ended is evicted when the idle time had run out before that request came.\<close>

lemma evicts_just_used:
  "\<exists>s. sup_reachable sample_config s \<and> su_evicting s \<and> su_last_activity s = 10 \<and> su_state s \<noteq> None
     \<and> su_state (maybe_evict_locked True s) = None"
proof -
  let ?M = "sample_model 1"
  have idle: "sup_reachable sample_config (sample_up [Done] 0 0 2)"
    by (rule task_seq_reachable [OF sample_leased, where t = 0 and e = "sample_step 0" and n = 2])
      (simp add: step_eval sample_up_def sample_step_def)
  have "sup_reachable sample_config (maybe_evict_check sample_config 10 (sample_up [Done] 0 0 2))"
    by (rule Next [OF idle Check]) (simp_all add: sample_up_def)
  then have "sup_reachable sample_config ((sample_up [Done] 0 0 2)\<lparr>su_evicting := True\<rparr>)"
    by (simp add: maybe_evict_check_def should_evict_def idle_expired_def sample_up_def sample_config_def)
  then have "sup_reachable sample_config ((sample_up [Done] 0 0 2)\<lparr>su_evicting := True, su_tasks := [Done, Top ?M]\<rparr>)"
    using Next [OF _ Request, of sample_config "(sample_up [Done] 0 0 2)\<lparr>su_evicting := True\<rparr>" ?M]
    by (simp add: sample_up_def)
  then have r: "sup_reachable sample_config ((sample_up [Done, Done] 10 0 2)\<lparr>su_evicting := True\<rparr>)"
    by (rule task_seq_reachable [where t = 1 and e = "sample_step 10" and n = 6])
      (simp add: step_eval sample_up_def sample_step_def sample_config_def)
  show ?thesis
    by (rule exI [of _ "(sample_up [Done, Done] 10 0 2)\<lparr>su_evicting := True\<rparr>"])
      (use r in \<open>simp add: sample_up_def maybe_evict_locked_def Let_def emit_def kill_and_confirm_def\<close>)
qed

text \<open>A recovery that finds another model running stops it and reports a crash of the model it was
  waiting for, also when the other one is healthy; a manual pin of the other model survives.\<close>

lemma recovery_keeps_foreign_pin:
  assumes "su_state s = Some p" and "needs_restart (pc_spec p) spec" and "su_pinned s"
  shows "su_pinned (locked_all cfg t e (Recovering crashed) spec s)
     \<and> (Crashed, Some crashed) \<in> set (su_events (locked_all cfg t e (Recovering crashed) spec s))"
proof -
  have keep: "su_pinned s' = su_pinned s \<and> set (su_events s) \<subseteq> set (su_events s')"
    if "spawn_retry n spec fate s = (q, s')" for n fate q s s'
    using that
  proof (induction n arbitrary: s)
    case (Suc n)
    obtain r s1 where r: "spawn_for spec (fate n) s = (r, s1)" by fastforce
    have "su_pinned s1 = su_pinned s \<and> set (su_events s) \<subseteq> set (su_events s1)"
      using r by (cases "fate n") (auto simp: spawn_for_def emit_def Let_def)
    with Suc.IH [of s1] Suc.prems show ?case by (cases r) (auto simp: r)
  qed simp
  let ?s1 = "stop_child e (emit Crashed (Some crashed) s)"
  obtain q s2 where q: "spawn_with_retries spec (en_spawn e) ?s1 = (q, s2)" by fastforce
  have "su_pinned s2 \<and> (Crashed, Some crashed) \<in> set (su_events s2)"
    using keep [of spawn_attempts "en_spawn e" ?s1 q s2] q assms(3)
    by (auto simp: spawn_with_retries_def stop_child_def kill_and_confirm_def emit_def)
  then show ?thesis using assms(1,2)
    by (cases q) (auto simp: spawn_and_lease_def q release_def lease_from_state_def set_phase_def)
qed

text \<open>The record of a process that outlived its kill is overwritten by the next spawn.\<close>

lemma survivor_record_lost:
  assumes "su_pidfile s = Some old" and "spawn_for spec (Healthy pid) (kill_and_confirm False s) = (q, s')"
  shows "su_pidfile (kill_and_confirm False s) = Some old \<and> su_pidfile s' = Some pid"
  using assms by (auto simp: kill_and_confirm_def spawn_for_def emit_def Let_def)

end
