(* ===== verification/Vision_Scheduler.thy ===== *)
theory Vision_Scheduler
  imports Job_Queue
begin

text \<open>
  The producers of deferred vision tagging (\<open>crates/kernel/src/vision_scheduler.rs\<close>, with the query
  \<open>untagged_frame_ids\<close> of \<open>crates/store/src/records.rs\<close>): the timer loop and the idle loop, one
  iteration each, over the job table of \<open>Job_Queue\<close>. The read and the enqueue of one producer are
  under one gate, so an iteration is one step. Frames are their ids and capture times; the clock,
  the idle time of the user and the settings are arguments.
\<close>

section \<open>Candidates\<close>

definition blocks_frame :: "int \<Rightarrow> job \<Rightarrow> bool" where
  "blocks_frame f j \<longleftrightarrow> jb_frame_id j = Some f \<and> jb_kind j = VisionTag \<and> jb_state j \<in> {Pending, Running, Dead}"

definition untagged_frame_ids ::
  "(int \<times> int) list \<Rightarrow> int set \<Rightarrow> jobs \<Rightarrow> nat \<Rightarrow> (int \<times> int) option \<Rightarrow> int list" where
  "untagged_frame_ids frames tagged q limit window =
     (let ok = (\<lambda>(i, t). i \<notin> tagged \<and> \<not> list_ex (blocks_frame i) q
            \<and> (case window of None \<Rightarrow> True | Some (s, e) \<Rightarrow> s \<le> t \<and> t < e))
      in take limit (map fst (sort_key snd (filter ok frames))))"

definition vision_job :: "int \<Rightarrow> new_job" where
  "vision_job f = \<lparr>nj_kind = VisionTag, nj_frame_id = Some f, nj_priority = 0, nj_max_attempts = 3, nj_not_before = 0\<rparr>"

text \<open>A failed enqueue is logged and the next frame is tried.\<close>

fun enqueue_all :: "(int \<Rightarrow> bool) \<Rightarrow> int \<Rightarrow> int list \<Rightarrow> jobs \<Rightarrow> jobs" where
  "enqueue_all exists now [] q = q"
| "enqueue_all exists now (f # fs) q =
     (case enqueue_job exists now (vision_job f) q of
        Inl _ \<Rightarrow> enqueue_all exists now fs q | Inr (_, q') \<Rightarrow> enqueue_all exists now fs q')"

text \<open>\<open>None\<close>: the query failed. The result is the number of candidates.\<close>

definition enqueue_untagged :: "(int \<Rightarrow> bool) \<Rightarrow> int \<Rightarrow> int list option \<Rightarrow> jobs \<Rightarrow> nat \<times> jobs" where
  "enqueue_untagged exists now ids q =
     (case ids of None \<Rightarrow> (0, q) | Some fs \<Rightarrow> (length fs, enqueue_all exists now fs q))"

text \<open>\<open>enqueue_vision\<close> and \<open>cancel_vision\<close> of the kernel, on demand and outside the gate; \<open>ids\<close> is
  what the range query returned. A frame named directly is queued whatever its state.\<close>

datatype vision_target = VisionFrame int | VisionRange int int

definition vision_target_ids :: "vision_target \<Rightarrow> (int \<times> int) list \<Rightarrow> int set \<Rightarrow> jobs \<Rightarrow> int list" where
  "vision_target_ids target frames tagged q =
     (case target of VisionFrame f \<Rightarrow> [f] | VisionRange s e \<Rightarrow> untagged_frame_ids frames tagged q 1000 (Some (s, e)))"

fun enqueue_on_demand :: "(int \<Rightarrow> bool) \<Rightarrow> int \<Rightarrow> int list \<Rightarrow> nat \<Rightarrow> jobs \<Rightarrow> nat \<times> jobs" where
  "enqueue_on_demand exists now [] n q = (n, q)"
| "enqueue_on_demand exists now (f # fs) n q =
     (case enqueue_job exists now ((vision_job f)\<lparr>nj_priority := 10\<rparr>) q of
        Inl _ \<Rightarrow> enqueue_on_demand exists now fs n q | Inr (_, q') \<Rightarrow> enqueue_on_demand exists now fs (n + 1) q')"

definition enqueue_vision ::
  "(int \<Rightarrow> bool) \<Rightarrow> int \<Rightarrow> (int \<times> int) list \<Rightarrow> int set \<Rightarrow> vision_target \<Rightarrow> jobs \<Rightarrow> nat \<times> jobs" where
  "enqueue_vision exists now frames tagged target q =
     enqueue_on_demand exists now (vision_target_ids target frames tagged q) 0 q"

section \<open>Loops\<close>

record vision_settings =
  vn_timer_enabled :: bool
  vn_timer_interval_ms :: nat
  vn_idle_enabled :: bool
  vn_idle_secs :: nat
  vn_batch_size :: nat

definition timer_wait_ms :: "vision_settings \<Rightarrow> nat" where
  "timer_wait_ms s = (if vn_timer_enabled s then max (vn_timer_interval_ms s) 60000 else 30000)"

text \<open>What an iteration reads: the frames, the tagged frames, whether the query fails, the clock, the
  idle time, and \<open>pending_vision_job_count\<close>, which is read before the gate is taken and may be out
  of date when it is used; \<open>None\<close> when that read fails.\<close>

record vision_env =
  vi_frames :: "(int \<times> int) list"
  vi_tagged :: "int set"
  vi_query_fails :: bool
  vi_exists :: "int \<Rightarrow> bool"
  vi_now :: int
  vi_idle_ms :: "nat option"
  vi_pending :: "nat option"

definition candidates_of :: "vision_env \<Rightarrow> nat \<Rightarrow> jobs \<Rightarrow> int list option" where
  "candidates_of e batch q =
     (if vi_query_fails e then None else Some (untagged_frame_ids (vi_frames e) (vi_tagged e) q batch None))"

definition timer_tick :: "vision_settings \<Rightarrow> vision_env \<Rightarrow> jobs \<Rightarrow> jobs" where
  "timer_tick s e q =
     (if vn_timer_enabled s then snd (enqueue_untagged (vi_exists e) (vi_now e) (candidates_of e (vn_batch_size s) q) q) else q)"

text \<open>The state of the idle loop: its \<open>keep_warm\<close>, and what it last told the supervisor.\<close>

record vision_state =
  vs_jobs :: jobs
  vs_keep_warm :: bool
  vs_hint :: bool

definition set_keep_warm :: "bool \<Rightarrow> vision_state \<Rightarrow> vision_state" where
  "set_keep_warm active v =
     (if vs_keep_warm v = active then v else v\<lparr>vs_keep_warm := active, vs_hint := active\<rparr>)"

definition idle_poll_ms :: "vision_state \<Rightarrow> nat" where
  "idle_poll_ms v = (if vs_keep_warm v then 5000 else 30000)"

definition user_idle :: "vision_settings \<Rightarrow> vision_env \<Rightarrow> bool" where
  "user_idle s e = (case vi_idle_ms e of None \<Rightarrow> False | Some ms \<Rightarrow> vn_idle_secs s * 1000 \<le> ms)"

definition vision_watermark :: "vision_settings \<Rightarrow> nat" where
  "vision_watermark s = max (vn_batch_size s div 4) 1"

definition idle_tick :: "vision_settings \<Rightarrow> vision_env \<Rightarrow> vision_state \<Rightarrow> vision_state" where
  "idle_tick s e v =
     (if \<not> vn_idle_enabled s \<or> \<not> user_idle s e then set_keep_warm False v
      else (let pending = (case vi_pending e of None \<Rightarrow> 0 | Some n \<Rightarrow> n)
            in if vision_watermark s \<le> pending then set_keep_warm True v
               else (let (found, q) = enqueue_untagged (vi_exists e) (vi_now e)
                            (candidates_of e (vn_batch_size s) (vs_jobs v)) (vs_jobs v)
                     in set_keep_warm (0 < found) (v\<lparr>vs_jobs := q\<rparr>))))"

text \<open>The scheduler beside the workers: its two producers, the end of the idle loop, and every other
  step of the job table but an on-demand vision job.\<close>

inductive vision_step :: "vision_state \<Rightarrow> vision_state \<Rightarrow> bool" where
  Timer: "distinct (map fst (vi_frames e)) \<Longrightarrow> vision_step v (v\<lparr>vs_jobs := timer_tick s e (vs_jobs v)\<rparr>)"
| Idle: "distinct (map fst (vi_frames e)) \<Longrightarrow> vision_step v (idle_tick s e v)"
| Stop: "vision_step v (set_keep_warm False v)"
| Claim: "vision_step v (v\<lparr>vs_jobs := snd (claim_jobs t kinds limit now (vs_jobs v))\<rparr>)"
| Complete: "complete_job t i (vs_jobs v) = Inr q \<Longrightarrow> vision_step v (v\<lparr>vs_jobs := q\<rparr>)"
| Fail: "fail_job t i err retry_at (vs_jobs v) = Inr q \<Longrightarrow> vision_step v (v\<lparr>vs_jobs := q\<rparr>)"
| Reset: "vision_step v (v\<lparr>vs_jobs := snd (reset_stale_running_jobs t older (vs_jobs v))\<rparr>)"
| Cancel: "vision_step v (v\<lparr>vs_jobs := snd (cancel_pending_vision_jobs (vs_jobs v))\<rparr>)"
| Delete: "vision_step v (v\<lparr>vs_jobs := cascade_frame f (vs_jobs v)\<rparr>)"
| Embed: "nj_kind nj = EmbedText \<Longrightarrow> 1 \<le> nj_max_attempts nj \<Longrightarrow> enqueue_job exists t nj (vs_jobs v) = Inr (i, q) \<Longrightarrow> vision_step v (v\<lparr>vs_jobs := q\<rparr>)"

inductive vision_reachable :: "vision_state \<Rightarrow> bool" where
  Start: "vision_reachable \<lparr>vs_jobs = [], vs_keep_warm = False, vs_hint = False\<rparr>"
| Step: "vision_reachable v \<Longrightarrow> vision_step v w \<Longrightarrow> vision_reachable w"

section \<open>One open job per frame\<close>

definition open_jobs :: "int \<Rightarrow> jobs \<Rightarrow> nat" where
  "open_jobs f q = count_jobs (blocks_frame f) q"

lemma open_jobs_map: "(\<And>j. j \<in> set q \<Longrightarrow> blocks_frame f (g j) \<Longrightarrow> blocks_frame f j) \<Longrightarrow> open_jobs f (map g q) \<le> open_jobs f q"
  by (induction q) (auto simp: open_jobs_def count_jobs_def)

lemma open_jobs_filter: "open_jobs f (filter P q) \<le> open_jobs f q"
  by (induction q) (auto simp: open_jobs_def count_jobs_def)

lemma open_jobs_running: "update_running i g q = Inr q' \<Longrightarrow> (\<And>j. jb_state j = Running \<Longrightarrow> blocks_frame f (g j) \<Longrightarrow> blocks_frame f j)
    \<Longrightarrow> open_jobs f q' \<le> open_jobs f q"
  by (auto simp: update_running_def is_running_def split: if_splits intro!: open_jobs_map)

lemma open_jobs_zero: "open_jobs f q = 0 \<longleftrightarrow> \<not> list_ex (blocks_frame f) q"
  by (auto simp: open_jobs_def count_jobs_def list_ex_iff filter_empty_conv)

lemma open_jobs_enqueue:
  "enqueue_job exists now nj q = Inr (i, q') \<Longrightarrow>
     open_jobs f q' = open_jobs f q + (if nj_kind nj = VisionTag \<and> nj_frame_id nj = Some f then 1 else 0)"
  by (auto simp: enqueue_job_def open_jobs_def count_jobs_def fresh_job_def blocks_frame_def split: option.splits if_splits)

lemma enqueue_all_open:
  assumes "distinct fs"
  shows "open_jobs f (enqueue_all exists now fs q) \<le> open_jobs f q + (if f \<in> set fs then 1 else 0)"
  using assms
proof (induction fs arbitrary: q)
  case (Cons g fs)
  show ?case
  proof (cases "enqueue_job exists now (vision_job g) q")
    case (Inl e)
    then show ?thesis using Cons.IH [of q] Cons.prems by auto
  next
    case (Inr r)
    obtain i q' where r: "r = (i, q')" by (cases r)
    have "open_jobs f q' = open_jobs f q + (if g = f then 1 else 0)"
      using open_jobs_enqueue [OF Inr [unfolded r]] by (simp add: vision_job_def)
    moreover have "enqueue_all exists now (g # fs) q = enqueue_all exists now fs q'" by (simp add: Inr r)
    ultimately show ?thesis using Cons.IH [of q'] Cons.prems by (cases "g = f") auto
  qed
qed simp

lemma untagged_closed:
  assumes "f \<in> set (untagged_frame_ids frames tagged q limit window)"
  shows "open_jobs f q = 0"
  using assms unfolding open_jobs_zero
  by (auto simp: untagged_frame_ids_def Let_def dest!: in_set_takeD)

lemma untagged_distinct: "distinct (map fst frames) \<Longrightarrow> distinct (untagged_frame_ids frames tagged q limit window)"
  by (simp add: untagged_frame_ids_def Let_def distinct_map_filter distinct_map_sort distinct_take)

lemma enqueue_untagged_open:
  assumes "distinct (map fst (vi_frames e))" and "\<forall>f. open_jobs f q \<le> 1"
  shows "open_jobs f (snd (enqueue_untagged (vi_exists e) (vi_now e) (candidates_of e batch q) q)) \<le> 1"
proof -
  let ?fs = "untagged_frame_ids (vi_frames e) (vi_tagged e) q batch None"
  have "open_jobs f (enqueue_all (vi_exists e) (vi_now e) ?fs q) \<le> open_jobs f q + (if f \<in> set ?fs then 1 else 0)"
    by (rule enqueue_all_open [OF untagged_distinct [OF assms(1)]])
  then have "open_jobs f (enqueue_all (vi_exists e) (vi_now e) ?fs q) \<le> 1"
    using untagged_closed [of f "vi_frames e" "vi_tagged e" q batch None] assms(2) by (cases "f \<in> set ?fs") (auto intro: order_trans)
  then show ?thesis using assms(2) by (simp add: enqueue_untagged_def candidates_of_def)
qed

lemma set_keep_warm_jobs [simp]: "vs_jobs (set_keep_warm b v) = vs_jobs v"
  by (simp add: set_keep_warm_def)

lemma idle_tick_jobs:
  "vs_jobs (idle_tick s e v) = vs_jobs v
   \<or> vs_jobs (idle_tick s e v) = snd (enqueue_untagged (vi_exists e) (vi_now e) (candidates_of e (vn_batch_size s) (vs_jobs v)) (vs_jobs v))"
  by (auto simp: idle_tick_def Let_def split: prod.splits)

lemma enqueue_all_steps: "queue_step\<^sup>*\<^sup>* q (enqueue_all exists now fs q)"
proof (induction fs arbitrary: q)
  case (Cons f fs)
  show ?case
  proof (cases "enqueue_job exists now (vision_job f) q")
    case (Inr r)
    obtain i q' where r: "r = (i, q')" by (cases r)
    have "queue_step q q'" by (rule step_enqueue [OF Inr [unfolded r]]) (simp add: vision_job_def)
    with Cons.IH [of q'] show ?thesis by (simp add: Inr r)
  qed (simp add: Cons.IH)
qed simp

lemma enqueue_untagged_steps: "queue_step\<^sup>*\<^sup>* q (snd (enqueue_untagged exists now ids q))"
  by (simp add: enqueue_untagged_def enqueue_all_steps split: option.split)

lemma vision_step_queue: "vision_step v w \<Longrightarrow> queue_step\<^sup>*\<^sup>* (vs_jobs v) (vs_jobs w)"
proof (induction rule: vision_step.induct)
  case (Timer e v s)
  then show ?case by (simp add: timer_tick_def enqueue_untagged_steps)
next
  case (Idle e v s)
  then show ?case 
    using idle_tick_jobs [of s e v] enqueue_untagged_steps [of "vs_jobs v" "vi_exists e" "vi_now e" "candidates_of e (vn_batch_size s) (vs_jobs v)"] by auto
next
  case (Claim v t kinds limit now)
  then show ?case by (auto intro: r_into_rtranclp step_claim [OF prod.collapse [symmetric]])
next
  case (Reset v t older)
  then show ?case by (auto intro: r_into_rtranclp step_reset [OF prod.collapse [symmetric]])
next
  case (Cancel v)
  then show ?case by (auto intro: r_into_rtranclp step_cancel [OF prod.collapse [symmetric]])
qed (auto intro: queue_step.intros)

lemma reachable_queue_steps: "queue_step\<^sup>*\<^sup>* q q' \<Longrightarrow> reachable_queue q \<Longrightarrow> reachable_queue q'"
  by (induction rule: rtranclp_induct) (auto intro: more_queue)

lemma vision_reachable_queue: "vision_reachable v \<Longrightarrow> reachable_queue (vs_jobs v)"
  by (induction rule: vision_reachable.induct)
    (auto intro: empty_queue reachable_queue_steps [OF vision_step_queue])

lemma claim_open:
  assumes "distinct (map jb_id q)"
  shows "open_jobs f (snd (claim_jobs t kinds limit now q)) \<le> open_jobs f q"
proof -
  have "blocks_frame f j" if "j \<in> set q"
    "blocks_frame f (if kinds \<noteq> [] \<and> jb_id j \<in> set (selected_ids kinds limit now q)
       then j\<lparr>jb_state := Running, jb_updated_at := t\<rparr> else j)" for j
    using that selected_ids_pending [OF assms, of j kinds limit now]
    by (auto simp: blocks_frame_def runnable_def split: if_splits)
  then show ?thesis unfolding claim_queue by (rule open_jobs_map)
qed

lemma failed_row_blocks: "jb_state j = Running \<Longrightarrow> blocks_frame f (failed_row t err r j) \<Longrightarrow> blocks_frame f j"
  by (simp add: blocks_frame_def)

lemma reset_open: "open_jobs f (snd (reset_stale_running_jobs t older q)) \<le> open_jobs f q"
  unfolding reset_stale_running_jobs_def snd_conv
  by (rule open_jobs_map) (auto simp: blocks_frame_def is_stale_def split: if_splits)

lemma vision_step_open:
  assumes "vision_step v w" and dist: "distinct (map jb_id (vs_jobs v))"
    and le: "\<forall>f. open_jobs f (vs_jobs v) \<le> 1"
  shows "open_jobs f (vs_jobs w) \<le> 1"
  using assms(1)
proof (cases rule: vision_step.cases)
  case (Timer e s)
  then show ?thesis using enqueue_untagged_open [OF Timer(2) le] le by (simp add: timer_tick_def)
next
  case (Idle e s)
  then show ?thesis using enqueue_untagged_open [OF Idle(2) le, of f "vn_batch_size s"] le idle_tick_jobs [of s e v] by metis
next
  case Stop
  then show ?thesis using le by simp
next
  case (Claim t kinds limit now)
  then show ?thesis using order_trans [OF claim_open [OF dist] le [rule_format]] by simp
next
  case (Complete t i q)
  have "open_jobs f q \<le> open_jobs f (vs_jobs v)"
    by (rule open_jobs_running [OF Complete(2) [unfolded complete_job_def]]) (simp add: blocks_frame_def)
  then show ?thesis using order_trans [OF _ le [rule_format, of f]] by (simp add: Complete)
next
  case (Fail t i err retry_at q)
  have "open_jobs f q \<le> open_jobs f (vs_jobs v)"
    by (rule open_jobs_running [OF Fail(2) [unfolded fail_job_def]]) (rule failed_row_blocks)
  then show ?thesis using order_trans [OF _ le [rule_format, of f]] by (simp add: Fail)
next
  case (Reset t older)
  then show ?thesis using order_trans [OF reset_open le [rule_format]] by simp
next
  case Cancel
  then show ?thesis using order_trans [OF open_jobs_filter le [rule_format]] by (simp add: cancel_pending_vision_jobs_def)
next
  case (Delete g)
  then show ?thesis using order_trans [OF open_jobs_filter le [rule_format]] by (simp add: cascade_frame_def)
next
  case (Embed nj exists t i q)
  then show ?thesis using open_jobs_enqueue [OF Embed(4), of f] le by simp
qed

lemma vision_reachable_open: "vision_reachable v \<Longrightarrow> \<forall>f. open_jobs f (vs_jobs v) \<le> 1"
proof (induction rule: vision_reachable.induct)
  case (Step v w)
  have "distinct (map jb_id (vs_jobs v))" by (rule reachable_distinct [OF vision_reachable_queue [OF Step.hyps(1)]])
  then show ?case using vision_step_open [OF Step.hyps(2)] Step.IH by blast
qed (simp add: open_jobs_def count_jobs_def)

section \<open>The keep-warm hint\<close>

lemma set_keep_warm_hint: "vs_hint v = vs_keep_warm v \<Longrightarrow> vs_hint (set_keep_warm b v) = b \<and> vs_keep_warm (set_keep_warm b v) = b"
  by (auto simp: set_keep_warm_def)

lemma idle_tick_hint:
  assumes "vs_hint v = vs_keep_warm v"
  shows "vs_hint (idle_tick s e v) = vs_keep_warm (idle_tick s e v)
     \<and> (vs_hint (idle_tick s e v) \<longrightarrow> vn_idle_enabled s \<and> user_idle s e
         \<and> (vision_watermark s \<le> (case vi_pending e of None \<Rightarrow> 0 | Some n \<Rightarrow> n)
            \<or> (\<exists>fs. candidates_of e (vn_batch_size s) (vs_jobs v) = Some fs \<and> fs \<noteq> [])))"
  using assms set_keep_warm_hint [of v] set_keep_warm_hint [of "v\<lparr>vs_jobs := q\<rparr>" for q]
  by (simp add: idle_tick_def Let_def enqueue_untagged_def split: option.split)

lemma vision_step_hint: "vision_step v w \<Longrightarrow> vs_hint v = vs_keep_warm v \<Longrightarrow> vs_hint w = vs_keep_warm w"
  by (induction rule: vision_step.induct) (simp_all add: idle_tick_hint set_keep_warm_hint)

lemma vision_reachable_hint: "vision_reachable v \<Longrightarrow> vs_hint v = vs_keep_warm v"
  by (induction rule: vision_reachable.induct) (simp_all add: vision_step_hint)

definition idle_env :: vision_env where
  "idle_env = \<lparr>vi_frames = [(7, 20), (8, 10)], vi_tagged = {}, vi_query_fails = False, vi_exists = (\<lambda>_. True), vi_now = 1,
     vi_idle_ms = Some 5000, vi_pending = Some 0\<rparr>"

definition idle_settings :: vision_settings where
  "idle_settings = \<lparr>vn_timer_enabled = True, vn_timer_interval_ms = 0, vn_idle_enabled = True, vn_idle_secs = 5, vn_batch_size = 1\<rparr>"

definition idle_start :: vision_state where
  "idle_start = \<lparr>vs_jobs = [], vs_keep_warm = False, vs_hint = False\<rparr>"



end
