(* ===== verification/Keyset.thy ===== *)
theory Keyset
  imports Prelude
begin

text \<open>
  Paging by key, the contract that the two page reads of the store share: a client reads page after
  page, each time from the database as it is then, and passes on the key of the last item. The
  locale states what one read promises; its lemmas say what a whole walk over changing databases
  returns. \<open>Frame_Pages\<close> and \<open>Report_Pages\<close> interpret it on the queries of the source.
\<close>

section \<open>A walk\<close>

text \<open>The keys read, page by page, one database per page, and whether the walk came to its end.\<close>

fun page_walk :: "('db \<Rightarrow> 'k option \<Rightarrow> 'k list \<times> bool) \<Rightarrow> 'k option \<Rightarrow> 'db list \<Rightarrow> 'k list \<times> bool" where
  "page_walk read after [] = ([], False)"
| "page_walk read after (db # dbs) =
     (case read db after of (ks, more) \<Rightarrow>
        if more then (case page_walk read (Some (last ks)) dbs of (rest, fin) \<Rightarrow> (ks @ rest, fin)) else (ks, True))"

lemma walk_Cons:
  "fst (page_walk read after (db # dbs)) = (if snd (read db after) then fst (read db after) @ fst (page_walk read (Some (last (fst (read db after)))) dbs)
      else fst (read db after))"
  "snd (page_walk read after (db # dbs)) = (if snd (read db after) then snd (page_walk read (Some (last (fst (read db after)))) dbs) else True)"
  by (simp_all split: prod.split)

declare page_walk.simps(2) [simp del]

definition beyond :: "('k \<Rightarrow> 'k \<Rightarrow> bool) \<Rightarrow> 'k option \<Rightarrow> 'k \<Rightarrow> bool" where
  "beyond before after k \<longleftrightarrow> (case after of None \<Rightarrow> True | Some a \<Rightarrow> before a k)"

lemma beyond_simps [simp]: "beyond before None k" "beyond before (Some a) k \<longleftrightarrow> before a k"
  by (simp_all add: beyond_def)

definition allowed :: "('k \<Rightarrow> bool) \<Rightarrow> 'k option \<Rightarrow> bool" where
  "allowed good after \<longleftrightarrow> (case after of None \<Rightarrow> True | Some a \<Rightarrow> good a)"

lemma allowed_simps [simp]: "allowed good None" "allowed good (Some a) \<longleftrightarrow> good a"
  by (simp_all add: allowed_def)

text \<open>\<open>elig\<close> are the keys to be listed, \<open>ok\<close> the databases and \<open>good\<close> the positions the contract is about.\<close>

locale keyset =
  fixes before :: "'k \<Rightarrow> 'k \<Rightarrow> bool" and ok :: "'db \<Rightarrow> bool" and good :: "'k \<Rightarrow> bool"
    and elig :: "'db \<Rightarrow> 'k set" and read :: "'db \<Rightarrow> 'k option \<Rightarrow> 'k list \<times> bool"
  assumes before_trans: "before a b \<Longrightarrow> before b c \<Longrightarrow> before a c"
    and before_irrefl: "\<not> before a a"
    and elig_good: "ok db \<Longrightarrow> k \<in> elig db \<Longrightarrow> good k"
    and page_sorted: "ok db \<Longrightarrow> allowed good after \<Longrightarrow> sorted_wrt before (fst (read db after))"
    and page_sound: "ok db \<Longrightarrow> allowed good after \<Longrightarrow> k \<in> set (fst (read db after)) \<Longrightarrow> k \<in> elig db \<and> beyond before after k"
    and page_last: "ok db \<Longrightarrow> allowed good after \<Longrightarrow> \<not> snd (read db after) \<Longrightarrow> k \<in> elig db \<Longrightarrow> beyond before after k
        \<Longrightarrow> k \<in> set (fst (read db after))"
    and page_more: "ok db \<Longrightarrow> allowed good after \<Longrightarrow> snd (read db after) \<Longrightarrow> fst (read db after) \<noteq> []
        \<and> (\<forall>k\<in>elig db. beyond before after k \<longrightarrow> k \<in> set (fst (read db after)) \<or> before (last (fst (read db after))) k)"
begin

lemma sorted_last: "sorted_wrt before ks \<Longrightarrow> k \<in> set ks \<Longrightarrow> k = last ks \<or> before k (last ks)"
  by (induction ks) auto

lemma beyond_trans: "beyond before after a \<Longrightarrow> before a b \<Longrightarrow> beyond before after b"
  using before_trans by (cases after) auto

lemma page_next: "ok db \<Longrightarrow> allowed good after \<Longrightarrow> snd (read db after) \<Longrightarrow>
    last (fst (read db after)) \<in> set (fst (read db after)) \<and> good (last (fst (read db after)))"
  using page_more [of db after] page_sound [of db after] elig_good [of db] by simp

text \<open>The induction that the facts about a walk share: over the pages, each step with its page.\<close>

lemma walk_induct [consumes 2, case_names Start Page]:
  assumes "list_all ok dbs" and "allowed good after"
    and "\<And>after. P after []"
    and "\<And>after db dbs. ok db \<Longrightarrow> list_all ok dbs \<Longrightarrow> allowed good after \<Longrightarrow>
        (snd (read db after) \<Longrightarrow> P (Some (last (fst (read db after)))) dbs) \<Longrightarrow> P after (db # dbs)"
  shows "P after dbs"
  using assms(1,2)
proof (induction dbs arbitrary: after)
  case (Cons db dbs)
  then show ?case using page_next [of db after] by (intro assms(4)) auto
qed (rule assms(3))

lemma walk_beyond:
  assumes "list_all ok dbs" and "allowed good after"
  shows "\<forall>k\<in>set (fst (page_walk read after dbs)). beyond before after k"
  using assms
proof (induction rule: walk_induct)
  case (Page after db dbs)
  show ?case
  proof
    fix k assume "k \<in> set (fst (page_walk read after (db # dbs)))"
    then consider "k \<in> set (fst (read db after))"
      | "snd (read db after)" "k \<in> set (fst (page_walk read (Some (last (fst (read db after)))) dbs))"
      by (auto simp: walk_Cons split: if_splits)
    then show "beyond before after k"
    proof cases
      case 1
      then show ?thesis using page_sound Page(1,3) by blast
    next
      case 2
      then have "before (last (fst (read db after))) k" using Page(4) by simp
      moreover have "beyond before after (last (fst (read db after)))"
        using page_sound page_next [OF Page(1,3) 2(1)] Page(1,3) by blast
      ultimately show ?thesis using beyond_trans by blast
    qed
  qed
qed simp

lemma walk_sorted:
  assumes "list_all ok dbs" and "allowed good after"
  shows "sorted_wrt before (fst (page_walk read after dbs))"
  using assms
proof (induction rule: walk_induct)
  case (Page after db dbs)
  let ?ks = "fst (read db after)"
  have s: "sorted_wrt before ?ks" using Page page_sorted by blast
  have "before a b" if "snd (read db after)" "a \<in> set ?ks" "b \<in> set (fst (page_walk read (Some (last ?ks)) dbs))" for a b
    using walk_beyond [of dbs "Some (last ?ks)"] page_next [of db after] Page that sorted_last [OF s that(2)]
      before_trans by auto
  then show ?case using Page s by (simp add: walk_Cons sorted_wrt_append)
qed simp

lemma walk_sound:
  assumes "list_all ok dbs" and "allowed good after"
  shows "\<forall>k\<in>set (fst (page_walk read after dbs)). \<exists>db\<in>set dbs. k \<in> elig db"
  using assms
proof (induction rule: walk_induct)
  case (Page after db dbs)
  then show ?case using page_sound [of db after] by (auto simp: walk_Cons)
qed simp

lemma walk_complete:
  assumes "list_all ok dbs" and "allowed good after"
  shows "snd (page_walk read after dbs) \<Longrightarrow> \<forall>db\<in>set dbs. k \<in> elig db \<Longrightarrow> beyond before after k
     \<Longrightarrow> k \<in> set (fst (page_walk read after dbs))"
  using assms
proof (induction rule: walk_induct)
  case (Page after db dbs)
  show ?case
  proof (cases "snd (read db after)")
    case True
    then have "k \<in> set (fst (read db after)) \<or> before (last (fst (read db after))) k"
      using page_more [of db after] Page by simp
    then show ?thesis using Page True by (auto simp: walk_Cons)
  next
    case False
    then show ?thesis using page_last [of db after k] Page by (simp add: walk_Cons)
  qed
qed simp

lemma walk_distinct: "list_all ok dbs \<Longrightarrow> allowed good after \<Longrightarrow> distinct (fst (page_walk read after dbs))"
proof -
  assume "list_all ok dbs" "allowed good after"
  have "distinct ks" if "sorted_wrt before ks" for ks
    using that before_irrefl by (induction ks) auto
  then show ?thesis using walk_sorted [OF \<open>list_all ok dbs\<close> \<open>allowed good after\<close>] .
qed

text \<open>When no new key appears, a walk takes at most one page more than there are keys.\<close>

lemma walk_ends:
  assumes "list_all ok dbs" and "allowed good after" and fin: "finite K"
  shows "\<forall>db\<in>set dbs. elig db \<subseteq> K \<Longrightarrow> card {k \<in> K. beyond before after k} < length dbs \<Longrightarrow> snd (page_walk read after dbs)"
  using assms(1,2)
proof (induction rule: walk_induct)
  case (Page after db dbs)
  show ?case
  proof (cases "snd (read db after)")
    case True
    let ?l = "last (fst (read db after))"
    have l: "?l \<in> K" "beyond before after ?l"
      using page_sound [of db after ?l] page_next [of db after] Page True by auto
    have "{k \<in> K. beyond before (Some ?l) k} \<subset> {k \<in> K. beyond before after k}"
      using l before_irrefl beyond_trans [OF l(2)] by auto
    then have "card {k \<in> K. beyond before (Some ?l) k} < card {k \<in> K. beyond before after k}"
      using fin by (intro psubset_card_mono) auto
    then have "card {k \<in> K. beyond before (Some ?l) k} < length dbs" using Page by simp
    moreover have "\<forall>d\<in>set dbs. elig d \<subseteq> K" using Page by simp
    ultimately show ?thesis using Page(4) True by (simp add: walk_Cons)
  qed (simp add: walk_Cons)
qed simp

end

text \<open>One page of a sorted list, read one row beyond the limit to see whether there is more.\<close>

definition page_of :: "nat \<Rightarrow> 'a list \<Rightarrow> 'a list \<times> bool" where
  "page_of limit rows = (take limit (take (limit + 1) rows), limit < length (take (limit + 1) rows))"

lemma page_of_simp: "page_of limit rows = (take limit rows, limit < length rows)"
  by (auto simp: page_of_def min_def)

lemma sorted_wrt_split:
  assumes "sorted_wrt R xs" and "x \<in> set xs" and "0 < n" "n < length xs"
  shows "x \<in> set (take n xs) \<or> R (last (take n xs)) x"
proof -
  obtain i where i: "i < length xs" "x = xs ! i" using assms(2) by (auto simp: in_set_conv_nth)
  have l: "last (take n xs) = xs ! (n - 1)" using assms(3,4) by (cases xs) (auto simp: last_conv_nth min_def)
  show ?thesis
  proof (cases "i < n")
    case True
    then show ?thesis using i by (auto simp: in_set_conv_nth)
  next
    case False
    then have "n - 1 < i" using assms(3) by simp
    then show ?thesis unfolding l i(2) using assms(1) i(1) by (auto simp: sorted_wrt_iff_nth_less)
  qed
qed

end
