(* ===== verification/Frame_Pages.thy ===== *)
theory Frame_Pages
  imports Keyset Utf8 Text_Filter
begin

text \<open>
  The chronological evidence feed: the history identity and the frame-id allocator
  (\<open>crates/store/src/history.rs\<close>), the bounded pages and the coverage facts
  (\<open>crates/store/src/history_pages.rs\<close>), their contracts (\<open>crates/traits/src/history.rs\<close>), and the
  statements of \<open>crates/store/src/records.rs\<close> and \<open>embeddings.rs\<close> that add, change and delete the
  rows the feed reads. Tables with a primary key on the frame are maps; a read is one transaction, so
  it is a function of one database. \<open>COLLATE NOCASE\<close> and \<open>lower\<close> fold ASCII letters only.
\<close>

section \<open>Contracts\<close>

definition frame_filter_max_bytes :: nat where "frame_filter_max_bytes = 256"
definition frame_page_max_limit :: nat where "frame_page_max_limit = 1000"

datatype unavailable_reason = MissingIdentity | MissingAllocator | InvalidIdentity | InvalidAllocator | UnsupportedStore
datatype history_error = Unavailable unavailable_reason | HistoryChanged | InvalidRequest | HistoryStorage

record evidence_window =
  ew_from :: int
  ew_to :: int

record frame_filters =
  ff_app :: "ustr option"
  ff_window_title :: "ustr option"

record frame_position =
  fp_captured_at :: int
  fp_frame_id :: int

record frame_snapshot =
  fs_history_id :: ustr
  fs_max_frame_id :: int

record frame_continuation =
  fc_snapshot :: frame_snapshot
  fc_after :: frame_position

record frame_page_request =
  fq_window :: evidence_window
  fq_filters :: frame_filters
  fq_limit :: nat
  fq_continuation :: "frame_continuation option"

definition validate_window :: "evidence_window \<Rightarrow> history_error + unit" where
  "validate_window w = (if ew_to w \<le> ew_from w then Inl InvalidRequest else Inr ())"

definition opt_list :: "'a option \<Rightarrow> 'a list" where
  "opt_list v = (case v of None \<Rightarrow> [] | Some x \<Rightarrow> [x])"

definition validate_filters :: "frame_filters \<Rightarrow> history_error + unit" where
  "validate_filters f =
     (if list_ex (\<lambda>s. frame_filter_max_bytes < byte_len s) (opt_list (ff_app f) @ opt_list (ff_window_title f))
      then Inl InvalidRequest else Inr ())"

definition is_hex_digit :: "int \<Rightarrow> bool" where
  "is_hex_digit b \<longleftrightarrow> 48 \<le> b \<and> b \<le> 57 \<or> 65 \<le> b \<and> b \<le> 70 \<or> 97 \<le> b \<and> b \<le> 102"

definition valid_history_id :: "ustr \<Rightarrow> bool" where
  "valid_history_id v \<longleftrightarrow>
     (let bs = utf8_encode v
      in length bs = 36 \<and> list_all (\<lambda>(i, b). if i \<in> {8, 13, 18, 23} then b = 45 else is_hex_digit b) (enumerate 0 bs))"

definition bad_continuation :: "evidence_window \<Rightarrow> frame_continuation \<Rightarrow> bool" where
  "bad_continuation w c \<longleftrightarrow>
     \<not> valid_history_id (fs_history_id (fc_snapshot c)) \<or> fs_max_frame_id (fc_snapshot c) \<le> 0
     \<or> fp_frame_id (fc_after c) \<le> 0 \<or> fs_max_frame_id (fc_snapshot c) < fp_frame_id (fc_after c)
     \<or> fp_captured_at (fc_after c) < ew_from w \<or> ew_to w \<le> fp_captured_at (fc_after c)"

definition validate_request :: "frame_page_request \<Rightarrow> history_error + unit" where
  "validate_request q =
     bind_r (validate_window (fq_window q)) (\<lambda>_. bind_r (validate_filters (fq_filters q)) (\<lambda>_.
       if \<not> (1 \<le> fq_limit q \<and> fq_limit q \<le> frame_page_max_limit) then Inl InvalidRequest
       else (case fq_continuation q of
           None \<Rightarrow> Inr ()
         | Some c \<Rightarrow> if bad_continuation (fq_window q) c then Inl InvalidRequest else Inr ())))"

section \<open>Tables\<close>

record history_frame =
  ef_id :: int
  ef_captured_at :: int
  ef_monitor_index :: nat
  ef_app_hint :: "ustr option"
  ef_window_title :: "ustr option"
  ef_browser_url :: "ustr option"
  ef_session_id :: "int option"
  ef_image_purged :: bool

record evidence_text =
  et_raw_text :: ustr
  et_content_text :: ustr
  et_primary_source :: ustr
  et_filter_version :: int
  et_target_app_hint :: "ustr option"
  et_target_window_title :: "ustr option"

text \<open>The last two fields are the two reserved rows of \<open>settings\<close>.\<close>

record history_db =
  hd_frames :: "history_frame list"
  hd_texts :: "int \<Rightarrow> evidence_text option"
  hd_visions :: "int \<Rightarrow> ustr option"
  hd_history_id :: "ustr option"
  hd_high_water :: "ustr option"

section \<open>Identity and allocator\<close>

record history_metadata =
  hm_history_id :: ustr
  hm_high_water :: int

text \<open>\<open>str::parse::<i64>\<close> on a string of digits: an error when the value does not fit.\<close>

definition is_digit :: "uchar \<Rightarrow> bool" where "is_digit c \<longleftrightarrow> 48 \<le> c \<and> c \<le> 57"

definition digits_value :: "ustr \<Rightarrow> int" where
  "digits_value s = foldl (\<lambda>n c. n * 10 + (c - 48)) 0 s"

definition parse_allocator :: "ustr \<Rightarrow> int option" where
  "parse_allocator s =
     (if s \<noteq> [] \<and> list_all is_digit s \<and> digits_value s \<le> i64_max then Some (digits_value s) else None)"

definition read_history_metadata :: "history_db \<Rightarrow> history_error + history_metadata" where
  "read_history_metadata db =
     bind_r (ok_or (Unavailable MissingIdentity) (hd_history_id db)) (\<lambda>h.
       if \<not> valid_history_id h then Inl (Unavailable InvalidIdentity)
       else bind_r (ok_or (Unavailable MissingAllocator) (hd_high_water db)) (\<lambda>a.
         bind_r (ok_or (Unavailable InvalidAllocator) (parse_allocator a)) (\<lambda>n.
           Inr \<lparr>hm_history_id = h, hm_high_water = n\<rparr>)))"

definition current_max_frame_id :: "history_db \<Rightarrow> int" where
  "current_max_frame_id db = max (case list_max (map ef_id (hd_frames db)) of None \<Rightarrow> 0 | Some m \<Rightarrow> m) 0"

text \<open>\<open>uuid\<close> is what the random generator of SQLite produced.\<close>

definition setup_history_metadata :: "ustr \<Rightarrow> history_db \<Rightarrow> history_db" where
  "setup_history_metadata uuid db =
     (if hd_history_id db = None \<and> hd_high_water db = None
      then db\<lparr>hd_history_id := Some uuid, hd_high_water := Some (display_int (current_max_frame_id db))\<rparr> else db)"

datatype allocate_error = Metadata history_error | Exhausted

definition allocate_frame_id :: "history_db \<Rightarrow> allocate_error + (int \<times> history_db)" where
  "allocate_frame_id db =
     (case read_history_metadata db of
        Inl e \<Rightarrow> Inl (Metadata e)
      | Inr m \<Rightarrow>
          (let top = max (hm_high_water m) (current_max_frame_id db)
           in if top = i64_max then Inl Exhausted
              else Inr (top + 1, db\<lparr>hd_high_water := Some (display_int (top + 1))\<rparr>)))"

section \<open>Writers\<close>

text \<open>\<open>insert_frame\<close>: the row is as given, with the allocated id, no session and its image.\<close>

definition insert_frame :: "history_frame \<Rightarrow> history_db \<Rightarrow> allocate_error + (int \<times> history_db)" where
  "insert_frame f db =
     (case allocate_frame_id db of Inl e \<Rightarrow> Inl e
      | Inr (i, db') \<Rightarrow>
          Inr (i, db'\<lparr>hd_frames := hd_frames db' @ [f\<lparr>ef_id := i, ef_session_id := None, ef_image_purged := False\<rparr>]\<rparr>))"

text \<open>\<open>delete_frame\<close> with its cascade; what hangs off a frame and is not read here is left out.\<close>

definition delete_stored_frame :: "int \<Rightarrow> history_db \<Rightarrow> history_db" where
  "delete_stored_frame i db = db\<lparr>hd_frames := filter (\<lambda>f. ef_id f \<noteq> i) (hd_frames db),
     hd_texts := (hd_texts db)(i := None), hd_visions := (hd_visions db)(i := None)\<rparr>"

definition frame_exists :: "int \<Rightarrow> history_db \<Rightarrow> bool" where
  "frame_exists i db = list_ex (\<lambda>f. ef_id f = i) (hd_frames db)"

text \<open>The row of \<open>frame_text\<close> is written by the text pipeline and its re-cleaning, that of
  \<open>vision_analysis\<close> by the tagger; the foreign keys ask for the frame, a check for the source.\<close>

definition put_text :: "int \<Rightarrow> evidence_text \<Rightarrow> history_db \<Rightarrow> history_db option" where
  "put_text i t db =
     (if frame_exists i db \<and> et_primary_source t \<in> {lit ''ocr'', lit ''uia''}
      then Some (db\<lparr>hd_texts := (hd_texts db)(i := Some t)\<rparr>) else None)"

definition put_vision :: "int \<Rightarrow> ustr \<Rightarrow> history_db \<Rightarrow> history_db option" where
  "put_vision i d db = (if frame_exists i db then Some (db\<lparr>hd_visions := (hd_visions db)(i := Some d)\<rparr>) else None)"

text \<open>What else changes in a stored row: its session, in whatever way the session scheduler chose, and
  that its image is gone.\<close>

definition set_session :: "int \<Rightarrow> int option \<Rightarrow> history_db \<Rightarrow> history_db" where
  "set_session i s db = db\<lparr>hd_frames := map (\<lambda>f. if ef_id f = i then f\<lparr>ef_session_id := s\<rparr> else f) (hd_frames db)\<rparr>"

definition mark_purged :: "int \<Rightarrow> history_db \<Rightarrow> history_db" where
  "mark_purged i db = db\<lparr>hd_frames := map (\<lambda>f. if ef_id f = i then f\<lparr>ef_image_purged := True\<rparr> else f) (hd_frames db)\<rparr>"

inductive feed_step :: "history_db \<Rightarrow> history_db \<Rightarrow> bool" where
  Insert: "insert_frame f db = Inr (i, db') \<Longrightarrow> feed_step db db'"
| Delete: "feed_step db (delete_stored_frame i db)"
| Text: "put_text i t db = Some db' \<Longrightarrow> feed_step db db'"
| Vision: "put_vision i d db = Some db' \<Longrightarrow> feed_step db db'"
| Session: "feed_step db (set_session i s db)"
| Purge: "feed_step db (mark_purged i db)"

section \<open>One page\<close>

definition nocase_eq :: "ustr \<Rightarrow> ustr \<Rightarrow> bool" where
  "nocase_eq a b \<longleftrightarrow> to_ascii_lowercase a = to_ascii_lowercase b"

definition coalesce :: "'a option \<Rightarrow> 'a option \<Rightarrow> 'a option" where
  "coalesce a b = (case a of Some x \<Rightarrow> Some x | None \<Rightarrow> b)"

definition row_app :: "history_db \<Rightarrow> history_frame \<Rightarrow> ustr option" where
  "row_app db f = coalesce (Option.bind (hd_texts db (ef_id f)) et_target_app_hint) (ef_app_hint f)"

definition row_title :: "history_db \<Rightarrow> history_frame \<Rightarrow> ustr option" where
  "row_title db f = coalesce (Option.bind (hd_texts db (ef_id f)) et_target_window_title) (ef_window_title f)"

definition matches_filters :: "frame_filters \<Rightarrow> history_db \<Rightarrow> history_frame \<Rightarrow> bool" where
  "matches_filters fl db f \<longleftrightarrow>
     (case ff_app fl of None \<Rightarrow> True
      | Some a \<Rightarrow> (case row_app db f of None \<Rightarrow> False | Some x \<Rightarrow> nocase_eq x a))
   \<and> (case ff_window_title fl of None \<Rightarrow> True
      | Some t \<Rightarrow> (case row_title db f of None \<Rightarrow> False
          | Some x \<Rightarrow> contains (to_ascii_lowercase x) (to_ascii_lowercase t)))"

text \<open>The two branches of \<open>FRAME_PAGE_SQL\<close>, their union in order, and its limit.\<close>

definition page_rows ::
  "evidence_window \<Rightarrow> frame_filters \<Rightarrow> int \<Rightarrow> (int \<times> int) option \<Rightarrow> history_db \<Rightarrow> history_frame list" where
  "page_rows w fl maximum after db =
     (let time = (case after of None \<Rightarrow> ew_from w | Some (t, _) \<Rightarrow> t);
          i = (case after of None \<Rightarrow> 0 | Some (_, i) \<Rightarrow> i);
          same = filter (\<lambda>f. ef_captured_at f = time \<and> i < ef_id f \<and> ef_id f \<le> maximum \<and> matches_filters fl db f) (hd_frames db);
          later = filter (\<lambda>f. time < ef_captured_at f \<and> ef_captured_at f < ew_to w \<and> ef_id f \<le> maximum
                    \<and> matches_filters fl db f) (hd_frames db)
      in sort_key (\<lambda>f. (ef_captured_at f, ef_id f)) (same @ later))"

datatype frame_text_state = Available | NotAvailable

record frame_evidence =
  fe_frame_id :: int
  fe_captured_at :: int
  fe_monitor_index :: nat
  fe_app_hint :: "ustr option"
  fe_window_title :: "ustr option"
  fe_browser_url :: "ustr option"
  fe_raw_text :: "ustr option"
  fe_content_text :: "ustr option"
  fe_text_source :: "text_source option"
  fe_filter_version :: "int option"
  fe_text_state :: frame_text_state
  fe_vision_description :: "ustr option"
  fe_session_id :: "int option"
  fe_image_purged :: bool

definition source_from_db_str :: "ustr \<Rightarrow> text_source option" where
  "source_from_db_str s = (if s = lit ''ocr'' then Some Text_Filter.Ocr else if s = lit ''uia'' then Some Text_Filter.Uia else None)"

definition row_to_evidence :: "history_db \<Rightarrow> history_frame \<Rightarrow> history_error + frame_evidence" where
  "row_to_evidence db f =
     (let txt = hd_texts db (ef_id f)
      in bind_r (case map_option et_primary_source txt of None \<Rightarrow> Inr None
            | Some s \<Rightarrow> (case source_from_db_str s of None \<Rightarrow> Inl HistoryStorage | Some x \<Rightarrow> Inr (Some x)))
         (\<lambda>source. Inr \<lparr>fe_frame_id = ef_id f, fe_captured_at = ef_captured_at f, fe_monitor_index = ef_monitor_index f,
            fe_app_hint = row_app db f, fe_window_title = row_title db f, fe_browser_url = ef_browser_url f,
            fe_raw_text = map_option et_raw_text txt, fe_content_text = map_option et_content_text txt,
            fe_text_source = source, fe_filter_version = map_option et_filter_version txt,
            fe_text_state = (if txt \<noteq> None then Available else NotAvailable),
            fe_vision_description = hd_visions db (ef_id f), fe_session_id = ef_session_id f,
            fe_image_purged = ef_image_purged f\<rparr>))"

record stored_frame_page =
  sp_items :: "frame_evidence list"
  sp_snapshot :: frame_snapshot
  sp_window :: evidence_window
  sp_filters :: frame_filters
  sp_next_position :: "frame_position option"
  sp_observed_at :: int

definition page_snapshot :: "frame_page_request \<Rightarrow> history_db \<Rightarrow> history_metadata \<Rightarrow> history_error + frame_snapshot" where
  "page_snapshot q db m =
     (case fq_continuation q of
        Some c \<Rightarrow>
          if fs_history_id (fc_snapshot c) \<noteq> hm_history_id m then Inl HistoryChanged
          else if hm_high_water m < fs_max_frame_id (fc_snapshot c) then Inl InvalidRequest
          else Inr (fc_snapshot c)
      | None \<Rightarrow> Inr \<lparr>fs_history_id = hm_history_id m, fs_max_frame_id = current_max_frame_id db\<rparr>)"

definition position_of :: "frame_evidence \<Rightarrow> frame_position" where
  "position_of e = \<lparr>fp_captured_at = fe_captured_at e, fp_frame_id = fe_frame_id e\<rparr>"

text \<open>\<open>clock\<close> is the reading of the system clock, an error before 1970.\<close>

definition frame_page :: "history_error + int \<Rightarrow> frame_page_request \<Rightarrow> history_db \<Rightarrow> history_error + stored_frame_page" where
  "frame_page clock q db =
     bind_r (validate_request q) (\<lambda>_. bind_r (read_history_metadata db) (\<lambda>m. bind_r clock (\<lambda>now.
       bind_r (page_snapshot q db m) (\<lambda>snap.
         bind_r (map_r (row_to_evidence db)
             (take (fq_limit q + 1) (page_rows (fq_window q) (fq_filters q) (fs_max_frame_id snap)
                (map_option (\<lambda>c. (fp_captured_at (fc_after c), fp_frame_id (fc_after c))) (fq_continuation q)) db)))
           (\<lambda>rows.
             (let items = take (fq_limit q) rows
              in Inr \<lparr>sp_items = items, sp_snapshot = snap, sp_window = fq_window q, sp_filters = fq_filters q,
                   sp_next_position = (if fq_limit q < length rows then map_option position_of (last_opt items) else None),
                   sp_observed_at = now\<rparr>))))))"

section \<open>Coverage\<close>

record stored_coverage =
  cv_history :: history_metadata
  cv_window :: evidence_window
  cv_observed_at :: int
  cv_oldest :: "frame_position option"
  cv_newest :: "frame_position option"
  cv_newest_captured_at :: "int option"
  cv_frames_stored :: nat
  cv_frames_text_available :: nat

definition frame_reference :: "history_frame \<Rightarrow> frame_position" where
  "frame_reference f = \<lparr>fp_captured_at = ef_captured_at f, fp_frame_id = ef_id f\<rparr>"

definition in_evidence_window :: "evidence_window \<Rightarrow> history_frame \<Rightarrow> bool" where
  "in_evidence_window w f \<longleftrightarrow> ew_from w \<le> ef_captured_at f \<and> ef_captured_at f < ew_to w"

definition stored_coverage :: "history_error + int \<Rightarrow> evidence_window \<Rightarrow> history_db \<Rightarrow> history_error + stored_coverage" where
  "stored_coverage clock w db =
     bind_r (validate_window w) (\<lambda>_. bind_r (read_history_metadata db) (\<lambda>m. bind_r clock (\<lambda>now.
       (let sorted = sort_key (\<lambda>f. (ef_captured_at f, ef_id f)) (hd_frames db);
            newest = map_option frame_reference (last_opt sorted);
            inside = filter (in_evidence_window w) (hd_frames db)
        in Inr \<lparr>cv_history = m, cv_window = w, cv_observed_at = now,
             cv_oldest = map_option frame_reference (first_opt sorted), cv_newest = newest,
             cv_newest_captured_at = map_option fp_captured_at newest, cv_frames_stored = length inside,
             cv_frames_text_available = length (filter (\<lambda>f. hd_texts db (ef_id f) \<noteq> None) inside)\<rparr>))))"

section \<open>The invariant of the feed\<close>

lemma digits_value_snoc: "digits_value (s @ [c]) = digits_value s * 10 + (c - 48)"
  by (simp add: digits_value_def)

lemma digits_of_value: "0 \<le> n \<Longrightarrow> digits_value (digits_of n) = n \<and> list_all is_digit (digits_of n) \<and> digits_of n \<noteq> []"
proof (induction n rule: digits_of.induct)
  case (1 n)
  show ?case
  proof (cases "n < 10")
    case True
    then show ?thesis using 1 by (simp add: digits_of.simps [of n] digits_value_def is_digit_def)
  next
    case False
    then have "digits_value (digits_of (n div 10)) = n div 10 \<and> list_all is_digit (digits_of (n div 10))" using 1 by simp
    moreover have "is_digit (48 + n mod 10)" using pos_mod_bound [of 10 n] pos_mod_sign [of 10 n] by (simp add: is_digit_def)
    ultimately show ?thesis using False by (simp add: digits_of.simps [of n] digits_value_snoc)
  qed
qed

lemma parse_display: "0 \<le> n \<Longrightarrow> n \<le> i64_max \<Longrightarrow> parse_allocator (display_int n) = Some n"
  using digits_of_value [of n] by (simp add: parse_allocator_def display_int_def)

definition feed_ok :: "history_db \<Rightarrow> bool" where
  "feed_ok db \<longleftrightarrow> distinct (map ef_id (hd_frames db))
     \<and> (\<exists>h n. hd_history_id db = Some h \<and> valid_history_id h \<and> hd_high_water db = Some (display_int n)
          \<and> 0 \<le> n \<and> n \<le> i64_max \<and> (\<forall>f\<in>set (hd_frames db). 0 < ef_id f \<and> ef_id f \<le> n))
     \<and> (\<forall>i t. hd_texts db i = Some t \<longrightarrow> source_from_db_str (et_primary_source t) \<noteq> None)"

definition high_water :: "history_db \<Rightarrow> int" where
  "high_water db = (case read_history_metadata db of Inl _ \<Rightarrow> 0 | Inr m \<Rightarrow> hm_high_water m)"

lemma feed_metadata:
  assumes "feed_ok db"
  shows "read_history_metadata db = Inr \<lparr>hm_history_id = the (hd_history_id db), hm_high_water = high_water db\<rparr>
     \<and> valid_history_id (the (hd_history_id db)) \<and> hd_high_water db = Some (display_int (high_water db))
     \<and> 0 \<le> high_water db \<and> high_water db \<le> i64_max \<and> (\<forall>f\<in>set (hd_frames db). 0 < ef_id f \<and> ef_id f \<le> high_water db)"
proof -
  obtain h n where hn: "hd_history_id db = Some h" "valid_history_id h" "hd_high_water db = Some (display_int n)"
    "0 \<le> n" "n \<le> i64_max" "\<forall>f\<in>set (hd_frames db). 0 < ef_id f \<and> ef_id f \<le> n"
    using assms unfolding feed_ok_def by blast
  then have "read_history_metadata db = Inr \<lparr>hm_history_id = h, hm_high_water = n\<rparr>"
    by (simp add: read_history_metadata_def parse_display ok_or_def)
  with hn show ?thesis by (simp add: high_water_def)
qed

lemma high_water_eq:
  assumes "feed_ok db" and "hd_high_water db = Some (display_int n)" and "0 \<le> n" "n \<le> i64_max"
  shows "high_water db = n"
proof -
  have "display_int n = display_int (high_water db)" "0 \<le> high_water db" "high_water db \<le> i64_max"
    using feed_metadata [OF assms(1)] assms(2) by simp_all
  then show ?thesis using parse_display [OF assms(3,4)] parse_display [of "high_water db"]
    by (metis option.inject)
qed

lemma current_max_bounds:
  assumes "feed_ok db"
  shows "current_max_frame_id db \<le> high_water db \<and> (\<forall>f\<in>set (hd_frames db). ef_id f \<le> current_max_frame_id db)"
proof -
  have "Max (ef_id ` set (hd_frames db)) \<le> high_water db" if "hd_frames db \<noteq> []"
    using that feed_metadata [OF assms] by (subst Max_le_iff) auto
  then show ?thesis using feed_metadata [OF assms]
    by (auto simp: current_max_frame_id_def list_max_def le_max_iff_disj)
qed

text \<open>What later states keep: the identity, a rising high water, and that an id up to the old high water
  still names the same capture.\<close>

definition feed_later :: "history_db \<Rightarrow> history_db \<Rightarrow> bool" where
  "feed_later db db' \<longleftrightarrow> feed_ok db' \<and> hd_history_id db' = hd_history_id db \<and> high_water db \<le> high_water db'
     \<and> (\<forall>f'\<in>set (hd_frames db'). high_water db < ef_id f'
          \<or> (\<exists>f\<in>set (hd_frames db). ef_id f = ef_id f' \<and> ef_captured_at f = ef_captured_at f'))"

lemma feed_later_refl: "feed_ok db \<Longrightarrow> feed_later db db"
  by (auto simp: feed_later_def)

lemma feed_later_trans: "feed_later a b \<Longrightarrow> feed_later b c \<Longrightarrow> feed_later a c"
  unfolding feed_later_def by (smt (verit))

lemma feed_laterI:
  assumes "feed_ok db" and "distinct (map ef_id (hd_frames db'))" "hd_history_id db' = hd_history_id db" "hd_high_water db' = hd_high_water db"
    and rows: "\<forall>f'\<in>set (hd_frames db'). \<exists>f\<in>set (hd_frames db). ef_id f = ef_id f' \<and> ef_captured_at f = ef_captured_at f'"
    and src: "\<forall>i t. hd_texts db' i = Some t \<longrightarrow> source_from_db_str (et_primary_source t) \<noteq> None"
  shows "feed_later db db'"
proof -
  have "0 < ef_id f' \<and> ef_id f' \<le> high_water db" if "f' \<in> set (hd_frames db')" for f'
    using rows that feed_metadata [OF assms(1)] by (metis (no_types))
  then have ok: "feed_ok db'" unfolding feed_ok_def
    using assms(2-4) src feed_metadata [OF assms(1)] assms(1)
    by (intro conjI) (auto simp: feed_ok_def)
  moreover have "high_water db' = high_water db"
    unfolding high_water_def read_history_metadata_def assms(3,4) ..
  ultimately show ?thesis using assms(3) rows by (simp add: feed_later_def)
qed

lemma insert_later:
  assumes ok: "feed_ok db" and ins: "insert_frame f db = Inr (i, db')"
  shows "feed_later db db'"
proof -
  note m = feed_metadata [OF ok] and mx = current_max_bounds [OF ok]
  have i: "i = high_water db + 1" "high_water db \<noteq> i64_max"
    "db' = db\<lparr>hd_high_water := Some (display_int i), hd_frames := hd_frames db @ [f\<lparr>ef_id := i, ef_session_id := None, ef_image_purged := False\<rparr>]\<rparr>"
    using ins m mx by (auto simp: insert_frame_def allocate_frame_id_def Let_def max_def split: if_splits)
  have new: "i \<notin> ef_id ` set (hd_frames db)" using m i(1) by force
  have "0 \<le> i \<and> i \<le> i64_max" using m i by linarith
  moreover have "\<forall>g\<in>set (hd_frames db'). 0 < ef_id g \<and> ef_id g \<le> i" using m i by force
  moreover have "distinct (map ef_id (hd_frames db'))" using ok new unfolding i(3) by (simp add: feed_ok_def)
  moreover have h: "hd_history_id db' = hd_history_id db" "hd_texts db' = hd_texts db" "hd_high_water db' = Some (display_int i)"
    by (simp_all add: i(3))
  ultimately have ok': "feed_ok db'" using ok unfolding feed_ok_def by metis
  have "high_water db' = i" by (rule high_water_eq [OF ok' h(3)]) (use \<open>0 \<le> i \<and> i \<le> i64_max\<close> in auto)
  then show ?thesis using ok' h i unfolding feed_later_def by auto
qed

lemma feed_step_later:
  assumes "feed_step db db'" and ok: "feed_ok db"
  shows "feed_later db db'"
  using assms(1)
proof cases
  case (Insert f i)
  then show ?thesis using insert_later ok by blast
next
  case (Delete i)
  then show ?thesis using ok by (intro feed_laterI) (auto simp: delete_stored_frame_def feed_ok_def distinct_map_filter)
next
  case (Text i t)
  have "source_from_db_str (et_primary_source t) \<noteq> None" using Text by (auto simp: put_text_def source_from_db_str_def split: if_splits)
  then show ?thesis using Text ok by (intro feed_laterI) (auto simp: put_text_def feed_ok_def split: if_splits)
next
  case (Vision i d)
  then show ?thesis using ok by (intro feed_laterI) (auto simp: put_vision_def feed_ok_def split: if_splits)
next
  case (Session i s)
  have "map ef_id (hd_frames db') = map ef_id (hd_frames db)" by (simp add: Session set_session_def)
  then have "distinct (map ef_id (hd_frames db'))" using ok by (simp only: feed_ok_def)
  then show ?thesis using ok Session by (intro feed_laterI) (auto simp: set_session_def feed_ok_def)
next
  case (Purge i)
  have "map ef_id (hd_frames db') = map ef_id (hd_frames db)" by (simp add: Purge mark_purged_def)
  then have "distinct (map ef_id (hd_frames db'))" using ok by (simp only: feed_ok_def)
  then show ?thesis using ok Purge by (intro feed_laterI) (auto simp: mark_purged_def feed_ok_def)
qed

lemma feed_steps_later: "feed_step\<^sup>*\<^sup>* db db' \<Longrightarrow> feed_ok db \<Longrightarrow> feed_later db db'"
proof (induction rule: rtranclp_induct)
  case (step y z)
  then have "feed_later db y" by simp
  moreover from this have "feed_later y z" using feed_step_later step by (simp add: feed_later_def)
  ultimately show ?case by (rule feed_later_trans)
qed (rule feed_later_refl)

text \<open>Opening the store puts the feed into this state, whatever frames an older version left.\<close>

lemma setup_ok:
  assumes "distinct (map ef_id (hd_frames db))" and "\<forall>f\<in>set (hd_frames db). 0 < ef_id f \<and> ef_id f \<le> i64_max"
    and "hd_history_id db = None" "hd_high_water db = None" and "valid_history_id uuid"
    and "\<forall>i t. hd_texts db i = Some t \<longrightarrow> source_from_db_str (et_primary_source t) \<noteq> None"
  shows "feed_ok (setup_history_metadata uuid db)"
proof -
  have "Max (ef_id ` set (hd_frames db)) \<in> ef_id ` set (hd_frames db)" if "hd_frames db \<noteq> []"
    using that by (intro Max_in) auto
  then have "0 \<le> current_max_frame_id db \<and> current_max_frame_id db \<le> i64_max"
    using assms(2) by (auto simp: current_max_frame_id_def list_max_def i64_max_def)
  moreover have "\<forall>f\<in>set (hd_frames db). ef_id f \<le> current_max_frame_id db"
    by (auto simp: current_max_frame_id_def list_max_def le_max_iff_disj)
  ultimately have "\<exists>n. display_int (current_max_frame_id db) = display_int n \<and> 0 \<le> n \<and> n \<le> i64_max
     \<and> (\<forall>f\<in>set (hd_frames db). ef_id f \<le> n)" by blast
  then show ?thesis using assms by (simp add: feed_ok_def setup_history_metadata_def)
qed

section \<open>The pages as a walk by key\<close>

text \<open>The client may change the limit from page to page, so a read is of a limit and a database.\<close>

definition listing_key :: "history_frame \<Rightarrow> int \<times> int" where
  "listing_key f = (ef_captured_at f, ef_id f)"

definition listed :: "evidence_window \<Rightarrow> frame_filters \<Rightarrow> int \<Rightarrow> history_db \<Rightarrow> history_frame \<Rightarrow> bool" where
  "listed w fl m db f \<longleftrightarrow> f \<in> set (hd_frames db) \<and> in_evidence_window w f \<and> ef_id f \<le> m \<and> matches_filters fl db f"

definition frame_keys :: "evidence_window \<Rightarrow> frame_filters \<Rightarrow> int \<Rightarrow> nat \<times> history_db \<Rightarrow> (int \<times> int) set" where
  "frame_keys w fl m r = listing_key ` {f. listed w fl m (snd r) f}"

definition frame_position_good :: "evidence_window \<Rightarrow> int \<times> int \<Rightarrow> bool" where
  "frame_position_good w k \<longleftrightarrow> ew_from w \<le> fst k \<and> fst k < ew_to w \<and> 0 < snd k"

definition frame_read_ok :: "evidence_window \<Rightarrow> nat \<times> history_db \<Rightarrow> bool" where
  "frame_read_ok w r \<longleftrightarrow> 1 \<le> fst r \<and> ew_from w < ew_to w \<and> feed_ok (snd r)"

definition frame_read ::
  "evidence_window \<Rightarrow> frame_filters \<Rightarrow> int \<Rightarrow> nat \<times> history_db \<Rightarrow> (int \<times> int) option \<Rightarrow> (int \<times> int) list \<times> bool" where
  "frame_read w fl m r after = page_of (fst r) (map listing_key (page_rows w fl m after (snd r)))"

lemma listing_key_simps [simp]: "fst (listing_key f) = ef_captured_at f" "snd (listing_key f) = ef_id f"
  by (simp_all add: listing_key_def)

lemma set_page_rows:
  assumes "frame_read_ok w (l, db)" and "allowed (frame_position_good w) after"
  shows "f \<in> set (page_rows w fl m after db) \<longleftrightarrow> listed w fl m db f \<and> beyond (<) after (listing_key f)"
proof (cases after)
  case None
  have "0 < ef_id f" if "f \<in> set (hd_frames db)" using that assms(1) feed_metadata [of db] by (auto simp: frame_read_ok_def)
  then show ?thesis using assms(1) unfolding page_rows_def Let_def None
    by (auto simp: listed_def in_evidence_window_def frame_read_ok_def)
next
  case (Some k)
  obtain t i where k: "k = (t, i)" by fastforce
  then show ?thesis using assms(2) unfolding page_rows_def Let_def Some
    by (auto simp: listed_def in_evidence_window_def frame_position_good_def listing_key_def less_prod_def)
qed

lemma page_rows_sorted:
  assumes "feed_ok db"
  shows "sorted_wrt (<) (map listing_key (page_rows w fl m after db))"
proof -
  have dist: "distinct (map ef_id (filter A xs @ filter B xs))"
    if "distinct (map ef_id xs)" "\<And>x. A x \<Longrightarrow> \<not> B x" for A B and xs :: "history_frame list"
    using that distinct_map_eq [OF that(1)] by (auto simp: distinct_map_filter)
  have "distinct (map ef_id (page_rows w fl m after db))"
    unfolding page_rows_def Let_def distinct_map_sort by (rule dist) (use assms in \<open>auto simp: feed_ok_def\<close>)
  then have "distinct (map snd (map listing_key (page_rows w fl m after db)))" by (simp add: comp_def)
  then have "distinct (map listing_key (page_rows w fl m after db))" by (simp only: distinct_map)
  moreover have "sorted (map listing_key (page_rows w fl m after db))"
    unfolding page_rows_def Let_def listing_key_def by simp
  ultimately show ?thesis by (simp add: strict_sorted_iff)
qed

interpretation frame_feed: keyset "(<)" "frame_read_ok w" "frame_position_good w" "frame_keys w fl m" "frame_read w fl m" for w fl m
proof
  fix r :: "nat \<times> history_db" and after :: "(int \<times> int) option" and k :: "int \<times> int"
  assume ok: "frame_read_ok w r"
  obtain l db where r: "r = (l, db)" by fastforce
  let ?ks = "map listing_key (page_rows w fl m after db)"
  have read: "frame_read w fl m r after = (take l ?ks, l < length ?ks)" by (simp add: frame_read_def r page_of_simp)
  have sorted: "sorted_wrt (<) ?ks" by (rule page_rows_sorted) (use ok in \<open>simp add: frame_read_ok_def r\<close>)
  show "k \<in> frame_keys w fl m r \<Longrightarrow> frame_position_good w k"
    using ok feed_metadata [of db]
    by (auto simp: frame_keys_def listed_def in_evidence_window_def frame_position_good_def frame_read_ok_def r)
  assume al: "allowed (frame_position_good w) after"
  have "set ?ks = {k \<in> frame_keys w fl m r. beyond (<) after k}"
    using set_page_rows [OF ok [unfolded r] al] by (auto simp: frame_keys_def r)
  then have mem: "x \<in> set ?ks \<longleftrightarrow> x \<in> frame_keys w fl m r \<and> beyond (<) after x" for x by blast
  show "sorted_wrt (<) (fst (frame_read w fl m r after))" using sorted by (simp add: read sorted_wrt_take)
  show "k \<in> set (fst (frame_read w fl m r after)) \<Longrightarrow> k \<in> frame_keys w fl m r \<and> beyond (<) after k"
    using mem [of k] in_set_takeD [of k l ?ks] by (simp only: read fst_conv)
  show "\<not> snd (frame_read w fl m r after) \<Longrightarrow> k \<in> frame_keys w fl m r \<Longrightarrow> beyond (<) after k \<Longrightarrow> k \<in> set (fst (frame_read w fl m r after))"
    using mem by (simp add: read)
  have more: "x \<in> set (take l ?ks) \<or> last (take l ?ks) < x"
    if "l < length ?ks" "x \<in> frame_keys w fl m r" "beyond (<) after x" for x
    using sorted_wrt_split [OF sorted, of x l] ok mem [of x] that by (simp only: frame_read_ok_def r fst_conv) simp
  show "snd (frame_read w fl m r after) \<Longrightarrow> fst (frame_read w fl m r after) \<noteq> []
     \<and> (\<forall>k\<in>frame_keys w fl m r. beyond (<) after k \<longrightarrow> k \<in> set (fst (frame_read w fl m r after)) \<or> last (fst (frame_read w fl m r after)) < k)"
    unfolding read fst_conv snd_conv using more ok by (auto simp: frame_read_ok_def r simp del: set_map)
qed (auto intro: order.strict_trans)

section \<open>A client walking the feed\<close>

text \<open>Page after page, each a read of its own: the clock, the limit asked for, the database then.\<close>

definition next_request :: "stored_frame_page \<Rightarrow> frame_position \<Rightarrow> frame_page_request" where
  "next_request p pos = \<lparr>fq_window = sp_window p, fq_filters = sp_filters p, fq_limit = 100,
     fq_continuation = Some \<lparr>fc_snapshot = sp_snapshot p, fc_after = pos\<rparr>\<rparr>"

fun frame_walk :: "frame_page_request \<Rightarrow> (int \<times> nat \<times> history_db) list \<Rightarrow> history_error + (frame_evidence list \<times> bool)" where
  "frame_walk q [] = Inr ([], False)"
| "frame_walk q ((now, limit, db) # reads) =
     bind_r (frame_page (Inr now) (q\<lparr>fq_limit := limit\<rparr>) db) (\<lambda>p.
       case sp_next_position p of
         None \<Rightarrow> Inr (sp_items p, True)
       | Some pos \<Rightarrow> bind_r (frame_walk (next_request p pos) reads) (\<lambda>(items, fin). Inr (sp_items p @ items, fin)))"

definition evidence_key :: "frame_evidence \<Rightarrow> int \<times> int" where
  "evidence_key e = (fe_captured_at e, fe_frame_id e)"

definition after_key :: "frame_page_request \<Rightarrow> (int \<times> int) option" where
  "after_key q = map_option (\<lambda>c. (fp_captured_at (fc_after c), fp_frame_id (fc_after c))) (fq_continuation q)"

lemma row_to_evidence_ok:
  assumes "feed_ok db"
  shows "\<exists>e. row_to_evidence db f = Inr e"
proof (cases "hd_texts db (ef_id f)")
  case (Some t)
  then have "source_from_db_str (et_primary_source t) \<noteq> None" using assms unfolding feed_ok_def by blast
  then show ?thesis using Some by (auto simp: row_to_evidence_def)
qed (simp add: row_to_evidence_def)

lemma row_to_evidence_key: "row_to_evidence db f = Inr e \<Longrightarrow> evidence_key e = listing_key f"
  by (auto simp: row_to_evidence_def Let_def evidence_key_def listing_key_def bind_r_Inr)

lemma map_r_total: "(\<And>x. x \<in> set xs \<Longrightarrow> \<exists>y. f x = Inr y) \<Longrightarrow> \<exists>ys. map_r f xs = Inr ys"
proof (induction xs)
  case (Cons x xs)
  then obtain y ys where "f x = Inr y" "map_r f xs = Inr ys" by fastforce
  then show ?case by simp
qed simp

lemma rows_evidence:
  assumes "map_r (row_to_evidence db) xs = Inr es"
  shows "map evidence_key es = map listing_key xs \<and> (\<forall>e\<in>set es. \<exists>f\<in>set xs. row_to_evidence db f = Inr e)"
proof -
  have "list_all2 (\<lambda>f e. row_to_evidence db f = Inr e) xs es" using assms by (simp add: map_r_Inr)
  then show ?thesis by (induction rule: list_all2_induct) (auto simp: row_to_evidence_key)
qed

lemma page_result:
  assumes "feed_ok db" and valid: "validate_request q = Inr ()"
    and snap: "page_snapshot q db \<lparr>hm_history_id = the (hd_history_id db), hm_high_water = high_water db\<rparr> = Inr snap"
  defines "r \<equiv> frame_read (fq_window q) (fq_filters q) (fs_max_frame_id snap) (fq_limit q, db) (after_key q)"
  shows "\<exists>p. frame_page (Inr now) q db = Inr p \<and> sp_window p = fq_window q \<and> sp_filters p = fq_filters q \<and> sp_snapshot p = snap
     \<and> map evidence_key (sp_items p) = fst r
     \<and> (if snd r then \<exists>pos. sp_next_position p = Some pos \<and> (fp_captured_at pos, fp_frame_id pos) = last (fst r)
        else sp_next_position p = None)
     \<and> (\<forall>e\<in>set (sp_items p). \<exists>f\<in>set (hd_frames db). row_to_evidence db f = Inr e)"
proof -
  let ?l = "fq_limit q" and ?rows = "page_rows (fq_window q) (fq_filters q) (fs_max_frame_id snap) (after_key q) db"
  have r: "r = (take ?l (map listing_key ?rows), ?l < length ?rows)" by (simp add: r_def frame_read_def page_of_simp)
  have l: "1 \<le> ?l" using valid by (auto simp: validate_request_def bind_r_Inr split: if_splits)
  obtain es where es: "map_r (row_to_evidence db) (take (?l + 1) ?rows) = Inr es"
    using map_r_total [of "take (?l + 1) ?rows" "row_to_evidence db"] row_to_evidence_ok [OF assms(1)] by blast
  note keys = rows_evidence [OF es]
  have len: "length es = min (length ?rows) (?l + 1)" using keys by (metis length_map length_take)
  let ?p = "\<lparr>sp_items = take ?l es, sp_snapshot = snap, sp_window = fq_window q, sp_filters = fq_filters q,
       sp_next_position = (if ?l < length es then map_option position_of (last_opt (take ?l es)) else None), sp_observed_at = now\<rparr>"
  have "frame_page (Inr now) q db = Inr ?p"
    using es by (simp add: frame_page_def valid conjunct1 [OF feed_metadata [OF assms(1)]] snap after_key_def [symmetric] Let_def del: One_nat_def)
  moreover have tk: "map evidence_key (take ?l es) = fst r"
    using keys by (simp add: r take_map [symmetric] min_def)
  moreover have "if snd r then \<exists>pos. sp_next_position ?p = Some pos \<and> (fp_captured_at pos, fp_frame_id pos) = last (fst r)
        else sp_next_position ?p = None"
  proof (cases "snd r")
    case True
    then have ne: "take ?l es \<noteq> []" and lt: "?l < length es" using l len by (auto simp: r)
    have "evidence_key (last (take ?l es)) = last (fst r)" using ne tk by (metis last_map)
    then show ?thesis using True ne lt by (simp add: last_opt_def position_of_def evidence_key_def)
  qed (use len in \<open>simp add: r\<close>)
  moreover have "\<forall>e\<in>set (take ?l es). \<exists>f\<in>set (hd_frames db). row_to_evidence db f = Inr e"
    using keys by (fastforce simp: page_rows_def Let_def dest!: in_set_takeD)
  ultimately show ?thesis by auto
qed

text \<open>The databases a walk meets: a store that was opened and then written by the store's own operations.\<close>

inductive feed_reachable :: "history_db \<Rightarrow> bool" where
  Opened: "distinct (map ef_id (hd_frames db)) \<Longrightarrow> \<forall>f\<in>set (hd_frames db). 0 < ef_id f \<and> ef_id f \<le> i64_max
     \<Longrightarrow> \<forall>i t. hd_texts db i = Some t \<longrightarrow> source_from_db_str (et_primary_source t) \<noteq> None
     \<Longrightarrow> hd_history_id db = None \<Longrightarrow> hd_high_water db = None \<Longrightarrow> valid_history_id uuid
     \<Longrightarrow> feed_reachable (setup_history_metadata uuid db)"
| Written: "feed_reachable db \<Longrightarrow> feed_step db db' \<Longrightarrow> feed_reachable db'"

lemma feed_reachable_ok: "feed_reachable db \<Longrightarrow> feed_ok db"
proof (induction rule: feed_reachable.induct)
  case (Written db db')
  then show ?case using feed_step_later by (simp add: feed_later_def)
qed (rule setup_ok)

definition reads_after :: "history_db \<Rightarrow> (int \<times> nat \<times> history_db) list \<Rightarrow> bool" where
  "reads_after db reads \<longleftrightarrow> (\<forall>r\<in>set reads. feed_step\<^sup>*\<^sup>* db (snd (snd r)) \<and> fst (snd r) \<in> {1..frame_page_max_limit})"

text \<open>What is shared by every page of one walk, begun on \<open>db\<close>.\<close>

definition same_walk :: "evidence_window \<Rightarrow> frame_filters \<Rightarrow> history_db \<Rightarrow> frame_snapshot \<Rightarrow> bool" where
  "same_walk w fl db snap \<longleftrightarrow> feed_ok db \<and> validate_window w = Inr () \<and> validate_filters fl = Inr ()
     \<and> fs_history_id snap = the (hd_history_id db) \<and> fs_max_frame_id snap \<le> high_water db"

lemma walk_read_ok:
  assumes "same_walk w fl db snap" and "feed_step\<^sup>*\<^sup>* db d" and "l \<in> {1..frame_page_max_limit}"
  shows "feed_later db d \<and> frame_read_ok w (l, d)"
  using assms feed_steps_later [of db d] unfolding same_walk_def
  by (auto simp: frame_read_ok_def feed_later_def validate_window_def split: if_splits)

lemma page_keys_good:
  assumes "frame_read_ok w (l, d)" and "allowed (frame_position_good w) after" and "k \<in> set (fst (frame_read w fl m (l, d) after))"
  shows "frame_position_good w k \<and> snd k \<le> m"
proof
  have k: "k \<in> frame_keys w fl m (l, d)" using frame_feed.page_sound [OF assms] by blast
  show "frame_position_good w k" by (rule frame_feed.elig_good [OF assms(1) k])
  show "snd k \<le> m" using k by (auto simp: frame_keys_def listed_def)
qed

lemma frame_walk_eq:
  assumes "same_walk w fl db snap" and "reads_after db reads"
    and "frame_position_good w (fp_captured_at pos, fp_frame_id pos)" and "fp_frame_id pos \<le> fs_max_frame_id snap"
  shows "\<exists>items fin. frame_walk \<lparr>fq_window = w, fq_filters = fl, fq_limit = n, fq_continuation = Some \<lparr>fc_snapshot = snap, fc_after = pos\<rparr>\<rparr> reads
         = Inr (items, fin)
     \<and> (map evidence_key items, fin)
         = page_walk (frame_read w fl (fs_max_frame_id snap)) (Some (fp_captured_at pos, fp_frame_id pos)) (map snd reads)
     \<and> (\<forall>e\<in>set items. \<exists>r\<in>set reads. \<exists>f\<in>set (hd_frames (snd (snd r))). row_to_evidence (snd (snd r)) f = Inr e)"
  using assms(2-4)
proof (induction reads arbitrary: pos n)
  case (Cons rd reads)
  obtain now l d where rd: "rd = (now, l, d)" by (cases rd) auto
  let ?k = "(fp_captured_at pos, fp_frame_id pos)" and ?m = "fs_max_frame_id snap"
  let ?q = "\<lparr>fq_window = w, fq_filters = fl, fq_limit = l, fq_continuation = Some \<lparr>fc_snapshot = snap, fc_after = pos\<rparr>\<rparr>"
  let ?r = "frame_read w fl ?m (l, d) (Some ?k)"
  have l: "l \<in> {1..frame_page_max_limit}" "feed_step\<^sup>*\<^sup>* db d" using Cons.prems(1) by (simp_all add: reads_after_def rd)
  note lat = walk_read_ok [OF assms(1) l(2,1)]
  then have ok: "feed_ok d" and same: "the (hd_history_id d) = fs_history_id snap" "?m \<le> high_water d"
    using assms(1) by (auto simp: feed_later_def same_walk_def)
  have "valid_history_id (fs_history_id snap)" using feed_metadata [OF ok] same by simp
  then have v: "validate_request ?q = Inr ()"
    using assms(1) l Cons.prems(2,3) by (auto simp: validate_request_def bad_continuation_def frame_position_good_def same_walk_def)
  have s: "page_snapshot ?q d \<lparr>hm_history_id = the (hd_history_id d), hm_high_water = high_water d\<rparr> = Inr snap"
    using same by (simp add: page_snapshot_def)
  have ak: "after_key ?q = Some ?k" by (simp add: after_key_def)
  from page_result [OF ok v s, of now, unfolded ak frame_page_request.simps] obtain p where p: "frame_page (Inr now) ?q d = Inr p" "sp_window p = w" "sp_filters p = fl" "sp_snapshot p = snap"
    "map evidence_key (sp_items p) = fst ?r"
    "if snd ?r then \<exists>pos. sp_next_position p = Some pos \<and> (fp_captured_at pos, fp_frame_id pos) = last (fst ?r) else sp_next_position p = None"
    "\<forall>e\<in>set (sp_items p). \<exists>f\<in>set (hd_frames d). row_to_evidence d f = Inr e"
    by (elim exE conjE) (rule that)
  show ?case
  proof (cases "snd ?r")
    case True
    then obtain pos' where pos': "sp_next_position p = Some pos'" "(fp_captured_at pos', fp_frame_id pos') = last (fst ?r)"
      using p(6) by auto
    have al: "allowed (frame_position_good w) (Some ?k)" using Cons.prems(2) by simp
    have "last (fst ?r) \<in> set (fst ?r)" using frame_feed.page_next [OF conjunct2 [OF lat] al] True by blast
    then have g: "frame_position_good w (fp_captured_at pos', fp_frame_id pos') \<and> fp_frame_id pos' \<le> ?m"
      using page_keys_good [OF conjunct2 [OF lat] al] unfolding pos'(2) [symmetric] by fastforce
    have "reads_after db reads" using Cons.prems(1) by (simp add: reads_after_def)
    from Cons.IH [OF this conjunct1 [OF g] conjunct2 [OF g], of 100] obtain items fin where
      ih: "frame_walk (next_request p pos') reads = Inr (items, fin)"
      "(map evidence_key items, fin) = page_walk (frame_read w fl ?m) (Some (last (fst ?r))) (map snd reads)"
      "\<forall>e\<in>set items. \<exists>r\<in>set reads. \<exists>f\<in>set (hd_frames (snd (snd r))). row_to_evidence (snd (snd r)) f = Inr e"
      unfolding next_request_def p(2-4) pos'(2) by blast
    have "page_walk (frame_read w fl ?m) (Some ?k) (map snd (rd # reads)) = (map evidence_key (sp_items p @ items), fin)"
      using ih(2) [symmetric] True by (simp add: prod_eq_iff walk_Cons rd p(5))
    then show ?thesis using p(1,7) pos'(1) ih(1,3) by (auto simp: rd)
  next
    case False
    then have "page_walk (frame_read w fl ?m) (Some ?k) (map snd (rd # reads)) = (map evidence_key (sp_items p), True)"
      by (simp add: prod_eq_iff walk_Cons rd p(5))
    then show ?thesis using p(1,6,7) False by (auto simp: rd)
  qed
qed (use exI [of Not False] in simp)

definition first_request :: "evidence_window \<Rightarrow> frame_filters \<Rightarrow> frame_page_request" where
  "first_request w fl = \<lparr>fq_window = w, fq_filters = fl, fq_limit = 100, fq_continuation = None\<rparr>"

lemma frame_walk_start:
  assumes ok: "feed_ok db" and w: "validate_window w = Inr ()" "validate_filters fl = Inr ()"
    and "reads_after db ((now, l, db) # reads)"
  shows "\<exists>items fin. frame_walk (first_request w fl) ((now, l, db) # reads) = Inr (items, fin)
     \<and> (map evidence_key items, fin) = page_walk (frame_read w fl (current_max_frame_id db)) None ((l, db) # map snd reads)
     \<and> (\<forall>e\<in>set items. \<exists>r\<in>set ((now, l, db) # reads). \<exists>f\<in>set (hd_frames (snd (snd r))). row_to_evidence (snd (snd r)) f = Inr e)"
proof -
  let ?m = "current_max_frame_id db" and ?snap = "\<lparr>fs_history_id = the (hd_history_id db), fs_max_frame_id = current_max_frame_id db\<rparr>"
  let ?q = "\<lparr>fq_window = w, fq_filters = fl, fq_limit = l, fq_continuation = None\<rparr>"
  let ?r = "frame_read w fl ?m (l, db) None"
  have l: "l \<in> {1..frame_page_max_limit}" "reads_after db reads" using assms(4) by (simp_all add: reads_after_def)
  have sw: "same_walk w fl db ?snap" using ok w current_max_bounds [OF ok] by (simp add: same_walk_def)
  have rok: "frame_read_ok w (l, db)" using walk_read_ok [OF sw _ l(1), of db] by simp
  have v: "validate_request ?q = Inr ()" using w l(1) by (auto simp: validate_request_def)
  have s: "page_snapshot ?q db \<lparr>hm_history_id = the (hd_history_id db), hm_high_water = high_water db\<rparr> = Inr ?snap"
    by (simp add: page_snapshot_def)
  have ak: "after_key ?q = None" by (simp add: after_key_def)
  from page_result [OF ok v s, of now, unfolded ak frame_page_request.simps frame_snapshot.simps] obtain p where
    p: "frame_page (Inr now) ?q db = Inr p" "sp_window p = w" "sp_filters p = fl" "sp_snapshot p = ?snap"
    "map evidence_key (sp_items p) = fst ?r"
    "if snd ?r then \<exists>pos. sp_next_position p = Some pos \<and> (fp_captured_at pos, fp_frame_id pos) = last (fst ?r) else sp_next_position p = None"
    "\<forall>e\<in>set (sp_items p). \<exists>f\<in>set (hd_frames db). row_to_evidence db f = Inr e"
    by (elim exE conjE) (rule that)
  show ?thesis
  proof (cases "snd ?r")
    case True
    then obtain pos where pos: "sp_next_position p = Some pos" "(fp_captured_at pos, fp_frame_id pos) = last (fst ?r)"
      using p(6) by auto
    have "last (fst ?r) \<in> set (fst ?r)" using frame_feed.page_next [OF rok _ True] by simp
    then have g: "frame_position_good w (fp_captured_at pos, fp_frame_id pos) \<and> fp_frame_id pos \<le> ?m"
      using page_keys_good [OF rok, of None] unfolding pos(2) [symmetric] by fastforce
    from frame_walk_eq [OF sw l(2) conjunct1 [OF g], of 100] g obtain items fin where
      ih: "frame_walk (next_request p pos) reads = Inr (items, fin)"
      "(map evidence_key items, fin) = page_walk (frame_read w fl ?m) (Some (last (fst ?r))) (map snd reads)"
      "\<forall>e\<in>set items. \<exists>r\<in>set reads. \<exists>f\<in>set (hd_frames (snd (snd r))). row_to_evidence (snd (snd r)) f = Inr e"
      unfolding next_request_def p(2-4) pos(2) frame_snapshot.simps by blast
    have "page_walk (frame_read w fl ?m) None ((l, db) # map snd reads) = (map evidence_key (sp_items p @ items), fin)"
      using ih(2) [symmetric] True by (simp add: prod_eq_iff walk_Cons p(5))
    then show ?thesis using p(1,7) pos(1) ih(1,3) by (auto simp: first_request_def)
  next
    case False
    then have "page_walk (frame_read w fl ?m) None ((l, db) # map snd reads) = (map evidence_key (sp_items p), True)"
      by (simp add: prod_eq_iff walk_Cons p(5))
    then show ?thesis using p(1,6,7) False by (auto simp: first_request_def)
  qed
qed

text \<open>A frame that a later read shows under an id that was in use at the start is the same capture.\<close>

lemma listed_traced:
  assumes "feed_ok db" and "feed_step\<^sup>*\<^sup>* db d" and "listed w fl (current_max_frame_id db) d f'"
  shows "listing_key f' \<in> listing_key ` set (hd_frames db)"
proof -
  have "feed_later db d" using feed_steps_later assms(1,2) by blast
  moreover have "f' \<in> set (hd_frames d)" "ef_id f' \<le> high_water db"
    using assms(3) current_max_bounds [OF assms(1)] by (auto simp: listed_def)
  ultimately obtain f where "f \<in> set (hd_frames db)" "ef_id f = ef_id f'" "ef_captured_at f = ef_captured_at f'"
    unfolding feed_later_def by force
  then show ?thesis by (auto simp: listing_key_def image_iff intro!: bexI [of _ f])
qed

lemma ids_of_keys: "map fe_frame_id items = map snd (map evidence_key items)"
  by (simp add: evidence_key_def)

lemma reads_ok:
  assumes ok: "feed_ok db" and w: "validate_window w = Inr ()" "validate_filters fl = Inr ()"
    and "reads_after db rs"
  shows "list_all (frame_read_ok w) (map snd rs)"
proof -
  have "same_walk w fl db \<lparr>fs_history_id = the (hd_history_id db), fs_max_frame_id = current_max_frame_id db\<rparr>"
    using ok w current_max_bounds [OF ok] by (simp add: same_walk_def)
  from walk_read_ok [OF this] show ?thesis
    using assms(4) by (fastforce simp: reads_after_def list_all_iff)
qed

lemma frame_walk_once:
  assumes ok: "feed_ok db" and w: "validate_window w = Inr ()" "validate_filters fl = Inr ()"
    and rs: "reads_after db rs"
    and keys: "map evidence_key items = fst (page_walk (frame_read w fl (current_max_frame_id db)) None (map snd rs))"
  shows "distinct (map fe_frame_id items) \<and> sorted_wrt (<) (map evidence_key items)
     \<and> (\<forall>e\<in>set items. fe_frame_id e \<le> current_max_frame_id db
          \<and> (\<exists>r\<in>set rs. \<exists>f. listed w fl (current_max_frame_id db) (snd (snd r)) f
               \<and> fe_frame_id e = ef_id f \<and> fe_captured_at e = ef_captured_at f))"
proof -
  let ?m = "current_max_frame_id db"
  note oks = reads_ok [OF ok w rs]
  have once: "distinct (map evidence_key items)" unfolding keys by (rule frame_feed.walk_distinct [OF oks]) simp
  have src: "\<exists>r\<in>set rs. \<exists>f. listed w fl ?m (snd (snd r)) f \<and> listing_key f = evidence_key e" if "e \<in> set items" for e
  proof -
    have "evidence_key e \<in> set (fst (page_walk (frame_read w fl ?m) None (map snd rs)))" using that keys [symmetric] by simp
    then show ?thesis using frame_feed.walk_sound [OF oks, of None fl ?m] by (fastforce simp: frame_keys_def)
  qed
  have home: "\<exists>f\<in>set (hd_frames db). listing_key f = evidence_key e" if e: "e \<in> set items" for e
  proof -
    obtain r f where r: "r \<in> set rs" "listed w fl ?m (snd (snd r)) f" "listing_key f = evidence_key e" using src [OF e] by blast
    then have "feed_step\<^sup>*\<^sup>* db (snd (snd r))" using rs by (simp add: reads_after_def)
    from listed_traced [OF ok this r(2)] show ?thesis unfolding r(3) by auto
  qed
  have "inj_on fe_frame_id (set items)"
  proof (rule inj_onI)
    fix a b assume ab: "a \<in> set items" "b \<in> set items" "fe_frame_id a = fe_frame_id b"
    obtain f g where f: "f \<in> set (hd_frames db)" "listing_key f = evidence_key a"
      and g: "g \<in> set (hd_frames db)" "listing_key g = evidence_key b" using home ab by blast
    then have "ef_id f = ef_id g" using ab(3) by (simp add: listing_key_def evidence_key_def)
    then have "f = g" using ok f g distinct_map_eq [of ef_id "hd_frames db" f g] by (simp add: feed_ok_def)
    then have "evidence_key a = evidence_key b" using f g by simp
    then show "a = b" using once ab distinct_map_eq [of evidence_key items a b] by simp
  qed
  then have "distinct (map fe_frame_id items)" using once by (simp add: distinct_map)
  moreover have "sorted_wrt (<) (map evidence_key items)" unfolding keys by (rule frame_feed.walk_sorted [OF oks]) simp
  moreover have "fe_frame_id e \<le> ?m \<and> (\<exists>r\<in>set rs. \<exists>f. listed w fl ?m (snd (snd r)) f \<and> fe_frame_id e = ef_id f
      \<and> fe_captured_at e = ef_captured_at f)" if "e \<in> set items" for e
    using src [OF that] by (fastforce simp: listing_key_def evidence_key_def listed_def)
  ultimately show ?thesis by blast
qed

section \<open>Samples\<close>

definition sample_capture :: "int \<Rightarrow> int \<Rightarrow> history_frame" where
  "sample_capture i t = \<lparr>ef_id = i, ef_captured_at = t, ef_monitor_index = 0, ef_app_hint = Some (lit ''Code''), ef_window_title = None,
     ef_browser_url = None, ef_session_id = None, ef_image_purged = False\<rparr>"

definition sample_uuid :: ustr where "sample_uuid = lit ''00000000-0000-4000-8000-000000000000''"

definition sample_old_store :: history_db where
  "sample_old_store = \<lparr>hd_frames = [sample_capture 1 10, sample_capture 2 10, sample_capture 3 20], hd_texts = (\<lambda>_. None),
     hd_visions = (\<lambda>_. None), hd_history_id = None, hd_high_water = None\<rparr>"

definition sample_feed :: history_db where "sample_feed = setup_history_metadata sample_uuid sample_old_store"

definition sample_feed_later :: history_db where
  "sample_feed_later =
     (case insert_frame (sample_capture 0 15) (delete_stored_frame 2 sample_feed) of Inr (_, d) \<Rightarrow> d | Inl _ \<Rightarrow> sample_feed)"

definition sample_window :: evidence_window where "sample_window = \<lparr>ew_from = 10, ew_to = 30\<rparr>"
definition sample_filters :: frame_filters where "sample_filters = \<lparr>ff_app = Some (lit ''code''), ff_window_title = None\<rparr>"

lemma sample_feed_reachable: "feed_reachable sample_feed"
  unfolding sample_feed_def
proof (rule feed_reachable.Opened)
  show "\<forall>f\<in>set (hd_frames sample_old_store). 0 < ef_id f \<and> ef_id f \<le> i64_max" by (simp add: sample_old_store_def sample_capture_def i64_max_def)
  show "valid_history_id sample_uuid" by code_simp
qed (simp_all add: sample_old_store_def sample_capture_def)

lemma sample_feed_steps: "feed_step\<^sup>*\<^sup>* sample_feed sample_feed_later"
proof -
  have "\<not> isl (insert_frame (sample_capture 0 15) (delete_stored_frame 2 sample_feed))" by code_simp
  then obtain i d where id: "insert_frame (sample_capture 0 15) (delete_stored_frame 2 sample_feed) = Inr (i, d)"
    by (cases "insert_frame (sample_capture 0 15) (delete_stored_frame 2 sample_feed)") auto
  then have "feed_step (delete_stored_frame 2 sample_feed) sample_feed_later"
    by (simp add: sample_feed_later_def feed_step.Insert [OF id])
  moreover have "feed_step sample_feed (delete_stored_frame 2 sample_feed)" by (rule feed_step.Delete)
  ultimately show ?thesis by (meson converse_rtranclp_into_rtranclp r_into_rtranclp)
qed

definition sample_reads :: "(int \<times> nat \<times> history_db) list" where
  "sample_reads = [(0, 1, sample_feed), (1, 2, sample_feed_later), (2, 2, sample_feed_later), (3, 2, sample_feed_later)]"

lemma sample_reads_after: "reads_after sample_feed sample_reads"
  using sample_feed_steps by (simp add: reads_after_def sample_reads_def frame_page_max_limit_def)

lemma sample_walk_valid: "validate_window sample_window = Inr ()" "validate_filters sample_filters = Inr ()"
  by code_simp+

lemma sample_walk_ids:
  "map_sum (\<lambda>_. ()) (\<lambda>(items, fin). (map fe_frame_id items, fin)) (frame_walk (first_request sample_window sample_filters) sample_reads)
     = Inr ([1, 3], True)"
  by code_simp

text \<open>C29: A client that walks the feed page by page, whatever is captured, enriched, retagged or deleted between its
  pages, gets no error, every item once, in order of capture, and only frames that existed when it
  began, as they were stored when their page was read and passing the filters then.\<close>

theorem frame_feed_exact:
  assumes "feed_reachable db" and "reads_after db ((now, l, db) # reads)"
    and "validate_window w = Inr ()" "validate_filters fl = Inr ()"
  shows "\<exists>items fin. frame_walk (first_request w fl) ((now, l, db) # reads) = Inr (items, fin)
     \<and> distinct (map fe_frame_id items) \<and> sorted_wrt (<) (map evidence_key items)
     \<and> (\<forall>e\<in>set items. fe_frame_id e \<le> current_max_frame_id db
          \<and> (\<exists>r\<in>set ((now, l, db) # reads). \<exists>f. listed w fl (current_max_frame_id db) (snd (snd r)) f
               \<and> fe_frame_id e = ef_id f \<and> fe_captured_at e = ef_captured_at f)
          \<and> (\<exists>r\<in>set ((now, l, db) # reads). \<exists>f\<in>set (hd_frames (snd (snd r))). row_to_evidence (snd (snd r)) f = Inr e))"
proof -
  note ok = feed_reachable_ok [OF assms(1)]
  let ?m = "current_max_frame_id db" and ?dbs = "(l, db) # map snd reads"
  obtain items fin where it: "frame_walk (first_request w fl) ((now, l, db) # reads) = Inr (items, fin)"
    "(map evidence_key items, fin) = page_walk (frame_read w fl ?m) None ?dbs"
    "\<forall>e\<in>set items. \<exists>r\<in>set ((now, l, db) # reads). \<exists>f\<in>set (hd_frames (snd (snd r))). row_to_evidence (snd (snd r)) f = Inr e"
    using frame_walk_start [OF ok assms(3,4,2)] by blast
  have "map evidence_key items = fst (page_walk (frame_read w fl ?m) None (map snd ((now, l, db) # reads)))"
    using it(2) by (simp add: prod_eq_iff)
  from frame_walk_once [OF ok assms(3,4,2) this] it(1,3) show ?thesis by blast
qed

theorem frame_feed_exact_witness:
  "\<exists>items fin. frame_walk (first_request sample_window sample_filters) sample_reads = Inr (items, fin)
     \<and> distinct (map fe_frame_id items) \<and> sorted_wrt (<) (map evidence_key items)"
  using frame_feed_exact [OF sample_feed_reachable sample_reads_after [unfolded sample_reads_def] sample_walk_valid]
  unfolding sample_reads_def by blast

text \<open>C30: The walk misses nothing: when it has come to its end, every frame of the window that passed the filters at every
  read is among the items; and it comes to its end, after at most one page more than there were frames.\<close>

theorem frame_feed_complete:
  assumes "feed_reachable db" and "reads_after db ((now, l, db) # reads)"
    and "validate_window w = Inr ()" "validate_filters fl = Inr ()"
    and "frame_walk (first_request w fl) ((now, l, db) # reads) = Inr (items, fin)"
  shows "(length (hd_frames db) \<le> length reads \<longrightarrow> fin)
     \<and> (fin \<longrightarrow> (\<forall>f\<in>set (hd_frames db).
          (\<forall>r\<in>set ((now, l, db) # reads). \<exists>f'. listed w fl (current_max_frame_id db) (snd (snd r)) f' \<and> ef_id f' = ef_id f)
          \<longrightarrow> ef_id f \<in> fe_frame_id ` set items))"
proof -
  note ok = feed_reachable_ok [OF assms(1)]
  let ?m = "current_max_frame_id db" and ?rs = "(now, l, db) # reads"
  note oks = reads_ok [OF ok assms(3,4,2)]
  have it: "map evidence_key items = fst (page_walk (frame_read w fl ?m) None (map snd ?rs))"
    "fin = snd (page_walk (frame_read w fl ?m) None (map snd ?rs))"
    using frame_walk_start [OF ok assms(3,4,2)] assms(5) by (auto simp: prod_eq_iff)
  have home: "ef_captured_at f' = ef_captured_at f"
    if h: "f \<in> set (hd_frames db)" "r \<in> set ?rs" "listed w fl ?m (snd (snd r)) f'" "ef_id f' = ef_id f" for f r f'
  proof -
    have "feed_step\<^sup>*\<^sup>* db (snd (snd r))" using assms(2) h(2) by (auto simp: reads_after_def)
    then have "listing_key f' \<in> listing_key ` set (hd_frames db)" by (rule listed_traced [OF ok _ h(3)])
    then obtain g where "g \<in> set (hd_frames db)" "ef_id g = ef_id f'" "ef_captured_at g = ef_captured_at f'"
      by (auto simp: listing_key_def)
    then show ?thesis using h(1,4) ok distinct_map_eq [of ef_id "hd_frames db" f g] by (simp add: feed_ok_def)
  qed
  have fin: fin if "length (hd_frames db) \<le> length reads"
  proof -
    let ?K = "listing_key ` set (hd_frames db)"
    have "card {k \<in> ?K. beyond (<) None k} \<le> length (hd_frames db)"
      using card_length [of "map listing_key (hd_frames db)"] by simp
    then have "card {k \<in> ?K. beyond (<) None k} < length (map snd ?rs)" using that by simp
    moreover have "\<forall>r\<in>set (map snd ?rs). frame_keys w fl ?m r \<subseteq> ?K"
    proof
      fix r assume "r \<in> set (map snd ?rs)"
      then have "feed_step\<^sup>*\<^sup>* db (snd r)" using assms(2) by (auto simp: reads_after_def)
      then show "frame_keys w fl ?m r \<subseteq> ?K" using listed_traced [OF ok, of "snd r" w fl]
        unfolding frame_keys_def by blast
    qed
    ultimately show ?thesis unfolding it(2) by (intro frame_feed.walk_ends [OF oks]) auto
  qed
  moreover have "ef_id f \<in> fe_frame_id ` set items"
    if "fin" "f \<in> set (hd_frames db)" "\<forall>r\<in>set ?rs. \<exists>f'. listed w fl ?m (snd (snd r)) f' \<and> ef_id f' = ef_id f" for f
  proof -
    have "\<forall>r\<in>set (map snd ?rs). listing_key f \<in> frame_keys w fl ?m r"
      using that(3) home [OF that(2)] by (fastforce simp: frame_keys_def listing_key_def image_iff)
    then have "listing_key f \<in> set (fst (page_walk (frame_read w fl ?m) None (map snd ?rs)))"
      using that(1) unfolding it(2) by (intro frame_feed.walk_complete [OF oks]) auto
    then show ?thesis unfolding it(1) [symmetric] by (auto simp: listing_key_def evidence_key_def)
  qed
  ultimately show ?thesis by blast
qed

theorem frame_feed_complete_witness:
  "\<exists>items. frame_walk (first_request sample_window sample_filters) sample_reads = Inr (items, True)
     \<and> map fe_frame_id items = [1, 3] \<and> (1 :: int) \<in> fe_frame_id ` set items"
proof -
  obtain items where it: "frame_walk (first_request sample_window sample_filters) sample_reads = Inr (items, True)"
    "map fe_frame_id items = [1, 3]"
    using sample_walk_ids by (cases "frame_walk (first_request sample_window sample_filters) sample_reads") auto
  let ?f = "sample_capture 1 10"
  have "?f \<in> set (hd_frames sample_feed)" by (simp add: sample_feed_def sample_old_store_def setup_history_metadata_def)
  moreover have "\<forall>r\<in>set sample_reads. \<exists>f'. listed sample_window sample_filters (current_max_frame_id sample_feed) (snd (snd r)) f' \<and> ef_id f' = ef_id ?f"
  proof -
    have "hd_frames sample_feed_later = [sample_capture 1 10, sample_capture 3 20, sample_capture 4 15]" by code_simp
    moreover have "hd_texts sample_feed_later 1 = None" by code_simp
    moreover have "current_max_frame_id sample_feed = 3" by code_simp
    moreover have "matches_filters sample_filters sample_feed ?f" "matches_filters sample_filters sample_feed_later ?f"
      "in_evidence_window sample_window ?f" by code_simp+
    ultimately show ?thesis using \<open>?f \<in> set (hd_frames sample_feed)\<close>
      by (auto simp: sample_reads_def listed_def sample_capture_def intro!: exI [of _ ?f])
  qed
  ultimately have "ef_id ?f \<in> fe_frame_id ` set items"
    using frame_feed_complete [OF sample_feed_reachable sample_reads_after [unfolded sample_reads_def] sample_walk_valid
      it(1) [unfolded sample_reads_def]] unfolding sample_reads_def by blast
  then show ?thesis using it by (simp add: sample_capture_def)
qed

end
