(* ===== verification/Report_Pages.thy ===== *)
theory Report_Pages
  imports Frame_Pages Report_Store
begin

text \<open>
  The saved-report feed (\<open>crates/store/src/report_pages.rs\<close>, \<open>crates/traits/src/reports.rs\<close>) over
  the report tables of \<open>Report_Store\<close>: newest first by \<open>(created_at, run_id)\<close>, a page and its
  continuation, and the detail of one run. SQLite compares text by its UTF-8 bytes, which is the
  order of the scalar values.
\<close>

section \<open>Contracts\<close>

record report_filters =
  rf_phase :: "run_phase option"
  rf_outcome :: "run_outcome_kind option"

record report_position =
  rp_created_at :: int
  rp_run_id :: ustr

record report_continuation =
  rc_max :: report_position
  rc_after :: report_position

record report_page_request =
  rpq_window :: evidence_window
  rpq_filters :: report_filters
  rpq_limit :: nat
  rpq_continuation :: "report_continuation option"

definition tuple_above_max :: "report_position \<Rightarrow> report_position \<Rightarrow> bool" where
  "tuple_above_max a m \<longleftrightarrow> rp_created_at m < rp_created_at a
     \<or> (rp_created_at a = rp_created_at m \<and> rp_run_id m < rp_run_id a)"

definition validate_report_request :: "report_page_request \<Rightarrow> history_error + unit" where
  "validate_report_request q =
     bind_r (validate_window (rpq_window q)) (\<lambda>_.
       if \<not> (1 \<le> rpq_limit q \<and> rpq_limit q \<le> 1000) then Inl InvalidRequest
       else (case rpq_continuation q of
           None \<Rightarrow> Inr ()
         | Some c \<Rightarrow> if rp_run_id (rc_after c) = [] \<or> rp_run_id (rc_max c) = [] \<or> tuple_above_max (rc_after c) (rc_max c)
             then Inl InvalidRequest else Inr ()))"

section \<open>Projections\<close>

record report_summary =
  rs_run_id :: ustr
  rs_source_id :: ustr
  rs_revision_of :: "ustr option"
  rs_requested_range :: "requested_range option"
  rs_window_start :: int
  rs_window_end :: int
  rs_timezone :: ustr
  rs_local_date :: ustr
  rs_created_at :: int
  rs_updated_at :: int
  rs_phase :: run_phase
  rs_outcome :: "run_outcome_kind option"
  rs_error_code :: "ustr option"

record report_detail_view = report_summary +
  rs_result :: "saved_report option"

definition report_error_codes :: "ustr list" where
  "report_error_codes = [lit ''INVALID_CONFIG'', lit ''NOT_FOUND'', lit ''BUSY'', lit ''SOURCE_UNAVAILABLE'',
     lit ''MODEL_UNAVAILABLE'', lit ''STORE_ERROR'', lit ''GENERATION_FAILED'', lit ''FILE_CONFLICT'', lit ''WRITE_FAILED'',
     lit ''CREDENTIAL_UNAVAILABLE'', lit ''DELIVERY_FAILED'']"

definition allowlisted_error_code :: "run_error option \<Rightarrow> ustr option" where
  "allowlisted_error_code e =
     (case e of None \<Rightarrow> None | Some x \<Rightarrow> if re_code x \<in> set report_error_codes then Some (re_code x) else None)"

text \<open>\<open>row_to_summary\<close> over the columns is the projection \<open>ReportSummary::from_run\<close> of the record.\<close>

definition summary_from_run :: "report_run \<Rightarrow> report_summary" where
  "summary_from_run r = \<lparr>rs_run_id = rn_run_id r, rs_source_id = rn_source_id r, rs_revision_of = rn_revision_of r,
     rs_requested_range = rn_requested_range r, rs_window_start = rn_window_start r, rs_window_end = rn_window_end r,
     rs_timezone = rn_timezone r, rs_local_date = rn_local_date r, rs_created_at = rn_created_at r, rs_updated_at = rn_updated_at r,
     rs_phase = rn_phase r, rs_outcome = rn_outcome r, rs_error_code = allowlisted_error_code (rn_error r)\<rparr>"

definition detail_from_run :: "report_run \<Rightarrow> report_detail_view" where
  "detail_from_run r = report_summary.extend (summary_from_run r) (report_detail_view.fields (rn_result r))"

definition report_detail :: "ustr \<Rightarrow> report_db \<Rightarrow> report_detail_view option" where
  "report_detail i db = map_option detail_from_run (run_at i db)"

section \<open>One page\<close>

definition run_key :: "report_run \<Rightarrow> int \<times> ustr" where
  "run_key r = (rn_created_at r, rn_run_id r)"

definition report_matches :: "evidence_window \<Rightarrow> report_filters \<Rightarrow> report_run \<Rightarrow> bool" where
  "report_matches w fl r \<longleftrightarrow> rn_window_start r < ew_to w \<and> ew_from w < rn_window_end r
     \<and> (case rf_phase fl of None \<Rightarrow> True | Some p \<Rightarrow> rn_phase r = p)
     \<and> (case rf_outcome fl of None \<Rightarrow> True | Some v \<Rightarrow> rn_outcome r = Some v)"

text \<open>\<open>REPORT_PAGE_FIRST_SQL\<close> and the two branches of \<open>REPORT_PAGE_AFTER_SQL\<close>.\<close>

definition report_rows :: "evidence_window \<Rightarrow> report_filters \<Rightarrow> (int \<times> ustr) option \<Rightarrow> report_db \<Rightarrow> report_run list" where
  "report_rows w fl after db =
     rev (sort_key run_key (case after of
         None \<Rightarrow> filter (report_matches w fl) (rd_runs db)
       | Some (t, i) \<Rightarrow> filter (\<lambda>r. rn_created_at r = t \<and> rn_run_id r < i \<and> report_matches w fl r) (rd_runs db)
           @ filter (\<lambda>r. rn_created_at r < t \<and> report_matches w fl r) (rd_runs db)))"

definition position_of_key :: "int \<times> ustr \<Rightarrow> report_position" where
  "position_of_key k = \<lparr>rp_created_at = fst k, rp_run_id = snd k\<rparr>"

definition max_tuple :: "report_db \<Rightarrow> report_position option" where
  "max_tuple db = map_option (position_of_key \<circ> run_key) (first_opt (rev (sort_key run_key (rd_runs db))))"

record stored_report_page =
  srp_items :: "report_summary list"
  srp_snapshot :: "report_position option"
  srp_window :: evidence_window
  srp_filters :: report_filters
  srp_next_position :: "report_position option"

definition summary_position :: "report_summary \<Rightarrow> report_position" where
  "summary_position s = \<lparr>rp_created_at = rs_created_at s, rp_run_id = rs_run_id s\<rparr>"

definition report_page :: "report_page_request \<Rightarrow> report_db \<Rightarrow> history_error + stored_report_page" where
  "report_page q db =
     bind_r (validate_report_request q) (\<lambda>_.
       (let snap = (case rpq_continuation q of Some c \<Rightarrow> Some (rc_max c) | None \<Rightarrow> max_tuple db);
            after = map_option (\<lambda>c. (rp_created_at (rc_after c), rp_run_id (rc_after c))) (rpq_continuation q);
            rows = map summary_from_run (take (rpq_limit q + 1) (report_rows (rpq_window q) (rpq_filters q) after db));
            items = take (rpq_limit q) rows
        in Inr \<lparr>srp_items = items, srp_snapshot = snap, srp_window = rpq_window q, srp_filters = rpq_filters q,
             srp_next_position = (if rpq_limit q < length rows then map_option summary_position (last_opt items) else None)\<rparr>))"

section \<open>The pages as a walk by key\<close>

definition run_listed :: "evidence_window \<Rightarrow> report_filters \<Rightarrow> report_db \<Rightarrow> report_run \<Rightarrow> bool" where
  "run_listed w fl db r \<longleftrightarrow> r \<in> set (rd_runs db) \<and> report_matches w fl r"

definition run_keys :: "evidence_window \<Rightarrow> report_filters \<Rightarrow> int \<times> ustr \<Rightarrow> nat \<times> report_db \<Rightarrow> (int \<times> ustr) set" where
  "run_keys w fl m r = {k. k \<le> m \<and> (\<exists>x. run_listed w fl (snd r) x \<and> run_key x = k)}"

definition run_position_good :: "int \<times> ustr \<Rightarrow> int \<times> ustr \<Rightarrow> bool" where
  "run_position_good m k \<longleftrightarrow> k \<le> m \<and> snd k \<noteq> []"

definition report_read_ok :: "nat \<times> report_db \<Rightarrow> bool" where
  "report_read_ok r \<longleftrightarrow> 1 \<le> fst r \<and> report_ok (snd r)"

definition report_read ::
  "evidence_window \<Rightarrow> report_filters \<Rightarrow> int \<times> ustr \<Rightarrow> nat \<times> report_db \<Rightarrow> (int \<times> ustr) option \<Rightarrow> (int \<times> ustr) list \<times> bool" where
  "report_read w fl m r after = page_of (fst r) (filter (\<lambda>k. k \<le> m) (map run_key (report_rows w fl after (snd r))))"

abbreviation newer :: "int \<times> ustr \<Rightarrow> int \<times> ustr \<Rightarrow> bool" where
  "newer a b \<equiv> b < a"

lemma set_report_rows:
  "r \<in> set (report_rows w fl after db) \<longleftrightarrow> run_listed w fl db r \<and> beyond newer after (run_key r)"
  by (cases after) (auto simp: report_rows_def run_listed_def run_key_def less_prod_def)

lemma report_rows_sorted:
  assumes "report_ok db"
  shows "sorted_wrt newer (map run_key (report_rows w fl after db))"
proof -
  have dist: "distinct (map rn_run_id (rd_runs db))" using assms by (simp add: report_ok_def)
  have "distinct (map rn_run_id (report_rows w fl after db))"
    using dist distinct_map_eq [OF dist]
    by (auto simp: report_rows_def rev_map [symmetric] distinct_map_sort distinct_map_filter split: option.split)
  then have "distinct (map snd (map run_key (report_rows w fl after db)))" by (simp add: comp_def run_key_def)
  then have d: "distinct (map run_key (report_rows w fl after db))" by (simp only: distinct_map)
  have "sorted (rev (map run_key (report_rows w fl after db)))" by (simp add: report_rows_def rev_map)
  with d have "sorted_wrt (<) (rev (map run_key (report_rows w fl after db)))" by (simp add: strict_sorted_iff)
  then show ?thesis by (simp add: sorted_wrt_rev)
qed

interpretation report_feed: keyset newer report_read_ok "run_position_good m" "run_keys w fl m" "report_read w fl m" for w fl m
proof
  fix r :: "nat \<times> report_db" and after :: "(int \<times> ustr) option" and k :: "int \<times> ustr"
  assume ok: "report_read_ok r"
  obtain l db where r: "r = (l, db)" by fastforce
  let ?ks = "filter (\<lambda>k. k \<le> m) (map run_key (report_rows w fl after db))"
  have read: "report_read w fl m r after = (take l ?ks, l < length ?ks)" by (simp add: report_read_def r page_of_simp)
  have "sorted_wrt newer (map run_key (report_rows w fl after db))"
    by (rule report_rows_sorted) (use ok in \<open>simp add: report_read_ok_def r\<close>)
  then have sorted: "sorted_wrt newer ?ks" by (rule sorted_wrt_filter)
  show "k \<in> run_keys w fl m r \<Longrightarrow> run_position_good m k"
    using ok by (auto simp: run_keys_def run_listed_def run_position_good_def report_read_ok_def report_ok_def validate_run_def r
        run_key_def split: if_splits)
  have mem: "x \<in> set ?ks \<longleftrightarrow> x \<in> run_keys w fl m r \<and> beyond newer after x" for x
    by (auto simp: set_report_rows run_keys_def r)
  show "sorted_wrt newer (fst (report_read w fl m r after))" using sorted by (simp only: read fst_conv sorted_wrt_take)
  show "k \<in> set (fst (report_read w fl m r after)) \<Longrightarrow> k \<in> run_keys w fl m r \<and> beyond newer after k"
    using mem [of k] in_set_takeD [of k l ?ks] by (simp only: read fst_conv)
  show "\<not> snd (report_read w fl m r after) \<Longrightarrow> k \<in> run_keys w fl m r \<Longrightarrow> beyond newer after k \<Longrightarrow> k \<in> set (fst (report_read w fl m r after))"
    using mem [of k] by (simp only: read fst_conv snd_conv) simp
  have more: "x \<in> set (take l ?ks) \<or> newer (last (take l ?ks)) x"
    if "l < length ?ks" "x \<in> run_keys w fl m r" "beyond newer after x" for x
    using sorted_wrt_split [OF sorted, of x l] ok mem [of x] that by (simp only: report_read_ok_def r fst_conv) simp
  have ne: "take l ?ks \<noteq> []" if "l < length ?ks"
  proof -
    have "l \<noteq> 0" using ok by (simp add: report_read_ok_def r)
    moreover have "?ks \<noteq> []" using that by (metis list.size(3) not_less_zero)
    ultimately show ?thesis by (simp only: take_eq_Nil) blast
  qed
  show "snd (report_read w fl m r after) \<Longrightarrow> fst (report_read w fl m r after) \<noteq> []
     \<and> (\<forall>k\<in>run_keys w fl m r. beyond newer after k \<longrightarrow> k \<in> set (fst (report_read w fl m r after)) \<or> newer (last (fst (report_read w fl m r after))) k)"
    unfolding read fst_conv snd_conv using more ne by blast
qed (auto intro: order.strict_trans)

section \<open>A client walking the feed\<close>

text \<open>As the HTTP adapter passes it on: a next position without a snapshot is a storage error.\<close>

fun report_walk :: "report_page_request \<Rightarrow> (nat \<times> report_db) list \<Rightarrow> history_error + (report_summary list \<times> bool)" where
  "report_walk q [] = Inr ([], False)"
| "report_walk q ((limit, db) # reads) =
     bind_r (report_page (q\<lparr>rpq_limit := limit\<rparr>) db) (\<lambda>p.
       case (srp_snapshot p, srp_next_position p) of
         (_, None) \<Rightarrow> Inr (srp_items p, True)
       | (Some m, Some pos) \<Rightarrow>
           bind_r (report_walk \<lparr>rpq_window = srp_window p, rpq_filters = srp_filters p, rpq_limit = 100,
               rpq_continuation = Some \<lparr>rc_max = m, rc_after = pos\<rparr>\<rparr> reads)
             (\<lambda>(items, fin). Inr (srp_items p @ items, fin))
       | (None, Some _) \<Rightarrow> Inl HistoryStorage)"

definition summary_key :: "report_summary \<Rightarrow> int \<times> ustr" where
  "summary_key s = (rs_created_at s, rs_run_id s)"

definition report_after :: "report_page_request \<Rightarrow> (int \<times> ustr) option" where
  "report_after q = map_option (\<lambda>c. (rp_created_at (rc_after c), rp_run_id (rc_after c))) (rpq_continuation q)"

lemma summary_key_run [simp]: "summary_key (summary_from_run r) = run_key r"
  by (simp add: summary_key_def summary_from_run_def run_key_def)

definition run_reads :: "(nat \<times> report_db) list \<Rightarrow> bool" where
  "run_reads reads \<longleftrightarrow> (\<forall>r\<in>set reads. report_ok (snd r) \<and> fst r \<in> {1..1000})"

text \<open>One page as the contract reads it, when the rows are capped at \<open>m\<close> by what is before it.\<close>

lemma report_page_result:
  assumes ok: "report_read_ok (rpq_limit q, db)" and valid: "validate_report_request q = Inr ()"
    and cap: "\<forall>x\<in>set (report_rows (rpq_window q) (rpq_filters q) (report_after q) db). run_key x \<le> m"
    and snap: "(case rpq_continuation q of Some c \<Rightarrow> Some (rc_max c) | None \<Rightarrow> max_tuple db) = snap"
  defines "r \<equiv> report_read (rpq_window q) (rpq_filters q) m (rpq_limit q, db) (report_after q)"
  shows "\<exists>p. report_page q db = Inr p \<and> srp_window p = rpq_window q \<and> srp_filters p = rpq_filters q \<and> srp_snapshot p = snap
     \<and> map summary_key (srp_items p) = fst r
     \<and> srp_next_position p = (if snd r then Some (position_of_key (last (fst r))) else None)
     \<and> (\<forall>s\<in>set (srp_items p). \<exists>x. run_listed (rpq_window q) (rpq_filters q) db x \<and> s = summary_from_run x)"
proof -
  let ?l = "rpq_limit q" and ?rows = "report_rows (rpq_window q) (rpq_filters q) (report_after q) db"
  have "filter (\<lambda>k. k \<le> m) (map run_key ?rows) = map run_key ?rows" using cap by (intro filter_True) auto
  then have r: "r = (take ?l (map run_key ?rows), ?l < length ?rows)" by (simp add: r_def report_read_def page_of_simp)
  let ?items = "take ?l (map summary_from_run (take (?l + 1) ?rows))"
  have items: "?items = map summary_from_run (take ?l ?rows)" by (simp add: take_map min_def)
  let ?p = "\<lparr>srp_items = ?items, srp_snapshot = snap, srp_window = rpq_window q, srp_filters = rpq_filters q,
      srp_next_position = (if ?l < length (map summary_from_run (take (?l + 1) ?rows)) then map_option summary_position (last_opt ?items) else None)\<rparr>"
  have "report_page q db = Inr ?p"
    using snap by (simp add: report_page_def valid Let_def report_after_def)
  moreover have "map summary_key ?items = fst r" unfolding items r by (simp add: comp_def take_map)
  moreover have "srp_next_position ?p = (if snd r then Some (position_of_key (last (fst r))) else None)"
  proof (cases "snd r")
    case True
    then have "take ?l ?rows \<noteq> []" using ok by (auto simp: r report_read_ok_def)
    then show ?thesis using True unfolding items
      by (simp add: r last_opt_def take_map last_map summary_position_def position_of_key_def summary_from_run_def run_key_def)
  qed (simp add: r)
  moreover have "\<forall>s\<in>set ?items. \<exists>x. run_listed (rpq_window q) (rpq_filters q) db x \<and> s = summary_from_run x"
    unfolding items by (auto simp: set_report_rows dest!: in_set_takeD)
  ultimately show ?thesis by auto
qed

lemma report_walk_eq:
  assumes "validate_window w = Inr ()" and "run_reads reads" and "run_position_good (rp_created_at m, rp_run_id m) k"
    and "rp_run_id m \<noteq> []"
  shows "\<exists>items fin. report_walk \<lparr>rpq_window = w, rpq_filters = fl, rpq_limit = n,
       rpq_continuation = Some \<lparr>rc_max = m, rc_after = position_of_key k\<rparr>\<rparr> reads = Inr (items, fin)
     \<and> (map summary_key items, fin) = page_walk (report_read w fl (rp_created_at m, rp_run_id m)) (Some k) reads
     \<and> (\<forall>s\<in>set items. \<exists>r\<in>set reads. \<exists>x. run_listed w fl (snd r) x \<and> s = summary_from_run x)"
  using assms(2,3)
proof (induction reads arbitrary: k n)
  case (Cons rd reads)
  obtain l d where rd: "rd = (l, d)" by fastforce
  let ?m = "(rp_created_at m, rp_run_id m)"
  let ?q = "\<lparr>rpq_window = w, rpq_filters = fl, rpq_limit = l, rpq_continuation = Some \<lparr>rc_max = m, rc_after = position_of_key k\<rparr>\<rparr>"
  let ?r = "report_read w fl ?m (l, d) (Some k)"
  have ok: "report_read_ok (l, d)" "l \<in> {1..1000}" using Cons.prems(1) by (auto simp: run_reads_def report_read_ok_def rd)
  have "k \<le> ?m" "snd k \<noteq> []" using Cons.prems(2) by (auto simp: run_position_good_def)
  then have v: "validate_report_request ?q = Inr ()" using assms(1,4) ok(2)
    by (cases k) (auto simp: validate_report_request_def tuple_above_max_def position_of_key_def less_eq_prod_def)
  have ak: "report_after ?q = Some k" by (simp add: report_after_def position_of_key_def)
  have cap: "\<forall>x\<in>set (report_rows w fl (Some k) d). run_key x \<le> ?m" using \<open>k \<le> ?m\<close> by (force simp: set_report_rows)
  have rk: "report_read_ok (rpq_limit ?q, d)" using ok(1) by simp
  from report_page_result [OF rk v, unfolded ak report_page_request.simps option.case report_continuation.simps, OF cap refl] obtain p where
    p: "report_page ?q d = Inr p" "srp_window p = w" "srp_filters p = fl" "srp_snapshot p = Some m"
    "map summary_key (srp_items p) = fst ?r" "srp_next_position p = (if snd ?r then Some (position_of_key (last (fst ?r))) else None)"
    "\<forall>s\<in>set (srp_items p). \<exists>x. run_listed w fl d x \<and> s = summary_from_run x"
    by (elim exE conjE) (rule that)
  show ?case
  proof (cases "snd ?r")
    case True
    have g: "run_position_good ?m (last (fst ?r))"
      using report_feed.page_next [OF ok(1), of ?m "Some k" w fl] True Cons.prems(2) by simp
    have "run_reads reads" using Cons.prems(1) by (simp add: run_reads_def)
    from Cons.IH [OF this g, of 100] obtain items fin where
      ih: "report_walk \<lparr>rpq_window = w, rpq_filters = fl, rpq_limit = 100,
          rpq_continuation = Some \<lparr>rc_max = m, rc_after = position_of_key (last (fst ?r))\<rparr>\<rparr> reads = Inr (items, fin)"
      "(map summary_key items, fin) = page_walk (report_read w fl ?m) (Some (last (fst ?r))) reads"
      "\<forall>s\<in>set items. \<exists>r\<in>set reads. \<exists>x. run_listed w fl (snd r) x \<and> s = summary_from_run x" by blast
    have "page_walk (report_read w fl ?m) (Some k) (rd # reads) = (map summary_key (srp_items p @ items), fin)"
      using ih(2) [symmetric] True by (simp add: prod_eq_iff walk_Cons rd p(5))
    then show ?thesis using p(1-4,6,7) True ih(1,3) by (auto simp: rd)
  next
    case False
    then have "page_walk (report_read w fl ?m) (Some k) (rd # reads) = (map summary_key (srp_items p), True)"
      by (simp add: prod_eq_iff walk_Cons rd p(5))
    then show ?thesis using p(1,4,6,7) False by (auto simp: rd)
  qed
qed (use exI [of Not False] in simp)

lemma sorted_last_le: "sorted xs \<Longrightarrow> y \<in> set xs \<Longrightarrow> y \<le> last xs"
  by (induction xs) auto

lemma first_opt_rev: "xs \<noteq> [] \<Longrightarrow> first_opt (rev xs) = Some (last xs)"
  by (cases xs rule: rev_cases) auto

lemma max_tuple_bound:
  assumes "report_ok db"
  shows "\<exists>m. rp_run_id m \<noteq> [] \<and> (\<forall>x\<in>set (rd_runs db). run_key x \<le> (rp_created_at m, rp_run_id m))
     \<and> (max_tuple db = Some m \<or> rd_runs db = [] \<and> max_tuple db = None)"
proof (cases "rd_runs db = []")
  case True
  then show ?thesis
    by (intro exI [of _ "\<lparr>rp_created_at = 0, rp_run_id = [1]\<rparr>"]) (simp add: max_tuple_def)
next
  case False
  let ?s = "sort_key run_key (rd_runs db)"
  have ne: "?s \<noteq> []" using False by (metis set_empty set_sort)
  have top: "run_key x \<le> run_key (last ?s)" if "x \<in> set (rd_runs db)" for x
  proof -
    have "sorted (map run_key ?s)" by simp
    moreover have "run_key x \<in> set (map run_key ?s)" using that by simp
    ultimately have "run_key x \<le> last (map run_key ?s)" by (rule sorted_last_le)
    then show ?thesis using ne by (simp add: last_map)
  qed
  have "last ?s \<in> set (rd_runs db)" using ne last_in_set [of ?s] by simp
  then have "rn_run_id (last ?s) \<noteq> []" using assms by (auto simp: report_ok_def validate_run_def split: if_splits)
  moreover have "max_tuple db = Some (position_of_key (run_key (last ?s)))"
    using ne by (simp add: max_tuple_def first_opt_rev)
  ultimately show ?thesis using top
    by (intro exI [of _ "position_of_key (run_key (last ?s))"]) (simp add: position_of_key_def run_key_def)
qed

lemma report_walk_start:
  assumes w: "validate_window w = Inr ()" and rs: "run_reads ((l, db) # reads)"
  shows "\<exists>m items fin. report_walk \<lparr>rpq_window = w, rpq_filters = fl, rpq_limit = n, rpq_continuation = None\<rparr> ((l, db) # reads) = Inr (items, fin)
     \<and> (map summary_key items, fin) = page_walk (report_read w fl m) None ((l, db) # reads)
     \<and> (\<forall>s\<in>set items. \<exists>r\<in>set ((l, db) # reads). \<exists>x. run_listed w fl (snd r) x \<and> s = summary_from_run x)
     \<and> (\<forall>x\<in>set (rd_runs db). run_key x \<le> m)"
proof -
  let ?q = "\<lparr>rpq_window = w, rpq_filters = fl, rpq_limit = l, rpq_continuation = None\<rparr>"
  have ok: "report_ok db" "report_read_ok (l, db)" "l \<in> {1..1000}" "run_reads reads"
    using rs by (auto simp: run_reads_def report_read_ok_def)
  obtain m where m: "rp_run_id m \<noteq> []" "\<forall>x\<in>set (rd_runs db). run_key x \<le> (rp_created_at m, rp_run_id m)"
    "max_tuple db = Some m \<or> rd_runs db = [] \<and> max_tuple db = None" using max_tuple_bound [OF ok(1)] by blast
  let ?m = "(rp_created_at m, rp_run_id m)"
  let ?r = "report_read w fl ?m (l, db) None"
  have v: "validate_report_request ?q = Inr ()" using w ok(3) by (auto simp: validate_report_request_def)
  have ak: "report_after ?q = None" by (simp add: report_after_def)
  have rk: "report_read_ok (rpq_limit ?q, db)" using ok(2) by simp
  have cap: "\<forall>x\<in>set (report_rows w fl None db). run_key x \<le> ?m" using m(2) by (simp add: set_report_rows run_listed_def)
  from report_page_result [OF rk v, unfolded ak report_page_request.simps option.case, OF cap refl] obtain p where
    p: "report_page ?q db = Inr p" "srp_window p = w" "srp_filters p = fl" "srp_snapshot p = max_tuple db"
    "map summary_key (srp_items p) = fst ?r" "srp_next_position p = (if snd ?r then Some (position_of_key (last (fst ?r))) else None)"
    "\<forall>s\<in>set (srp_items p). \<exists>x. run_listed w fl db x \<and> s = summary_from_run x"
    by (elim exE conjE) (rule that)
  show ?thesis
  proof (cases "snd ?r")
    case True
    have "last (fst ?r) \<in> set (fst ?r)" "run_position_good ?m (last (fst ?r))"
      using report_feed.page_next [OF ok(2), of ?m None w fl] True by simp_all
    then have "rd_runs db \<noteq> []"
      using report_feed.page_sound [OF ok(2), of ?m None "last (fst ?r)" w fl] by (auto simp: run_keys_def run_listed_def)
    then have some: "max_tuple db = Some m" using m(3) by simp
    from report_walk_eq [OF w ok(4) \<open>run_position_good ?m (last (fst ?r))\<close> m(1), of fl 100] obtain items fin where
      ih: "report_walk \<lparr>rpq_window = w, rpq_filters = fl, rpq_limit = 100,
          rpq_continuation = Some \<lparr>rc_max = m, rc_after = position_of_key (last (fst ?r))\<rparr>\<rparr> reads = Inr (items, fin)"
      "(map summary_key items, fin) = page_walk (report_read w fl ?m) (Some (last (fst ?r))) reads"
      "\<forall>s\<in>set items. \<exists>r\<in>set reads. \<exists>x. run_listed w fl (snd r) x \<and> s = summary_from_run x" by blast
    have "page_walk (report_read w fl ?m) None ((l, db) # reads) = (map summary_key (srp_items p @ items), fin)"
      using ih(2) [symmetric] True by (simp add: prod_eq_iff walk_Cons p(5))
    then show ?thesis using p(1-4,6,7) True ih(1,3) some m(2) by (intro exI [of _ ?m]) auto
  next
    case False
    then have "page_walk (report_read w fl ?m) None ((l, db) # reads) = (map summary_key (srp_items p), True)"
      by (simp add: prod_eq_iff walk_Cons p(5))
    then show ?thesis using p(1,4,6,7) False m(2) by (intro exI [of _ ?m]) (auto split: option.split)
  qed
qed

text \<open>C32: A client that walks the saved reports page by page, whatever is created, revised, retried or pruned between its
  pages, gets no error and every report at most once, newest first, as it was stored when its page was
  read and passing the filters then; when the walk has come to its end no report is missing that was
  listed, under the same creation time, at every read.\<close>

theorem report_feed_exact:
  assumes "validate_window w = Inr ()" and "run_reads ((l, db) # reads)"
  shows "\<exists>items fin. report_walk \<lparr>rpq_window = w, rpq_filters = fl, rpq_limit = n, rpq_continuation = None\<rparr> ((l, db) # reads) = Inr (items, fin)
     \<and> sorted_wrt newer (map summary_key items) \<and> distinct (map summary_key items)
     \<and> (\<forall>s\<in>set items. \<exists>r\<in>set ((l, db) # reads). \<exists>x. run_listed w fl (snd r) x \<and> s = summary_from_run x)
     \<and> (fin \<longrightarrow> (\<forall>k. (\<forall>r\<in>set ((l, db) # reads). \<exists>x. run_listed w fl (snd r) x \<and> run_key x = k) \<longrightarrow> k \<in> summary_key ` set items))"
proof -
  let ?rs = "(l, db) # reads"
  obtain m items fin where it: "report_walk \<lparr>rpq_window = w, rpq_filters = fl, rpq_limit = n, rpq_continuation = None\<rparr> ?rs = Inr (items, fin)"
    "(map summary_key items, fin) = page_walk (report_read w fl m) None ?rs"
    "\<forall>s\<in>set items. \<exists>r\<in>set ?rs. \<exists>x. run_listed w fl (snd r) x \<and> s = summary_from_run x"
    "\<forall>x\<in>set (rd_runs db). run_key x \<le> m"
    using report_walk_start [OF assms] by blast
  have keys: "map summary_key items = fst (page_walk (report_read w fl m) None ?rs)" "fin = snd (page_walk (report_read w fl m) None ?rs)"
    using it(2) by (simp_all only: prod_eq_iff fst_conv snd_conv)
  have oks: "list_all report_read_ok ?rs" using assms(2) by (auto simp: run_reads_def report_read_ok_def list_all_iff)
  have "sorted_wrt newer (map summary_key items)" unfolding keys(1) by (rule report_feed.walk_sorted [OF oks]) simp
  moreover have "distinct (map summary_key items)" unfolding keys(1) by (rule report_feed.walk_distinct [OF oks]) simp
  moreover have "k \<in> summary_key ` set items" if fin: fin and k: "\<forall>r\<in>set ?rs. \<exists>x. run_listed w fl (snd r) x \<and> run_key x = k" for k
  proof -
    have "k \<le> m" using k it(4) by (auto simp: run_listed_def)
    then have "\<forall>r\<in>set ?rs. k \<in> run_keys w fl m r" using k by (auto simp: run_keys_def)
    then have "k \<in> set (fst (page_walk (report_read w fl m) None ?rs))"
      using fin unfolding keys(2) by (intro report_feed.walk_complete [OF oks]) auto
    then show ?thesis unfolding keys(1) [symmetric] by simp
  qed
  ultimately show ?thesis using it(1,3) by blast
qed

definition sample_report_reads :: "(nat \<times> report_db) list" where
  "sample_report_reads = [(2, sample_reports_db), (2, report_steps [Prune 5] sample_reports_db)]"

definition all_reports :: report_filters where "all_reports = \<lparr>rf_phase = None, rf_outcome = None\<rparr>"

lemma sample_report_walk:
  "map_sum (\<lambda>_. ()) (\<lambda>(items, fin). (map rs_run_id items, fin))
     (report_walk \<lparr>rpq_window = \<lparr>ew_from = 0, ew_to = 5\<rparr>, rpq_filters = all_reports, rpq_limit = 100, rpq_continuation = None\<rparr> sample_report_reads)
     = Inr ([lit ''c'', lit ''b'', lit ''a''], True)"
  by code_simp

theorem report_feed_exact_witness:
  "\<exists>items. report_walk \<lparr>rpq_window = \<lparr>ew_from = 0, ew_to = 5\<rparr>, rpq_filters = all_reports, rpq_limit = 100, rpq_continuation = None\<rparr>
       sample_report_reads = Inr (items, True)
     \<and> map rs_run_id items = [lit ''c'', lit ''b'', lit ''a''] \<and> sorted_wrt newer (map summary_key items)"
proof -
  have w: "validate_window \<lparr>ew_from = 0, ew_to = 5\<rparr> = Inr ()" by code_simp
  have "run_reads sample_report_reads"
    using sample_reports_ok report_steps_ok [OF sample_reports_ok, of "[Prune 5]"] by (simp add: run_reads_def sample_report_reads_def)
  from report_feed_exact [OF w this [unfolded sample_report_reads_def], of all_reports 100] obtain items fin where
    it: "report_walk \<lparr>rpq_window = \<lparr>ew_from = 0, ew_to = 5\<rparr>, rpq_filters = all_reports, rpq_limit = 100, rpq_continuation = None\<rparr>
       sample_report_reads = Inr (items, fin)" "sorted_wrt newer (map summary_key items)"
    unfolding sample_report_reads_def by blast
  with sample_report_walk show ?thesis by simp
qed

end
