(* ===== verification/Page_Cursors.thy ===== *)
theory Page_Cursors
  imports Report_Pages
begin

text \<open>
  The HTTP adapters of the two feeds (\<open>crates/api/src/history.rs\<close>, \<open>crates/api/src/reports.rs\<close>):
  the strict query parser, the binary cursors and the handlers. Bytes are the integers below 256.
  The base64 engine (URL-safe, no padding) is a pair of functions; what is used of it is
  \<open>base64_contract\<close>. A query map is only looked up, so it is an association list.
\<close>

section \<open>Errors and bytes\<close>

datatype api_error = BadRequest | ApiHistoryChanged | ApiUnavailable | ApiHistoryStorage | ApiNotFound

definition history_error_of :: "history_error \<Rightarrow> api_error" where
  "history_error_of e = (case e of InvalidRequest \<Rightarrow> BadRequest | HistoryChanged \<Rightarrow> ApiHistoryChanged
     | Unavailable _ \<Rightarrow> ApiUnavailable | HistoryStorage \<Rightarrow> ApiHistoryStorage)"

definition map_err :: "('e \<Rightarrow> 'f) \<Rightarrow> 'e + 'a \<Rightarrow> 'f + 'a" where
  "map_err f r = map_sum f id r"

lemma map_err_Inr [simp]: "map_err f r = Inr x \<longleftrightarrow> r = Inr x" and map_err_ok [simp]: "map_err f (Inr x) = Inr x"
  by (cases r) (simp_all add: map_err_def)

definition is_byte :: "int \<Rightarrow> bool" where "is_byte b \<longleftrightarrow> 0 \<le> b \<and> b < 256"

text \<open>\<open>str::from_utf8\<close> accepts exactly the encodings of strings: a byte sequence is one when the lossy
  reading, which replaces every ill-formed piece, gives it back.\<close>

definition from_utf8 :: "byte list \<Rightarrow> ustr option" where
  "from_utf8 bs = (let s = from_utf8_lossy bs in if utf8_encode s = bs then Some s else None)"

text \<open>\<open>i64::to_be_bytes\<close> and \<open>from_be_bytes\<close>, two's complement.\<close>

definition to_be64 :: "int \<Rightarrow> byte list" where
  "to_be64 v = map (\<lambda>k. v div 256 ^ k mod 256) [7, 6, 5, 4, 3, 2, 1, 0]"

definition be_value :: "byte list \<Rightarrow> int" where
  "be_value bs = foldl (\<lambda>a b. a * 256 + b) 0 bs"

definition from_be64 :: "byte list \<Rightarrow> int" where
  "from_be64 bs = (let u = be_value bs in if 2 ^ 63 \<le> u then u - 2 ^ 64 else u)"

definition to_be16 :: "nat \<Rightarrow> byte list" where
  "to_be16 n = [int n div 256 mod 256, int n mod 256]"

section \<open>The query parser\<close>

definition hex_digit :: "int \<Rightarrow> int option" where
  "hex_digit b = (if 48 \<le> b \<and> b \<le> 57 then Some (b - 48) else if 65 \<le> b \<and> b \<le> 70 then Some (b - 55)
     else if 97 \<le> b \<and> b \<le> 102 then Some (b - 87) else None)"

fun decode_bytes :: "byte list \<Rightarrow> api_error + byte list" where
  "decode_bytes [] = Inr []"
| "decode_bytes (b # bs) =
     (if b = 43 then bind_r (decode_bytes bs) (\<lambda>r. Inr (32 # r))
      else if b = 37 then
        (case bs of
           h # l # rest \<Rightarrow>
             (case (hex_digit h, hex_digit l) of
                (Some x, Some y) \<Rightarrow> bind_r (decode_bytes rest) (\<lambda>r. Inr ((x * 16 + y) # r))
              | _ \<Rightarrow> Inl BadRequest)
         | _ \<Rightarrow> Inl BadRequest)
      else bind_r (decode_bytes bs) (\<lambda>r. Inr (b # r)))"

definition decode_component :: "ustr \<Rightarrow> api_error + ustr" where
  "decode_component s = bind_r (decode_bytes (utf8_encode s)) (\<lambda>bs. ok_or BadRequest (from_utf8 bs))"

type_synonym query = "(ustr \<times> ustr) list"

fun query_pairs :: "ustr list \<Rightarrow> ustr list \<Rightarrow> query \<Rightarrow> api_error + query" where
  "query_pairs names [] qs = Inr qs"
| "query_pairs names (pair # rest) qs =
     (case split_once pair [61] of
        None \<Rightarrow> Inl BadRequest
      | Some (k, v) \<Rightarrow>
          bind_r (decode_component k) (\<lambda>key.
            if key \<notin> set names then Inl BadRequest
            else bind_r (decode_component v) (\<lambda>val.
              if map_of qs key \<noteq> None then Inl BadRequest
              else query_pairs names rest (qs @ [(key, val)]))))"

definition query_fields :: "ustr option \<Rightarrow> ustr list \<Rightarrow> api_error + query" where
  "query_fields raw names =
     query_pairs names (filter (\<lambda>p. p \<noteq> []) (split_on (\<lambda>c. c = 38) (case raw of None \<Rightarrow> [] | Some r \<Rightarrow> r))) []"

definition signed_value :: "ustr \<Rightarrow> int" where
  "signed_value v = (case v of c # ds \<Rightarrow> if c = 45 then - digits_value ds else digits_value v | [] \<Rightarrow> 0)"

definition parse_integer :: "ustr \<Rightarrow> bool \<Rightarrow> api_error + int" where
  "parse_integer v signed =
     (let digits = (if signed then (case strip_prefix v [45] of Some d \<Rightarrow> d | None \<Rightarrow> v) else v)
      in if digits = [] \<or> \<not> list_all is_digit digits then Inl BadRequest
         else if in_i64 (signed_value v) then Inr (signed_value v) else Inl BadRequest)"

definition field :: "query \<Rightarrow> ustr \<Rightarrow> api_error + ustr" where
  "field qs k = ok_or BadRequest (map_of qs k)"

definition parse_window :: "query \<Rightarrow> api_error + evidence_window" where
  "parse_window qs =
     bind_r (bind_r (field qs (lit ''from'')) (\<lambda>v. parse_integer v True)) (\<lambda>f.
       bind_r (bind_r (field qs (lit ''to'')) (\<lambda>v. parse_integer v True)) (\<lambda>t.
         bind_r (map_err history_error_of (validate_window \<lparr>ew_from = f, ew_to = t\<rparr>)) (\<lambda>_.
           Inr \<lparr>ew_from = f, ew_to = t\<rparr>)))"

definition parse_limit :: "query \<Rightarrow> api_error + nat" where
  "parse_limit qs =
     (case map_of qs (lit ''limit'') of
        None \<Rightarrow> Inr 100
      | Some v \<Rightarrow> bind_r (parse_integer v False) (\<lambda>n.
          if 1 \<le> n \<and> n \<le> int frame_page_max_limit then Inr (nat n) else Inl BadRequest))"

section \<open>Frame cursors\<close>

record base64 =
  b64_encode :: "byte list \<Rightarrow> ustr"
  b64_decode :: "ustr \<Rightarrow> byte list option"

definition cursor_binary_max :: nat where "cursor_binary_max = 1 + 36 + 5 * 8 + 2 * (2 + frame_filter_max_bytes)"

definition encode_filter :: "ustr option \<Rightarrow> api_error + byte list" where
  "encode_filter f =
     (case f of
        None \<Rightarrow> Inr [255, 255]
      | Some v \<Rightarrow> if v \<noteq> to_ascii_lowercase v then Inl BadRequest else Inr (to_be16 (byte_len v mod 65536) @ utf8_encode v))"

definition encode_cursor :: "base64 \<Rightarrow> frame_page_request \<Rightarrow> api_error + ustr" where
  "encode_cursor b64 q =
     bind_r (map_err history_error_of (validate_request q)) (\<lambda>_.
       bind_r (ok_or BadRequest (fq_continuation q)) (\<lambda>c.
         bind_r (encode_filter (ff_app (fq_filters q))) (\<lambda>a.
           bind_r (encode_filter (ff_window_title (fq_filters q))) (\<lambda>t.
             (let bytes = [1] @ utf8_encode (fs_history_id (fc_snapshot c))
                    @ concat (map to_be64 [ew_from (fq_window q), ew_to (fq_window q), fs_max_frame_id (fc_snapshot c),
                        fp_captured_at (fc_after c), fp_frame_id (fc_after c)]) @ a @ t;
                  cursor = b64_encode b64 bytes
              in if 4096 < byte_len cursor then Inl BadRequest else Inr cursor)))))"

text \<open>The reader: each method gives a value and the bytes that are left.\<close>

definition take_bytes_r :: "nat \<Rightarrow> byte list \<Rightarrow> api_error + (byte list \<times> byte list)" where
  "take_bytes_r n bs = (if length bs < n then Inl BadRequest else Inr (take n bs, drop n bs))"

definition read_integer :: "byte list \<Rightarrow> api_error + (int \<times> byte list)" where
  "read_integer bs = bind_r (take_bytes_r 8 bs) (\<lambda>(v, r). Inr (from_be64 v, r))"

definition read_filter :: "byte list \<Rightarrow> api_error + (ustr option \<times> byte list)" where
  "read_filter bs =
     bind_r (take_bytes_r 2 bs) (\<lambda>(l, r).
       if be_value l = 65535 then Inr (None, r)
       else if int frame_filter_max_bytes < be_value l then Inl BadRequest
       else bind_r (take_bytes_r (nat (be_value l)) r) (\<lambda>(v, r').
         bind_r (ok_or BadRequest (from_utf8 v)) (\<lambda>s.
           if s \<noteq> to_ascii_lowercase s then Inl BadRequest else Inr (Some s, r'))))"

definition decode_cursor :: "base64 \<Rightarrow> ustr \<Rightarrow> nat \<Rightarrow> api_error + frame_page_request" where
  "decode_cursor b64 cursor limit =
     (if cursor = [] \<or> 4096 < byte_len cursor then Inl BadRequest
      else bind_r (ok_or BadRequest (b64_decode b64 cursor)) (\<lambda>bytes.
        if cursor_binary_max < length bytes then Inl BadRequest
        else bind_r (take_bytes_r 1 bytes) (\<lambda>(v, r0).
          if v \<noteq> [1] then Inl BadRequest
          else bind_r (take_bytes_r 36 r0) (\<lambda>(h, r1).
            bind_r (ok_or BadRequest (from_utf8 h)) (\<lambda>history_id.
              bind_r (read_integer r1) (\<lambda>(from, r2). bind_r (read_integer r2) (\<lambda>(upto, r3).
                bind_r (read_integer r3) (\<lambda>(maximum, r4). bind_r (read_integer r4) (\<lambda>(captured, r5).
                  bind_r (read_integer r5) (\<lambda>(frame, r6). bind_r (read_filter r6) (\<lambda>(app, r7).
                    bind_r (read_filter r7) (\<lambda>(title, r8).
                      if r8 \<noteq> [] then Inl BadRequest
                      else (let q = \<lparr>fq_window = \<lparr>ew_from = from, ew_to = upto\<rparr>,
                               fq_filters = \<lparr>ff_app = app, ff_window_title = title\<rparr>, fq_limit = limit,
                               fq_continuation = Some \<lparr>fc_snapshot = \<lparr>fs_history_id = history_id, fs_max_frame_id = maximum\<rparr>,
                                 fc_after = \<lparr>fp_captured_at = captured, fp_frame_id = frame\<rparr>\<rparr>\<rparr>
                            in bind_r (map_err history_error_of (validate_request q)) (\<lambda>_. Inr q))))))))))))))"

section \<open>The frame handler\<close>

definition frame_params :: "ustr list" where
  "frame_params = [lit ''from'', lit ''to'', lit ''app'', lit ''window_title'', lit ''limit'', lit ''cursor'']"

definition parse_frames :: "base64 \<Rightarrow> ustr option \<Rightarrow> api_error + frame_page_request" where
  "parse_frames b64 raw =
     bind_r (query_fields raw frame_params) (\<lambda>all.
       bind_r (parse_limit all) (\<lambda>limit.
         (let qs = filter (\<lambda>kv. fst kv \<noteq> lit ''limit'') all
          in case map_of qs (lit ''cursor'') of
               Some cursor \<Rightarrow> if filter (\<lambda>kv. fst kv \<noteq> lit ''cursor'') qs \<noteq> [] then Inl BadRequest
                 else decode_cursor b64 cursor limit
             | None \<Rightarrow> bind_r (parse_window qs) (\<lambda>w.
                 (let app = map_of qs (lit ''app''); title = map_of qs (lit ''window_title'')
                  in bind_r (map_err history_error_of (validate_filters \<lparr>ff_app = app, ff_window_title = title\<rparr>)) (\<lambda>_.
                       Inr \<lparr>fq_window = w, fq_filters = \<lparr>ff_app = map_option to_ascii_lowercase app,
                           ff_window_title = map_option to_ascii_lowercase title\<rparr>, fq_limit = limit, fq_continuation = None\<rparr>))))))"

record frame_page_json =
  fj_items :: "frame_evidence list"
  fj_next_cursor :: "ustr option"
  fj_history_id :: ustr
  fj_window :: evidence_window
  fj_snapshot_max_frame_id :: int
  fj_observed_at :: int

definition frames_handler ::
  "base64 \<Rightarrow> history_error + int \<Rightarrow> history_db \<Rightarrow> ustr option \<Rightarrow> api_error + frame_page_json" where
  "frames_handler b64 clock db raw =
     bind_r (parse_frames b64 raw) (\<lambda>q.
       bind_r (map_err history_error_of (frame_page clock q db)) (\<lambda>p.
         bind_r (case sp_next_position p of
             None \<Rightarrow> Inr None
           | Some pos \<Rightarrow> map_err (\<lambda>_. ApiHistoryStorage) (map_sum id Some (encode_cursor b64 (next_request p pos))))
           (\<lambda>next. Inr \<lparr>fj_items = sp_items p, fj_next_cursor = next, fj_history_id = fs_history_id (sp_snapshot p),
              fj_window = sp_window p, fj_snapshot_max_frame_id = fs_max_frame_id (sp_snapshot p),
              fj_observed_at = sp_observed_at p\<rparr>)))"

section \<open>Report cursors\<close>

definition report_phase_tag :: "run_phase option \<Rightarrow> int" where
  "report_phase_tag v = (case v of None \<Rightarrow> 0 | Some RunQueued \<Rightarrow> 1 | Some RunRunning \<Rightarrow> 2 | Some RunBlocked \<Rightarrow> 3 | Some RunFinished \<Rightarrow> 4)"

definition report_outcome_tag :: "run_outcome_kind option \<Rightarrow> int" where
  "report_outcome_tag v = (case v of None \<Rightarrow> 0 | Some OutOk \<Rightarrow> 1 | Some OutPartial \<Rightarrow> 2 | Some OutNoData \<Rightarrow> 3
     | Some OutBlocked \<Rightarrow> 4 | Some OutFailed \<Rightarrow> 5)"

definition read_phase_tag :: "int \<Rightarrow> api_error + run_phase option" where
  "read_phase_tag b = (if b = 0 then Inr None else if b = 1 then Inr (Some RunQueued) else if b = 2 then Inr (Some RunRunning)
     else if b = 3 then Inr (Some RunBlocked) else if b = 4 then Inr (Some RunFinished) else Inl BadRequest)"

definition read_outcome_tag :: "int \<Rightarrow> api_error + run_outcome_kind option" where
  "read_outcome_tag b = (if b = 0 then Inr None else if b = 1 then Inr (Some OutOk) else if b = 2 then Inr (Some OutPartial)
     else if b = 3 then Inr (Some OutNoData) else if b = 4 then Inr (Some OutBlocked) else if b = 5 then Inr (Some OutFailed)
     else Inl BadRequest)"

definition parse_phase_field :: "ustr option \<Rightarrow> api_error + run_phase option" where
  "parse_phase_field v = (case v of None \<Rightarrow> Inr None
     | Some s \<Rightarrow> if s = lit ''queued'' then Inr (Some RunQueued) else if s = lit ''running'' then Inr (Some RunRunning)
         else if s = lit ''blocked'' then Inr (Some RunBlocked) else if s = lit ''finished'' then Inr (Some RunFinished)
         else Inl BadRequest)"

definition parse_outcome_field :: "ustr option \<Rightarrow> api_error + run_outcome_kind option" where
  "parse_outcome_field v = (case v of None \<Rightarrow> Inr None
     | Some s \<Rightarrow> if s = lit ''OK'' then Inr (Some OutOk) else if s = lit ''PARTIAL'' then Inr (Some OutPartial)
         else if s = lit ''NO_DATA'' then Inr (Some OutNoData) else if s = lit ''BLOCKED'' then Inr (Some OutBlocked)
         else if s = lit ''FAILED'' then Inr (Some OutFailed) else Inl BadRequest)"

definition push_string :: "ustr \<Rightarrow> api_error + byte list" where
  "push_string v = (if 65535 < byte_len v then Inl BadRequest else Inr (to_be16 (byte_len v) @ utf8_encode v))"

definition encode_report_cursor :: "base64 \<Rightarrow> report_page_request \<Rightarrow> api_error + ustr" where
  "encode_report_cursor b64 q =
     bind_r (map_err history_error_of (validate_report_request q)) (\<lambda>_.
       bind_r (ok_or BadRequest (rpq_continuation q)) (\<lambda>c.
         bind_r (push_string (rp_run_id (rc_max c))) (\<lambda>m.
           bind_r (push_string (rp_run_id (rc_after c))) (\<lambda>a.
             (let bytes = [1] @ concat (map to_be64 [ew_from (rpq_window q), ew_to (rpq_window q),
                      rp_created_at (rc_max c), rp_created_at (rc_after c)]) @ m @ a
                    @ [report_phase_tag (rf_phase (rpq_filters q)), report_outcome_tag (rf_outcome (rpq_filters q))];
                  cursor = b64_encode b64 bytes
              in if 4096 < byte_len cursor then Inl BadRequest else Inr cursor)))))"

definition read_cursor_string :: "byte list \<Rightarrow> api_error + (ustr \<times> byte list)" where
  "read_cursor_string bs =
     bind_r (take_bytes_r 2 bs) (\<lambda>(l, r).
       if int (length r) < be_value l then Inl BadRequest
       else bind_r (take_bytes_r (nat (be_value l)) r) (\<lambda>(v, r').
         bind_r (ok_or BadRequest (from_utf8 v)) (\<lambda>s. Inr (s, r'))))"

definition decode_report_cursor :: "base64 \<Rightarrow> ustr \<Rightarrow> nat \<Rightarrow> api_error + report_page_request" where
  "decode_report_cursor b64 cursor limit =
     (if cursor = [] \<or> 4096 < byte_len cursor then Inl BadRequest
      else bind_r (ok_or BadRequest (b64_decode b64 cursor)) (\<lambda>bytes.
        bind_r (take_bytes_r 1 bytes) (\<lambda>(v, r0).
          if v \<noteq> [1] then Inl BadRequest
          else bind_r (read_integer r0) (\<lambda>(from, r1). bind_r (read_integer r1) (\<lambda>(upto, r2).
            bind_r (read_integer r2) (\<lambda>(max_created, r3). bind_r (read_integer r3) (\<lambda>(after_created, r4).
              bind_r (read_cursor_string r4) (\<lambda>(max_id, r5). bind_r (read_cursor_string r5) (\<lambda>(after_id, r6).
                bind_r (take_bytes_r 1 r6) (\<lambda>(p, r7). bind_r (read_phase_tag (hd p)) (\<lambda>phase.
                  bind_r (take_bytes_r 1 r7) (\<lambda>(t, r8). bind_r (read_outcome_tag (hd t)) (\<lambda>outcome.
                    if r8 \<noteq> [] then Inl BadRequest
                    else (let q = \<lparr>rpq_window = \<lparr>ew_from = from, ew_to = upto\<rparr>,
                             rpq_filters = \<lparr>rf_phase = phase, rf_outcome = outcome\<rparr>, rpq_limit = limit,
                             rpq_continuation = Some \<lparr>rc_max = \<lparr>rp_created_at = max_created, rp_run_id = max_id\<rparr>,
                               rc_after = \<lparr>rp_created_at = after_created, rp_run_id = after_id\<rparr>\<rparr>\<rparr>
                          in bind_r (map_err history_error_of (validate_report_request q)) (\<lambda>_. Inr q)))))))))))))))"

section \<open>The report handlers\<close>

definition report_params :: "ustr list" where
  "report_params = [lit ''from'', lit ''to'', lit ''phase'', lit ''outcome'', lit ''limit'', lit ''cursor'']"

definition parse_report_page :: "base64 \<Rightarrow> ustr option \<Rightarrow> api_error + report_page_request" where
  "parse_report_page b64 raw =
     bind_r (query_fields raw report_params) (\<lambda>all.
       bind_r (parse_limit all) (\<lambda>limit.
         (let qs = filter (\<lambda>kv. fst kv \<noteq> lit ''limit'') all
          in case map_of qs (lit ''cursor'') of
               Some cursor \<Rightarrow> if filter (\<lambda>kv. fst kv \<noteq> lit ''cursor'') qs \<noteq> [] then Inl BadRequest
                 else decode_report_cursor b64 cursor limit
             | None \<Rightarrow> bind_r (parse_window qs) (\<lambda>w.
                 bind_r (parse_phase_field (map_of qs (lit ''phase''))) (\<lambda>phase.
                   bind_r (parse_outcome_field (map_of qs (lit ''outcome''))) (\<lambda>outcome.
                     Inr \<lparr>rpq_window = w, rpq_filters = \<lparr>rf_phase = phase, rf_outcome = outcome\<rparr>, rpq_limit = limit,
                          rpq_continuation = None\<rparr>))))))"

definition report_query_error :: "history_error \<Rightarrow> api_error" where
  "report_query_error e = (if e = HistoryChanged then BadRequest else history_error_of e)"

record report_page_json =
  rj_items :: "report_summary list"
  rj_next_cursor :: "ustr option"

definition list_reports_handler :: "base64 \<Rightarrow> report_db \<Rightarrow> ustr option \<Rightarrow> api_error + report_page_json" where
  "list_reports_handler b64 db raw =
     bind_r (parse_report_page b64 raw) (\<lambda>q.
       bind_r (map_err report_query_error (report_page q db)) (\<lambda>p.
         bind_r (case (srp_snapshot p, srp_next_position p) of
             (_, None) \<Rightarrow> Inr None
           | (Some m, Some pos) \<Rightarrow> map_err (\<lambda>_. ApiHistoryStorage) (map_sum id Some (encode_report_cursor b64
               \<lparr>rpq_window = srp_window p, rpq_filters = srp_filters p, rpq_limit = 100,
                rpq_continuation = Some \<lparr>rc_max = m, rc_after = pos\<rparr>\<rparr>))
           | (None, Some _) \<Rightarrow> Inl ApiHistoryStorage)
           (\<lambda>next. Inr \<lparr>rj_items = srp_items p, rj_next_cursor = next\<rparr>)))"

definition report_detail_handler :: "report_db \<Rightarrow> ustr \<Rightarrow> api_error + report_detail_view" where
  "report_detail_handler db i = ok_or ApiNotFound (report_detail i db)"

section \<open>Bytes and back\<close>

lemma be_value_Cons: "be_value (b # bs) = b * 256 ^ length bs + be_value bs"
proof -
  have gen: "foldl (\<lambda>a b. a * 256 + b) n bs = n * 256 ^ length bs + foldl (\<lambda>a b. a * 256 + b) 0 bs" for n
  proof (induction bs arbitrary: n)
    case (Cons c bs)
    show ?case unfolding foldl_Cons Cons.IH [of "n * 256 + c"] Cons.IH [of "0 * 256 + c"] by (simp add: distrib_right)
  qed simp
  show ?thesis unfolding be_value_def foldl_Cons gen [of "0 * 256 + b"] by simp
qed

lemma be_value_digits: "be_value (map (\<lambda>k. v div 256 ^ k mod 256) (rev [0..<n])) = v mod 256 ^ n"
proof (induction n)
  case (Suc n)
  have "v mod (256 ^ n * 256) = 256 ^ n * (v div 256 ^ n mod 256) + v mod 256 ^ n" by (rule zmod_zmult2_eq) simp
  then show ?case using Suc by (simp add: be_value_Cons algebra_simps)
qed (simp add: be_value_def)

lemma to_be64_rev: "to_be64 v = map (\<lambda>k. v div 256 ^ k mod 256) (rev [0..<8])"
  by (simp add: to_be64_def upt_conv_Cons)

lemma from_be64_to_be64:
  assumes "in_i64 v"
  shows "from_be64 (to_be64 v) = v"
proof -
  have u: "be_value (to_be64 v) = v mod 2 ^ 64" unfolding to_be64_rev be_value_digits by simp
  show ?thesis
  proof (cases "0 \<le> v")
    case True
    then have "v mod 2 ^ 64 = v" using assms by (intro mod_pos_pos_trivial) (auto simp: in_i64_def i64_max_def)
    then show ?thesis using assms by (simp add: from_be64_def u in_i64_def i64_max_def)
  next
    case False
    have "(v + 2 ^ 64) mod 2 ^ 64 = v + 2 ^ 64"
      using False assms by (intro mod_pos_pos_trivial) (auto simp: in_i64_def i64_min_def)
    then have "v mod 2 ^ 64 = v + 2 ^ 64" by (simp only: mod_add_self2)
    then show ?thesis using assms False by (simp add: from_be64_def u in_i64_def i64_min_def)
  qed
qed

lemma length_to_be64 [simp]: "length (to_be64 v) = 8"
  by (simp add: to_be64_def)

lemma read_integer_be: "in_i64 v \<Longrightarrow> read_integer (to_be64 v @ r) = Inr (v, r)"
  by (simp add: read_integer_def take_bytes_r_def from_be64_to_be64)

lemma be_value_be16: "n < 65536 \<Longrightarrow> be_value (to_be16 n) = int n"
  by (simp add: be_value_def to_be16_def)

lemma length_to_be16 [simp]: "length (to_be16 n) = 2"
  by (simp add: to_be16_def)

definition wf_str :: "ustr \<Rightarrow> bool" where "wf_str s \<longleftrightarrow> list_all scalar s"

lemma from_utf8_encode: "wf_str s \<Longrightarrow> from_utf8 (utf8_encode s) = Some s"
  by (simp add: from_utf8_def wf_str_def from_utf8_lossy_encode)

lemma take_bytes_r_append: "length a = n \<Longrightarrow> take_bytes_r n (a @ r) = Inr (a, r)"
  by (auto simp: take_bytes_r_def)

lemma take_one [simp]: "take_bytes_r (Suc 0) (b # r) = Inr ([b], r)"
  by (simp add: take_bytes_r_def)

text \<open>A filter as the parser leaves it: a string in lower case within the byte bound.\<close>

definition filter_good :: "ustr option \<Rightarrow> bool" where
  "filter_good f \<longleftrightarrow> (case f of None \<Rightarrow> True
     | Some v \<Rightarrow> wf_str v \<and> to_ascii_lowercase v = v \<and> byte_len v \<le> frame_filter_max_bytes)"

lemma read_filter_encode:
  assumes "filter_good f"
  shows "\<exists>bs. encode_filter f = Inr bs \<and> length bs \<le> 2 + frame_filter_max_bytes \<and> (\<forall>r. read_filter (bs @ r) = Inr (f, r))"
proof (cases f)
  case None
  then show ?thesis by (simp add: encode_filter_def read_filter_def take_bytes_r_def be_value_def)
next
  case (Some v)
  then have v: "wf_str v" "to_ascii_lowercase v = v" "byte_len v \<le> 256"
    using assms by (simp_all add: filter_good_def frame_filter_max_bytes_def)
  have "read_filter (to_be16 (byte_len v) @ utf8_encode v @ r) = Inr (Some v, r)" for r
    using v by (simp add: read_filter_def take_bytes_r_append be_value_be16 length_utf8_encode from_utf8_encode
        frame_filter_max_bytes_def ok_or_def)
  then show ?thesis using v Some by (simp add: encode_filter_def length_utf8_encode frame_filter_max_bytes_def)
qed

lemma utf8_char_bytes: "scalar c \<Longrightarrow> list_all is_byte (utf8_char c)"
  by (auto simp: utf8_char_def is_byte_def scalar_def div_int_pos_iff)

lemma utf8_bytes: "wf_str s \<Longrightarrow> list_all is_byte (utf8_encode s)"
  using utf8_char_bytes by (auto simp: wf_str_def utf8_encode_def list_all_iff)

lemma to_be64_bytes: "list_all is_byte (to_be64 v)"
  by (simp add: to_be64_def is_byte_def)

lemma encode_filter_bytes: "filter_good f \<Longrightarrow> encode_filter f = Inr bs \<Longrightarrow> list_all is_byte bs"
  by (auto simp: filter_good_def encode_filter_def is_byte_def to_be16_def utf8_bytes split: option.splits if_splits)

lemma valid_history_chars:
  assumes "valid_history_id v"
  shows "list_all (\<lambda>c. 0 \<le> c \<and> c < 128) v \<and> length (utf8_encode v) = 36"
proof -
  let ?bs = "utf8_encode v"
  have low: "0 \<le> b \<and> b < 128" if "b \<in> set ?bs" for b
  proof -
    obtain i where "i < length ?bs" "b = ?bs ! i" using \<open>b \<in> set ?bs\<close> by (auto simp: in_set_conv_nth)
    then have "(i, b) \<in> set (enumerate 0 ?bs)" by (simp add: in_set_enumerate_eq)
    then have "if i \<in> {8, 13, 18, 23} then b = 45 else is_hex_digit b"
      using assms by (auto simp: valid_history_id_def Let_def list_all_iff)
    then show ?thesis by (auto simp: is_hex_digit_def split: if_splits)
  qed
  have "0 \<le> c \<and> c < 128" if "c \<in> set v" for c
  proof (rule ccontr)
    have mem: "b \<in> set ?bs" if "b \<in> set (utf8_char c)" for b using that \<open>c \<in> set v\<close> by (auto simp: utf8_encode_def)
    assume "\<not> (0 \<le> c \<and> c < 128)"
    then consider "c < 0" | "128 \<le> c" by linarith
    then show False
    proof cases
      case 1
      then show False using low [OF mem, of c] by (simp add: utf8_char_def)
    next
      case 2
      have "\<exists>b\<in>set (utf8_char c). 128 \<le> b"
        using 2 div_int_pos_iff [of c 64] div_int_pos_iff [of c 4096] div_int_pos_iff [of c 262144] by (auto simp: utf8_char_def)
      then show False using low mem by fastforce
    qed
  qed
  then show ?thesis using assms by (simp add: list_all_iff valid_history_id_def Let_def)
qed

lemma valid_history_wf: "valid_history_id v \<Longrightarrow> wf_str v"
  using valid_history_chars [of v] by (auto simp: wf_str_def scalar_def list_all_iff)

section \<open>Round trips\<close>

definition url_safe :: "uchar \<Rightarrow> bool" where
  "url_safe c \<longleftrightarrow> 65 \<le> c \<and> c \<le> 90 \<or> 97 \<le> c \<and> c \<le> 122 \<or> 48 \<le> c \<and> c \<le> 57 \<or> c = 45 \<or> c = 95"

text \<open>What the source relies on: decoding inverts encoding, three bytes become four characters, and
  these are letters, digits, \<open>-\<close> and \<open>_\<close>.\<close>

definition base64_contract :: "base64 \<Rightarrow> bool" where
  "base64_contract b64 \<longleftrightarrow> (\<forall>bs. list_all is_byte bs \<longrightarrow> b64_decode b64 (b64_encode b64 bs) = Some bs
     \<and> length (b64_encode b64 bs) = (4 * length bs + 2) div 3 \<and> list_all url_safe (b64_encode b64 bs))"

lemma byte_len_ascii: "list_all (\<lambda>c. c < 128) s \<Longrightarrow> byte_len s = length s"
  by (induction s) (auto simp: char_len_def)

lemma base64_len: "base64_contract b64 \<Longrightarrow> list_all is_byte bs \<Longrightarrow> byte_len (b64_encode b64 bs) = (4 * length bs + 2) div 3"
proof -
  assume "base64_contract b64" "list_all is_byte bs"
  then have l: "length (b64_encode b64 bs) = (4 * length bs + 2) div 3" "list_all url_safe (b64_encode b64 bs)"
    by (simp_all add: base64_contract_def)
  have "list_all (\<lambda>c. c < 128) (b64_encode b64 bs)" using l(2) by (auto simp: list_all_iff url_safe_def)
  from byte_len_ascii [OF this] l(1) show ?thesis by simp
qed

definition cursor_request :: "frame_page_request \<Rightarrow> bool" where
  "cursor_request q \<longleftrightarrow> validate_request q = Inr () \<and> filter_good (ff_app (fq_filters q)) \<and> filter_good (ff_window_title (fq_filters q))
     \<and> in_i64 (ew_from (fq_window q)) \<and> in_i64 (ew_to (fq_window q))
     \<and> (case fq_continuation q of None \<Rightarrow> False | Some c \<Rightarrow> in_i64 (fs_max_frame_id (fc_snapshot c)))"

lemma validate_limit: "validate_request q = Inr () \<Longrightarrow> l \<in> {1..frame_page_max_limit} \<Longrightarrow> validate_request (q\<lparr>fq_limit := l\<rparr>) = Inr ()"
  by (auto simp: validate_request_def bind_r_Inr split: if_splits option.splits)

lemma cursor_request_parts:
  assumes "cursor_request q"
  obtains c where "fq_continuation q = Some c" "in_i64 (fs_max_frame_id (fc_snapshot c))" "in_i64 (fp_captured_at (fc_after c))"
    "in_i64 (fp_frame_id (fc_after c))" "valid_history_id (fs_history_id (fc_snapshot c))"
proof -
  obtain c where c: "fq_continuation q = Some c" "in_i64 (fs_max_frame_id (fc_snapshot c))"
    using assms by (auto simp: cursor_request_def split: option.splits)
  then have "\<not> bad_continuation (fq_window q) c" using assms
    by (auto simp: cursor_request_def validate_request_def bind_r_Inr split: if_splits)
  moreover have "in_i64 (ew_from (fq_window q))" "in_i64 (ew_to (fq_window q))" using assms by (simp_all add: cursor_request_def)
  ultimately show thesis using that c by (auto simp: bad_continuation_def in_i64_def i64_min_def)
qed

text \<open>A cursor carries a request through the client unchanged: for every request that the handler can ask to
  continue, encoding succeeds within 791 characters, and decoding the cursor, with any page limit, is
  that request with the new limit.\<close>

theorem frame_cursor_roundtrip:
  assumes b64: "base64_contract b64" and "cursor_request q" and "limit \<in> {1..frame_page_max_limit}"
  shows "\<exists>c. encode_cursor b64 q = Inr c \<and> byte_len c \<le> 791 \<and> list_all url_safe c
     \<and> decode_cursor b64 c limit = Inr (q\<lparr>fq_limit := limit\<rparr>)"
proof -
  obtain c where c: "fq_continuation q = Some c" "in_i64 (fs_max_frame_id (fc_snapshot c))" "in_i64 (fp_captured_at (fc_after c))"
    "in_i64 (fp_frame_id (fc_after c))" "valid_history_id (fs_history_id (fc_snapshot c))"
    using cursor_request_parts [OF assms(2)] .
  have q: "validate_request q = Inr ()" "filter_good (ff_app (fq_filters q))" "filter_good (ff_window_title (fq_filters q))"
    "in_i64 (ew_from (fq_window q))" "in_i64 (ew_to (fq_window q))" using assms(2) by (simp_all add: cursor_request_def)
  obtain a where a: "encode_filter (ff_app (fq_filters q)) = Inr a" "length a \<le> 258" "\<And>r. read_filter (a @ r) = Inr (ff_app (fq_filters q), r)"
    using read_filter_encode [OF q(2)] by (auto simp: frame_filter_max_bytes_def)
  obtain t where t: "encode_filter (ff_window_title (fq_filters q)) = Inr t" "length t \<le> 258"
    "\<And>r. read_filter (t @ r) = Inr (ff_window_title (fq_filters q), r)"
    using read_filter_encode [OF q(3)] by (auto simp: frame_filter_max_bytes_def)
  let ?h = "fs_history_id (fc_snapshot c)"
  let ?bytes = "[1] @ utf8_encode ?h @ concat (map to_be64 [ew_from (fq_window q), ew_to (fq_window q),
      fs_max_frame_id (fc_snapshot c), fp_captured_at (fc_after c), fp_frame_id (fc_after c)]) @ a @ t"
  have h: "length (utf8_encode ?h) = 36" "from_utf8 (utf8_encode ?h) = Some ?h"
    using valid_history_chars [OF c(5)] from_utf8_encode [OF valid_history_wf [OF c(5)]] by simp_all
  have len: "length ?bytes \<le> 593" using h(1) a(2) t(2) by simp
  have bytes: "list_all is_byte ?bytes"
    using encode_filter_bytes [OF q(2) a(1)] encode_filter_bytes [OF q(3) t(1)] utf8_bytes [OF valid_history_wf [OF c(5)]]
    by (simp add: to_be64_bytes) (simp add: is_byte_def)
  let ?c = "b64_encode b64 ?bytes"
  have cl: "byte_len ?c \<le> 791" "byte_len ?c \<noteq> 0" unfolding base64_len [OF b64 bytes] using len by simp_all
  have "encode_cursor b64 q = Inr ?c"
    using cl(1) by (simp add: encode_cursor_def q(1) c(1) a(1) t(1) map_err_def ok_or_def Let_def)
  moreover have "decode_cursor b64 ?c limit = Inr (q\<lparr>fq_limit := limit\<rparr>)"
  proof -
    have d: "b64_decode b64 ?c = Some ?bytes" using b64 bytes by (simp add: base64_contract_def)
    have v: "validate_request (q\<lparr>fq_limit := limit\<rparr>) = Inr ()" by (rule validate_limit [OF q(1) assms(3)])
    have ne: "?c \<noteq> []" using cl(2) by auto
    have eq: "q\<lparr>fq_limit := limit\<rparr> = \<lparr>fq_window = \<lparr>ew_from = ew_from (fq_window q), ew_to = ew_to (fq_window q)\<rparr>,
        fq_filters = \<lparr>ff_app = ff_app (fq_filters q), ff_window_title = ff_window_title (fq_filters q)\<rparr>, fq_limit = limit,
        fq_continuation = Some \<lparr>fc_snapshot = \<lparr>fs_history_id = ?h, fs_max_frame_id = fs_max_frame_id (fc_snapshot c)\<rparr>,
          fc_after = \<lparr>fp_captured_at = fp_captured_at (fc_after c), fp_frame_id = fp_frame_id (fc_after c)\<rparr>\<rparr>\<rparr>"
      using c(1) by simp
    show ?thesis
      unfolding decode_cursor_def d
      using ne cl(1) len v a(3) t(3) [of "[]"]
      by (simp add: ok_or_def cursor_binary_max_def frame_filter_max_bytes_def h take_bytes_r_append [OF h(1)]
          read_integer_be q(4,5) c(2-4) eq [symmetric] map_err_def)
  qed
  moreover have "list_all url_safe ?c" using b64 bytes by (simp add: base64_contract_def)
  ultimately show ?thesis using cl(1) by blast
qed

text \<open>The same for the cursor of the report feed, when it is issued: run ids and filters come back exactly.\<close>

theorem report_cursor_roundtrip:
  assumes b64: "base64_contract b64" and enc: "encode_report_cursor b64 q = Inr c" and "limit \<in> {1..1000}"
    and i64: "in_i64 (ew_from (rpq_window q))" "in_i64 (ew_to (rpq_window q))"
      "\<forall>k. rpq_continuation q = Some k \<longrightarrow> in_i64 (rp_created_at (rc_max k)) \<and> in_i64 (rp_created_at (rc_after k))
         \<and> wf_str (rp_run_id (rc_max k)) \<and> wf_str (rp_run_id (rc_after k))"
  shows "decode_report_cursor b64 c limit = Inr (q\<lparr>rpq_limit := limit\<rparr>)"
proof -
  obtain k m a where k: "rpq_continuation q = Some k" "validate_report_request q = Inr ()"
    "push_string (rp_run_id (rc_max k)) = Inr m" "push_string (rp_run_id (rc_after k)) = Inr a"
    using enc by (auto simp: encode_report_cursor_def bind_r_Inr)
  let ?tags = "[report_phase_tag (rf_phase (rpq_filters q)), report_outcome_tag (rf_outcome (rpq_filters q))]"
  let ?bytes = "[1] @ concat (map to_be64 [ew_from (rpq_window q), ew_to (rpq_window q), rp_created_at (rc_max k),
      rp_created_at (rc_after k)]) @ m @ a @ ?tags"
  have c: "c = b64_encode b64 ?bytes" "byte_len c \<le> 4096"
    using enc k by (auto simp: encode_report_cursor_def bind_r_Inr Let_def split: if_splits)
  have push: "list_all is_byte bs \<and> read_cursor_string (bs @ r) = Inr (v, r)" if "push_string v = Inr bs" "wf_str v" for v bs r
    using that by (auto simp: push_string_def read_cursor_string_def to_be16_def utf8_bytes take_bytes_r_append length_utf8_encode
        from_utf8_encode ok_or_def is_byte_def take_bytes_r_def be_value_def split: if_splits)
  have wf: "wf_str (rp_run_id (rc_max k))" "wf_str (rp_run_id (rc_after k))" "in_i64 (rp_created_at (rc_max k))"
    "in_i64 (rp_created_at (rc_after k))" using i64(3) k(1) by simp_all
  have "list_all is_byte ?tags"
    by (auto simp: is_byte_def report_phase_tag_def report_outcome_tag_def split: option.split run_phase.split run_outcome_kind.split)
  then have bytes: "list_all is_byte ?bytes" using push [OF k(3) wf(1)] push [OF k(4) wf(2)]
    by (simp add: to_be64_bytes) (simp add: is_byte_def)
  then have d: "b64_decode b64 c = Some ?bytes" using b64 by (simp add: base64_contract_def c(1))
  have "byte_len c \<noteq> 0" unfolding c(1) base64_len [OF b64 bytes] by simp
  then have ne: "c \<noteq> []" by auto
  have v: "validate_report_request (q\<lparr>rpq_limit := limit\<rparr>) = Inr ()" using k(2) assms(3)
    by (auto simp: validate_report_request_def bind_r_Inr split: if_splits option.splits)
  have tags: "read_phase_tag (report_phase_tag x) = Inr x" "read_outcome_tag (report_outcome_tag y) = Inr y" for x y
    by (auto simp: read_phase_tag_def report_phase_tag_def read_outcome_tag_def report_outcome_tag_def
        split: option.split run_phase.split run_outcome_kind.split)
  have eq: "q\<lparr>rpq_limit := limit\<rparr> = \<lparr>rpq_window = \<lparr>ew_from = ew_from (rpq_window q), ew_to = ew_to (rpq_window q)\<rparr>,
      rpq_filters = \<lparr>rf_phase = rf_phase (rpq_filters q), rf_outcome = rf_outcome (rpq_filters q)\<rparr>, rpq_limit = limit,
      rpq_continuation = Some \<lparr>rc_max = \<lparr>rp_created_at = rp_created_at (rc_max k), rp_run_id = rp_run_id (rc_max k)\<rparr>,
        rc_after = \<lparr>rp_created_at = rp_created_at (rc_after k), rp_run_id = rp_run_id (rc_after k)\<rparr>\<rparr>\<rparr>"
    using k(1) by simp
  show ?thesis unfolding decode_report_cursor_def d
    using ne c(2) v
    by (simp add: ok_or_def read_integer_be i64(1,2) wf(3,4) conjunct2 [OF push [OF k(3) wf(1)]] conjunct2 [OF push [OF k(4) wf(2)]]
        tags eq [symmetric] map_err_def)
qed

section \<open>A client over HTTP\<close>

definition cursor_query :: "ustr \<Rightarrow> nat \<Rightarrow> ustr" where
  "cursor_query c limit = lit ''cursor='' @ c @ lit ''&limit='' @ display_int (int limit)"

definition next_limit :: "(int \<times> nat \<times> history_db) list \<Rightarrow> nat" where
  "next_limit reads = (case reads of [] \<Rightarrow> 100 | (_, l, _) # _ \<Rightarrow> l)"

fun http_walk :: "base64 \<Rightarrow> ustr \<Rightarrow> (int \<times> nat \<times> history_db) list \<Rightarrow> api_error + (frame_evidence list \<times> bool)" where
  "http_walk b64 raw [] = Inr ([], False)"
| "http_walk b64 raw ((now, limit, db) # reads) =
     bind_r (frames_handler b64 (Inr now) db (Some raw)) (\<lambda>p.
       case fj_next_cursor p of
         None \<Rightarrow> Inr (fj_items p, True)
       | Some c \<Rightarrow> bind_r (http_walk b64 (cursor_query c (next_limit reads)) reads) (\<lambda>(items, fin). Inr (fj_items p @ items, fin)))"

lemma split_on_first: "\<not> list_ex P a \<Longrightarrow> P c \<Longrightarrow> split_on P (a @ c # b) = a # split_on P b"
  by (induction a) auto

lemma split_on_none: "\<not> list_ex P a \<Longrightarrow> split_on P a = [a]"
  by (induction a) auto

lemma split_once_at: "x \<notin> set a \<Longrightarrow> split_once (a @ x # r) [x] = Some (a, r)"
  by (induction a) auto

definition plain :: "uchar \<Rightarrow> bool" where "plain c \<longleftrightarrow> 0 \<le> c \<and> c < 128 \<and> c \<notin> {37, 38, 43, 61}"

lemma plain_encode: "list_all plain s \<Longrightarrow> utf8_encode s = s"
proof (induction s)
  case (Cons c s)
  then have "utf8_char c = [c]" by (simp add: utf8_char_def plain_def)
  then show ?case using Cons by (simp add: utf8_encode_def)
qed (simp add: utf8_encode_def)

lemma decode_bytes_plain: "list_all plain s \<Longrightarrow> decode_bytes s = Inr s"
proof (induction s)
  case (Cons c s)
  then have "c \<noteq> 43" "c \<noteq> 37" "decode_bytes s = Inr s" by (simp_all add: plain_def)
  then show ?case by simp
qed simp

lemma plain_wf: "list_all plain s \<Longrightarrow> wf_str s"
  unfolding wf_str_def by (erule list.pred_mono_strong) (simp add: scalar_def plain_def)

lemma decode_plain:
  assumes "list_all plain s"
  shows "decode_component s = Inr s"
proof -
  have "from_utf8 s = Some s" using from_utf8_encode [OF plain_wf [OF assms]] unfolding plain_encode [OF assms] .
  then show ?thesis unfolding decode_component_def plain_encode [OF assms] decode_bytes_plain [OF assms] by simp
qed

lemma digits_plain: "list_all is_digit s \<Longrightarrow> list_all plain s"
  by (auto simp: list_all_iff is_digit_def plain_def)

lemma url_safe_plain: "list_all url_safe s \<Longrightarrow> list_all plain s"
  by (auto simp: list_all_iff url_safe_def plain_def)

lemma parse_limit_display:
  assumes "limit \<in> {1..frame_page_max_limit}" and "map_of qs (lit ''limit'') = Some (display_int (int limit))"
  shows "parse_limit qs = Inr limit"
proof -
  note d = digits_of_value [of "int limit", simplified]
  have "in_i64 (int limit)" using assms(1) by (simp add: in_i64_def i64_min_def i64_max_def frame_page_max_limit_def)
  moreover have "signed_value (digits_of (int limit)) = int limit"
    using d by (cases "digits_of (int limit)") (auto simp: signed_value_def is_digit_def)
  ultimately have "parse_integer (display_int (int limit)) False = Inr (int limit)"
    using d by (simp add: parse_integer_def display_int_def)
  then show ?thesis using assms by (simp add: parse_limit_def)
qed

lemma parse_cursor_query:
  assumes "list_all url_safe c" and "limit \<in> {1..frame_page_max_limit}"
  shows "parse_frames b64 (Some (cursor_query c limit)) = decode_cursor b64 c limit"
proof -
  let ?d = "display_int (int limit)"
  have d: "list_all plain ?d" using digits_of_value [of "int limit"] digits_plain by (simp add: display_int_def)
  have cp: "list_all plain c" using assms(1) by (rule url_safe_plain)
  have names: "list_all plain (lit ''cursor'')" "list_all plain (lit ''limit'')" by (simp_all add: plain_def)
  have nosep: "\<not> list_ex (\<lambda>c. c = 38) s" "61 \<notin> set s" if "list_all plain s" for s
    using that by (auto simp: list_all_iff list_ex_iff plain_def)
  have raw: "cursor_query c limit = (lit ''cursor'' @ 61 # c) @ 38 # (lit ''limit'' @ 61 # ?d)" by (simp add: cursor_query_def)
  have "split_on (\<lambda>c. c = 38) (cursor_query c limit) = [lit ''cursor'' @ 61 # c, lit ''limit'' @ 61 # ?d]"
    unfolding raw by (subst split_on_first) (use nosep [OF cp] nosep [OF d] in \<open>auto simp: split_on_none\<close>)
  moreover have known: "lit ''cursor'' \<in> set frame_params" "lit ''limit'' \<in> set frame_params" "lit ''cursor'' \<noteq> lit ''limit''"
    by code_simp+
  ultimately have qf: "query_fields (Some (cursor_query c limit)) frame_params = Inr [(lit ''cursor'', c), (lit ''limit'', ?d)]"
    unfolding query_fields_def
    using split_once_at [OF nosep(2) [OF names(1)]] split_once_at [OF nosep(2) [OF names(2)]]
    by (simp add: decode_plain names cp d del: lit_Cons lit_Nil)
  have "parse_limit [(lit ''cursor'', c), (lit ''limit'', ?d)] = Inr limit"
    by (rule parse_limit_display [OF assms(2)]) (use known(3) in \<open>simp del: lit_Cons lit_Nil\<close>)
  then show ?thesis unfolding parse_frames_def qf using known(3) by (simp del: lit_Cons lit_Nil)
qed

text \<open>Whatever bytes it reads, the lossy reader gives scalar values, so the strict one gives strings.\<close>

lemma scalar_replacement: "scalar replacement"
  by (simp add: scalar_def replacement_def)

lemma scalar2: "194 \<le> a \<Longrightarrow> a < 224 \<Longrightarrow> cont b \<Longrightarrow> scalar ((a - 192) * 64 + (b - 128))"
  unfolding scalar_def cont_def by auto

lemma scalar3: "224 \<le> a \<Longrightarrow> a < 240 \<Longrightarrow> second3 a b \<Longrightarrow> cont c \<Longrightarrow> scalar ((a - 224) * 4096 + (b - 128) * 64 + (c - 128))"
  unfolding scalar_def second3_def cont_def by (cases "a = 237") (auto split: if_splits)

lemma scalar4: "240 \<le> a \<Longrightarrow> a < 245 \<Longrightarrow> second4 a b \<Longrightarrow> cont c \<Longrightarrow> cont d
     \<Longrightarrow> scalar ((a - 240) * 262144 + (b - 128) * 4096 + (c - 128) * 64 + (d - 128))"
  unfolding scalar_def second4_def cont_def by (cases "a = 244") (auto split: if_splits)

lemma decode_char_tail: "set (snd (decode_char a bs)) \<subseteq> set bs"
  by (auto simp: decode_char_def split: list.splits if_splits)

lemma decode_char_scalar:
  assumes "0 \<le> a"
  shows "scalar (fst (decode_char a bs))"
proof -
  consider "a < 128" | "194 \<le> a" "a < 224" | "224 \<le> a" "a < 240" | "240 \<le> a" "a < 245"
    | "128 \<le> a" "a < 194 \<or> 245 \<le> a" by linarith
  then show ?thesis
  proof cases
    case 1
    then show ?thesis using assms by (simp add: decode_char_def scalar_def)
  next
    case 2
    then show ?thesis using scalar2 [OF 2] scalar_replacement by (cases bs) (simp_all add: decode_char_def)
  next
    case 3
    then show ?thesis using scalar3 [OF 3] scalar_replacement by (simp add: decode_char_def split: list.split)
  next
    case 4
    then show ?thesis using scalar4 [OF 4] scalar_replacement by (simp add: decode_char_def split: list.split)
  next
    case 5
    then show ?thesis by (auto simp: decode_char_def scalar_replacement)
  qed
qed

lemma lossy_wf: "list_all is_byte bs \<Longrightarrow> wf_str (from_utf8_lossy bs)"
proof (induction bs rule: from_utf8_lossy.induct)
  case (2 a bs)
  have "list_all is_byte (snd (decode_char a bs))"
    using decode_char_tail [of a bs] 2(2) by (auto simp: list_all_iff)
  then have "wf_str (from_utf8_lossy (snd (decode_char a bs)))" by (rule 2(1))
  moreover have "0 \<le> a" using 2(2) by (simp add: is_byte_def)
  ultimately show ?case using decode_char_scalar [of a bs] by (simp add: wf_str_def)
qed (simp add: wf_str_def)

lemma from_utf8_wf: "list_all is_byte bs \<Longrightarrow> from_utf8 bs = Some s \<Longrightarrow> wf_str s"
  using lossy_wf [of bs] by (auto simp: from_utf8_def Let_def split: if_splits)

lemma decode_bytes_bytes: "decode_bytes bs = Inr rs \<Longrightarrow> list_all is_byte bs \<Longrightarrow> list_all is_byte rs"
proof (induction bs arbitrary: rs rule: decode_bytes.induct)
  case (2 b bs)
  have hex: "0 \<le> x \<and> x < 16" if "hex_digit h = Some x" for h x using that by (auto simp: hex_digit_def split: if_splits)
  show ?case
  proof (cases "b = 37")
    case True
    then obtain h l rest x y r where r: "bs = h # l # rest" "hex_digit h = Some x" "hex_digit l = Some y"
      "decode_bytes rest = Inr r" "rs = (x * 16 + y) # r"
      using 2(4) by (auto simp: bind_r_Inr split: list.splits option.splits)
    have "list_all is_byte r" using 2(2) [OF _ True r(1) _ refl] True r 2(5) by auto
    moreover have "is_byte (x * 16 + y)" using hex [OF r(2)] hex [OF r(3)] by (simp add: is_byte_def)
    ultimately show ?thesis by (simp add: r(5))
  next
    case False
    then show ?thesis using 2 by (auto simp: bind_r_Inr is_byte_def split: if_splits)
  qed
qed simp

lemma decode_component_wf: "wf_str s \<Longrightarrow> decode_component s = Inr t \<Longrightarrow> wf_str t"
  using decode_bytes_bytes utf8_bytes from_utf8_wf by (fastforce simp: decode_component_def bind_r_Inr)

lemma scalar_lower: "wf_str s \<Longrightarrow> wf_str (to_ascii_lowercase s) \<and> byte_len (to_ascii_lowercase s) = byte_len s"
  by (induction s) (auto simp: wf_str_def to_ascii_lowercase_def ascii_lower_char_def scalar_def char_len_def)

lemma split_on_sets: "p \<in> set (split_on P s) \<Longrightarrow> set p \<subseteq> set s"
proof (induction s arbitrary: p)
  case (Cons c s)
  obtain w ws where w: "split_on P s = w # ws" by (cases "split_on P s") auto
  then have "set w \<subseteq> set s" "\<And>p. p \<in> set ws \<Longrightarrow> set p \<subseteq> set s" using Cons.IH by simp_all
  then show ?case using Cons.prems by (auto simp: w split: if_splits)
qed simp

lemma split_once_sets: "split_once s [x] = Some (a, b) \<Longrightarrow> set a \<union> set b \<subseteq> set s"
  by (induction s arbitrary: a) (auto split: if_splits)

lemma wf_str_sub: "wf_str s \<Longrightarrow> set p \<subseteq> set s \<Longrightarrow> wf_str p"
  by (auto simp: wf_str_def list_all_iff)

lemma query_pairs_wf:
  "query_pairs names ps qs = Inr rs \<Longrightarrow> \<forall>p\<in>set ps. wf_str p \<Longrightarrow> \<forall>kv\<in>set qs. wf_str (snd kv) \<Longrightarrow> \<forall>kv\<in>set rs. wf_str (snd kv)"
proof (induction names ps qs rule: query_pairs.induct)
  case (2 names pair rest qs)
  from 2(2) obtain k v key val where p: "split_once pair [61] = Some (k, v)" "decode_component k = Inr key" "key \<in> set names"
    "decode_component v = Inr val" "map_of qs key = None" "query_pairs names rest (qs @ [(key, val)]) = Inr rs"
    by (auto simp: bind_r_Inr split: option.splits if_splits)
  have "wf_str v" using wf_str_sub [of pair v] split_once_sets [OF p(1)] 2(3) by simp
  then have "wf_str val" using decode_component_wf p(4) by blast
  then have ext: "\<forall>kv\<in>set (qs @ [(key, val)]). wf_str (snd kv)" using 2(4) by auto
  have rest: "\<forall>p\<in>set rest. wf_str p" using 2(3) by simp
  show ?case using 2(1) [OF p(1) refl _ _ p(6) rest ext] p(3,5) by simp
qed simp

lemma query_fields_wf:
  assumes "query_fields (Some raw) names = Inr rs" and "wf_str raw" and "(k, v) \<in> set rs"
  shows "wf_str v"
proof -
  have "\<forall>p\<in>set (filter (\<lambda>p. p \<noteq> []) (split_on (\<lambda>c. c = 38) raw)). wf_str p"
    using wf_str_sub [OF assms(2) split_on_sets] by auto
  then have "\<forall>kv\<in>set rs. wf_str (snd kv)"
    using query_pairs_wf [OF assms(1) [unfolded query_fields_def option.case]] by simp
  then show ?thesis using assms(3) by fastforce
qed

lemma parse_integer_range: "parse_integer v s = Inr n \<Longrightarrow> in_i64 n"
  by (auto simp: parse_integer_def Let_def split: if_splits)

lemma parse_window_range: "parse_window qs = Inr w \<Longrightarrow> in_i64 (ew_from w) \<and> in_i64 (ew_to w)"
  using parse_integer_range by (auto simp: parse_window_def bind_r_Inr)

text \<open>What the parser hands on of a first request can be carried by a cursor.\<close>

definition portable :: "frame_page_request \<Rightarrow> bool" where
  "portable q \<longleftrightarrow> filter_good (ff_app (fq_filters q)) \<and> filter_good (ff_window_title (fq_filters q))
     \<and> in_i64 (ew_from (fq_window q)) \<and> in_i64 (ew_to (fq_window q))"

lemma decode_cursor_continues: "decode_cursor b64 c limit = Inr q \<Longrightarrow> fq_continuation q \<noteq> None"
  by (auto simp: decode_cursor_def bind_r_Inr Let_def split: if_splits prod.splits)

lemma filter_good_lower: "wf_str v \<Longrightarrow> byte_len v \<le> frame_filter_max_bytes \<Longrightarrow> filter_good (Some (to_ascii_lowercase v))"
  using scalar_lower [of v] by (simp add: filter_good_def)

lemma parse_frames_portable:
  assumes "parse_frames b64 (Some raw) = Inr q" and "wf_str raw" and "fq_continuation q = None"
  shows "portable q"
proof -
  obtain all limit where all: "query_fields (Some raw) frame_params = Inr all" "parse_limit all = Inr limit"
    using assms(1) by (auto simp: parse_frames_def bind_r_Inr)
  let ?qs = "filter (\<lambda>kv. fst kv \<noteq> lit ''limit'') all"
  have nc: "map_of ?qs (lit ''cursor'') = None"
    using assms(1,3) decode_cursor_continues [of b64 _ limit q]
    by (auto simp: parse_frames_def all Let_def simp del: lit_Cons split: option.splits if_splits)
  obtain w where w: "parse_window ?qs = Inr w"
    "validate_filters \<lparr>ff_app = map_of ?qs (lit ''app''), ff_window_title = map_of ?qs (lit ''window_title'')\<rparr> = Inr ()"
    "q = \<lparr>fq_window = w, fq_filters = \<lparr>ff_app = map_option to_ascii_lowercase (map_of ?qs (lit ''app'')),
        ff_window_title = map_option to_ascii_lowercase (map_of ?qs (lit ''window_title''))\<rparr>, fq_limit = limit, fq_continuation = None\<rparr>"
    using assms(1) by (auto simp: parse_frames_def all nc Let_def bind_r_Inr simp del: lit_Cons)
  have wf: "wf_str v" if "map_of ?qs k = Some v" for k v
  proof -
    have "(k, v) \<in> set all" using map_of_SomeD [OF that] by simp
    then show ?thesis by (rule query_fields_wf [OF all(1) assms(2)])
  qed
  have "filter_good (map_option to_ascii_lowercase (map_of ?qs k))"
    if "k = lit ''app'' \<or> k = lit ''window_title''" for k
  proof (cases "map_of ?qs k")
    case (Some v)
    then have "byte_len v \<le> frame_filter_max_bytes" using w(2) that
      by (auto simp: validate_filters_def opt_list_def simp del: lit_Cons split: if_splits)
    then show ?thesis using filter_good_lower wf [OF Some] Some by simp
  qed (simp add: filter_good_def)
  then show ?thesis using parse_window_range [OF w(1)] by (simp add: portable_def w(3) del: lit_Cons)
qed

lemma frame_page_next:
  assumes ok: "feed_ok db" and pg: "frame_page (Inr now) q db = Inr p" and pos: "sp_next_position p = Some pos"
    and port: "portable q"
  shows "cursor_request (next_request p pos) \<and> portable (next_request p pos)"
proof -
  let ?m = "\<lparr>hm_history_id = the (hd_history_id db), hm_high_water = high_water db\<rparr>"
  note meta = feed_metadata [OF ok]
  have v: "validate_request q = Inr ()" using pg by (auto simp: frame_page_def bind_r_Inr)
  obtain snap where snap: "page_snapshot q db ?m = Inr snap"
    using pg meta by (auto simp: frame_page_def bind_r_Inr)
  have w: "ew_from (fq_window q) < ew_to (fq_window q)" "1 \<le> fq_limit q" "validate_filters (fq_filters q) = Inr ()"
    using v by (auto simp: validate_request_def bind_r_Inr validate_window_def split: if_splits)
  have rok: "frame_read_ok (fq_window q) (fq_limit q, db)" using ok w by (simp add: frame_read_ok_def)
  have al: "allowed (frame_position_good (fq_window q)) (after_key q)"
    using v by (auto simp: validate_request_def bind_r_Inr after_key_def bad_continuation_def frame_position_good_def
        split: option.splits if_splits)
  let ?r = "frame_read (fq_window q) (fq_filters q) (fs_max_frame_id snap) (fq_limit q, db) (after_key q)"
  from page_result [OF ok v snap, of now] pg pos have p: "sp_window p = fq_window q" "sp_filters p = fq_filters q"
    "sp_snapshot p = snap" "snd ?r" "(fp_captured_at pos, fp_frame_id pos) = last (fst ?r)"
    by (auto split: if_splits)
  have "last (fst ?r) \<in> set (fst ?r)" using frame_feed.page_next [OF rok al p(4)] by blast
  then have good: "frame_position_good (fq_window q) (fp_captured_at pos, fp_frame_id pos) \<and> fp_frame_id pos \<le> fs_max_frame_id snap"
    using page_keys_good [OF rok al] unfolding p(5) [symmetric] by fastforce
  have hs: "valid_history_id (fs_history_id snap)" "fs_max_frame_id snap \<le> high_water db"
    using snap meta current_max_bounds [OF ok] by (auto simp: page_snapshot_def split: option.splits if_splits)
  have mx: "in_i64 (fs_max_frame_id snap)" "0 < fs_max_frame_id snap"
    using hs(2) meta good by (auto simp: frame_position_good_def in_i64_def i64_min_def)
  have "validate_request (next_request p pos) = Inr ()"
    using w good hs(1) mx(2) by (simp add: validate_request_def next_request_def p(1-3) bad_continuation_def frame_position_good_def
        validate_window_def frame_page_max_limit_def)
  then show ?thesis using port mx(1) by (simp add: cursor_request_def portable_def next_request_def p(1-3))
qed

lemma frames_handler_page:
  assumes b64: "base64_contract b64" and ok: "feed_ok db" and q: "parse_frames b64 (Some raw) = Inr q" "portable q"
  shows "frames_handler b64 (Inr now) db (Some raw) = (case frame_page (Inr now) q db of
       Inl e \<Rightarrow> Inl (history_error_of e)
     | Inr p \<Rightarrow> Inr \<lparr>fj_items = sp_items p,
         fj_next_cursor = (case sp_next_position p of None \<Rightarrow> None
            | Some pos \<Rightarrow> (case encode_cursor b64 (next_request p pos) of Inr c \<Rightarrow> Some c | Inl _ \<Rightarrow> None)),
         fj_history_id = fs_history_id (sp_snapshot p), fj_window = sp_window p,
         fj_snapshot_max_frame_id = fs_max_frame_id (sp_snapshot p), fj_observed_at = sp_observed_at p\<rparr>)"
proof (cases "frame_page (Inr now) q db")
  case (Inr p)
  show ?thesis
  proof (cases "sp_next_position p")
    case (Some pos)
    have "cursor_request (next_request p pos)" using frame_page_next [OF ok Inr Some q(2)] by simp
    then obtain c where "encode_cursor b64 (next_request p pos) = Inr c"
      using frame_cursor_roundtrip [OF b64, of _ 1] by (auto simp: frame_page_max_limit_def)
    then show ?thesis by (simp add: frames_handler_def q(1) Inr Some)
  qed (simp add: frames_handler_def q(1) Inr)
qed (simp add: frames_handler_def q(1) map_err_def)

lemma http_walk_eq:
  assumes b64: "base64_contract b64"
  shows "\<forall>r\<in>set reads. feed_ok (snd (snd r)) \<and> fst (snd r) \<in> {1..frame_page_max_limit} \<Longrightarrow> reads \<noteq> []
     \<Longrightarrow> parse_frames b64 (Some raw) = Inr q \<Longrightarrow> portable q \<Longrightarrow> fq_limit q = next_limit reads
     \<Longrightarrow> http_walk b64 raw reads = map_err history_error_of (frame_walk q reads)"
proof (induction reads arbitrary: raw q)
  case (Cons rd reads)
  obtain now l db where rd: "rd = (now, l, db)" by (cases rd) auto
  have ok: "feed_ok db" and lim: "q\<lparr>fq_limit := l\<rparr> = q" using Cons.prems(1,5) by (auto simp: rd next_limit_def)
  note h = frames_handler_page [OF b64 ok Cons.prems(3,4), of now]
  show ?case
  proof (cases "frame_page (Inr now) q db")
    case (Inl e)
    then show ?thesis by (simp add: rd h lim map_err_def)
  next
    case (Inr p)
    show ?thesis
    proof (cases "sp_next_position p")
      case None
      then show ?thesis by (simp add: rd h lim Inr)
    next
      case (Some pos)
      note nx = frame_page_next [OF ok Inr Some Cons.prems(4)]
      have lr: "next_limit reads \<in> {1..frame_page_max_limit}"
        using Cons.prems(1) by (cases reads) (auto simp: next_limit_def frame_page_max_limit_def)
      obtain c where c: "encode_cursor b64 (next_request p pos) = Inr c" "list_all url_safe c"
        "decode_cursor b64 c (next_limit reads) = Inr ((next_request p pos)\<lparr>fq_limit := next_limit reads\<rparr>)"
        using frame_cursor_roundtrip [OF b64 conjunct1 [OF nx] lr] by blast
      have "http_walk b64 (cursor_query c (next_limit reads)) reads = map_err history_error_of (frame_walk (next_request p pos) reads)"
      proof (cases "reads = []")
        case False
        have "parse_frames b64 (Some (cursor_query c (next_limit reads))) = Inr ((next_request p pos)\<lparr>fq_limit := next_limit reads\<rparr>)"
          using parse_cursor_query [OF c(2) lr] c(3) by simp
        from Cons.IH [OF _ False this] nx Cons.prems(1)
        have "http_walk b64 (cursor_query c (next_limit reads)) reads
            = map_err history_error_of (frame_walk ((next_request p pos)\<lparr>fq_limit := next_limit reads\<rparr>) reads)"
          by (simp add: portable_def)
        also have "frame_walk ((next_request p pos)\<lparr>fq_limit := next_limit reads\<rparr>) reads = frame_walk (next_request p pos) reads"
          using False by (cases reads) auto
        finally show ?thesis .
      qed simp
      then show ?thesis
        by (cases "frame_walk (next_request p pos) reads") (auto simp: rd h lim Inr Some c(1) map_err_def)
    qed
  qed
qed simp

text \<open>C31: Over HTTP nothing is lost between the pages: a client that follows the cursors from a first query gets exactly the
  items of the walk over the store, whatever happens between its requests, and errors only where the walk has them.\<close>

theorem http_feed_refines:
  assumes "base64_contract b64" and "wf_str raw" and "parse_frames b64 (Some raw) = Inr q" and "fq_continuation q = None"
    and "fq_limit q = l" and "feed_reachable db" and "reads_after db ((now, l, db) # reads)"
  shows "http_walk b64 raw ((now, l, db) # reads) = map_err history_error_of (frame_walk q ((now, l, db) # reads))"
proof (rule http_walk_eq [OF assms(1) _ _ assms(3)])
  show "portable q" by (rule parse_frames_portable [OF assms(3,2,4)])
  show "\<forall>r\<in>set ((now, l, db) # reads). feed_ok (snd (snd r)) \<and> fst (snd r) \<in> {1..frame_page_max_limit}"
    using assms(7) feed_steps_later [OF _ feed_reachable_ok [OF assms(6)]] by (auto simp: reads_after_def feed_later_def)
qed (simp_all add: next_limit_def assms(5))

section \<open>Samples\<close>

text \<open>An engine that keeps the contract: three bytes as four characters.\<close>

fun sextets :: "byte list \<Rightarrow> int list" where
  "sextets [] = []"
| "sextets [a] = [a div 4, a mod 4 * 16]"
| "sextets [a, b] = [a div 4, a mod 4 * 16 + b div 16, b mod 16 * 4]"
| "sextets (a # b # c # r) = [a div 4, a mod 4 * 16 + b div 16, b mod 16 * 4 + c div 64, c mod 64] @ sextets r"

fun unsextets :: "int list \<Rightarrow> byte list option" where
  "unsextets [] = Some []"
| "unsextets [s] = None"
| "unsextets [s, t] = Some [s * 4 + t div 16]"
| "unsextets [s, t, u] = Some [s * 4 + t div 16, t mod 16 * 16 + u div 4]"
| "unsextets (s # t # u # v # r) =
     map_option (\<lambda>bs. [s * 4 + t div 16, t mod 16 * 16 + u div 4, u mod 4 * 64 + v] @ bs) (unsextets r)"

definition sextet_char :: "int \<Rightarrow> uchar" where
  "sextet_char n = (if n < 26 then n + 65 else if n < 52 then n + 71 else if n < 62 then n - 4 else if n = 62 then 45 else 95)"

definition char_sextet :: "uchar \<Rightarrow> int" where
  "char_sextet c = (if c = 45 then 62 else if c = 95 then 63 else if c < 58 then c + 4 else if c < 91 then c - 65 else c - 71)"

definition sample_base64 :: base64 where
  "sample_base64 = \<lparr>b64_encode = (\<lambda>bs. map sextet_char (sextets bs)), b64_decode = (\<lambda>s. unsextets (map char_sextet s))\<rparr>"

lemma byte_parts: "is_byte a \<Longrightarrow> 0 \<le> a div 4 \<and> a div 4 < 64 \<and> 0 \<le> a div 16 \<and> a div 16 < 16 \<and> 0 \<le> a div 64 \<and> a div 64 < 4"
  by (auto simp: is_byte_def)

lemma mod_parts:
  fixes x y :: int
  shows "0 \<le> y \<Longrightarrow> y < 16 \<Longrightarrow> 0 \<le> x mod 4 * 16 + y \<and> x mod 4 * 16 + y < 64"
    and "0 \<le> y \<Longrightarrow> y < 4 \<Longrightarrow> 0 \<le> x mod 16 * 4 + y \<and> x mod 16 * 4 + y < 64"
proof -
  have "0 \<le> x mod 4" "x mod 4 < 4" "0 \<le> x mod 16" "x mod 16 < 16" by simp_all
  then show "0 \<le> y \<Longrightarrow> y < 16 \<Longrightarrow> 0 \<le> x mod 4 * 16 + y \<and> x mod 4 * 16 + y < 64"
    and "0 \<le> y \<Longrightarrow> y < 4 \<Longrightarrow> 0 \<le> x mod 16 * 4 + y \<and> x mod 16 * 4 + y < 64" by linarith+
qed

lemma sextets_range: "list_all is_byte bs \<Longrightarrow> list_all (\<lambda>n. 0 \<le> n \<and> n < 64) (sextets bs)"
proof (induction bs rule: sextets.induct)
  case (2 a)
  then show ?case using byte_parts [of a] mod_parts(1) [of 0 a] by simp
next
  case (3 a b)
  then show ?case using byte_parts [of a] byte_parts [of b] mod_parts(1) [of "b div 16" a] mod_parts(2) [of 0 b] by simp
next
  case (4 a b c r)
  then show ?case using byte_parts [of a] byte_parts [of b] byte_parts [of c] mod_parts(1) [of "b div 16" a] mod_parts(2) [of "c div 64" b]
    by simp
qed simp

lemma sextet_join:
  assumes "0 \<le> y" "y < (16 :: int)"
  shows "(x mod 4 * 16 + y) div 16 = x mod 4 \<and> (x mod 4 * 16 + y) mod 16 = y"
  using assms by simp

lemma sextet_join4:
  assumes "0 \<le> y" "y < (4 :: int)"
  shows "(x mod 16 * 4 + y) div 4 = x mod 16 \<and> (x mod 16 * 4 + y) mod 4 = y"
  using assms by simp

lemma unsextets_sextets: "list_all is_byte bs \<Longrightarrow> unsextets (sextets bs) = Some bs"
proof (induction bs rule: sextets.induct)
  case (3 a b)
  then show ?case using byte_parts [of b] sextet_join [of "b div 16" a] by simp
next
  case (4 a b c r)
  then show ?case using byte_parts [of b] byte_parts [of c] sextet_join [of "b div 16" a] sextet_join4 [of "c div 64" b] by simp
qed simp_all

lemma length_sextets: "length (sextets bs) = (4 * length bs + 2) div 3"
  by (induction bs rule: sextets.induct) simp_all

lemma sextet_char_back: "0 \<le> n \<Longrightarrow> n < 64 \<Longrightarrow> char_sextet (sextet_char n) = n \<and> url_safe (sextet_char n)"
  by (auto simp: char_sextet_def sextet_char_def url_safe_def)

lemma sample_base64_contract: "base64_contract sample_base64"
  unfolding base64_contract_def
proof (intro allI impI)
  fix bs assume bs: "list_all is_byte bs"
  have "map (char_sextet \<circ> sextet_char) (sextets bs) = map id (sextets bs)"
    by (rule map_cong) (use sextets_range [OF bs] sextet_char_back in \<open>auto simp: list_all_iff\<close>)
  then show "b64_decode sample_base64 (b64_encode sample_base64 bs) = Some bs
      \<and> length (b64_encode sample_base64 bs) = (4 * length bs + 2) div 3 \<and> list_all url_safe (b64_encode sample_base64 bs)"
    using sextets_range [OF bs] sextet_char_back
    by (simp add: sample_base64_def unsextets_sextets [OF bs] length_sextets) (simp add: list_all_iff)
qed

definition sample_query :: ustr where "sample_query = lit ''from=10&to=30&app=Code&limit=1''"

lemma sample_query_parsed:
  "parse_frames sample_base64 (Some sample_query) = Inr ((first_request sample_window sample_filters)\<lparr>fq_limit := 1\<rparr>)"
  by code_simp

theorem http_feed_refines_witness:
  "map_sum id (\<lambda>(items, fin). (map fe_frame_id items, fin)) (http_walk sample_base64 sample_query sample_reads) = Inr ([1, 3], True)"
proof -
  have "wf_str sample_query" by code_simp
  from http_feed_refines [OF sample_base64_contract this sample_query_parsed _ _ sample_feed_reachable sample_reads_after [unfolded sample_reads_def]]
  have "http_walk sample_base64 sample_query sample_reads
      = map_err history_error_of (frame_walk ((first_request sample_window sample_filters)\<lparr>fq_limit := 1\<rparr>) sample_reads)"
    by (simp add: sample_reads_def first_request_def)
  moreover have "frame_walk ((first_request sample_window sample_filters)\<lparr>fq_limit := 1\<rparr>) sample_reads
      = frame_walk (first_request sample_window sample_filters) sample_reads"
    by (simp add: sample_reads_def)
  ultimately show ?thesis using sample_walk_ids
    by (cases "frame_walk (first_request sample_window sample_filters) sample_reads") (auto simp: map_err_def)
qed

end
