(* ===== verification/Spec2Isabelle.thy ===== *)
theory Spec2Isabelle
  imports Session_Reconcile Worker_Pool Throttle Breaker Capture_Observations Text_Filter
    Exchange_Extraction Resume Memory_Schedule Search Reports Sidecar_Client Ask_Bridge Report_Delivery Supervisor
    Vision_Scheduler Page_Cursors
begin

text \<open>
  ScreenSearch: the deterministic core of the capture, enrichment and session pipeline.
\<close>

end
